(* ===== verification/HB_Prelude.thy ===== *)
theory HB_Prelude
  imports Main "HOL-Library.Word" "HOL-Library.AList"
begin

text \<open>
  Shared vocabulary of the development: machine integers, the process-level faults a C++ build can
  run into, the containers the code uses (\<^verbatim>\<open>std::unordered_map\<close> as association lists, vectors of
  nullable shared pointers as lists of options) and counted loops over \<^verbatim>\<open>uint64_t\<close>.
\<close>

section \<open>Machine integers\<close>

type_synonym u8 = "8 word"
type_synonym u16 = "16 word"
type_synonym u32 = "32 word"
type_synonym u64 = "64 word"

unbundle bit_operations_syntax

lemma and_mask_16: "(x :: u32) AND 0xFFFF = take_bit 16 x"
  by (simp add: take_bit_eq_mask mask_eq_exp_minus_1)

lemma and_mask_32: "(x :: u64) AND 0xFFFFFFFF = take_bit 32 x"
  by (simp add: take_bit_eq_mask mask_eq_exp_minus_1)

lemma u16_bound: "unat (x :: u16) < 2 ^ 16"
  using unsigned_less [of x] by simp

lemma u32_bound: "unat (x :: u32) < 2 ^ 32"
  using unsigned_less [of x] by simp

lemma u64_bound: "unat (x :: u64) < 2 ^ 64"
  using unsigned_less [of x] by simp

lemma nat_less_divmod:
  fixes a b m :: nat
  shows "a < b \<longleftrightarrow> a div m < b div m \<or> (a div m = b div m \<and> a mod m < b mod m)"
proof -
  consider "a div m < b div m" | "a div m = b div m" | "b div m < a div m" by linarith
  then show ?thesis
  proof cases
    case 1
    then show ?thesis by (metis div_le_mono leD leI)
  next
    case 2
    then show ?thesis by (metis add_less_cancel_left less_irrefl mult_div_mod_eq)
  next
    case 3
    then show ?thesis by (metis div_le_mono leD less_imp_le nat_neq_iff)
  qed
qed

text \<open>Facts that unfold the definitions of one component, for its proofs.\<close>

named_theorems sel_defs \<open>definitions of the chunk selector\<close>
named_theorems craft_defs \<open>definitions of the CRAFT replication device\<close>

section \<open>Faults\<close>

text \<open>
  A \<^verbatim>\<open>RELEASE_ASSERT\<close> aborts the process in every build; dereferencing a null pointer and indexing a
  vector out of its bounds are undefined behaviour, and so is a signed 64-bit operation that overflows. An operation that can do one of these returns
  \<^term>\<open>Inl\<close> of the fault. \<open>Orphaned\<close> marks an operation that outlives the volume it was started for, which
  the model does not follow further; \<open>Hung\<close> one that never completes; an exception nothing catches terminates the process. \<^verbatim>\<open>DEBUG_ASSERT\<close> is compiled out of release builds and is never a branch of the
  model: where the code relies on one it is a hypothesis.
\<close>

datatype fault = ReleaseAssert | NullDeref | OutOfBounds | Orphaned | SignedOverflow | Hung | DivideByZero | UncaughtException

type_synonym 'a checked = "fault + 'a"

definition bind_sum :: "'e + 'a \<Rightarrow> ('a \<Rightarrow> 'e + 'b) \<Rightarrow> 'e + 'b" where
  "bind_sum r f = (case r of Inl e \<Rightarrow> Inl e | Inr x \<Rightarrow> f x)"

lemma bind_sum_simps [simp]:
  "bind_sum (Inl e) f = Inl e"
  "bind_sum (Inr x) f = f x"
  by (simp_all add: bind_sum_def)

lemma bind_sum_eq_Inr: "bind_sum r f = Inr y \<longleftrightarrow> (\<exists>x. r = Inr x \<and> f x = Inr y)"
  by (cases r) auto

section \<open>Vectors of nullable pointers\<close>

fun somes :: "'a option list \<Rightarrow> 'a list" where
  "somes [] = []"
| "somes (None # xs) = somes xs"
| "somes (Some x # xs) = x # somes xs"

lemma set_somes: "x \<in> set (somes xs) \<longleftrightarrow> Some x \<in> set xs"
  by (induction xs rule: somes.induct) auto

lemma somes_append [simp]: "somes (xs @ ys) = somes xs @ somes ys"
  by (induction xs rule: somes.induct) auto

lemma somes_map_Some [simp]: "somes (map Some xs) = xs"
  by (induction xs) auto

lemma somes_replicate_None [simp]: "somes (replicate n None) = []"
  by (induction n) auto

lemma replicate_numeral [simp]: "replicate (numeral k) x = x # replicate (pred_numeral k) x"
  by (simp add: numeral_eq_Suc)

section \<open>Unordered maps\<close>

text \<open>
  A \<^verbatim>\<open>std::unordered_map\<close> is an association list with distinct keys; the list order stands for the
  iteration order of the container, which the standard leaves open. \<^verbatim>\<open>emplace\<close> keeps an existing
  entry; \<^verbatim>\<open>m[k] = v\<close> is \<^term>\<open>AList.update k v m\<close>.
\<close>

definition emplace :: "'k \<Rightarrow> 'v \<Rightarrow> ('k \<times> 'v) list \<Rightarrow> ('k \<times> 'v) list" where
  "emplace k v m = (if map_of m k = None then m @ [(k, v)] else m)"

lemma map_of_emplace:
  "map_of (emplace k v m) = (if map_of m k = None then (map_of m)(k \<mapsto> v) else map_of m)"
  by (auto simp: emplace_def fun_eq_iff map_add_def split: option.splits)

lemma distinct_emplace:
  "distinct (map fst m) \<Longrightarrow> distinct (map fst (emplace k v m))"
  by (auto simp: emplace_def map_of_eq_None_iff)

lemma distinct_list_snoc: "distinct xs \<Longrightarrow> distinct (if x \<in> set xs then xs else xs @ [x])"
  by auto

lemma find_SomeD: "List.find P xs = Some x \<Longrightarrow> x \<in> set xs \<and> P x"
  by (auto simp: find_Some_iff)

end
