(* ===== verification/HB_Types.thy ===== *)
theory HB_Types
  imports HB_Prelude
begin

text \<open>
  The vocabulary of the public interface (src/include/homeblks/home_blocks.hpp): errors, states,
  volume descriptions, buffers; signed 64-bit arithmetic as the language defines it; and the byte image
  of unsigned integers on the little-endian machines the code is built for.
\<close>

section \<open>Errors\<close>

datatype volume_error = UNKNOWN_VOLUME | CRC_MISMATCH | INDEX_ERROR | INTERNAL_ERROR | VE_OFFLINE | STALE_TERM | EMPTY_SLOT

datatype volume_state = VS_INIT | ONLINE | VS_OFFLINE | DESTROYING | DESTROYED | READONLY

datatype replication_mode = REPL_DISABLED | REPL_CRAFT

text \<open>The values of \<^verbatim>\<open>std::errc\<close> the code returns.\<close>

datatype errc = invalid_argument | not_supported | operation_not_supported | value_too_large | io_error |
  no_space_on_device | operation_canceled | errc_other int

datatype error_condition = Errc errc | VolErr volume_error

type_synonym 'a res = "error_condition + 'a"

text \<open>Values of the persisted and the reported enumerations.\<close>

fun volume_state_code :: "volume_state \<Rightarrow> u32" where
  "volume_state_code VS_INIT = 0" | "volume_state_code ONLINE = 1" | "volume_state_code VS_OFFLINE = 2"
| "volume_state_code DESTROYING = 3" | "volume_state_code DESTROYED = 4" | "volume_state_code READONLY = 5"

fun volume_error_code :: "volume_error \<Rightarrow> int" where
  "volume_error_code UNKNOWN_VOLUME = 1" | "volume_error_code CRC_MISMATCH = 2" | "volume_error_code INDEX_ERROR = 3"
| "volume_error_code INTERNAL_ERROR = 4" | "volume_error_code VE_OFFLINE = 5" | "volume_error_code STALE_TERM = 6"
| "volume_error_code EMPTY_SLOT = 7"

section \<open>Buffers\<close>

text \<open>A scatter-gather list: its announced size and its buffers, here with their contents.\<close>

record sg_list =
  sg_size :: u64
  iovs :: "u8 list list"

section \<open>Signed 64-bit arithmetic\<close>

definition INT64_MAX :: int where
  "INT64_MAX = 2 ^ 63 - 1"

definition in_i64 :: "int \<Rightarrow> bool" where
  "in_i64 x \<longleftrightarrow> - (2 ^ 63) \<le> x \<and> x \<le> INT64_MAX"

definition i64 :: "int \<Rightarrow> int checked" where
  "i64 x = (if in_i64 x then Inr x else Inl SignedOverflow)"

lemma i64_Inr [simp]: "in_i64 x \<Longrightarrow> i64 x = Inr x"
  by (simp add: i64_def)

section \<open>Bytes\<close>

fun le_bytes :: "nat \<Rightarrow> nat \<Rightarrow> u8 list" where
  "le_bytes 0 x = []"
| "le_bytes (Suc n) x = of_nat (x mod 256) # le_bytes n (x div 256)"

fun le_value :: "u8 list \<Rightarrow> nat" where
  "le_value [] = 0"
| "le_value (b # bs) = unat b + 256 * le_value bs"

lemma length_le_bytes [simp]: "length (le_bytes n x) = n"
  by (induction n x rule: le_bytes.induct) auto

lemma le_value_le_bytes: "le_value (le_bytes n x) = x mod 256 ^ n"
proof (induction n x rule: le_bytes.induct)
  case (2 n x)
  have "x mod 256 + 256 * (x div 256 mod 256 ^ n) = x mod (256 * 256 ^ n)"
    by (metis add.commute mod_mult2_eq)
  then show ?case using "2.IH" by (simp add: unat_of_nat)
qed simp

lemma le_value_inverse: "x < 256 ^ n \<Longrightarrow> le_value (le_bytes n x) = x"
  by (simp add: le_value_le_bytes)

lemma le_bytes_inj: "x < 256 ^ n \<Longrightarrow> y < 256 ^ n \<Longrightarrow> le_bytes n x = le_bytes n y \<longleftrightarrow> x = y"
  by (metis le_value_inverse)

lemma unat_inj_bytes:
  fixes x y :: "'a::len word"
  assumes "LENGTH('a) = 8 * n" "le_bytes n (unat x) = le_bytes n (unat y)"
  shows "x = y"
proof -
  have "unat x < 256 ^ n" "unat y < 256 ^ n"
    using assms(1) unsigned_less [of x] unsigned_less [of y] by (simp_all add: power_mult)
  then show ?thesis using assms(2) by (simp add: le_bytes_inj word_unat_eq_iff)
qed

lemma u32_bytes_inj: "le_bytes 4 (unat (x :: u32)) = le_bytes 4 (unat y) \<longleftrightarrow> x = y"
  using unat_inj_bytes [where 'a = 32, of 4] by auto

lemma u64_bytes_inj: "le_bytes 8 (unat (x :: u64)) = le_bytes 8 (unat y) \<longleftrightarrow> x = y"
  using unat_inj_bytes [where 'a = 64, of 8] by auto

end
