(* ===== verification/Index_KV.thy ===== *)
theory Index_KV
  imports HB_Types
begin

text \<open>
  Keys and values of the volume index (src/lib/volume/index_fixed_kv.hpp and index_prefix_kv.hpp). The
  fixed index stores a block address per logical block. The prefix index splits key and value into a part shared by a
  run of blocks and a part that the B-tree steps through with \<^verbatim>\<open>shift\<close>.
\<close>

section \<open>Block addresses\<close>

type_synonym lba_t = u64
type_synonym csum_t = u16

text \<open>A block address of the storage layer, as its accessors show it.\<close>

record blk_id =
  blk_num :: u32
  blk_count :: u16
  blk_chunk :: u16

record BlockInfo =
  new_blkid :: blk_id
  old_blkid :: blk_id
  new_checksum :: csum_t
  old_checksum :: csum_t

text \<open>The value of the fixed index.\<close>

record index_value =
  iv_blkid :: blk_id
  iv_checksum :: csum_t

definition fixed_compare :: "lba_t \<Rightarrow> lba_t \<Rightarrow> int" where
  "fixed_compare a b = (if a < b then - 1 else if b < a then 1 else 0)"

section \<open>The prefix key\<close>

record prefix_key =
  m_lba_base :: u32
  m_lba_offset :: u32

definition prefix_key_of :: "lba_t \<Rightarrow> prefix_key" where
  "prefix_key_of k = \<lparr>m_lba_base = ucast (drop_bit 32 k), m_lba_offset = ucast (k AND 0xFFFFFFFF)\<rparr>"

definition prefix_key_lba :: "prefix_key \<Rightarrow> lba_t" where
  "prefix_key_lba k = push_bit 32 (ucast (m_lba_base k)) OR ucast (m_lba_offset k)"

definition prefix_compare :: "prefix_key \<Rightarrow> prefix_key \<Rightarrow> int" where
  "prefix_compare a b =
     (if m_lba_base a < m_lba_base b then - 1
      else if m_lba_base b < m_lba_base a then 1
      else if m_lba_offset a < m_lba_offset b then - 1
      else if m_lba_offset b < m_lba_offset a then 1
      else 0)"

definition prefix_key_shift :: "int \<Rightarrow> prefix_key \<Rightarrow> prefix_key" where
  "prefix_key_shift n k = k\<lparr>m_lba_offset := m_lba_offset k + word_of_int n\<rparr>"

text \<open>The difference of the 32-bit offsets, converted to a signed \<^verbatim>\<open>int\<close>.\<close>

definition prefix_key_distance :: "prefix_key \<Rightarrow> prefix_key \<Rightarrow> int" where
  "prefix_key_distance k from = sint (m_lba_offset k - m_lba_offset from)"

definition prefix_key_serialize :: "prefix_key \<Rightarrow> u8 list \<times> u8 list" where
  "prefix_key_serialize k = (le_bytes 4 (unat (m_lba_base k)), le_bytes 4 (unat (m_lba_offset k)))"

definition prefix_key_deserialize :: "u8 list \<Rightarrow> u8 list \<Rightarrow> prefix_key" where
  "prefix_key_deserialize p s = \<lparr>m_lba_base = of_nat (le_value (take 4 p)), m_lba_offset = of_nat (le_value (take 4 s))\<rparr>"

section \<open>The prefix value\<close>

record prefix_value =
  m_blkid_prefix :: u32
  m_blkid_suffix :: u32
  pv_checksum :: csum_t

text \<open>
  \<^verbatim>\<open>blk_id::to_integer\<close> belongs to the storage layer and is a parameter. Its layout, which the comment on
  the class describes: one bit for multi-block ids, 31 bits of block number, 16 bits of block count, 16 bits of chunk number.
\<close>

definition to_integer_ok :: "(blk_id \<Rightarrow> u64) \<Rightarrow> bool" where
  "to_integer_ok to_integer \<longleftrightarrow>
     (\<forall>b. unat (blk_num b) < 2 ^ 31 \<longrightarrow>
        (\<exists>multi < 2. unat (to_integer b) =
           multi + 2 * unat (blk_num b) + 2 ^ 32 * unat (blk_count b) + 2 ^ 48 * unat (blk_chunk b)))"

definition prefix_value_of :: "(blk_id \<Rightarrow> u64) \<Rightarrow> blk_id \<Rightarrow> csum_t \<Rightarrow> prefix_value" where
  "prefix_value_of to_integer b csum =
     \<lparr>m_blkid_prefix = ucast (drop_bit 32 (to_integer b)),
      m_blkid_suffix = drop_bit 1 (ucast (to_integer b AND 0xFFFFFFFF)), pv_checksum = csum\<rparr>"

definition prefix_value_blkid :: "prefix_value \<Rightarrow> blk_id" where
  "prefix_value_blkid v =
     \<lparr>blk_num = m_blkid_suffix v, blk_count = ucast (m_blkid_prefix v AND 0xFFFF),
      blk_chunk = ucast (drop_bit 16 (m_blkid_prefix v))\<rparr>"

text \<open>Stepping a value: the next block number, and the checksum of the block that belongs there.\<close>

definition prefix_value_shift :: "(lba_t \<Rightarrow> csum_t) \<Rightarrow> lba_t \<Rightarrow> int \<Rightarrow> prefix_value \<Rightarrow> prefix_value" where
  "prefix_value_shift new_csum start_lba n v =
     v\<lparr>m_blkid_suffix := m_blkid_suffix v + word_of_int n, pv_checksum := new_csum (start_lba + word_of_int n)\<rparr>"

definition prefix_value_serialize :: "prefix_value \<Rightarrow> u8 list \<times> u8 list" where
  "prefix_value_serialize v =
     (le_bytes 4 (unat (m_blkid_prefix v)), le_bytes 4 (unat (m_blkid_suffix v)) @ le_bytes 2 (unat (pv_checksum v)))"

definition prefix_value_deserialize :: "u8 list \<Rightarrow> u8 list \<Rightarrow> prefix_value" where
  "prefix_value_deserialize p s =
     \<lparr>m_blkid_prefix = of_nat (le_value (take 4 p)), m_blkid_suffix = of_nat (le_value (take 4 s)),
      pv_checksum = of_nat (le_value (take 2 (drop 4 s)))\<rparr>"

section \<open>Facts\<close>

lemma prefix_key_unat:
  "unat (m_lba_base (prefix_key_of k)) = unat k div 2 ^ 32" "unat (m_lba_offset (prefix_key_of k)) = unat k mod 2 ^ 32"
proof -
  have "unat k div 2 ^ 32 < 2 ^ 32" using unsigned_less [of k] by (simp add: div_less_iff_less_mult flip: power_add)
  then show "unat (m_lba_base (prefix_key_of k)) = unat k div 2 ^ 32"
    by (simp add: prefix_key_of_def unsigned_ucast_eq drop_bit_eq_div unat_div take_bit_nat_eq_self)
  show "unat (m_lba_offset (prefix_key_of k)) = unat k mod 2 ^ 32"
    by (simp add: prefix_key_of_def and_mask_32 unsigned_ucast_eq take_bit_eq_mod unat_mod)
qed

lemma prefix_key_lba_unat:
  "unat (prefix_key_lba k) = unat (m_lba_base k) * 2 ^ 32 + unat (m_lba_offset k)"
proof -
  have "push_bit 32 (ucast (m_lba_base k) :: u64) AND ucast (m_lba_offset k) = 0"
    by (rule bit_eqI) (auto simp: bit_simps dest!: bit_imp_le_length)
  then have eq: "prefix_key_lba k = push_bit 32 (ucast (m_lba_base k)) + ucast (m_lba_offset k)"
    unfolding prefix_key_lba_def by (simp add: disjunctive_add_eq_or)
  have b: "unat (m_lba_base k) < 2 ^ 32" "unat (m_lba_offset k) < 2 ^ 32"
    using unsigned_less [of "m_lba_base k"] unsigned_less [of "m_lba_offset k"] by simp_all
  have "unat (m_lba_base k) * 2 ^ 32 + unat (m_lba_offset k) < 2 ^ 64"
  proof -
    have "unat (m_lba_base k) * 2 ^ 32 \<le> (2 ^ 32 - 1) * 2 ^ 32" using b(1) by (intro mult_right_mono) auto
    then show ?thesis using b(2) by simp
  qed
  then show ?thesis unfolding eq using b
    by (simp add: unat_word_ariths unsigned_push_bit_eq push_bit_eq_mult unsigned_ucast_eq take_bit_eq_mod)
qed

lemma prefix_key_lba_of [simp]: "prefix_key_lba (prefix_key_of l) = l"
  by (simp add: word_unat_eq_iff prefix_key_lba_unat prefix_key_unat)

lemma prefix_key_of_lba [simp]: "prefix_key_of (prefix_key_lba k) = k"
proof -
  have "unat (m_lba_offset k) < 2 ^ 32" using unsigned_less [of "m_lba_offset k"] by simp
  then show ?thesis
    by (intro prefix_key.equality) (simp_all add: word_unat_eq_iff prefix_key_unat prefix_key_lba_unat)
qed

lemma prefix_key_of_inject [simp]: "prefix_key_of a = prefix_key_of b \<longleftrightarrow> a = b"
  by (metis prefix_key_lba_of)

text \<open>The comparison of keys is the order of the logical block addresses.\<close>

lemma prefix_compare_lba: "prefix_compare (prefix_key_of a) (prefix_key_of b) = fixed_compare a b"
proof -
  show ?thesis
    unfolding prefix_compare_def fixed_compare_def word_less_nat_alt prefix_key_unat
      nat_less_divmod [of "unat a" "unat b" "2 ^ 32"] nat_less_divmod [of "unat b" "unat a" "2 ^ 32"] by auto
qed

lemma prefix_key_shift_of:
  assumes "unat l mod 2 ^ 32 + n < 2 ^ 32"
  shows "prefix_key_shift (int n) (prefix_key_of l) = prefix_key_of (l + of_nat n)"
proof -
  have n: "n < 2 ^ 32" using assms by simp
  define q r where "q = unat l div 2 ^ 32" and "r = unat l mod 2 ^ 32"
  have l: "unat l = 2 ^ 32 * q + r" by (simp add: q_def r_def)
  have "q < 2 ^ 32" using u64_bound [of l] less_mult_imp_div_less [of "unat l" "2 ^ 32" "2 ^ 32"] by (simp add: q_def)
  moreover have rn: "r + n < 2 ^ 32" using assms by (simp add: r_def)
  ultimately have "unat l + n < 2 ^ 64" unfolding l by simp
  moreover have "unat (of_nat n :: u64) = n" using n by (simp add: unat_of_nat)
  ultimately have sum: "unat (l + of_nat n) = unat l + n" by (subst unat_add_lem [THEN iffD1]) auto
  have eq: "2 ^ 32 * q + r + n = 2 ^ 32 * q + (r + n)" by simp
  have "(unat l + n) div 2 ^ 32 = q" "(unat l + n) mod 2 ^ 32 = r + n"
    unfolding l eq using rn by simp_all
  then have "(unat l + n) div 2 ^ 32 = unat l div 2 ^ 32" "(unat l + n) mod 2 ^ 32 = unat l mod 2 ^ 32 + n"
    by (simp_all add: q_def r_def)
  moreover have "unat (m_lba_offset (prefix_key_of l) + word_of_int (int n)) = unat l mod 2 ^ 32 + n"
    using assms n by (simp add: unat_word_ariths prefix_key_unat unat_of_nat)
  ultimately show ?thesis
    by (intro prefix_key.equality) (simp_all add: prefix_key_shift_def word_unat_eq_iff prefix_key_unat sum)
qed

lemma prefix_key_distance_of:
  assumes "a \<le> b" "unat a div 2 ^ 32 = unat b div 2 ^ 32" "unat b - unat a < 2 ^ 31"
  shows "prefix_key_distance (prefix_key_of b) (prefix_key_of a) = int (unat b - unat a)"
proof -
  have le: "unat a \<le> unat b" using assms(1) by (simp add: word_le_nat_alt)
  define q ra rb where "q = unat a div 2 ^ 32" and "ra = unat a mod 2 ^ 32" and "rb = unat b mod 2 ^ 32"
  have "unat a = 2 ^ 32 * q + ra" "unat b = 2 ^ 32 * q + rb"
    unfolding q_def ra_def rb_def by (metis mult_div_mod_eq, metis assms(2) mult_div_mod_eq)
  then have "ra + (unat b - unat a) = rb" using le by simp
  then have "unat a mod 2 ^ 32 + (unat b - unat a) = unat b mod 2 ^ 32" by (simp add: ra_def rb_def)
  then have d: "unat (m_lba_offset (prefix_key_of b)) = unat (m_lba_offset (prefix_key_of a)) + (unat b - unat a)"
    by (simp add: prefix_key_unat)
  then have "m_lba_offset (prefix_key_of b) = m_lba_offset (prefix_key_of a) + of_nat (unat b - unat a)"
    by (metis of_nat_add word_of_nat_eq_iff of_nat_unat ucast_id)
  then have "m_lba_offset (prefix_key_of b) - m_lba_offset (prefix_key_of a) = of_nat (unat b - unat a)" by simp
  moreover have "sint (of_nat n :: u32) = int n" if "n < 2 ^ 31" for n
    using that by (simp add: signed_of_nat signed_take_bit_int_eq_self)
  ultimately show ?thesis using assms(3) by (simp add: prefix_key_distance_def)
qed

text \<open>Packing and unpacking a block address.\<close>

lemma prefix_value_parts:
  assumes "to_integer_ok f" "unat (blk_num b) < 2 ^ 31"
  shows "m_blkid_suffix (prefix_value_of f b c) = blk_num b"
    "unat (m_blkid_prefix (prefix_value_of f b c)) = unat (blk_count b) + 2 ^ 16 * unat (blk_chunk b)"
proof -
  obtain m where m: "m < 2" and f: "unat (f b) = m + 2 * unat (blk_num b) + 2 ^ 32 * unat (blk_count b) + 2 ^ 48 * unat (blk_chunk b)"
    using assms by (auto simp: to_integer_ok_def)
  have bc: "unat (blk_count b) < 2 ^ 16" "unat (blk_chunk b) < 2 ^ 16"
    using unsigned_less [of "blk_count b"] unsigned_less [of "blk_chunk b"] by simp_all
  define lo hi where "lo = m + 2 * unat (blk_num b)" and "hi = unat (blk_count b) + 2 ^ 16 * unat (blk_chunk b)"
  have f': "unat (f b) = lo + 2 ^ 32 * hi" by (simp add: f lo_def hi_def algebra_simps)
  have lo: "lo < 2 ^ 32" using m assms(2) by (simp add: lo_def)
  have hi: "hi < 2 ^ 32" using bc by (simp add: hi_def)
  have "unat (ucast (f b AND 0xFFFFFFFF) :: u32) = lo"
    using lo by (simp add: and_mask_32 unsigned_ucast_eq take_bit_eq_mod unat_mod f')
  then have "unat (m_blkid_suffix (prefix_value_of f b c)) = lo div 2"
    by (simp add: prefix_value_of_def drop_bit_eq_div unat_div)
  then show "m_blkid_suffix (prefix_value_of f b c) = blk_num b"
    using m by (simp add: lo_def word_unat_eq_iff)
  have "unat (f b) div 2 ^ 32 = hi" using lo by (simp add: f')
  then show "unat (m_blkid_prefix (prefix_value_of f b c)) = unat (blk_count b) + 2 ^ 16 * unat (blk_chunk b)"
    using hi by (simp add: prefix_value_of_def unsigned_ucast_eq drop_bit_eq_div unat_div take_bit_nat_eq_self hi_def)
qed

lemma prefix_value_blkid_of:
  assumes "to_integer_ok f" "unat (blk_num b) < 2 ^ 31"
  shows "prefix_value_blkid (prefix_value_of f b c) = b"
proof -
  note p = prefix_value_parts [OF assms, of c]
  have bc: "unat (blk_count b) < 2 ^ 16" "unat (blk_chunk b) < 2 ^ 16"
    using unsigned_less [of "blk_count b"] unsigned_less [of "blk_chunk b"] by simp_all
  let ?p = "m_blkid_prefix (prefix_value_of f b c)"
  have "unat (ucast (?p AND 0xFFFF) :: u16) = unat (blk_count b)"
    using bc by (simp add: and_mask_16 unsigned_ucast_eq take_bit_eq_mod unat_mod p(2))
  moreover have "unat (ucast (drop_bit 16 ?p) :: u16) = unat (blk_chunk b)"
    using bc by (simp add: unsigned_ucast_eq drop_bit_eq_div unat_div p(2) take_bit_nat_eq_self)
  ultimately show ?thesis using p(1)
    by (intro blk_id.equality) (simp_all add: prefix_value_blkid_def word_unat_eq_iff)
qed

lemma prefix_value_shift_blkid:
  assumes "to_integer_ok f" "unat (blk_num b) < 2 ^ 31"
  shows "prefix_value_blkid (prefix_value_shift cs start n (prefix_value_of f b c)) = b\<lparr>blk_num := blk_num b + word_of_int n\<rparr>"
    "pv_checksum (prefix_value_shift cs start n (prefix_value_of f b c)) = cs (start + word_of_int n)"
proof -
  let ?v = "prefix_value_of f b c"
  have "prefix_value_blkid (prefix_value_shift cs start n ?v) = (prefix_value_blkid ?v)\<lparr>blk_num := m_blkid_suffix ?v + word_of_int n\<rparr>"
    by (simp add: prefix_value_blkid_def prefix_value_shift_def)
  then show "prefix_value_blkid (prefix_value_shift cs start n ?v) = b\<lparr>blk_num := blk_num b + word_of_int n\<rparr>"
    by (simp add: prefix_value_blkid_of [OF assms] prefix_value_parts [OF assms])
qed (simp add: prefix_value_shift_def)

lemma prefix_key_serialize_roundtrip:
  "(case prefix_key_serialize k of (p, s) \<Rightarrow> prefix_key_deserialize p s) = k"
  using u32_bound [of "m_lba_base k"] u32_bound [of "m_lba_offset k"]
  by (intro prefix_key.equality) (simp_all add: prefix_key_serialize_def prefix_key_deserialize_def le_value_inverse)

lemma prefix_value_serialize_roundtrip:
  "(case prefix_value_serialize v of (p, s) \<Rightarrow> prefix_value_deserialize p s) = v"
  using u32_bound [of "m_blkid_prefix v"] u32_bound [of "m_blkid_suffix v"] u16_bound [of "pv_checksum v"]
  by (intro prefix_value.equality) (simp_all add: prefix_value_serialize_def prefix_value_deserialize_def le_value_inverse)

end
