(* ===== verification/Index_Table.thy ===== *)
theory Index_Table
  imports Index_KV
begin

text \<open>
  The index of a volume, from logical block address to block address and checksum, in its two builds
  (src/lib/volume/index_fixed_table.hpp and index_prefix_table.hpp). The B-tree of the storage layer is an object of its own: its
  operations, its state and, for the statements only, its contents. What a volume relies on is the locale
  \<open>volume_index\<close>; both builds are interpretations of it.
\<close>

section \<open>Counted loops\<close>

text \<open>
  \<^verbatim>\<open>for (auto lba = start; lba <= end; ++lba)\<close> over \<^verbatim>\<open>uint64_t\<close>. The body stops the loop with \<^term>\<open>Inl\<close>. A loop
  that never ends, which it does when the bound is the largest number, is \<^term>\<open>None\<close>.
\<close>

partial_function (option) for_u64 :: "u64 \<Rightarrow> u64 \<Rightarrow> (u64 \<Rightarrow> 's \<Rightarrow> 'r + 's) \<Rightarrow> 's \<Rightarrow> ('r + 's) option" where
  "for_u64 i hi body s =
     (if i \<le> hi then (case body i s of Inl r \<Rightarrow> Some (Inl r) | Inr s' \<Rightarrow> for_u64 (i + 1) hi body s')
      else Some (Inr s))"

fun run_each :: "('x \<Rightarrow> 's \<Rightarrow> 'r + 's) \<Rightarrow> 'x list \<Rightarrow> 's \<Rightarrow> 'r + 's" where
  "run_each body [] s = Inr s"
| "run_each body (x # xs) s = (case body x s of Inl r \<Rightarrow> Inl r | Inr s' \<Rightarrow> run_each body xs s')"

definition lba_range :: "u64 \<Rightarrow> u64 \<Rightarrow> u64 list" where
  "lba_range lo hi = map (\<lambda>i. lo + of_nat i) [0..<(if lo \<le> hi then unat (hi - lo) + 1 else 0)]"

lemma set_lba_range: "set (lba_range lo hi) = {lo..hi}"
proof (cases "lo \<le> hi")
  case True
  have "x \<in> set (lba_range lo hi) \<longleftrightarrow> lo \<le> x \<and> x \<le> hi" for x
  proof
    assume "x \<in> set (lba_range lo hi)"
    then obtain i where i: "i \<le> unat (hi - lo)" "x = lo + of_nat i"
      using True by (auto simp: lba_range_def less_Suc_eq_le simp del: upt_Suc)
    have hl: "unat (hi - lo) = unat hi - unat lo" using True by (simp add: unat_sub)
    have "i < 2 ^ 64" using i(1) u64_bound [of "hi - lo"] by simp
    then have ui: "unat (of_nat i :: u64) = i" by (simp add: unat_of_nat)
    have "unat lo + i \<le> unat hi" using i hl True by (simp add: word_le_nat_alt)
    then have "unat x = unat lo + i" using i(2) ui u64_bound [of hi] by (simp add: unat_word_ariths)
    then show "lo \<le> x \<and> x \<le> hi" using \<open>unat lo + i \<le> unat hi\<close> by (simp add: word_le_nat_alt)
  next
    assume x: "lo \<le> x \<and> x \<le> hi"
    then have "unat (x - lo) \<le> unat (hi - lo)" using True by (auto simp: unat_sub word_le_nat_alt intro: diff_le_mono)
    then have "unat (x - lo) \<in> set [0..<unat (hi - lo) + 1]" by (simp only: set_upt atLeastLessThan_iff) simp
    moreover have "x = lo + of_nat (unat (x - lo))" by simp
    ultimately have "x \<in> (\<lambda>i. lo + of_nat i) ` set [0..<unat (hi - lo) + 1]" by (rule image_eqI [rotated])
    then show "x \<in> set (lba_range lo hi)" using True unfolding lba_range_def set_map by (simp only: if_True)
  qed
  then show ?thesis by (intro set_eqI) (simp only: atLeastAtMost_iff)
qed (simp add: lba_range_def)

lemma lba_range_Cons: "lo \<le> hi \<Longrightarrow> hi < - 1 \<Longrightarrow> lba_range lo hi = lo # lba_range (lo + 1) hi"
proof -
  assume le: "lo \<le> hi" and hi: "hi < - 1"
  have shift: "[0..<Suc n] = 0 # map Suc [0..<n]" for n by (simp add: map_Suc_upt upt_conv_Cons)
  have "(if lo + 1 \<le> hi then unat (hi - (lo + 1)) + 1 else 0) = unat (hi - lo)"
  proof (cases "lo = hi")
    case True
    have "hi + 1 \<noteq> 0" using hi by (metis eq_neg_iff_add_eq_0 less_irrefl)
    then have "unat (hi + 1) = Suc (unat hi)" using unatSuc [of hi] by (simp add: add.commute)
    then have "\<not> hi + 1 \<le> hi" by (simp add: word_le_nat_alt)
    then show ?thesis using True by simp
  next
    case False
    then have "lo < hi" using le by simp
    then have "lo + 1 \<le> hi" by (rule inc_le)
    moreover have "unat (hi - (lo + 1)) + 1 = unat (hi - lo)"
    proof -
      have "hi - lo \<noteq> 0" using False by simp
      then have "Suc (unat (hi - lo - 1)) = unat (hi - lo)" by (simp add: unat_minus_one unat_gt_0)
      then show ?thesis by (simp add: diff_diff_eq)
    qed
    ultimately show ?thesis by simp
  qed
  then show ?thesis using le shift [of "unat (hi - lo)"] by (simp add: lba_range_def add.assoc comp_def)
qed

lemma for_u64_eq:
  assumes "hi < - 1"
  shows "for_u64 i hi body s = Some (run_each body (lba_range i hi) s)"
proof (induction "unat (hi + 1 - i)" arbitrary: i s rule: less_induct)
  case less
  show ?case
  proof (cases "i \<le> hi")
    case False
    then show ?thesis by (subst for_u64.simps) (simp add: lba_range_def)
  next
    case True
    have "hi + 1 \<noteq> 0" using assms by (metis eq_neg_iff_add_eq_0 less_irrefl)
    then have u: "unat (hi + 1) = Suc (unat hi)" using unatSuc [of hi] by (simp add: add.commute)
    then have "i \<le> hi + 1" "i \<noteq> hi + 1" using True by (auto simp: word_le_nat_alt)
    define w where "w = hi + 1 - i"
    then have "w \<noteq> 0" using \<open>i \<noteq> hi + 1\<close> by simp
    then have "unat (w - 1) < unat w" by (simp add: unat_minus_one unat_gt_0)
    then have "unat (hi + 1 - i - 1) < unat (hi + 1 - i)" by (simp only: w_def)
    moreover have "hi + 1 - i - 1 = hi + 1 - (i + 1)" by simp
    ultimately have "unat (hi + 1 - (i + 1)) < unat (hi + 1 - i)" by metis
    then have "for_u64 (i + 1) hi body s' = Some (run_each body (lba_range (i + 1) hi) s')" for s'
      by (rule less)
    then show ?thesis using True lba_range_Cons [OF True assms]
      by (subst for_u64.simps) (simp split: sum.split)
  qed
qed

lemma for_u64_diverges:
  assumes "\<And>i s. \<exists>s'. body i s = Inr s'"
  shows "for_u64 i (- 1) body s = None"
proof -
  have "hi = - 1 \<longrightarrow> (\<forall>i s. \<exists>s'. body i s = Inr s') \<longrightarrow> False" if "for_u64 i hi body s = Some r"
    for i hi body and s :: 's and r :: "'r + 's"
  proof (rule for_u64.raw_induct [OF _ that], intro impI)
    fix f :: "u64 \<Rightarrow> u64 \<Rightarrow> (u64 \<Rightarrow> 's \<Rightarrow> 'r + 's) \<Rightarrow> 's \<Rightarrow> ('r + 's) option" and i hi body s r
    assume IH: "\<And>i hi body s y. f i hi body s = Some y \<Longrightarrow> hi = - 1 \<longrightarrow> (\<forall>i s. \<exists>s'. body i s = Inr s') \<longrightarrow> False"
      and eq: "(if i \<le> hi then case body i s of Inl r \<Rightarrow> Some (Inl r) | Inr s' \<Rightarrow> f (i + 1) hi body s' else Some (Inr s)) = Some r"
      and hi: "hi = - 1" and step: "\<forall>i s. \<exists>s'. body i s = Inr s'"
    obtain s' where "body i s = Inr s'" using step by blast
    then have "f (i + 1) hi body s' = Some r" using eq hi by simp
    then show False using IH hi step by blast
  qed
  then show ?thesis using assms by (meson option.exhaust)
qed

lemma run_each_invariant:
  assumes "P s" "\<And>x s s'. x \<in> set xs \<Longrightarrow> P s \<Longrightarrow> body x s = Inr s' \<Longrightarrow> P s'" "run_each body xs s = Inr s''"
  shows "P s''"
  using assms by (induction xs arbitrary: s) (auto split: sum.splits)

lemma distinct_lba_range: "distinct (lba_range lo hi)"
proof -
  have "unat (hi - lo) < 2 ^ 64" by (rule u64_bound)
  then have "inj_on (\<lambda>i. lo + of_nat i :: u64) {0..<(if lo \<le> hi then unat (hi - lo) + 1 else 0)}"
    by (intro inj_onI) (simp add: word_of_nat_eq_iff take_bit_eq_mod split: if_splits)
  then show ?thesis unfolding lba_range_def distinct_map by (simp only: distinct_upt set_upt simp_thms)
qed

lemma sorted_lba_range: "sorted_wrt (<) (lba_range lo hi)"
proof -
  have "lo + of_nat i < lo + of_nat j" if "i < j" "j \<le> unat (hi - lo)" "lo \<le> hi" for i j :: nat
  proof -
    have le: "unat lo + unat (hi - lo) = unat hi" using that(3) by (simp add: unat_sub word_le_nat_alt)
    then have "unat lo + j < 2 ^ 64" using u64_bound [of hi] that(2) by linarith
    then have "unat (lo + of_nat i) = unat lo + i" "unat (lo + of_nat j) = unat lo + j"
      using that(1) by (simp_all add: unat_word_ariths unat_of_nat)
    then show ?thesis using that(1) by (simp add: word_less_nat_alt)
  qed
  then show ?thesis
    unfolding lba_range_def sorted_wrt_map
    by (auto simp: less_Suc_eq_le simp del: upt_Suc intro!: sorted_wrt_mono_rel [OF _ sorted_wrt_upt])
qed

text \<open>The addresses before one that the loop reaches.\<close>

lemma lba_range_before:
  assumes "lba_range lo hi = ys @ l # zs" "0 < l"
  shows "set (lba_range lo (l - 1)) = set ys"
proof -
  have srt: "sorted_wrt (<) (ys @ l # zs)" using sorted_lba_range [of lo hi] assms(1) by simp
  have set: "x \<in> set ys \<or> x = l \<or> x \<in> set zs \<longleftrightarrow> lo \<le> x \<and> x \<le> hi" for x
  proof -
    have "x \<in> set (ys @ l # zs) \<longleftrightarrow> x \<in> {lo..hi}" unfolding assms(1) [symmetric] set_lba_range ..
    then show ?thesis by (simp only: set_append list.set Un_iff insert_iff atLeastAtMost_iff)
  qed
  have l1: "x \<le> l - 1 \<longleftrightarrow> x < l" for x
  proof -
    have "l \<noteq> 0" using assms(2) by auto
    then have "unat (l - 1) = unat l - 1" "0 < unat l" by (simp_all add: unat_minus_one unat_gt_0)
    then show ?thesis unfolding word_le_nat_alt word_less_nat_alt by linarith
  qed
  have "x \<in> set ys \<longleftrightarrow> lo \<le> x \<and> x < l" for x
  proof
    assume "x \<in> set ys"
    then show "lo \<le> x \<and> x < l" using srt set [of x] by (simp add: sorted_wrt_append)
  next
    assume x: "lo \<le> x \<and> x < l"
    moreover have "l \<le> hi" using set [of l] by blast
    moreover have "x \<notin> set zs" using srt x order.asym by (fastforce simp: sorted_wrt_append)
    ultimately show "x \<in> set ys" using set [of x] by (metis less_irrefl less_le_trans less_imp_le)
  qed
  then show ?thesis unfolding set_lba_range by (intro set_eqI) (simp only: l1 atLeastAtMost_iff)
qed

lemma run_each_Inl:
  "run_each body xs s = Inl r \<Longrightarrow>
     \<exists>ys x zs s'. xs = ys @ x # zs \<and> run_each body ys s = Inr s' \<and> body x s' = Inl r"
proof (induction xs arbitrary: s)
  case (Cons x xs)
  show ?case
  proof (cases "body x s")
    case (Inl q)
    then show ?thesis using Cons.prems by (intro exI [of _ "[]"]) auto
  next
    case (Inr s1)
    then obtain ys y zs s' where "xs = ys @ y # zs" "run_each body ys s1 = Inr s'" "body y s' = Inl r"
      using Cons.IH [of s1] Cons.prems by auto
    then show ?thesis using Inr by (intro exI [of _ "x # ys"]) auto
  qed
qed simp

section \<open>Block infos\<close>

text \<open>
  \<^verbatim>\<open>std::unordered_map<lba_t, BlockInfo>\<close>. \<^verbatim>\<open>blk_id{}\<close> and \<^verbatim>\<open>blk_id::is_valid\<close> belong to the storage layer.
\<close>

type_synonym blocks_info = "(lba_t \<times> BlockInfo) list"

record blk_api =
  no_blk :: blk_id
  is_valid :: "blk_id \<Rightarrow> bool"

definition default_info :: "blk_api \<Rightarrow> BlockInfo" where
  "default_info api = \<lparr>new_blkid = no_blk api, old_blkid = no_blk api, new_checksum = 0, old_checksum = 0\<rparr>"

text \<open>\<^verbatim>\<open>blocks_info[lba]\<close> inserts a default entry when there is none.\<close>

definition info_touch :: "blk_api \<Rightarrow> lba_t \<Rightarrow> blocks_info \<Rightarrow> blocks_info" where
  "info_touch api lba bi = emplace lba (default_info api) bi"

definition info_at :: "blk_api \<Rightarrow> lba_t \<Rightarrow> blocks_info \<Rightarrow> BlockInfo" where
  "info_at api lba bi = (case map_of bi lba of None \<Rightarrow> default_info api | Some i \<Rightarrow> i)"

section \<open>The fixed index\<close>

text \<open>
  The operations of the B-tree: an upsert that reports the value it replaces to the filter callback, a
  removal, and a range query that returns the entries in key order or an error.
\<close>

record 't btree =
  bt_put :: "lba_t \<Rightarrow> index_value \<Rightarrow> 't \<Rightarrow> (bool \<times> index_value option) \<times> 't"
  bt_remove :: "lba_t \<Rightarrow> 't \<Rightarrow> bool \<times> 't"
  bt_query :: "lba_t \<Rightarrow> lba_t \<Rightarrow> 't \<Rightarrow> (lba_t \<times> index_value) list option \<times> 't"
  bt_map :: "'t \<Rightarrow> lba_t \<Rightarrow> index_value option"

definition btree_ok :: "'t btree \<Rightarrow> bool" where
  "btree_ok bt \<longleftrightarrow>
     (\<forall>k v t ok old t'. bt_put bt k v t = ((ok, old), t') \<longrightarrow>
        (if ok then bt_map bt t' = (bt_map bt t)(k \<mapsto> v) \<and> old = bt_map bt t k
         else bt_map bt t' = bt_map bt t \<and> (old = None \<or> old = bt_map bt t k))) \<and>
     (\<forall>k t ok t'. bt_remove bt k t = (ok, t') \<longrightarrow>
        bt_map bt t' = (if ok then (bt_map bt t)(k := None) else bt_map bt t)) \<and>
     (\<forall>lo hi t r t'. bt_query bt lo hi t = (r, t') \<longrightarrow> bt_map bt t' = bt_map bt t \<and>
        (case r of None \<Rightarrow> True
         | Some kvs \<Rightarrow> sorted_wrt (<) (map fst kvs) \<and> set kvs = {(k, v). lo \<le> k \<and> k \<le> hi \<and> bt_map bt t k = Some v}))"

record 't fixed_table =
  ft_btree :: "'t btree"
  ft_state :: 't

definition set_old :: "blk_api \<Rightarrow> lba_t \<Rightarrow> index_value \<Rightarrow> blocks_info \<Rightarrow> blocks_info" where
  "set_old api lba v bi =
     AList.update lba ((info_at api lba bi)\<lparr>old_blkid := iv_blkid v, old_checksum := iv_checksum v\<rparr>) bi"

definition fixed_put_step ::
  "blk_api \<Rightarrow> lba_t \<Rightarrow> blocks_info \<times> 't fixed_table \<Rightarrow>
     (lba_t \<times> blocks_info \<times> 't fixed_table) + (blocks_info \<times> 't fixed_table)" where
  "fixed_put_step api lba s =
     (let (bi, tb) = s;
          bi1 = info_touch api lba bi;
          i = info_at api lba bi1;
          ((ok, existing), t') = bt_put (ft_btree tb) lba \<lparr>iv_blkid = new_blkid i, iv_checksum = new_checksum i\<rparr> (ft_state tb);
          bi2 = (case existing of None \<Rightarrow> bi1 | Some v \<Rightarrow> set_old api lba v bi1);
          tb' = tb\<lparr>ft_state := t'\<rparr>
      in if ok then Inr (bi2, tb') else Inl (lba, bi2, tb'))"

definition rollback_step ::
  "blk_api \<Rightarrow> lba_t \<Rightarrow> blocks_info \<times> 't fixed_table \<Rightarrow> unit + (blocks_info \<times> 't fixed_table)" where
  "rollback_step api lba s =
     (let (bi, tb) = s;
          bi1 = info_touch api lba bi;
          i = info_at api lba bi1;
          t' = (if is_valid api (old_blkid i)
                then snd (bt_put (ft_btree tb) lba \<lparr>iv_blkid = old_blkid i, iv_checksum = old_checksum i\<rparr> (ft_state tb))
                else snd (bt_remove (ft_btree tb) lba (ft_state tb)))
      in Inr (bi1, tb\<lparr>ft_state := t'\<rparr>))"

definition rollback_write ::
  "blk_api \<Rightarrow> lba_t \<Rightarrow> lba_t \<Rightarrow> blocks_info \<Rightarrow> 't fixed_table \<Rightarrow> (blocks_info \<times> 't fixed_table) option" where
  "rollback_write api start_lba end_lba bi tb =
     (case for_u64 start_lba end_lba (rollback_step api) (bi, tb) of
        None \<Rightarrow> None | Some (Inl _) \<Rightarrow> None | Some (Inr s) \<Rightarrow> Some s)"

definition fixed_write_to_index ::
  "blk_api \<Rightarrow> lba_t \<Rightarrow> lba_t \<Rightarrow> blocks_info \<Rightarrow> 't fixed_table \<Rightarrow> (unit res \<times> blocks_info \<times> 't fixed_table) option" where
  "fixed_write_to_index api start_lba end_lba bi tb =
     (case for_u64 start_lba end_lba (fixed_put_step api) (bi, tb) of
        None \<Rightarrow> None
      | Some (Inr (bi', tb')) \<Rightarrow> Some (Inr (), bi', tb')
      | Some (Inl (lba, bi', tb')) \<Rightarrow>
          (case rollback_write api start_lba (lba - 1) bi' tb' of
             None \<Rightarrow> None
           | Some (bi'', tb'') \<Rightarrow> Some (Inl (VolErr INDEX_ERROR), bi'', tb'')))"

definition fixed_read_from_index ::
  "lba_t \<Rightarrow> lba_t \<Rightarrow> 't fixed_table \<Rightarrow> (lba_t \<times> index_value) list res \<times> 't fixed_table" where
  "fixed_read_from_index start_lba end_lba tb =
     (let (r, t') = bt_query (ft_btree tb) start_lba end_lba (ft_state tb) in
      (case r of None \<Rightarrow> Inl (VolErr INDEX_ERROR) | Some kvs \<Rightarrow> Inr kvs, tb\<lparr>ft_state := t'\<rparr>))"

section \<open>The prefix index\<close>

text \<open>
  The B-tree with interval keys: a range upsert that derives the value of the \<open>n\<close>-th key by shifting, and
  reports every replaced entry to the filter; a range query.
\<close>

record 't prefix_btree =
  pb_range_put :: "prefix_key \<Rightarrow> prefix_key \<Rightarrow> (int \<Rightarrow> prefix_value) \<Rightarrow> 't \<Rightarrow> (bool \<times> (prefix_key \<times> prefix_value) list) \<times> 't"
  pb_query :: "prefix_key \<Rightarrow> prefix_key \<Rightarrow> 't \<Rightarrow> (prefix_key \<times> prefix_value) list option \<times> 't"
  pb_map :: "'t \<Rightarrow> prefix_key \<Rightarrow> prefix_value option"

definition prefix_keys :: "prefix_key \<Rightarrow> prefix_key \<Rightarrow> prefix_key set" where
  "prefix_keys lo hi = {k. prefix_compare lo k \<le> 0 \<and> prefix_compare k hi \<le> 0}"

definition prefix_btree_ok :: "'t prefix_btree \<Rightarrow> bool" where
  "prefix_btree_ok pb \<longleftrightarrow>
     (\<forall>lo hi vals t ok olds t'. pb_range_put pb lo hi vals t = ((ok, olds), t') \<longrightarrow> ok \<longrightarrow>
        m_lba_base lo = m_lba_base hi \<longrightarrow> prefix_compare lo hi \<le> 0 \<longrightarrow> 0 \<le> prefix_key_distance hi lo \<longrightarrow>
        distinct (map fst olds) \<and> set olds = {(k, v). k \<in> prefix_keys lo hi \<and> pb_map pb t k = Some v} \<and>
        (\<forall>k. k \<notin> prefix_keys lo hi \<longrightarrow> pb_map pb t' k = pb_map pb t k) \<and>
        (\<forall>n. 0 \<le> n \<longrightarrow> n \<le> prefix_key_distance hi lo \<longrightarrow> pb_map pb t' (prefix_key_shift n lo) = Some (vals n))) \<and>
     (\<forall>lo hi t r t'. pb_query pb lo hi t = (r, t') \<longrightarrow> pb_map pb t' = pb_map pb t \<and>
        (case r of None \<Rightarrow> True
         | Some kvs \<Rightarrow> sorted_wrt (\<lambda>a b. prefix_compare a b < 0) (map fst kvs) \<and>
             set kvs = {(k, v). k \<in> prefix_keys lo hi \<and> pb_map pb t k = Some v}))"

record 't prefix_table =
  pt_btree :: "'t prefix_btree"
  pt_state :: 't
  pt_to_integer :: "blk_id \<Rightarrow> u64"

definition prefix_filter :: "blk_api \<Rightarrow> prefix_key \<times> prefix_value \<Rightarrow> blocks_info \<Rightarrow> blocks_info" where
  "prefix_filter api e bi =
     (let lba = prefix_key_lba (fst e) in
      AList.update lba ((info_at api lba bi)\<lparr>old_blkid := prefix_value_blkid (snd e)\<rparr>) bi)"

definition prefix_write_to_index ::
  "blk_api \<Rightarrow> lba_t \<Rightarrow> lba_t \<Rightarrow> blocks_info \<Rightarrow> 't prefix_table \<Rightarrow> (unit res \<times> blocks_info \<times> 't prefix_table) option" where
  "prefix_write_to_index api start_lba end_lba bi tb =
     (let bi1 = info_touch api start_lba bi;
          i = info_at api start_lba bi1;
          value = prefix_value_of (pt_to_integer tb) (new_blkid i) (new_checksum i);
          vals = (\<lambda>n. if n = 0 then value
                      else prefix_value_shift (\<lambda>l. new_checksum (info_at api l bi1)) start_lba n value);
          ((ok, olds), t') = pb_range_put (pt_btree tb) (prefix_key_of start_lba) (prefix_key_of end_lba) vals (pt_state tb);
          bi2 = fold (prefix_filter api) olds bi1;
          tb' = tb\<lparr>pt_state := t'\<rparr>
      in Some (if ok then Inr () else Inl (VolErr INDEX_ERROR), bi2, tb'))"

definition prefix_entry :: "prefix_value \<Rightarrow> index_value" where
  "prefix_entry v = \<lparr>iv_blkid = prefix_value_blkid v, iv_checksum = pv_checksum v\<rparr>"

definition prefix_read_from_index ::
  "lba_t \<Rightarrow> lba_t \<Rightarrow> 't prefix_table \<Rightarrow> (lba_t \<times> index_value) list res \<times> 't prefix_table" where
  "prefix_read_from_index start_lba end_lba tb =
     (let (r, t') = pb_query (pt_btree tb) (prefix_key_of start_lba) (prefix_key_of end_lba) (pt_state tb) in
      (case r of None \<Rightarrow> Inl (VolErr INDEX_ERROR)
       | Some kvs \<Rightarrow> Inr (map (\<lambda>(k, v). (prefix_key_lba k, prefix_entry v)) kvs), tb\<lparr>pt_state := t'\<rparr>))"

end
