(* ===== verification/Index_Contract.thy ===== *)
theory Index_Contract
  imports Index_Table
begin

text \<open>
  What a volume relies on when it updates and reads its index, as the locale \<open>volume_index\<close>, and that
  both builds of the index keep it.
\<close>

section \<open>The contract\<close>

definition info_new :: "blocks_info \<Rightarrow> lba_t \<Rightarrow> index_value option" where
  "info_new bi l = map_option (\<lambda>i. \<lparr>iv_blkid = new_blkid i, iv_checksum = new_checksum i\<rparr>) (map_of bi l)"

definition info_old :: "blocks_info \<Rightarrow> lba_t \<Rightarrow> blk_id option" where
  "info_old bi l = map_option old_blkid (map_of bi l)"

text \<open>The infos of a range describe one run of consecutive blocks, the way the volume fills them in.\<close>

definition blk_run :: "blocks_info \<Rightarrow> lba_t \<Rightarrow> lba_t \<Rightarrow> bool" where
  "blk_run bi lo hi \<longleftrightarrow>
     (\<exists>b. unat (blk_num b) + unat (hi - lo) < 2 ^ 31 \<and>
        (\<forall>l. lo \<le> l \<longrightarrow> l \<le> hi \<longrightarrow>
           (\<exists>i. map_of bi l = Some i \<and> new_blkid i = b\<lparr>blk_num := blk_num b + ucast (l - lo)\<rparr>)))"

definition entries_between :: "(lba_t \<Rightarrow> index_value option) \<Rightarrow> lba_t \<Rightarrow> lba_t \<Rightarrow> (lba_t \<times> index_value) list \<Rightarrow> bool" where
  "entries_between view lo hi kvs \<longleftrightarrow>
     sorted_wrt (<) (map fst kvs) \<and> set kvs = {(l, v). lo \<le> l \<and> l \<le> hi \<and> view l = Some v}"

locale volume_index =
  fixes write_to_index :: "lba_t \<Rightarrow> lba_t \<Rightarrow> blocks_info \<Rightarrow> 't \<Rightarrow> (unit res \<times> blocks_info \<times> 't) option"
    and read_from_index :: "lba_t \<Rightarrow> lba_t \<Rightarrow> 't \<Rightarrow> (lba_t \<times> index_value) list res \<times> 't"
    and view :: "'t \<Rightarrow> lba_t \<Rightarrow> index_value option"
    and invar :: "'t \<Rightarrow> bool"
    and range_ok :: "lba_t \<Rightarrow> lba_t \<Rightarrow> bool"
  assumes write_ok: "invar t \<Longrightarrow> lo \<le> hi \<Longrightarrow> hi < - 1 \<Longrightarrow> range_ok lo hi \<Longrightarrow> blk_run bi lo hi \<Longrightarrow>
      write_to_index lo hi bi t = Some (Inr u, bi', t') \<Longrightarrow>
      invar t' \<and> view t' = (\<lambda>l. if lo \<le> l \<and> l \<le> hi then info_new bi l else view t l) \<and>
      info_new bi' = info_new bi \<and> map fst bi' = map fst bi \<and>
      info_old bi' = (\<lambda>l. if lo \<le> l \<and> l \<le> hi \<and> view t l \<noteq> None then map_option iv_blkid (view t l) else info_old bi l)"
    and write_returns: "invar t \<Longrightarrow> 0 < lo \<Longrightarrow> hi < - 1 \<Longrightarrow> \<exists>r. write_to_index lo hi bi t = Some r"
    and write_invar: "invar t \<Longrightarrow> hi < - 1 \<Longrightarrow> write_to_index lo hi bi t = Some (r, bi', t') \<Longrightarrow> invar t'"
    and write_error: "hi < - 1 \<Longrightarrow> write_to_index lo hi bi t = Some (Inl e, bi', t') \<Longrightarrow> e = VolErr INDEX_ERROR"
    and read_ok: "invar t \<Longrightarrow> read_from_index lo hi t = (Inr kvs, t') \<Longrightarrow>
      invar t' \<and> view t' = view t \<and> entries_between (view t) lo hi kvs"
    and read_error: "invar t \<Longrightarrow> read_from_index lo hi t = (Inl e, t') \<Longrightarrow>
      invar t' \<and> view t' = view t \<and> e = VolErr INDEX_ERROR"

section \<open>The fixed index\<close>

definition fixed_view :: "'t fixed_table \<Rightarrow> lba_t \<Rightarrow> index_value option" where
  "fixed_view tb = bt_map (ft_btree tb) (ft_state tb)"

definition fixed_invar :: "'t fixed_table \<Rightarrow> bool" where
  "fixed_invar tb \<longleftrightarrow> btree_ok (ft_btree tb)"

lemma btree_put:
  "btree_ok bt \<Longrightarrow> bt_put bt k v t = ((ok, old), t') \<Longrightarrow>
     (if ok then bt_map bt t' = (bt_map bt t)(k \<mapsto> v) \<and> old = bt_map bt t k
      else bt_map bt t' = bt_map bt t \<and> (old = None \<or> old = bt_map bt t k))"
  unfolding btree_ok_def by blast

lemma btree_remove:
  "btree_ok bt \<Longrightarrow> bt_remove bt k t = (ok, t') \<Longrightarrow>
     bt_map bt t' = (if ok then (bt_map bt t)(k := None) else bt_map bt t)"
  unfolding btree_ok_def by blast

lemma btree_query:
  "btree_ok bt \<Longrightarrow> bt_query bt lo hi t = (r, t') \<Longrightarrow> bt_map bt t' = bt_map bt t \<and>
     (case r of None \<Rightarrow> True | Some kvs \<Rightarrow> entries_between (bt_map bt t) lo hi kvs)"
  unfolding btree_ok_def entries_between_def by blast

lemma info_touch_present: "map_of bi l = Some i \<Longrightarrow> info_touch api l bi = bi \<and> info_at api l bi = i"
  by (simp add: info_touch_def emplace_def info_at_def)

lemma map_fst_update: "k \<in> set (map fst al) \<Longrightarrow> map fst (AList.update k v al) = map fst al"
  by (induction al) auto

lemma set_old_facts:
  assumes "map_of bi l = Some i"
  shows "info_new (set_old api l v bi) = info_new bi"
    "info_old (set_old api l v bi) = (info_old bi)(l \<mapsto> iv_blkid v)"
    "map fst (set_old api l v bi) = map fst bi"
  using assms
  by (auto simp: set_old_def info_new_def info_old_def update_conv' info_at_def fun_eq_iff
      intro!: map_fst_update dest: map_of_SomeD) (force dest: map_of_SomeD)

text \<open>One put of the loop.\<close>

lemma fixed_put_step_ok:
  assumes "fixed_invar tb" "map_of bi l = Some i" "fixed_put_step api l (bi, tb) = Inr (bi', tb')"
  shows "ft_btree tb' = ft_btree tb" "fixed_view tb' = (fixed_view tb)(l := info_new bi l)"
    "info_new bi' = info_new bi" "map fst bi' = map fst bi"
    "info_old bi' = (if fixed_view tb l = None then info_old bi else (info_old bi)(l := map_option iv_blkid (fixed_view tb l)))"
proof -
  let ?v = "\<lparr>iv_blkid = new_blkid i, iv_checksum = new_checksum i\<rparr>"
  obtain ok old t' where p: "bt_put (ft_btree tb) l ?v (ft_state tb) = ((ok, old), t')" by (metis surj_pair)
  have ok: "ok" and eqs: "bi' = (case old of None \<Rightarrow> bi | Some v \<Rightarrow> set_old api l v bi)" "tb' = tb\<lparr>ft_state := t'\<rparr>"
    using assms(3) p info_touch_present [OF assms(2)]
    by (auto simp: fixed_put_step_def Let_def split: if_splits option.splits)
  have put: "bt_map (ft_btree tb) t' = (bt_map (ft_btree tb) (ft_state tb))(l \<mapsto> ?v)" "old = fixed_view tb l"
    using btree_put [OF _ p] assms(1) ok by (simp_all add: fixed_invar_def fixed_view_def)
  show "ft_btree tb' = ft_btree tb" using eqs by simp
  show "fixed_view tb' = (fixed_view tb)(l := info_new bi l)"
    using put(1) eqs assms(2) by (simp add: fixed_view_def info_new_def)
  show "info_new bi' = info_new bi" "map fst bi' = map fst bi"
    using eqs(1) set_old_facts [OF assms(2)] by (auto split: option.splits)
  show "info_old bi' = (if fixed_view tb l = None then info_old bi else (info_old bi)(l := map_option iv_blkid (fixed_view tb l)))"
    using eqs(1) put(2) set_old_facts [OF assms(2)] by (auto split: option.splits)
qed

lemma fixed_puts_ok:
  assumes "fixed_invar tb" "distinct xs" "\<And>x. x \<in> set xs \<Longrightarrow> \<exists>i. map_of bi x = Some i"
    and "run_each (fixed_put_step api) xs (bi, tb) = Inr (bi', tb')"
  shows "ft_btree tb' = ft_btree tb \<and> fixed_view tb' = (\<lambda>l. if l \<in> set xs then info_new bi l else fixed_view tb l) \<and>
    info_new bi' = info_new bi \<and> map fst bi' = map fst bi \<and>
    info_old bi' = (\<lambda>l. if l \<in> set xs \<and> fixed_view tb l \<noteq> None then map_option iv_blkid (fixed_view tb l) else info_old bi l)"
  using assms
proof (induction xs arbitrary: bi tb)
  case (Cons x xs)
  obtain i where i: "map_of bi x = Some i" using Cons.prems(3) by auto
  obtain bi1 tb1 where s: "fixed_put_step api x (bi, tb) = Inr (bi1, tb1)"
    and r: "run_each (fixed_put_step api) xs (bi1, tb1) = Inr (bi', tb')"
    using Cons.prems(4) by (auto split: sum.splits)
  note f = fixed_put_step_ok [OF Cons.prems(1) i s]
  have keys: "map_of bi1 y = None \<longleftrightarrow> map_of bi y = None" for y using f(4) by (metis list.set_map map_of_eq_None_iff)
  have "ft_btree tb' = ft_btree tb1 \<and> fixed_view tb' = (\<lambda>l. if l \<in> set xs then info_new bi1 l else fixed_view tb1 l) \<and>
    info_new bi' = info_new bi1 \<and> map fst bi' = map fst bi1 \<and>
    info_old bi' = (\<lambda>l. if l \<in> set xs \<and> fixed_view tb1 l \<noteq> None then map_option iv_blkid (fixed_view tb1 l) else info_old bi1 l)"
  proof (rule Cons.IH [OF _ _ _ r])
    show "fixed_invar tb1" using Cons.prems(1) f(1) by (simp add: fixed_invar_def)
    show "distinct xs" using Cons.prems(2) by simp
    show "\<exists>i. map_of bi1 y = Some i" if "y \<in> set xs" for y
      using Cons.prems(3) [of y] keys [of y] that by auto
  qed
  then show ?case using f Cons.prems(2) by (auto simp: fun_eq_iff)
qed simp

lemma rollback_step_Inr: "\<exists>bi' t'. rollback_step api l (bi, tb) = Inr (bi', tb\<lparr>ft_state := t'\<rparr>)"
  by (auto simp: rollback_step_def Let_def)

lemma rollback_returns:
  "run_each (rollback_step api) xs (bi, tb) = r \<Longrightarrow> \<exists>bi' t'. r = Inr (bi', tb\<lparr>ft_state := t'\<rparr>)"
proof (induction xs arbitrary: bi tb)
  case Nil
  then show ?case by (metis fixed_table.surjective fixed_table.update_convs(2) old.unit.exhaust run_each.simps(1))
next
  case (Cons x xs)
  obtain bi1 t1 where "rollback_step api x (bi, tb) = Inr (bi1, tb\<lparr>ft_state := t1\<rparr>)"
    using rollback_step_Inr [of api x bi tb] by blast
  then show ?case using Cons by fastforce
qed

lemma rollback_write_returns:
  "end_lba < - 1 \<Longrightarrow> \<exists>bi' t'. rollback_write api start end_lba bi tb = Some (bi', tb\<lparr>ft_state := t'\<rparr>)"
  using rollback_returns [OF refl, of api "lba_range start end_lba" bi tb]
  by (auto simp: rollback_write_def for_u64_eq split: sum.splits)

lemma fixed_put_step_btree:
  "fixed_put_step api x (bi, tb) = Inr (bi', tb') \<Longrightarrow> ft_btree tb' = ft_btree tb"
  "fixed_put_step api x (bi, tb) = Inl (l, bi', tb') \<Longrightarrow> ft_btree tb' = ft_btree tb \<and> l = x"
  by (auto simp: fixed_put_step_def Let_def split: prod.splits if_splits)

lemma fixed_puts_btree:
  "run_each (fixed_put_step api) xs (bi, tb) = Inr (bi', tb') \<Longrightarrow> ft_btree tb' = ft_btree tb"
  by (induction xs arbitrary: bi tb) (auto split: sum.splits dest!: fixed_put_step_btree)

lemma fixed_puts_fail:
  assumes "run_each (fixed_put_step api) xs (bi, tb) = Inl (l, bi', tb')"
  shows "l \<in> set xs \<and> ft_btree tb' = ft_btree tb"
proof -
  obtain ys x zs s' where "xs = ys @ x # zs" "run_each (fixed_put_step api) ys (bi, tb) = Inr s'"
    "fixed_put_step api x s' = Inl (l, bi', tb')"
    using run_each_Inl [OF assms] by blast
  then show ?thesis using fixed_puts_btree fixed_put_step_btree(2) by (cases s') fastforce
qed

text \<open>Every outcome of an update of the fixed index.\<close>

lemma fixed_write_cases:
  assumes "fixed_write_to_index api lo hi bi tb = Some (r, bi', tb')" "hi < - 1"
  obtains (ok) "r = Inr ()" "run_each (fixed_put_step api) (lba_range lo hi) (bi, tb) = Inr (bi', tb')"
  | (fails) l bi1 tb1 where "r = Inl (VolErr INDEX_ERROR)" "l \<in> set (lba_range lo hi)"
      "run_each (fixed_put_step api) (lba_range lo hi) (bi, tb) = Inl (l, bi1, tb1)"
      "rollback_write api lo (l - 1) bi1 tb1 = Some (bi', tb')"
proof -
  consider s where "run_each (fixed_put_step api) (lba_range lo hi) (bi, tb) = Inr s"
    | l bi1 tb1 where "run_each (fixed_put_step api) (lba_range lo hi) (bi, tb) = Inl (l, bi1, tb1)"
    by (cases "run_each (fixed_put_step api) (lba_range lo hi) (bi, tb)") auto
  then show thesis
  proof cases
    case 1
    then show thesis using assms ok by (cases s) (auto simp: fixed_write_to_index_def for_u64_eq)
  next
    case (2 l bi1 tb1)
    then have "rollback_write api lo (l - 1) bi1 tb1 = Some (bi', tb')" "r = Inl (VolErr INDEX_ERROR)"
      using assms by (auto simp: fixed_write_to_index_def for_u64_eq split: option.splits)
    then show thesis using fails fixed_puts_fail [OF 2] 2 by blast
  qed
qed

lemma rollback_write_btree:
  assumes "rollback_write api lo hi bi tb = Some (bi', tb')"
  shows "ft_btree tb' = ft_btree tb"
proof (cases "hi = - 1")
  case True
  have "for_u64 lo (- 1) (rollback_step api) (bi, tb) = None"
  proof (rule for_u64_diverges)
    show "\<exists>s'. rollback_step api i s = Inr s'" for i and s :: "blocks_info \<times> 'a fixed_table"
      using rollback_step_Inr [of api i "fst s" "snd s"] by auto
  qed
  then show ?thesis using assms True by (simp add: rollback_write_def)
next
  case False
  then show ?thesis using assms rollback_write_returns [of hi api lo bi tb] by (simp add: word_order.not_eq_extremum) auto
qed

interpretation fixed_index: volume_index "fixed_write_to_index api" fixed_read_from_index fixed_view fixed_invar "\<lambda>_ _. True"
  for api
proof
  fix t :: "'t fixed_table" and lo hi bi bi' t' u
  assume inv: "fixed_invar t" and hi: "hi < - 1"
    and run: "blk_run bi lo hi" and w: "fixed_write_to_index api lo hi bi t = Some (Inr u, bi', t')"
  have puts: "run_each (fixed_put_step api) (lba_range lo hi) (bi, t) = Inr (bi', t')"
    using w hi by (cases rule: fixed_write_cases) auto
  have "\<exists>i. map_of bi x = Some i" if "x \<in> set (lba_range lo hi)" for x
    using that run by (auto simp: set_lba_range blk_run_def)
  from fixed_puts_ok [OF inv distinct_lba_range this puts]
  show "fixed_invar t' \<and> fixed_view t' = (\<lambda>l. if lo \<le> l \<and> l \<le> hi then info_new bi l else fixed_view t l) \<and>
      info_new bi' = info_new bi \<and> map fst bi' = map fst bi \<and>
      info_old bi' = (\<lambda>l. if lo \<le> l \<and> l \<le> hi \<and> fixed_view t l \<noteq> None then map_option iv_blkid (fixed_view t l) else info_old bi l)"
    using inv by (simp add: fixed_invar_def set_lba_range)
next
  fix t :: "'t fixed_table" and lo hi :: lba_t and bi
  assume lo: "0 < lo" and hi: "hi < - 1"
  show "\<exists>r. fixed_write_to_index api lo hi bi t = Some r"
  proof (cases "run_each (fixed_put_step api) (lba_range lo hi) (bi, t)")
    case (Inl r)
    obtain l bi1 tb1 where r: "r = (l, bi1, tb1)" by (cases r)
    then have "lo \<le> l" using fixed_puts_fail [of api "lba_range lo hi" bi t l bi1 tb1] Inl by (simp add: set_lba_range)
    then have "l \<noteq> 0" using lo by auto
    then have "l - 1 < - 1" by (metis diff_add_cancel eq_neg_iff_add_eq_0 word_order.not_eq_extremum)
    then show ?thesis using Inl r hi rollback_write_returns [of "l - 1" api lo bi1 tb1]
      by (auto simp: fixed_write_to_index_def for_u64_eq)
  qed (use hi in \<open>auto simp: fixed_write_to_index_def for_u64_eq\<close>)
next
  fix t :: "'t fixed_table" and lo hi bi bi' t' r
  assume inv: "fixed_invar t" and hi: "hi < - 1" and w: "fixed_write_to_index api lo hi bi t = Some (r, bi', t')"
  from w hi show "fixed_invar t'"
  proof (cases rule: fixed_write_cases)
    case ok
    then show ?thesis using fixed_puts_btree [OF ok(2)] inv by (simp add: fixed_invar_def)
  next
    case (fails l bi1 tb1)
    then show ?thesis using fixed_puts_fail [OF fails(3)] rollback_write_btree [OF fails(4)] inv by (simp add: fixed_invar_def)
  qed
next
  fix t t' :: "'t fixed_table" and lo hi bi bi' e
  assume "hi < - 1" and w: "fixed_write_to_index api lo hi bi t = Some (Inl e, bi', t')"
  from w this(1) show "e = VolErr INDEX_ERROR" by (cases rule: fixed_write_cases) auto
next
  fix t t' :: "'t fixed_table" and lo hi kvs
  assume "fixed_invar t" "fixed_read_from_index lo hi t = (Inr kvs, t')"
  then show "fixed_invar t' \<and> fixed_view t' = fixed_view t \<and> entries_between (fixed_view t) lo hi kvs"
    using btree_query [of "ft_btree t" lo hi "ft_state t"]
    by (fastforce simp: fixed_read_from_index_def fixed_invar_def fixed_view_def split: prod.splits option.splits)
next
  fix t t' :: "'t fixed_table" and lo hi e
  assume "fixed_invar t" "fixed_read_from_index lo hi t = (Inl e, t')"
  then show "fixed_invar t' \<and> fixed_view t' = fixed_view t \<and> e = VolErr INDEX_ERROR"
    using btree_query [of "ft_btree t" lo hi "ft_state t"]
    by (fastforce simp: fixed_read_from_index_def fixed_invar_def fixed_view_def split: prod.splits option.splits)
qed

section \<open>The prefix index\<close>

definition prefix_view :: "'t prefix_table \<Rightarrow> lba_t \<Rightarrow> index_value option" where
  "prefix_view tb l = map_option prefix_entry (pb_map (pt_btree tb) (pt_state tb) (prefix_key_of l))"

definition prefix_invar :: "'t prefix_table \<Rightarrow> bool" where
  "prefix_invar tb \<longleftrightarrow> prefix_btree_ok (pt_btree tb) \<and> to_integer_ok (pt_to_integer tb)"

text \<open>A range of the prefix index must not cross a multiple of \<open>2 ^ 32\<close>: \<^verbatim>\<open>shift\<close> does not carry into the base.\<close>

definition prefix_range_ok :: "lba_t \<Rightarrow> lba_t \<Rightarrow> bool" where
  "prefix_range_ok lo hi \<longleftrightarrow> unat lo div 2 ^ 32 = unat hi div 2 ^ 32 \<and> unat (hi - lo) < 2 ^ 31"

lemma prefix_keys_of: "k \<in> prefix_keys (prefix_key_of lo) (prefix_key_of hi) \<longleftrightarrow> lo \<le> prefix_key_lba k \<and> prefix_key_lba k \<le> hi"
proof -
  have k: "k = prefix_key_of (prefix_key_lba k)" by simp
  have "prefix_compare (prefix_key_of lo) k = fixed_compare lo (prefix_key_lba k)"
    "prefix_compare k (prefix_key_of hi) = fixed_compare (prefix_key_lba k) hi"
    by (subst k, rule prefix_compare_lba)+
  then show ?thesis by (auto simp: prefix_keys_def fixed_compare_def not_less)
qed

lemma prefix_range_put:
  assumes "prefix_btree_ok pb" "pb_range_put pb (prefix_key_of lo) (prefix_key_of hi) vals t = ((True, olds), t')"
    and "lo \<le> hi" "prefix_range_ok lo hi"
  shows "distinct (map fst olds)"
    "set olds = {(k, v). k \<in> prefix_keys (prefix_key_of lo) (prefix_key_of hi) \<and> pb_map pb t k = Some v}"
    "\<not> (lo \<le> l \<and> l \<le> hi) \<Longrightarrow> pb_map pb t' (prefix_key_of l) = pb_map pb t (prefix_key_of l)"
    "lo \<le> l \<Longrightarrow> l \<le> hi \<Longrightarrow> pb_map pb t' (prefix_key_of l) = Some (vals (int (unat (l - lo))))"
proof -
  let ?lo = "prefix_key_of lo" and ?hi = "prefix_key_of hi"
  have hl: "unat (hi - lo) = unat hi - unat lo" using assms(3) by (simp add: unat_sub)
  have base: "unat lo div 2 ^ 32 = unat hi div 2 ^ 32" and len: "unat hi - unat lo < 2 ^ 31"
    using assms(4) hl by (auto simp: prefix_range_ok_def)
  have d: "prefix_key_distance ?hi ?lo = int (unat hi - unat lo)"
    by (rule prefix_key_distance_of [OF assms(3) base len])
  have b: "m_lba_base ?lo = m_lba_base ?hi" using base by (simp add: word_unat_eq_iff prefix_key_unat)
  have cmp: "prefix_compare ?lo ?hi \<le> 0" using assms(3) by (simp add: prefix_compare_lba fixed_compare_def not_less)
  have law: "distinct (map fst olds) \<and> set olds = {(k, v). k \<in> prefix_keys ?lo ?hi \<and> pb_map pb t k = Some v} \<and>
        (\<forall>k. k \<notin> prefix_keys ?lo ?hi \<longrightarrow> pb_map pb t' k = pb_map pb t k) \<and>
        (\<forall>n. 0 \<le> n \<longrightarrow> n \<le> prefix_key_distance ?hi ?lo \<longrightarrow> pb_map pb t' (prefix_key_shift n ?lo) = Some (vals n))"
    using assms(1,2) b d cmp unfolding prefix_btree_ok_def by fastforce
  then show "distinct (map fst olds)" "set olds = {(k, v). k \<in> prefix_keys ?lo ?hi \<and> pb_map pb t k = Some v}" by auto
  show "pb_map pb t' (prefix_key_of l) = pb_map pb t (prefix_key_of l)" if "\<not> (lo \<le> l \<and> l \<le> hi)"
    using law that by (simp add: prefix_keys_of)
  show "pb_map pb t' (prefix_key_of l) = Some (vals (int (unat (l - lo))))" if l: "lo \<le> l" "l \<le> hi"
  proof -
    have ul: "unat (l - lo) = unat l - unat lo" "unat lo \<le> unat l" "unat l \<le> unat hi"
      using l by (simp_all add: unat_sub word_le_nat_alt)
    define q r rh where "q = unat lo div 2 ^ 32" and "r = unat lo mod 2 ^ 32" and "rh = unat hi mod 2 ^ 32"
    have "unat lo = 2 ^ 32 * q + r" "unat hi = 2 ^ 32 * q + rh" "rh < 2 ^ 32"
      unfolding q_def r_def rh_def by (metis mult_div_mod_eq, metis base mult_div_mod_eq, simp)
    then have "r + unat (l - lo) < 2 ^ 32" using ul by linarith
    then have "prefix_key_shift (int (unat (l - lo))) ?lo = prefix_key_of (lo + of_nat (unat (l - lo)))"
      by (intro prefix_key_shift_of) (simp add: r_def)
    then have "prefix_key_shift (int (unat (l - lo))) ?lo = prefix_key_of l" by simp
    moreover have "int (unat (l - lo)) \<le> prefix_key_distance ?hi ?lo" using diff_le_mono [OF ul(3)] by (simp only: d ul(1) of_nat_le_iff)
    ultimately show ?thesis using law by (metis of_nat_0_le_iff)
  qed
qed

text \<open>What the filter callback records.\<close>

lemma prefix_filter_facts:
  assumes "map_of bi (prefix_key_lba k) = Some i"
  shows "info_new (prefix_filter api (k, v) bi) = info_new bi"
    "info_old (prefix_filter api (k, v) bi) = (info_old bi)(prefix_key_lba k \<mapsto> prefix_value_blkid v)"
    "map fst (prefix_filter api (k, v) bi) = map fst bi"
  using assms
  by (auto simp: prefix_filter_def Let_def info_new_def info_old_def update_conv' info_at_def fun_eq_iff
      intro!: map_fst_update dest: map_of_SomeD) (force dest: map_of_SomeD)

lemma prefix_filters:
  assumes "distinct (map fst olds)" "\<And>k v. (k, v) \<in> set olds \<Longrightarrow> \<exists>i. map_of bi (prefix_key_lba k) = Some i"
  shows "info_new (fold (prefix_filter api) olds bi) = info_new bi \<and> map fst (fold (prefix_filter api) olds bi) = map fst bi \<and>
    info_old (fold (prefix_filter api) olds bi) =
      (\<lambda>l. case map_of olds (prefix_key_of l) of None \<Rightarrow> info_old bi l | Some v \<Rightarrow> Some (prefix_value_blkid v))"
  using assms
proof (induction olds arbitrary: bi)
  case (Cons e olds)
  obtain k v where e: "e = (k, v)" by (cases e)
  obtain i where i: "map_of bi (prefix_key_lba k) = Some i" using Cons.prems(2) e by auto
  note f = prefix_filter_facts [OF i, of api v]
  have keys: "map_of (prefix_filter api (k, v) bi) y = None \<longleftrightarrow> map_of bi y = None" for y
    using f(3) by (metis list.set_map map_of_eq_None_iff)
  let ?bi = "prefix_filter api (k, v) bi"
  have IH: "info_new (fold (prefix_filter api) olds ?bi) = info_new ?bi \<and> map fst (fold (prefix_filter api) olds ?bi) = map fst ?bi \<and>
    info_old (fold (prefix_filter api) olds ?bi) =
      (\<lambda>l. case map_of olds (prefix_key_of l) of None \<Rightarrow> info_old ?bi l | Some v \<Rightarrow> Some (prefix_value_blkid v))"
  proof (rule Cons.IH)
    show "distinct (map fst olds)" using Cons.prems(1) by simp
    show "\<exists>i. map_of ?bi (prefix_key_lba k') = Some i" if "(k', v') \<in> set olds" for k' v'
      using Cons.prems(2) [of k' v'] keys [of "prefix_key_lba k'"] that by auto
  qed
  have "map_of olds k = None" using Cons.prems(1) e by (simp add: map_of_eq_None_iff)
  moreover have "prefix_key_of l = k \<longleftrightarrow> l = prefix_key_lba k" for l by auto
  ultimately show ?case using IH f e by (auto simp: fun_eq_iff split: option.splits)
qed simp

text \<open>The entry the range upsert derives for one address of the range.\<close>

lemma prefix_vals:
  assumes f: "to_integer_ok f" and b: "unat (blk_num b) < 2 ^ 31"
    and lo: "map_of bi lo = Some i0" "new_blkid i0 = b"
    and l: "map_of bi l = Some i" "new_blkid i = b\<lparr>blk_num := blk_num b + ucast (l - lo)\<rparr>"
  defines "v \<equiv> prefix_value_of f b (new_checksum i0)"
  shows "Some (prefix_entry (if int (unat (l - lo)) = 0 then v
      else prefix_value_shift (\<lambda>l. new_checksum (info_at api l bi)) lo (int (unat (l - lo))) v)) = info_new bi l"
proof (cases "l = lo")
  case True
  then show ?thesis using lo l prefix_value_blkid_of [OF f b]
    by (simp add: v_def prefix_entry_def info_new_def prefix_value_of_def)
next
  case False
  have wi: "(word_of_int (uint (l - lo)) :: u32) = ucast (l - lo)" by (simp add: unsigned_ucast_eq word_uint_eq_iff)
  have "uint (l - lo) \<noteq> 0" using False by (metis eq_iff_diff_eq_0 uint_0_iff)
  then show ?thesis using l prefix_value_shift_blkid [OF f b]
    by (simp add: v_def prefix_entry_def info_new_def wi info_at_def)
qed

lemma prefix_write_ok:
  assumes inv: "prefix_invar t" and le: "lo \<le> hi" and ok: "prefix_range_ok lo hi" and run: "blk_run bi lo hi"
    and w: "prefix_write_to_index api lo hi bi t = Some (Inr u, bi', t')"
  shows "prefix_invar t' \<and> prefix_view t' = (\<lambda>l. if lo \<le> l \<and> l \<le> hi then info_new bi l else prefix_view t l) \<and>
      info_new bi' = info_new bi \<and> map fst bi' = map fst bi \<and>
      info_old bi' = (\<lambda>l. if lo \<le> l \<and> l \<le> hi \<and> prefix_view t l \<noteq> None then map_option iv_blkid (prefix_view t l) else info_old bi l)"
proof -
  obtain b where b: "unat (blk_num b) + unat (hi - lo) < 2 ^ 31"
    and infos: "\<And>l. lo \<le> l \<Longrightarrow> l \<le> hi \<Longrightarrow> \<exists>i. map_of bi l = Some i \<and> new_blkid i = b\<lparr>blk_num := blk_num b + ucast (l - lo)\<rparr>"
    using run unfolding blk_run_def by blast
  obtain i0 where i0: "map_of bi lo = Some i0" "new_blkid i0 = b" using infos [of lo] le by auto
  define v where "v = prefix_value_of (pt_to_integer t) b (new_checksum i0)"
  define vals where "vals n = (if n = 0 then v else prefix_value_shift (\<lambda>l. new_checksum (info_at api l bi)) lo n v)" for n
  have at: "info_at api lo bi = i0" "info_touch api lo bi = bi" using info_touch_present [OF i0(1)] by simp_all
  have eq: "prefix_write_to_index api lo hi bi t =
     (case pb_range_put (pt_btree t) (prefix_key_of lo) (prefix_key_of hi) vals (pt_state t) of
        ((ok, olds), s') \<Rightarrow> Some (if ok then Inr () else Inl (VolErr INDEX_ERROR), fold (prefix_filter api) olds bi, t\<lparr>pt_state := s'\<rparr>))"
    unfolding prefix_write_to_index_def Let_def at i0(2) v_def vals_def [abs_def]
    by (simp split: prod.split)
  obtain olds s' where put: "pb_range_put (pt_btree t) (prefix_key_of lo) (prefix_key_of hi) vals (pt_state t) = ((True, olds), s')"
    and t': "t' = t\<lparr>pt_state := s'\<rparr>" and bi': "bi' = fold (prefix_filter api) olds bi"
    using w by (auto simp: eq split: prod.splits if_splits)
  note pbt = inv [unfolded prefix_invar_def]
  note p = prefix_range_put [OF conjunct1 [OF pbt] put le ok]
  have olds: "map_of olds (prefix_key_of l) = (if lo \<le> l \<and> l \<le> hi then pb_map (pt_btree t) (pt_state t) (prefix_key_of l) else None)" for l
  proof (cases "map_of olds (prefix_key_of l)")
    case None
    then have "\<not> (prefix_key_of l, w) \<in> set olds" for w by (force simp: map_of_eq_None_iff)
    then show ?thesis using p(2) None by (cases "pb_map (pt_btree t) (pt_state t) (prefix_key_of l)") (auto simp: prefix_keys_of)
  next
    case (Some w)
    then have "(prefix_key_of l, w) \<in> set olds" by (rule map_of_SomeD)
    then show ?thesis using p(2) Some by (auto simp: prefix_keys_of)
  qed
  have "\<exists>i. map_of bi (prefix_key_lba k) = Some i" if "(k, w) \<in> set olds" for k w
    using that p(2) infos by (auto simp: prefix_keys_of)
  note fs = prefix_filters [of olds bi api, OF p(1) this, folded bi']
  have "prefix_view t' l = (if lo \<le> l \<and> l \<le> hi then info_new bi l else prefix_view t l)" for l
  proof (cases "lo \<le> l \<and> l \<le> hi")
    case True
    obtain i where i: "map_of bi l = Some i" "new_blkid i = b\<lparr>blk_num := blk_num b + ucast (l - lo)\<rparr>" using infos True by blast
    have b31: "unat (blk_num b) < 2 ^ 31" using b by simp
    have "Some (prefix_entry (vals (int (unat (l - lo))))) = info_new bi l"
      using prefix_vals [OF conjunct2 [OF pbt] b31 i0 i, of api] unfolding vals_def v_def .
    then show ?thesis using p(4) True t' by (simp add: prefix_view_def)
  next
    case False
    then show ?thesis using p(3) [OF False] t' by (auto simp: prefix_view_def)
  qed
  moreover have "info_old bi' l = (if lo \<le> l \<and> l \<le> hi \<and> prefix_view t l \<noteq> None then map_option iv_blkid (prefix_view t l) else info_old bi l)" for l
    using fs olds [of l] by (auto simp: prefix_view_def prefix_entry_def split: option.splits)
  ultimately show ?thesis using fs inv t' by (simp add: fun_eq_iff prefix_invar_def)
qed

lemma prefix_btree_query:
  "prefix_btree_ok pb \<Longrightarrow> pb_query pb lo hi t = (r, t') \<Longrightarrow> pb_map pb t' = pb_map pb t \<and>
     (case r of None \<Rightarrow> True
      | Some kvs \<Rightarrow> sorted_wrt (\<lambda>a b. prefix_compare a b < 0) (map fst kvs) \<and>
          set kvs = {(k, v). k \<in> prefix_keys lo hi \<and> pb_map pb t k = Some v})"
  unfolding prefix_btree_ok_def by blast

lemma prefix_query:
  assumes "prefix_invar t" "pb_query (pt_btree t) (prefix_key_of lo) (prefix_key_of hi) (pt_state t) = (Some kvs, s')"
  shows "entries_between (prefix_view t) lo hi (map (\<lambda>(k, v). (prefix_key_lba k, prefix_entry v)) kvs)"
proof -
  let ?kvs = "map (\<lambda>(k, v). (prefix_key_lba k, prefix_entry v)) kvs"
  have q: "sorted_wrt (\<lambda>a b. prefix_compare a b < 0) (map fst kvs)"
    "set kvs = {(k, v). k \<in> prefix_keys (prefix_key_of lo) (prefix_key_of hi) \<and> pb_map (pt_btree t) (pt_state t) k = Some v}"
    using prefix_btree_query [OF _ assms(2)] assms(1) by (simp_all add: prefix_invar_def)
  have lt: "prefix_key_lba a < prefix_key_lba b" if "prefix_compare a b < 0" for a b
  proof -
    have "fixed_compare (prefix_key_lba a) (prefix_key_lba b) < 0"
      using that prefix_compare_lba [of "prefix_key_lba a" "prefix_key_lba b"] by simp
    then show ?thesis by (simp add: fixed_compare_def split: if_splits)
  qed
  have "map fst ?kvs = map prefix_key_lba (map fst kvs)" by auto
  moreover have "sorted_wrt (<) (map prefix_key_lba (map fst kvs))"
    unfolding sorted_wrt_map [of _ prefix_key_lba] using lt by (rule sorted_wrt_mono_rel [OF _ q(1)])
  moreover have "set ?kvs = {(l, v). lo \<le> l \<and> l \<le> hi \<and> prefix_view t l = Some v}"
  proof (intro set_eqI iffI)
    fix e assume "e \<in> {(l, v). lo \<le> l \<and> l \<le> hi \<and> prefix_view t l = Some v}"
    then obtain l w where e: "e = (l, prefix_entry w)" "lo \<le> l" "l \<le> hi"
      "pb_map (pt_btree t) (pt_state t) (prefix_key_of l) = Some w" by (auto simp: prefix_view_def)
    then have "(prefix_key_of l, w) \<in> set kvs" using q(2) by (simp add: prefix_keys_of)
    then show "e \<in> set ?kvs" using e(1) by (auto intro!: image_eqI [of _ _ "(prefix_key_of l, w)"])
  qed (use q(2) in \<open>auto simp: prefix_keys_of prefix_view_def\<close>)
  ultimately show ?thesis unfolding entries_between_def by metis
qed

lemma prefix_query_state:
  "prefix_invar t \<Longrightarrow> pb_query (pt_btree t) lo hi (pt_state t) = (r, s') \<Longrightarrow>
     prefix_invar (t\<lparr>pt_state := s'\<rparr>) \<and> prefix_view (t\<lparr>pt_state := s'\<rparr>) = prefix_view t"
  by (auto simp: prefix_invar_def prefix_view_def fun_eq_iff dest: prefix_btree_query)

interpretation prefix_index: volume_index "prefix_write_to_index api" prefix_read_from_index prefix_view prefix_invar prefix_range_ok
  for api
proof
  fix t t' :: "'t prefix_table" and lo hi bi bi' u
  assume "prefix_invar t" "lo \<le> hi" "prefix_range_ok lo hi" "blk_run bi lo hi"
    "prefix_write_to_index api lo hi bi t = Some (Inr u, bi', t')"
  then show "prefix_invar t' \<and> prefix_view t' = (\<lambda>l. if lo \<le> l \<and> l \<le> hi then info_new bi l else prefix_view t l) \<and>
      info_new bi' = info_new bi \<and> map fst bi' = map fst bi \<and>
      info_old bi' = (\<lambda>l. if lo \<le> l \<and> l \<le> hi \<and> prefix_view t l \<noteq> None then map_option iv_blkid (prefix_view t l) else info_old bi l)"
    by (rule prefix_write_ok)
next
  fix t t' :: "'t prefix_table" and lo hi bi bi' r
  assume "prefix_invar t" "prefix_write_to_index api lo hi bi t = Some (r, bi', t')"
  then show "prefix_invar t'"
    by (auto simp: prefix_write_to_index_def Let_def prefix_invar_def split: prod.splits)
next
  fix t t' :: "'t prefix_table" and lo hi kvs
  assume "prefix_invar t" "prefix_read_from_index lo hi t = (Inr kvs, t')"
  then show "prefix_invar t' \<and> prefix_view t' = prefix_view t \<and> entries_between (prefix_view t) lo hi kvs"
    using prefix_query [of t lo hi] prefix_query_state [of t]
    by (auto simp: prefix_read_from_index_def split: prod.splits option.splits)
next
  fix t t' :: "'t prefix_table" and lo hi e
  assume "prefix_invar t" "prefix_read_from_index lo hi t = (Inl e, t')"
  then show "prefix_invar t' \<and> prefix_view t' = prefix_view t \<and> e = VolErr INDEX_ERROR"
    using prefix_query_state [of t] by (auto simp: prefix_read_from_index_def split: prod.splits option.splits)
qed (auto simp: prefix_write_to_index_def Let_def split: prod.splits if_splits)

end
