(* ===== verification/Volume_Read.thy ===== *)
theory Volume_Read
  imports Index_Contract
begin

text \<open>
  The read path of a volume (src/lib/volume/volume.cpp: \<^verbatim>\<open>read\<close>, \<^verbatim>\<open>generate_blkids_to_read\<close>,
  \<^verbatim>\<open>submit_read_to_backend\<close>, \<^verbatim>\<open>verify_checksum\<close>), with the request of io_req.hpp. The replication device, the data service and the checksum
  function belong to the storage layer and are parameters.
\<close>

section \<open>Requests and the device\<close>

type_synonym lba_count_t = u32

text \<open>The buffer of a request is the memory behind its pointer; a null pointer is \<^term>\<open>None\<close>.\<close>

record io_req =
  req_buffer :: "u8 list option"
  req_lba :: lba_t
  req_nlbas :: lba_count_t

definition end_lba :: "io_req \<Rightarrow> lba_t" where
  "end_lba req = req_lba req + ucast (req_nlbas req) - 1"

text \<open>The header of a journal entry; an identifier of a volume is a UUID.\<close>

type_synonym volume_id_t = "128 word"

datatype MsgType = READ | WRITE | UNMAP

record MsgHeader =
  msg_type :: MsgType
  volume_id :: volume_id_t

text \<open>
  The operations of the replication device and the data service a volume uses. A failing allocation is \<^term>\<open>None\<close>; the
  result of \<open>async_write_journal\<close> is the sequence number of the entry when it is committed, which is when the listener of the volume is called with the
  same header, key and blocks. \<open>blk_data\<close> is the contents of a block, given by chunk and number, and \<open>journal_log\<close> the committed entries; the code never reads them.
\<close>

record 'd repl_dev =
  get_blk_size :: u32
  alloc_blks :: "u32 \<Rightarrow> u64 \<Rightarrow> 'd \<Rightarrow> blk_id list option \<times> 'd"
  async_write :: "blk_id list \<Rightarrow> u8 list \<Rightarrow> 'd \<Rightarrow> bool \<times> 'd"
  async_read :: "blk_id \<Rightarrow> u64 \<Rightarrow> 'd \<Rightarrow> u8 list res \<times> 'd"
  async_write_journal :: "blk_id list \<Rightarrow> MsgHeader \<Rightarrow> u8 list \<Rightarrow> u32 \<Rightarrow> 'd \<Rightarrow> int option \<times> 'd"
  async_free_blks :: "int \<Rightarrow> blk_id \<Rightarrow> 'd \<Rightarrow> 'd"
  is_blk_alloced :: "blk_id \<Rightarrow> 'd \<Rightarrow> bool"
  free_blk_now :: "blk_id \<Rightarrow> 'd \<Rightarrow> 'd"
  blk_data :: "'d \<Rightarrow> u16 \<Rightarrow> u32 \<Rightarrow> u8 list"
  journal_log :: "'d \<Rightarrow> (MsgHeader \<times> u8 list \<times> blk_id list) list"

text \<open>The operations of \<^verbatim>\<open>VolumeIndexTable\<close>, of which the build chooses one implementation.\<close>

record 't index_ops =
  ix_write :: "lba_t \<Rightarrow> lba_t \<Rightarrow> blocks_info \<Rightarrow> 't \<Rightarrow> (unit res \<times> blocks_info \<times> 't) option"
  ix_read :: "lba_t \<Rightarrow> lba_t \<Rightarrow> 't \<Rightarrow> (lba_t \<times> index_value) list res \<times> 't"

definition fixed_index_ops :: "blk_api \<Rightarrow> 't fixed_table index_ops" where
  "fixed_index_ops api = \<lparr>ix_write = fixed_write_to_index api, ix_read = fixed_read_from_index\<rparr>"

definition prefix_index_ops :: "blk_api \<Rightarrow> 't prefix_table index_ops" where
  "prefix_index_ops api = \<lparr>ix_write = prefix_write_to_index api, ix_read = prefix_read_from_index\<rparr>"

section \<open>Coalescing\<close>

type_synonym index_kv_list = "(lba_t \<times> index_value) list"
type_synonym read_blks_list = "(lba_t \<times> blk_id) list"

text \<open>The block number and the chunk of an entry; \<open>is_contiguous\<close> of the code.\<close>

definition kv_blk_num :: "lba_t \<times> index_value \<Rightarrow> u32" where
  "kv_blk_num e = blk_num (iv_blkid (snd e))"

definition kv_chunk :: "lba_t \<times> index_value \<Rightarrow> u16" where
  "kv_chunk e = blk_chunk (iv_blkid (snd e))"

definition is_contiguous :: "index_kv_list \<Rightarrow> nat \<Rightarrow> bool" where
  "is_contiguous kvs i \<longleftrightarrow> i = 0 \<or>
     (fst (kvs ! i) = fst (kvs ! (i - 1)) + 1 \<and> kv_blk_num (kvs ! i) = kv_blk_num (kvs ! (i - 1)) + 1 \<and>
      kv_chunk (kvs ! i) = kv_chunk (kvs ! (i - 1)))"

definition blkids_step :: "index_kv_list \<Rightarrow> nat \<Rightarrow> nat \<times> read_blks_list \<Rightarrow> nat \<times> read_blks_list" where
  "blkids_step kvs i s =
     (let (start_idx, blks) = s; contiguous = is_contiguous kvs i in
      if contiguous \<and> i < length kvs - 1 then (start_idx, blks)
      else
        (let count = (if contiguous then i - start_idx + 1 else i - start_idx);
             run = (fst (kvs ! start_idx),
                    \<lparr>blk_num = kv_blk_num (kvs ! start_idx), blk_count = of_nat count, blk_chunk = kv_chunk (kvs ! start_idx)\<rparr>);
             last = (fst (kvs ! i), \<lparr>blk_num = kv_blk_num (kvs ! i), blk_count = 1, blk_chunk = kv_chunk (kvs ! i)\<rparr>)
         in (i, blks @ run # (if \<not> contiguous \<and> i = length kvs - 1 then [last] else []))))"

definition generate_blkids_to_read :: "index_kv_list \<Rightarrow> read_blks_list" where
  "generate_blkids_to_read kvs = snd (fold (blkids_step kvs) [0..<length kvs] (0, []))"

section \<open>Submitting the reads\<close>

text \<open>Storing bytes behind a pointer.\<close>

definition buf_store :: "nat \<Rightarrow> u8 list \<Rightarrow> u8 list \<Rightarrow> u8 list" where
  "buf_store pos xs b = take pos b @ xs @ drop (pos + length xs) b"

definition memset_zero :: "nat \<Rightarrow> nat \<Rightarrow> u8 list option \<Rightarrow> u8 list option checked" where
  "memset_zero pos n mem = (case mem of
     None \<Rightarrow> Inl NullDeref
   | Some b \<Rightarrow> if pos + n \<le> length b then Inr (Some (buf_store pos (replicate n 0) b)) else Inl OutOfBounds)"

text \<open>
  The variables of the loop: \<open>rs_pos\<close> is the distance of \<^verbatim>\<open>read_buf\<close> from the start of the buffer, \<open>rs_futs\<close> the reads to be
  started, with the position and the size of their targets. \<^verbatim>\<open>prev_lba\<close> has 32 bits.
\<close>

record read_state =
  prev_lba :: u32
  prev_nblks :: u32
  rs_pos :: nat
  rs_mem :: "u8 list option"
  rs_futs :: "(blk_id \<times> nat \<times> u64) list"

definition fill_hole :: "u64 \<Rightarrow> read_state \<Rightarrow> read_state checked" where
  "fill_hole holes_size s =
     (if holes_size > 0
      then bind_sum (memset_zero (rs_pos s) (unat holes_size) (rs_mem s))
             (\<lambda>mem. Inr (s\<lparr>rs_mem := mem, rs_pos := rs_pos s + unat holes_size\<rparr>))
      else Inr s)"

definition submit_step :: "u32 \<Rightarrow> lba_t \<times> blk_id \<Rightarrow> read_state \<Rightarrow> read_state checked" where
  "submit_step blk_size piece s =
     (let (start_lba, blkids) = piece;
          holes_size = (start_lba - ucast (prev_lba s + prev_nblks s)) * ucast blk_size
      in bind_sum (fill_hole holes_size s) (\<lambda>s.
        (let sz = ucast (ucast (blk_count blkids) * blk_size :: u32) in
         Inr (s\<lparr>rs_pos := rs_pos s + unat sz, rs_futs := rs_futs s @ [(blkids, rs_pos s, sz)],
                prev_lba := ucast start_lba, prev_nblks := ucast (blk_count blkids)\<rparr>))))"

fun submit_loop :: "u32 \<Rightarrow> read_blks_list \<Rightarrow> read_state \<Rightarrow> read_state checked" where
  "submit_loop blk_size [] s = Inr s"
| "submit_loop blk_size (p # ps) s = bind_sum (submit_step blk_size p s) (submit_loop blk_size ps)"

definition submit_tail :: "u32 \<Rightarrow> io_req \<Rightarrow> read_state \<Rightarrow> read_state checked" where
  "submit_tail blk_size req s =
     (let cur = ucast (prev_lba s + prev_nblks s) in
      if cur < end_lba req + 1 then fill_hole ((end_lba req + 1 - cur) * ucast blk_size) s else Inr s)"

text \<open>
  A null buffer aborts, unless fault containment is on: then the volume is taken out of service (the flag of the result) and the
  function goes on with the null pointer.
\<close>

definition submit_read_to_backend ::
  "u32 \<Rightarrow> bool \<Rightarrow> read_blks_list \<Rightarrow> io_req \<Rightarrow> (bool \<times> read_state) checked" where
  "submit_read_to_backend blk_size fc_on blks_to_read req =
     (if req_buffer req = None \<and> \<not> fc_on then Inl ReleaseAssert
      else
        bind_sum (submit_loop blk_size blks_to_read
            \<lparr>prev_lba = ucast (req_lba req), prev_nblks = 0, rs_pos = 0, rs_mem = req_buffer req, rs_futs = []\<rparr>) (\<lambda>s.
        bind_sum (submit_tail blk_size req s) (\<lambda>s.
        Inr (req_buffer req = None, s))))"

text \<open>\<^verbatim>\<open>when_all\<close> over the reads: all of them run, each into its own part of the buffer.\<close>

fun run_reads ::
  "'d repl_dev \<Rightarrow> (blk_id \<times> nat \<times> u64) list \<Rightarrow> u8 list option \<Rightarrow> 'd \<Rightarrow> (unit res list \<times> u8 list option \<times> 'd) checked" where
  "run_reads rd [] mem d = Inr ([], mem, d)"
| "run_reads rd ((blkid, pos, sz) # futs) mem d =
     (case mem of
        None \<Rightarrow> Inl NullDeref
      | Some b \<Rightarrow>
          if pos + unat sz \<le> length b
          then (let (r, d') = async_read rd blkid sz d;
                    (res, b') = (case r of Inl e \<Rightarrow> (Inl e, b) | Inr bytes \<Rightarrow> (Inr (), buf_store pos bytes b))
                in bind_sum (run_reads rd futs (Some b') d') (\<lambda>(rs, mem', d''). Inr (res # rs, mem', d'')))
          else Inl OutOfBounds)"

fun first_error :: "unit res list \<Rightarrow> unit res" where
  "first_error [] = Inr ()"
| "first_error (Inl e # rs) = Inl e"
| "first_error (Inr _ # rs) = first_error rs"

section \<open>Verifying the checksums\<close>

definition init_crc_16 :: csum_t where
  "init_crc_16 = 0x8005"

text \<open>
  The loop over the index entries. An entry that is not at \<^verbatim>\<open>cur_lba\<close> makes the loop skip the hole and look at the same entry again.
\<close>

fun verify_loop :: "(u16 \<Rightarrow> u8 list \<Rightarrow> csum_t) \<Rightarrow> u32 \<Rightarrow> u8 list option \<Rightarrow> index_kv_list \<Rightarrow> lba_t \<Rightarrow> nat \<Rightarrow> unit res checked" where
  "verify_loop crc16_t10dif blk_size mem [] cur_lba pos = Inr (Inr ())"
| "verify_loop crc16_t10dif blk_size mem ((key, v) # kvs) cur_lba pos =
     (let pos = (if cur_lba \<noteq> key then pos + unat ((key - cur_lba) * ucast blk_size) else pos) in
      (case mem of
         None \<Rightarrow> Inl NullDeref
       | Some b \<Rightarrow>
           if pos + unat blk_size \<le> length b
           then if crc16_t10dif init_crc_16 (take (unat blk_size) (drop pos b)) \<noteq> iv_checksum v
                then Inr (Inl (VolErr CRC_MISMATCH))
                else verify_loop crc16_t10dif blk_size mem kvs (key + 1) (pos + unat blk_size)
           else Inl OutOfBounds))"

definition verify_checksum ::
  "(u16 \<Rightarrow> u8 list \<Rightarrow> csum_t) \<Rightarrow> u32 \<Rightarrow> u8 list option \<Rightarrow> io_req \<Rightarrow> index_kv_list \<Rightarrow> unit res checked" where
  "verify_checksum crc16_t10dif blk_size mem req kvs = verify_loop crc16_t10dif blk_size mem kvs (req_lba req) 0"

section \<open>Reading\<close>

text \<open>The result: the status, whether the volume was taken out of service, and the memory of the client.\<close>

record read_result =
  rr_status :: "unit res"
  rr_contained :: bool
  rr_mem :: "u8 list option"

definition volume_read ::
  "'t index_ops \<Rightarrow> 'd repl_dev \<Rightarrow> (u16 \<Rightarrow> u8 list \<Rightarrow> csum_t) \<Rightarrow> bool \<Rightarrow> io_req \<Rightarrow> 't \<times> 'd \<Rightarrow> (read_result \<times> 't \<times> 'd) checked" where
  "volume_read ix rd crc16_t10dif fc_on req w =
     (let (t, d) = w; blk_size = get_blk_size rd; (index_resp, t') = ix_read ix (req_lba req) (end_lba req) t in
      (case index_resp of
         Inl _ \<Rightarrow> Inr (\<lparr>rr_status = Inr (), rr_contained = False, rr_mem = req_buffer req\<rparr>, t', d)
       | Inr index_kvs \<Rightarrow>
           bind_sum (submit_read_to_backend blk_size fc_on (generate_blkids_to_read index_kvs) req) (\<lambda>(contained, s).
           if index_kvs = [] then Inr (\<lparr>rr_status = Inr (), rr_contained = contained, rr_mem = rs_mem s\<rparr>, t', d)
           else
             bind_sum (run_reads rd (rs_futs s) (rs_mem s) d) (\<lambda>(results, mem, d').
             (case first_error results of
                Inl e \<Rightarrow> Inr (\<lparr>rr_status = Inl e, rr_contained = contained, rr_mem = mem\<rparr>, t', d')
              | Inr _ \<Rightarrow>
                  bind_sum (verify_checksum crc16_t10dif blk_size mem req index_kvs) (\<lambda>st.
                  Inr (\<lparr>rr_status = st, rr_contained = contained, rr_mem = mem\<rparr>, t', d')))))))"

text \<open>The read behind the lookup in the index, which is where it can be suspended.\<close>

definition read_blocks :: "'d repl_dev \<Rightarrow> (u16 \<Rightarrow> u8 list \<Rightarrow> csum_t) \<Rightarrow> bool \<Rightarrow> io_req \<Rightarrow> (lba_t \<times> index_value) list \<Rightarrow> 'd \<Rightarrow> (read_result \<times> 'd) checked" where
  "read_blocks rd crc16_t10dif fc_on req index_kvs d =
     bind_sum (submit_read_to_backend (get_blk_size rd) fc_on (generate_blkids_to_read index_kvs) req) (\<lambda>(contained, s).
     if index_kvs = [] then Inr (\<lparr>rr_status = Inr (), rr_contained = contained, rr_mem = rs_mem s\<rparr>, d)
     else
       bind_sum (run_reads rd (rs_futs s) (rs_mem s) d) (\<lambda>(results, mem, d').
       (case first_error results of
          Inl e \<Rightarrow> Inr (\<lparr>rr_status = Inl e, rr_contained = contained, rr_mem = mem\<rparr>, d')
        | Inr _ \<Rightarrow>
            bind_sum (verify_checksum crc16_t10dif (get_blk_size rd) mem req index_kvs) (\<lambda>st.
            Inr (\<lparr>rr_status = st, rr_contained = contained, rr_mem = mem\<rparr>, d')))))"

end
