(* ===== verification/Volume_Write.thy ===== *)
theory Volume_Write
  imports Volume_Read
begin

text \<open>
  The write path of a volume (src/lib/volume/volume.cpp: \<^verbatim>\<open>write\<close>), the commit of its journal entry (src/lib/listener.cpp:
  \<^verbatim>\<open>on_commit\<close>, src/lib/volume_mgr.cpp: \<^verbatim>\<open>on_write\<close>) and the replay of a journal entry after a crash, which is the same function without a
  request context.
\<close>

section \<open>The key of a journal entry\<close>

text \<open>
  \<^verbatim>\<open>VolJournalEntry\<close> as it lies in memory: 8, 4 and 2 bytes and two bytes of padding, written as zero. The byte image of a \<^verbatim>\<open>blk_id\<close>, with its size,
  belongs to the storage layer.
\<close>

record VolJournalEntry =
  je_start_lba :: lba_t
  je_nlbas :: lba_count_t
  je_num_old_blks :: u16

record blk_codec =
  blk_sizeof :: nat
  blk_bytes :: "blk_id \<Rightarrow> u8 list"
  blk_parse :: "u8 list \<Rightarrow> blk_id"

definition journal_entry_size :: nat where
  "journal_entry_size = 16"

definition journal_entry_bytes :: "VolJournalEntry \<Rightarrow> u8 list" where
  "journal_entry_bytes e =
     le_bytes 8 (unat (je_start_lba e)) @ le_bytes 4 (unat (je_nlbas e)) @ le_bytes 2 (unat (je_num_old_blks e)) @ [0, 0]"

definition journal_entry_of :: "u8 list \<Rightarrow> VolJournalEntry checked" where
  "journal_entry_of key =
     (if length key < journal_entry_size then Inl OutOfBounds
      else Inr \<lparr>je_start_lba = of_nat (le_value (take 8 key)), je_nlbas = of_nat (le_value (take 4 (drop 8 key))),
                je_num_old_blks = of_nat (le_value (take 2 (drop 12 key)))\<rparr>)"

text \<open>Reading \<open>n\<close> bytes behind a pointer into the key, or into a buffer.\<close>

definition peek :: "nat \<Rightarrow> nat \<Rightarrow> u8 list \<Rightarrow> u8 list checked" where
  "peek pos n b = (if pos + n \<le> length b then Inr (take n (drop pos b)) else Inl OutOfBounds)"

definition peek_buf :: "nat \<Rightarrow> nat \<Rightarrow> u8 list option \<Rightarrow> u8 list checked" where
  "peek_buf pos n mem = (case mem of None \<Rightarrow> if n = 0 then Inr [] else Inl NullDeref | Some b \<Rightarrow> peek pos n b)"

section \<open>Recording the blocks of a piece\<close>

text \<open>
  The inner loop of the write: one block info for every block of a piece. \<open>csum_at\<close> gives the checksum of the block at the running
  position, computed from the data buffer when writing and read from the journal entry when replaying; \<open>step\<close> is the distance to the next one.
\<close>

definition single_blk :: "blk_id \<Rightarrow> nat \<Rightarrow> blk_id" where
  "single_blk blkid i = \<lparr>blk_num = blk_num blkid + of_nat i, blk_count = 1, blk_chunk = blk_chunk blkid\<rparr>"

fun piece_infos :: "blk_api \<Rightarrow> (nat \<Rightarrow> csum_t checked) \<Rightarrow> nat \<Rightarrow> blk_id \<Rightarrow> lba_t \<Rightarrow> nat list \<Rightarrow> nat \<Rightarrow> blocks_info \<Rightarrow> (nat \<times> blocks_info) checked" where
  "piece_infos api csum_at step blkid start_lba [] pos bi = Inr (pos, bi)"
| "piece_infos api csum_at step blkid start_lba (i # is) pos bi =
     bind_sum (csum_at pos) (\<lambda>csum.
       piece_infos api csum_at step blkid start_lba is (pos + step)
         (emplace (start_lba + of_nat i)
            \<lparr>new_blkid = single_blk blkid i, old_blkid = no_blk api, new_checksum = csum, old_checksum = 0\<rparr> bi))"

text \<open>The outer loop: the infos of a piece, then its range of the index. The index of the error case keeps what earlier pieces wrote.\<close>

fun index_pieces ::
  "blk_api \<Rightarrow> 't index_ops \<Rightarrow> (nat \<Rightarrow> csum_t checked) \<Rightarrow> nat \<Rightarrow> blk_id list \<Rightarrow> lba_t \<Rightarrow> nat \<Rightarrow> blocks_info \<Rightarrow> 't \<Rightarrow>
   (unit res \<times> nat \<times> blocks_info \<times> 't) checked" where
  "index_pieces api ix csum_at step [] start_lba pos bi t = Inr (Inr (), pos, bi, t)"
| "index_pieces api ix csum_at step (blkid # blkids) start_lba pos bi t =
     bind_sum (piece_infos api csum_at step blkid start_lba [0..<unat (blk_count blkid)] pos bi) (\<lambda>(pos', bi').
       (let end_lba = start_lba + ucast (blk_count blkid) - 1 in
        (case ix_write ix start_lba end_lba bi' t of
           None \<Rightarrow> Inl Hung
         | Some (Inl e, bi'', t') \<Rightarrow> Inr (Inl e, pos', bi'', t')
         | Some (Inr _, bi'', t') \<Rightarrow> index_pieces api ix csum_at step blkids (end_lba + 1) pos' bi'' t')))"

section \<open>Committing a journal entry\<close>

text \<open>Freeing the blocks an entry lists: at once when replaying, through the device when a write commits.\<close>

fun free_old :: "blk_codec \<Rightarrow> 'd repl_dev \<Rightarrow> int \<Rightarrow> bool \<Rightarrow> u8 list \<Rightarrow> nat \<Rightarrow> nat \<Rightarrow> 'd \<Rightarrow> 'd checked" where
  "free_old codec rd lsn recovery key 0 pos d = Inr d"
| "free_old codec rd lsn recovery key (Suc n) pos d =
     bind_sum (peek pos (blk_sizeof codec) key) (\<lambda>bytes.
       (let old_blkid = blk_parse codec bytes;
            d' = (if is_blk_alloced rd old_blkid d
                  then if recovery then free_blk_now rd old_blkid d else async_free_blks rd lsn old_blkid d
                  else d)
        in free_old codec rd lsn recovery key n (pos + blk_sizeof codec) d'))"

definition csum_in_key :: "u8 list \<Rightarrow> nat \<Rightarrow> csum_t checked" where
  "csum_in_key key pos = bind_sum (peek pos 2 key) (\<lambda>bytes. Inr (of_nat (le_value bytes)))"

text \<open>
  \<open>recovery\<close> is whether the request context is null. The volume that a replayed entry names is looked up by the caller: \<^term>\<open>None\<close> when there is none.
\<close>

definition on_write ::
  "blk_api \<Rightarrow> blk_codec \<Rightarrow> 't index_ops \<Rightarrow> 'd repl_dev \<Rightarrow> int \<Rightarrow> bool \<Rightarrow> u8 list \<Rightarrow> blk_id list \<Rightarrow> 't option \<times> 'd \<Rightarrow> ('t option \<times> 'd) checked" where
  "on_write api codec ix rd lsn recovery key new_blkids w =
     bind_sum (journal_entry_of key) (\<lambda>e.
       (let (vol, d) = w; key_buffer = journal_entry_size in
        if recovery then
          (case vol of
             None \<Rightarrow> Inl ReleaseAssert
           | Some t \<Rightarrow>
               bind_sum (index_pieces api ix (csum_in_key key) 2 new_blkids (je_start_lba e) key_buffer [] t) (\<lambda>(st, pos, _, t').
               (case st of
                  Inl _ \<Rightarrow> Inl ReleaseAssert
                | Inr _ \<Rightarrow>
                    bind_sum (free_old codec rd lsn True key (unat (je_num_old_blks e)) pos d) (\<lambda>d'. Inr (Some t', d')))))
        else
          bind_sum (free_old codec rd lsn False key (unat (je_num_old_blks e)) (key_buffer + unat (je_nlbas e) * 2) d)
            (\<lambda>d'. Inr (vol, d'))))"

text \<open>\<^verbatim>\<open>HBListener::on_commit\<close> dispatches on the type of the message.\<close>

definition on_commit ::
  "blk_api \<Rightarrow> blk_codec \<Rightarrow> 't index_ops \<Rightarrow> 'd repl_dev \<Rightarrow> int \<Rightarrow> bool \<Rightarrow> MsgHeader \<Rightarrow> u8 list \<Rightarrow> blk_id list \<Rightarrow> 't option \<times> 'd \<Rightarrow> ('t option \<times> 'd) checked" where
  "on_commit api codec ix rd lsn recovery header key blkids w =
     (case msg_type header of
        WRITE \<Rightarrow> on_write api codec ix rd lsn recovery key blkids w
      | READ \<Rightarrow> Inr w
      | UNMAP \<Rightarrow> Inr w)"

section \<open>Writing\<close>

definition csum_of_data :: "(u16 \<Rightarrow> u8 list \<Rightarrow> csum_t) \<Rightarrow> u32 \<Rightarrow> u8 list option \<Rightarrow> nat \<Rightarrow> csum_t checked" where
  "csum_of_data crc16_t10dif blk_size mem pos =
     bind_sum (peek_buf pos (unat blk_size) mem) (\<lambda>bytes. Inr (crc16_t10dif init_crc_16 bytes))"

definition old_blkids_of :: "blk_api \<Rightarrow> blocks_info \<Rightarrow> blk_id list" where
  "old_blkids_of api bi = filter (is_valid api) (map (\<lambda>(_, i). old_blkid i) bi)"

text \<open>\<^verbatim>\<open>blocks_info[lba].new_checksum\<close> for every address of the request.\<close>

definition key_csums :: "blk_api \<Rightarrow> io_req \<Rightarrow> blocks_info \<Rightarrow> u8 list" where
  "key_csums api req bi =
     concat (map (\<lambda>i. le_bytes 2 (unat (new_checksum (info_at api (req_lba req + of_nat i) bi)))) [0..<unat (req_nlbas req)])"

definition journal_key :: "blk_api \<Rightarrow> blk_codec \<Rightarrow> io_req \<Rightarrow> blocks_info \<Rightarrow> u8 list" where
  "journal_key api codec req bi =
     (let old_blkids = old_blkids_of api bi in
      journal_entry_bytes \<lparr>je_start_lba = req_lba req, je_nlbas = req_nlbas req, je_num_old_blks = of_nat (length old_blkids)\<rparr> @
      key_csums api req bi @ concat (map (blk_bytes codec) old_blkids))"

text \<open>
  The end of a write. The promise the write waits for is completed by \<^verbatim>\<open>on_write\<close> alone; \<^verbatim>\<open>HBListener::on_error\<close> is empty, so a journal
  entry that is not committed leaves the write waiting.
\<close>

definition write_journal_entry ::
  "blk_api \<Rightarrow> blk_codec \<Rightarrow> 't index_ops \<Rightarrow> 'd repl_dev \<Rightarrow> volume_id_t \<Rightarrow> io_req \<Rightarrow> u32 \<Rightarrow> blk_id list \<Rightarrow> blocks_info \<Rightarrow> 't \<Rightarrow> 'd \<Rightarrow>
   (unit res \<times> 't \<times> 'd) checked" where
  "write_journal_entry api codec ix rd vol_id req data_size new_blkids bi t d =
     (let header = \<lparr>msg_type = WRITE, volume_id = vol_id\<rparr>; key = journal_key api codec req bi;
          (committed, d') = async_write_journal rd new_blkids header key data_size d
      in (case committed of
            None \<Rightarrow> Inl Hung
          | Some lsn \<Rightarrow>
              bind_sum (on_commit api codec ix rd lsn False header key new_blkids (Some t, d')) (\<lambda>(_, d'').
              Inr (Inr (), t, d''))))"

definition volume_write ::
  "blk_api \<Rightarrow> blk_codec \<Rightarrow> 't index_ops \<Rightarrow> 'd repl_dev \<Rightarrow> (u16 \<Rightarrow> u8 list \<Rightarrow> csum_t) \<Rightarrow> volume_id_t \<Rightarrow> u64 \<Rightarrow> io_req \<Rightarrow> 't \<times> 'd \<Rightarrow>
   (unit res \<times> 't \<times> 'd) checked" where
  "volume_write api codec ix rd crc16_t10dif vol_id ordinal req w =
     (let (t, d) = w; data_size = req_nlbas req * get_blk_size rd; (alloc_res, d1) = alloc_blks rd data_size ordinal d in
      (case alloc_res of
         None \<Rightarrow> Inr (Inl (Errc no_space_on_device), t, d1)
       | Some new_blkids \<Rightarrow>
           bind_sum (peek_buf 0 (unat data_size) (req_buffer req)) (\<lambda>data.
           (let (wr, d2) = async_write rd new_blkids data d1 in
            if \<not> wr then Inr (Inl (Errc io_error), t, d2)
            else
              bind_sum (index_pieces api ix (csum_of_data crc16_t10dif (get_blk_size rd) (req_buffer req)) (unat (get_blk_size rd))
                  new_blkids (req_lba req) 0 [] t) (\<lambda>(idx_res, _, bi, t').
              (case idx_res of
                 Inl _ \<Rightarrow> Inr (Inl (VolErr INDEX_ERROR), t', d2)
               | Inr _ \<Rightarrow> write_journal_entry api codec ix rd vol_id req data_size new_blkids bi t' d2))))))"

end
