(* ===== verification/Volume_Blocks.thy ===== *)
theory Volume_Blocks
  imports Volume_Read
begin

text \<open>
  What the steps of a read do, block by block: coalescing keeps every block, the holes of the request are zeroed and the reads go to the
  places of their blocks, and the verification compares every block that the index maps.
\<close>

section \<open>Coalescing loses nothing\<close>

definition kv_entry :: "lba_t \<times> index_value \<Rightarrow> lba_t \<times> u32 \<times> u16" where
  "kv_entry e = (fst e, kv_blk_num e, kv_chunk e)"

definition piece_entries :: "lba_t \<times> blk_id \<Rightarrow> (lba_t \<times> u32 \<times> u16) list" where
  "piece_entries p = map (\<lambda>j. (fst p + of_nat j, blk_num (snd p) + of_nat j, blk_chunk (snd p))) [0..<unat (blk_count (snd p))]"

definition run_from :: "index_kv_list \<Rightarrow> nat \<Rightarrow> nat \<Rightarrow> bool" where
  "run_from kvs s m \<longleftrightarrow> (\<forall>j. s \<le> j \<longrightarrow> j < m \<longrightarrow>
     kv_entry (kvs ! j) = (fst (kvs ! s) + of_nat (j - s), kv_blk_num (kvs ! s) + of_nat (j - s), kv_chunk (kvs ! s)))"

lemma run_fromD:
  "run_from kvs s m \<Longrightarrow> s \<le> j \<Longrightarrow> j < m \<Longrightarrow>
     kv_entry (kvs ! j) = (fst (kvs ! s) + of_nat (j - s), kv_blk_num (kvs ! s) + of_nat (j - s), kv_chunk (kvs ! s))"
  by (simp add: run_from_def)

lemma run_from_single: "run_from kvs i (Suc i)"
  by (auto simp: run_from_def kv_entry_def less_Suc_eq)

definition run_piece :: "index_kv_list \<Rightarrow> nat \<Rightarrow> nat \<Rightarrow> lba_t \<times> blk_id" where
  "run_piece kvs s c = (fst (kvs ! s), \<lparr>blk_num = kv_blk_num (kvs ! s), blk_count = of_nat c, blk_chunk = kv_chunk (kvs ! s)\<rparr>)"

lemma blkids_step_cases:
  "is_contiguous kvs i \<Longrightarrow> Suc i < length kvs \<Longrightarrow> blkids_step kvs i (st, out) = (st, out)"
  "is_contiguous kvs i \<Longrightarrow> Suc i = length kvs \<Longrightarrow> blkids_step kvs i (st, out) = (i, out @ [run_piece kvs st (i - st + 1)])"
  "\<not> is_contiguous kvs i \<Longrightarrow> Suc i < length kvs \<Longrightarrow> blkids_step kvs i (st, out) = (i, out @ [run_piece kvs st (i - st)])"
  "\<not> is_contiguous kvs i \<Longrightarrow> Suc i = length kvs \<Longrightarrow>
     blkids_step kvs i (st, out) = (i, out @ [run_piece kvs st (i - st), run_piece kvs i 1])"
  by (auto simp: blkids_step_def run_piece_def Let_def)

lemma run_piece_count: "unat (blk_count (snd (run_piece kvs s c))) = (if c < 2 ^ 16 then c else c mod 2 ^ 16)"
  by (simp add: run_piece_def unat_of_nat)

lemma run_piece_entries:
  assumes "run_from kvs s m" "s \<le> m" "m \<le> length kvs" "m - s < 2 ^ 16"
  shows "piece_entries (run_piece kvs s (m - s)) = map kv_entry (drop s (take m kvs))"
proof (rule nth_equalityI)
  have c: "unat (blk_count (snd (run_piece kvs s (m - s)))) = m - s" using assms(4) by (simp add: run_piece_count)
  show "length (piece_entries (run_piece kvs s (m - s))) = length (map kv_entry (drop s (take m kvs)))"
    using assms(3) by (simp add: piece_entries_def c)
  fix i assume "i < length (piece_entries (run_piece kvs s (m - s)))"
  then have i: "i < m - s" by (simp add: piece_entries_def c)
  have "kv_entry (kvs ! (s + i)) = (fst (kvs ! s) + of_nat i, kv_blk_num (kvs ! s) + of_nat i, kv_chunk (kvs ! s))"
    using run_fromD [OF assms(1), of "s + i"] i by simp
  moreover have "piece_entries (run_piece kvs s (m - s)) ! i = (fst (kvs ! s) + of_nat i, kv_blk_num (kvs ! s) + of_nat i, kv_chunk (kvs ! s))"
    using i unfolding piece_entries_def c by (simp add: run_piece_def)
  ultimately show "piece_entries (run_piece kvs s (m - s)) ! i = map kv_entry (drop s (take m kvs)) ! i"
    using i assms(2,3) by simp
qed

lemma run_from_contiguous:
  assumes "is_contiguous kvs i" "run_from kvs s i" "s \<le> i" "0 < i \<Longrightarrow> s < i"
  shows "run_from kvs s (Suc i)"
  unfolding run_from_def
proof (intro allI impI)
  fix j assume j: "s \<le> j" "j < Suc i"
  show "kv_entry (kvs ! j) = (fst (kvs ! s) + of_nat (j - s), kv_blk_num (kvs ! s) + of_nat (j - s), kv_chunk (kvs ! s))"
  proof (cases "j = i \<and> 0 < i")
    case True
    then have pre: "kv_entry (kvs ! (i - 1)) = (fst (kvs ! s) + of_nat (i - 1 - s), kv_blk_num (kvs ! s) + of_nat (i - 1 - s), kv_chunk (kvs ! s))"
      using assms(4) by (intro run_fromD [OF assms(2)]) auto
    have "i - s = Suc (i - 1 - s)" using True assms(4) by simp
    then have n: "of_nat (i - s) = (of_nat (i - 1 - s) :: u64) + 1" "of_nat (i - s) = (of_nat (i - 1 - s) :: u32) + 1"
      by (simp_all only: of_nat_Suc add.commute)
    have j: "j = i" "i \<noteq> 0" using True by auto
    show ?thesis using pre assms(1) j(2) unfolding is_contiguous_def kv_entry_def j(1) n
      by (simp only: prod.inject add.assoc simp_thms)
  next
    case False
    then consider "j < i" | "j = 0" "s = 0" using assms(3) j by fastforce
    then show ?thesis by cases (use run_fromD [OF assms(2) j(1)] in \<open>simp_all add: kv_entry_def\<close>)
  qed
qed

definition blkids_inv :: "index_kv_list \<Rightarrow> nat \<Rightarrow> nat \<times> read_blks_list \<Rightarrow> bool" where
  "blkids_inv kvs i s \<longleftrightarrow> fst s \<le> i \<and> (0 < i \<longrightarrow> fst s < i) \<and> run_from kvs (fst s) i \<and>
     concat (map piece_entries (snd s)) = map kv_entry (take (fst s) kvs) \<and> (\<forall>p\<in>set (snd s). blk_count (snd p) \<noteq> 0)"

lemma run_piece_nonzero: "0 < c \<Longrightarrow> c < 2 ^ 16 \<Longrightarrow> blk_count (snd (run_piece kvs s c)) \<noteq> 0"
  using run_piece_count [of kvs s c] by auto

lemma take_drop_take: "s \<le> m \<Longrightarrow> map f (take s xs) @ map f (drop s (take m xs)) = map f (take m xs)"
  by (metis append_take_drop_id map_append min.absorb1 take_take)

lemma blkids_step_inv:
  assumes "length kvs < 2 ^ 16" "Suc i < length kvs" "blkids_inv kvs i s"
  shows "blkids_inv kvs (Suc i) (blkids_step kvs i s)"
proof -
  obtain st out where s: "s = (st, out)" by (cases s)
  note I = assms(3) [unfolded blkids_inv_def s fst_conv snd_conv]
  show ?thesis
  proof (cases "is_contiguous kvs i")
    case True
    then have "run_from kvs st (Suc i)" using I by (auto intro: run_from_contiguous)
    then show ?thesis using True I assms(2) s by (auto simp: blkids_step_cases blkids_inv_def)
  next
    case False
    then have i: "0 < i" by (auto simp: is_contiguous_def)
    have pe: "piece_entries (run_piece kvs st (i - st)) = map kv_entry (drop st (take i kvs))"
      using I assms(1,2) by (intro run_piece_entries) auto
    have nz: "blk_count (snd (run_piece kvs st (i - st))) \<noteq> 0" using I i assms(1,2) by (intro run_piece_nonzero) auto
    show ?thesis using False I i s pe nz assms(2) take_drop_take [of st i kv_entry kvs] run_from_single [of kvs i]
      by (auto simp: blkids_step_cases blkids_inv_def)
  qed
qed

lemma blkids_inv_fold:
  assumes "length kvs < 2 ^ 16" "i < length kvs"
  shows "blkids_inv kvs i (fold (blkids_step kvs) [0..<i] (0, []))"
  using assms(2)
proof (induction i)
  case 0
  then show ?case by (simp add: blkids_inv_def run_from_def)
next
  case (Suc i)
  then show ?case using blkids_step_inv [OF assms(1) Suc.prems] by simp
qed

lemma coalesce_lossless:
  assumes "length kvs < 2 ^ 16"
  shows "concat (map piece_entries (generate_blkids_to_read kvs)) = map kv_entry kvs \<and>
    (\<forall>p\<in>set (generate_blkids_to_read kvs). blk_count (snd p) \<noteq> 0)"
proof (cases "kvs = []")
  case True
  then show ?thesis by (simp add: generate_blkids_to_read_def)
next
  case False
  define i where "i = length kvs - 1"
  have i: "Suc i = length kvs" "i < length kvs" using False by (auto simp: i_def)
  obtain st out where s: "fold (blkids_step kvs) [0..<i] (0, []) = (st, out)" by (meson surj_pair)
  have gen: "generate_blkids_to_read kvs = snd (blkids_step kvs i (st, out))"
    unfolding generate_blkids_to_read_def i(1) [symmetric] by (simp add: s)
  note I = blkids_inv_fold [OF assms i(2), unfolded s blkids_inv_def fst_conv snd_conv]
  show ?thesis
  proof (cases "is_contiguous kvs i")
    case True
    then have "run_from kvs st (Suc i)" using I by (auto intro: run_from_contiguous)
    then have "piece_entries (run_piece kvs st (Suc i - st)) = map kv_entry (drop st (take (Suc i) kvs))"
      using I i assms by (intro run_piece_entries) auto
    moreover have "blk_count (snd (run_piece kvs st (Suc i - st))) \<noteq> 0" using I i assms by (intro run_piece_nonzero) auto
    moreover have "Suc i - st = i - st + 1" using I by (simp add: Suc_diff_le)
    ultimately show ?thesis using True I i gen take_drop_take [of st "Suc i" kv_entry kvs]
      by (auto simp: blkids_step_cases)
  next
    case F: False
    then have i0: "0 < i" by (auto simp: is_contiguous_def)
    have "piece_entries (run_piece kvs st (i - st)) = map kv_entry (drop st (take i kvs))"
      using I i assms by (intro run_piece_entries) auto
    moreover have "blk_count (snd (run_piece kvs st (i - st))) \<noteq> 0" using I i i0 assms by (intro run_piece_nonzero) auto
    moreover have "piece_entries (run_piece kvs i 1) = [kv_entry (kvs ! i)]" by (simp add: piece_entries_def kv_entry_def run_piece_def)
    moreover have "map kv_entry kvs = map kv_entry (take i kvs) @ [kv_entry (kvs ! i)]"
    proof -
      have "kvs = take i kvs @ [kvs ! i]" using take_Suc_conv_app_nth [OF i(2)] i(1) by simp
      from arg_cong [OF this, of "map kv_entry"] show ?thesis by (simp only: map_append list.map)
    qed
    ultimately show ?thesis using I take_drop_take [of st i kv_entry kvs] run_piece_nonzero [of 1 kvs i]
      unfolding gen blkids_step_cases(4) [OF F i(1)] by simp
  qed
qed

section \<open>Buffers, block by block\<close>

definition blk_at :: "nat \<Rightarrow> u8 list \<Rightarrow> nat \<Rightarrow> u8 list" where
  "blk_at bs b j = take bs (drop (j * bs) b)"

lemma concat_blk_at: "n * bs \<le> length b \<Longrightarrow> concat (map (blk_at bs b) [0..<n]) = take (n * bs) b"
proof (induction n)
  case (Suc n)
  then have "concat (map (blk_at bs b) [0..<Suc n]) = take (n * bs) b @ take bs (drop (n * bs) b)" by (simp flip: blk_at_def)
  then show ?case by (simp only: take_add [symmetric] mult_Suc add.commute)
qed simp

lemma length_buf_store [simp]: "pos + length xs \<le> length b \<Longrightarrow> length (buf_store pos xs b) = length b"
  by (simp add: buf_store_def)

lemma buf_store_Nil [simp]: "buf_store pos [] b = b"
  by (simp add: buf_store_def)

lemma nth_buf_store:
  "pos + length xs \<le> length b \<Longrightarrow> q < length b \<Longrightarrow>
     buf_store pos xs b ! q = (if pos \<le> q \<and> q < pos + length xs then xs ! (q - pos) else b ! q)"
  by (auto simp: buf_store_def nth_append min_def)

lemma blk_at_store:
  assumes "length xs = k * bs" "(i + k) * bs \<le> length b" "Suc j * bs \<le> length b"
  shows "blk_at bs (buf_store (i * bs) xs b) j = (if i \<le> j \<and> j < i + k then blk_at bs xs (j - i) else blk_at bs b j)"
proof (rule nth_equalityI)
  have len: "i * bs + length xs \<le> length b" using assms(1,2) by (simp add: algebra_simps)
  have in_range: "Suc (j - i) * bs \<le> k * bs" if "i \<le> j" "j < i + k"
    using that by (intro mult_le_mono1) auto
  show "length (blk_at bs (buf_store (i * bs) xs b) j) = length (if i \<le> j \<and> j < i + k then blk_at bs xs (j - i) else blk_at bs b j)"
    using len assms in_range by (auto simp: blk_at_def algebra_simps)
  fix q assume "q < length (blk_at bs (buf_store (i * bs) xs b) j)"
  then have q: "q < bs" by (simp add: blk_at_def)
  have qb: "j * bs + q < length b" using q assms(3) by simp
  have lo: "i * bs \<le> j * bs + q \<longleftrightarrow> i \<le> j"
  proof
    assume "i * bs \<le> j * bs + q"
    then have "i * bs < Suc j * bs" using q by simp
    then show "i \<le> j" using mult_less_cancel2 by (metis less_Suc_eq_le)
  next
    assume "i \<le> j"
    then show "i * bs \<le> j * bs + q" by (simp add: trans_le_add1)
  qed
  have hi: "j * bs + q < i * bs + k * bs \<longleftrightarrow> j < i + k"
  proof
    assume "j * bs + q < i * bs + k * bs"
    then have "j * bs < (i + k) * bs" by (simp add: algebra_simps)
    then show "j < i + k" using mult_less_cancel2 by blast
  next
    assume "j < i + k"
    then have "Suc j * bs \<le> (i + k) * bs" by (intro mult_le_mono1) simp
    then show "j * bs + q < i * bs + k * bs" using q by (simp add: algebra_simps)
  qed
  have "blk_at bs (buf_store (i * bs) xs b) j ! q = buf_store (i * bs) xs b ! (j * bs + q)"
    using q assms(3) len by (simp add: blk_at_def)
  also have "\<dots> = (if i \<le> j \<and> j < i + k then xs ! (j * bs + q - i * bs) else b ! (j * bs + q))"
    using nth_buf_store [OF len qb] lo hi assms(1) by simp
  also have "\<dots> = (if i \<le> j \<and> j < i + k then blk_at bs xs (j - i) else blk_at bs b j) ! q"
    using q assms in_range by (auto simp: blk_at_def diff_mult_distrib)
  finally show "blk_at bs (buf_store (i * bs) xs b) j ! q = (if i \<le> j \<and> j < i + k then blk_at bs xs (j - i) else blk_at bs b j) ! q" .
qed

lemma blk_at_zeros: "j < h \<Longrightarrow> blk_at bs (replicate (h * bs) 0) j = replicate bs 0"
proof -
  assume "j < h"
  then have "Suc j * bs \<le> h * bs" by (intro mult_le_mono1) simp
  then show ?thesis by (simp add: blk_at_def min_def)
qed

lemma blk_at_concat:
  assumes "\<And>k. k < c \<Longrightarrow> length (f k) = bs" "j < c"
  shows "blk_at bs (concat (map f [0..<c])) j = f j" "length (concat (map f [0..<c])) = c * bs"
proof -
  have len: "length (concat (map f [0..<m])) = m * bs" if "m \<le> c" for m
    using that assms(1) by (induction m) auto
  show "length (concat (map f [0..<c])) = c * bs" by (rule len) simp
  have "[0..<c] = [0..<j] @ j # [Suc j..<c]" using assms(2) by (metis le_add_diff_inverse less_imp_le_nat upt_add_eq_append upt_conv_Cons zero_le)
  then show "blk_at bs (concat (map f [0..<c])) j = f j" using len [of j] assms by (simp add: blk_at_def)
qed

section \<open>Pieces\<close>

text \<open>The pieces to read, in order, between \<open>cur\<close> and \<open>e\<close>; and the block each address is read from.\<close>

fun pieces_ok :: "nat \<Rightarrow> nat \<Rightarrow> read_blks_list \<Rightarrow> bool" where
  "pieces_ok cur e [] \<longleftrightarrow> cur \<le> e"
| "pieces_ok cur e (p # ps) \<longleftrightarrow> cur \<le> unat (fst p) \<and> pieces_ok (unat (fst p) + unat (blk_count (snd p))) e ps"

definition piece_map :: "read_blks_list \<Rightarrow> lba_t \<Rightarrow> (u32 \<times> u16) option" where
  "piece_map ps = map_of (concat (map piece_entries ps))"

lemma pieces_ok_le: "pieces_ok cur e ps \<Longrightarrow> cur \<le> e"
  by (induction ps arbitrary: cur) force+

lemma map_of_piece:
  assumes "unat l + unat (blk_count b) \<le> 2 ^ 32"
  shows "map_of (piece_entries (l, b)) x =
    (if unat l \<le> unat x \<and> unat x < unat l + unat (blk_count b) then Some (blk_num b + of_nat (unat x - unat l), blk_chunk b) else None)"
proof -
  let ?c = "unat (blk_count b)"
  have u: "unat (l + of_nat j) = unat l + j" if "j < ?c" for j
    using that assms by (simp add: unat_word_ariths unat_of_nat)
  have dist: "distinct (map fst (piece_entries (l, b)))"
    by (auto simp: piece_entries_def distinct_map inj_on_def comp_def) (metis add_left_cancel u)
  show ?thesis
  proof (cases "unat l \<le> unat x \<and> unat x < unat l + ?c")
    case True
    then have j: "unat x - unat l < ?c" by linarith
    then have "x = l + of_nat (unat x - unat l)" using u [OF j] True by (simp add: word_unat_eq_iff)
    then have "(x, blk_num b + of_nat (unat x - unat l), blk_chunk b) \<in> set (piece_entries (l, b))"
      using j by (auto simp: piece_entries_def intro!: image_eqI [of _ _ "unat x - unat l"])
    then show ?thesis using True dist by simp
  next
    case False
    then have "x \<notin> fst ` set (piece_entries (l, b))" using u by (auto simp: piece_entries_def)
    then show ?thesis using False by (auto simp: map_of_eq_None_iff)
  qed
qed

lemma piece_map_Cons:
  assumes "unat (fst p) + unat (blk_count (snd p)) \<le> 2 ^ 32"
  shows "piece_map (p # ps) x =
    (if unat (fst p) \<le> unat x \<and> unat x < unat (fst p) + unat (blk_count (snd p))
     then Some (blk_num (snd p) + of_nat (unat x - unat (fst p)), blk_chunk (snd p)) else piece_map ps x)"
  using map_of_piece [OF assms, of x] by (auto simp: piece_map_def map_add_def)

lemma piece_map_before:
  assumes "pieces_ok cur e ps" "e \<le> 2 ^ 32" "unat x < cur"
  shows "piece_map ps x = None"
  using assms
proof (induction ps arbitrary: cur)
  case (Cons p ps)
  let ?c = "unat (fst p) + unat (blk_count (snd p))"
  have "?c \<le> e" using Cons.prems(1) by (auto intro: pieces_ok_le)
  moreover have "unat x < ?c" using Cons.prems(1,3) by (simp add: trans_less_add1)
  ultimately show ?case using Cons piece_map_Cons [of p ps x] by auto
qed (simp add: piece_map_def)

lemma pieces_ok_of_entries:
  assumes "sorted_wrt (<) (map fst (concat (map piece_entries ps)))" "\<forall>p\<in>set ps. blk_count (snd p) \<noteq> 0"
    and "\<forall>x\<in>set (map fst (concat (map piece_entries ps))). cur \<le> unat x \<and> unat x < e" "cur \<le> e" "e < 2 ^ 32"
  shows "pieces_ok cur e ps"
  using assms
proof (induction ps arbitrary: cur)
  case (Cons p ps)
  obtain l b where p: "p = (l, b)" by (cases p)
  define c where "c = unat (blk_count b)"
  have c: "0 < c" "c < 2 ^ 16" using Cons.prems(2) p u16_bound [of "blk_count b"] by (auto simp: c_def unat_gt_0)
  have mem: "l + of_nat j \<in> fst ` set (piece_entries p)" if "j < c" for j
    using that by (force simp: p piece_entries_def c_def)
  have el: "cur \<le> unat (l + of_nat j) \<and> unat (l + of_nat j) < e" if "j < c" for j
    using mem [OF that] Cons.prems(3) by simp
  have l: "cur \<le> unat l" "unat l < e" using el [of 0] c(1) by auto
  then have u: "unat (l + of_nat j) = unat l + j" if "j < c" for j
    using that c(2) Cons.prems(5) by (simp add: unat_word_ariths unat_of_nat)
  have e: "unat l + c \<le> e" using el [of "c - 1"] u [of "c - 1"] c(1) by linarith
  have "unat l + c \<le> unat x" if "x \<in> set (map fst (concat (map piece_entries ps)))" for x
  proof -
    have "sorted_wrt (<) (map fst (piece_entries p) @ map fst (concat (map piece_entries ps)))" using Cons.prems(1) by simp
    moreover have "l + of_nat (c - 1) \<in> set (map fst (piece_entries p))" using mem [of "c - 1"] c(1) by simp
    ultimately have "l + of_nat (c - 1) < x" using that unfolding sorted_wrt_append by blast
    then show ?thesis using u [of "c - 1"] c(1) by (simp add: word_less_nat_alt)
  qed
  then have "pieces_ok (unat l + c) e ps"
    using Cons.prems e by (intro Cons.IH) (auto simp: sorted_wrt_append)
  then show ?case using l p by (simp add: c_def)
qed simp

section \<open>Zeroing the holes\<close>

text \<open>
  The state of the submit loop at block \<open>cur\<close> of a request of \<open>n\<close> blocks from \<open>L\<close> on, with the blocks of the buffer as \<open>img\<close> says.
\<close>

definition at_block :: "nat \<Rightarrow> nat \<Rightarrow> nat \<Rightarrow> (nat \<Rightarrow> u8 list) \<Rightarrow> nat \<Rightarrow> read_state \<Rightarrow> bool" where
  "at_block L n bs img cur s \<longleftrightarrow> L \<le> cur \<and> cur \<le> L + n \<and> prev_lba s + prev_nblks s = of_nat cur \<and> rs_pos s = (cur - L) * bs \<and>
     (\<exists>b. rs_mem s = Some b \<and> length b = n * bs \<and> (\<forall>j<n. blk_at bs b j = img (L + j)))"

lemma at_block_cong: "at_block L n bs img cur s \<Longrightarrow> (\<And>x. L \<le> x \<Longrightarrow> x < L + n \<Longrightarrow> img x = img' x) \<Longrightarrow> at_block L n bs img' cur s"
  unfolding at_block_def by auto

lemma unat_of_nat_cur: "cur < 2 ^ 32 \<Longrightarrow> unat (ucast (of_nat cur :: u32) :: u64) = cur"
  by (simp add: unat_of_nat unsigned_ucast_eq take_bit_nat_eq_self)

lemma ucast_u32_of_nat: "unat (w :: u32) = m \<Longrightarrow> (ucast w :: u64) = of_nat m"
  using u32_bound [of w] by (auto simp: word_unat_eq_iff unsigned_ucast_eq take_bit_nat_eq_self unat_of_nat)

lemma unat_of_nat_u64: "m < 2 ^ 32 \<Longrightarrow> unat (of_nat m :: u64) = m"
  by (simp add: unat_of_nat)

lemma fill_hole_ok:
  assumes "at_block L n bs img cur s" "cur \<le> x" "x \<le> L + n" "(x - cur) * bs < 2 ^ 64" "unat hs = (x - cur) * bs"
  shows "\<exists>s'. fill_hole hs s = Inr s' \<and> rs_futs s' = rs_futs s \<and> prev_lba s' = prev_lba s \<and> prev_nblks s' = prev_nblks s \<and>
    rs_pos s' = (x - L) * bs \<and>
    (\<exists>b. rs_mem s' = Some b \<and> length b = n * bs \<and> (\<forall>j<n. blk_at bs b j = (if cur \<le> L + j \<and> L + j < x then replicate bs 0 else img (L + j))))"
proof -
  obtain b where b: "rs_mem s = Some b" "length b = n * bs" "\<forall>j<n. blk_at bs b j = img (L + j)" and s: "L \<le> cur" "rs_pos s = (cur - L) * bs"
    using assms(1) unfolding at_block_def by blast
  define b' where "b' = buf_store ((cur - L) * bs) (replicate ((x - cur) * bs) 0) b"
  have sum: "(cur - L) * bs + (x - cur) * bs = (x - L) * bs" using s(1) assms(2) by (simp flip: add_mult_distrib)
  have fits: "(cur - L) * bs + (x - cur) * bs \<le> length b"
    unfolding sum b(2) using assms(3) by (intro mult_le_mono1) simp
  have blocks: "blk_at bs b' j = (if cur \<le> L + j \<and> L + j < x then replicate bs 0 else img (L + j))" if "j < n" for j
  proof -
    have "Suc j * bs \<le> length b" unfolding b(2) using that by (intro mult_le_mono1) simp
    moreover have "(cur - L + (x - cur)) * bs \<le> length b" using fits by (simp add: add_mult_distrib)
    ultimately have "blk_at bs b' j = (if cur - L \<le> j \<and> j < cur - L + (x - cur)
        then blk_at bs (replicate ((x - cur) * bs) 0) (j - (cur - L)) else blk_at bs b j)"
      unfolding b'_def by (intro blk_at_store) simp_all
    then show ?thesis using that b(3) s(1) assms(2) blk_at_zeros [of "j - (cur - L)" "x - cur" bs] by auto
  qed
  show ?thesis
  proof (cases "hs = 0")
    case True
    then have "(x - cur) * bs = 0" using assms(5) by (metis unat_0)
    then have "b' = b" by (simp only: b'_def replicate_0 buf_store_Nil)
    then show ?thesis using True blocks b s sum assms(5) by (auto simp: fill_hole_def)
  next
    case False
    then have "hs > 0" by (simp add: word_gt_0)
    then have "fill_hole hs s = Inr (s\<lparr>rs_mem := Some b', rs_pos := (x - L) * bs\<rparr>)"
      using fits sum b s assms(5) by (simp add: fill_hole_def memset_zero_def b'_def)
    then show ?thesis using blocks fits b(2) by (simp add: b'_def)
  qed
qed

definition fut_of :: "nat \<Rightarrow> nat \<Rightarrow> lba_t \<times> blk_id \<Rightarrow> blk_id \<times> nat \<times> u64" where
  "fut_of L bs p = (snd p, (unat (fst p) - L) * bs, of_nat (unat (blk_count (snd p)) * bs))"

lemma hole_size:
  assumes "cur \<le> unat (l :: u64)" "(unat l - cur) * unat blk_size < 2 ^ 64" "cur < 2 ^ 32"
  shows "unat ((l - ucast (of_nat cur :: u32)) * ucast (blk_size :: u32)) = (unat l - cur) * unat blk_size"
proof -
  have c: "unat (ucast (of_nat cur :: u32) :: u64) = cur" using assms(3) by (rule unat_of_nat_cur)
  then have d: "unat (l - ucast (of_nat cur :: u32)) = unat l - cur" using assms(1) by (simp add: unat_sub word_le_nat_alt)
  have "unat (ucast blk_size :: u64) = unat blk_size"
    using u32_bound [of blk_size] by (simp add: unsigned_ucast_eq take_bit_nat_eq_self)
  then show ?thesis using assms(2) d by (simp add: unat_word_ariths)
qed

lemma submit_step_ok:
  assumes at: "at_block L n bs img cur s" and bs: "bs = unat blk_size" and E: "L + n < 2 ^ 32" "n * bs < 2 ^ 32"
    and p: "cur \<le> unat (fst p)" "unat (fst p) + unat (blk_count (snd p)) \<le> L + n"
  defines "cur' \<equiv> unat (fst p) + unat (blk_count (snd p))"
  shows "\<exists>s'. submit_step blk_size p s = Inr s' \<and> rs_futs s' = rs_futs s @ [fut_of L bs p] \<and>
    at_block L n bs (\<lambda>x. if cur \<le> x \<and> x < unat (fst p) then replicate bs 0 else img x) cur' s'"
proof -
  obtain l b where lb: "p = (l, b)" by (cases p)
  have L: "L \<le> cur" "cur \<le> L + n" "prev_lba s + prev_nblks s = of_nat cur" using at unfolding at_block_def by auto
  have small: "x < 2 ^ 64" if "x \<le> n * bs" for x :: nat using that E(2) by simp
  have lim: "(unat l - cur) * bs < 2 ^ 64" using p L lb by (intro small mult_le_mono1) simp
  have hs: "unat ((l - ucast (prev_lba s + prev_nblks s)) * ucast blk_size) = (unat l - cur) * bs"
    unfolding L(3) bs using p lb lim bs E(1) L(2) by (intro hole_size) auto
  obtain s1 where s1: "fill_hole ((l - ucast (prev_lba s + prev_nblks s)) * ucast blk_size) s = Inr s1" "rs_futs s1 = rs_futs s"
    "rs_pos s1 = (unat l - L) * bs"
    "\<exists>b. rs_mem s1 = Some b \<and> length b = n * bs \<and> (\<forall>j<n. blk_at bs b j = (if cur \<le> L + j \<and> L + j < unat l then replicate bs 0 else img (L + j)))"
    using fill_hole_ok [OF at _ _ lim hs] p lb by auto
  have "unat (blk_count b) * bs \<le> n * bs" using p L lb by (intro mult_le_mono1) simp
  then have c32: "unat (blk_count b) * bs < 2 ^ 32" using E(2) by linarith
  have "unat (ucast (blk_count b) :: u32) = unat (blk_count b)"
    using u16_bound [of "blk_count b"] by (simp add: unsigned_ucast_eq take_bit_nat_eq_self)
  then have "unat (ucast (blk_count b) * blk_size :: u32) = unat (blk_count b) * bs" using c32 bs by (simp add: unat_word_ariths)
  then have sz: "(ucast (ucast (blk_count b) * blk_size :: u32) :: u64) = of_nat (unat (blk_count b) * bs)"
    "unat (of_nat (unat (blk_count b) * bs) :: u64) = unat (blk_count b) * bs"
    using ucast_u32_of_nat unat_of_nat_u64 c32 by blast+
  have "unat (ucast l :: u32) = unat l" using p E lb by (simp add: unsigned_ucast_eq take_bit_nat_eq_self)
  then have pl: "(ucast l :: u32) + ucast (blk_count b) = of_nat cur'"
    using u16_bound [of "blk_count b"] lb
    by (simp add: cur'_def word_unat_eq_iff unat_word_ariths unat_of_nat unsigned_ucast_eq take_bit_eq_mod mod_add_left_eq mod_add_right_eq)
  have pos: "(unat l - L) * bs + unat (blk_count b) * bs = (cur' - L) * bs"
    using p L lb by (simp add: cur'_def flip: add_mult_distrib)
  show ?thesis using s1 sz pl pos p L lb
    by (auto simp: submit_step_def Let_def fut_of_def at_block_def cur'_def)
qed

end
