(* ===== verification/Volume_Image.thy ===== *)
theory Volume_Image
  imports Volume_Blocks
begin

text \<open>
  The whole read: after the submit phase every hole of the request is zero, the device reads fill in the mapped blocks, and the
  verification passes exactly when every mapped block has its checksum. The image of a volume is what a read is to return.
\<close>

section \<open>The submit phase\<close>

text \<open>Blocks that no piece covers are zeroed.\<close>

definition holes_zeroed :: "nat \<Rightarrow> nat \<Rightarrow> read_blks_list \<Rightarrow> nat \<Rightarrow> (nat \<Rightarrow> u8 list) \<Rightarrow> nat \<Rightarrow> u8 list" where
  "holes_zeroed bs cur ps cur' img x =
     (if cur \<le> x \<and> x < cur' \<and> piece_map ps (of_nat x) = None then replicate bs 0 else img x)"

lemma submit_loop_ok:
  assumes "at_block L n bs img cur s" "bs = unat blk_size" "L + n < 2 ^ 32" "n * bs < 2 ^ 32" "pieces_ok cur (L + n) ps"
  shows "\<exists>s' cur'. submit_loop blk_size ps s = Inr s' \<and> rs_futs s' = rs_futs s @ map (fut_of L bs) ps \<and>
    at_block L n bs (holes_zeroed bs cur ps cur' img) cur' s' \<and> cur \<le> cur' \<and> (\<forall>x. cur' \<le> x \<longrightarrow> x < L + n \<longrightarrow> piece_map ps (of_nat x) = None)"
  using assms(1,5)
proof (induction ps arbitrary: img cur s)
  case Nil
  then have "at_block L n bs (holes_zeroed bs cur [] cur img) cur s"
    by (elim at_block_cong) (auto simp: holes_zeroed_def)
  then show ?case by (auto simp: piece_map_def)
next
  case (Cons p ps)
  let ?c = "unat (fst p) + unat (blk_count (snd p))" and ?img = "\<lambda>x. if cur \<le> x \<and> x < unat (fst p) then replicate bs 0 else img x"
  have ps: "cur \<le> unat (fst p)" "pieces_ok ?c (L + n) ps" using Cons.prems(2) by auto
  note le = pieces_ok_le [OF ps(2)]
  obtain s1 where s1: "submit_step blk_size p s = Inr s1" "rs_futs s1 = rs_futs s @ [fut_of L bs p]" "at_block L n bs ?img ?c s1"
    using submit_step_ok [OF Cons.prems(1) assms(2-4) ps(1) le] by blast
  obtain s2 cur' where s2: "submit_loop blk_size ps s1 = Inr s2" "rs_futs s2 = rs_futs s1 @ map (fut_of L bs) ps"
    "at_block L n bs (holes_zeroed bs ?c ps cur' ?img) cur' s2" "?c \<le> cur'" "\<forall>x. cur' \<le> x \<longrightarrow> x < L + n \<longrightarrow> piece_map ps (of_nat x) = None"
    using Cons.IH [OF s1(3) ps(2)] by blast
  have c32: "?c \<le> 2 ^ 32" using le assms(3) by simp
  have u: "unat (of_nat x :: u64) = x" if "x < L + n" for x using that assms(3) by (intro unat_of_nat_u64) simp
  have pm: "piece_map (p # ps) (of_nat x) = (if unat (fst p) \<le> x \<and> x < ?c then Some (blk_num (snd p) + of_nat (x - unat (fst p)), blk_chunk (snd p))
      else piece_map ps (of_nat x))" if "x < L + n" for x
    using piece_map_Cons [OF c32, of ps "of_nat x"] u [OF that] by simp
  have before: "piece_map ps (of_nat x) = None" if "x < ?c" for x
    using piece_map_before [OF ps(2), of "of_nat x"] assms(3) u [of x] that le by simp
  have "at_block L n bs (holes_zeroed bs cur (p # ps) cur' img) cur' s2"
  proof (rule at_block_cong [OF s2(3)])
    fix x assume x: "L \<le> x" "x < L + n"
    show "holes_zeroed bs ?c ps cur' ?img x = holes_zeroed bs cur (p # ps) cur' img x"
      using pm [OF x(2)] before [of x] s2(4) ps(1) by (auto simp: holes_zeroed_def)
  qed
  moreover have "piece_map (p # ps) (of_nat x) = None" if "cur' \<le> x" "x < L + n" for x
    using that pm [OF that(2)] s2(4,5) by auto
  ultimately show ?case using s1 s2 ps(1) by auto
qed

text \<open>The end of the request.\<close>

lemma end_lba_Suc: "0 < unat (req_nlbas req) \<Longrightarrow> end_lba req + 1 = req_lba req + ucast (req_nlbas req)"
  by (simp add: end_lba_def)

lemma submit_tail_ok:
  assumes at: "at_block L n bs img cur s" and bs: "bs = unat blk_size" and E: "L + n < 2 ^ 32" "n * bs < 2 ^ 32"
    and req: "L = unat (req_lba req)" "n = unat (req_nlbas req)" "0 < n"
  shows "\<exists>s'. submit_tail blk_size req s = Inr s' \<and> rs_futs s' = rs_futs s \<and>
    (\<exists>b. rs_mem s' = Some b \<and> length b = n * bs \<and> (\<forall>j<n. blk_at bs b j = (if cur \<le> L + j then replicate bs 0 else img (L + j))))"
proof -
  have L: "L \<le> cur" "cur \<le> L + n" "prev_lba s + prev_nblks s = of_nat cur" using at unfolding at_block_def by auto
  have "unat (ucast (req_nlbas req) :: u64) = n" using req(2) u32_bound [of "req_nlbas req"]
    by (simp add: unsigned_ucast_eq take_bit_nat_eq_self)
  then have e: "unat (end_lba req + 1) = L + n" unfolding end_lba_Suc [OF req(3) [unfolded req(2)]] using req E(1) by (simp add: unat_word_ariths)
  have c: "unat (ucast (prev_lba s + prev_nblks s) :: u64) = cur" unfolding L(3) using L(2) E(1) by (intro unat_of_nat_cur) simp
  show ?thesis
  proof (cases "cur < L + n")
    case True
    have small: "x < 2 ^ 64" if "x \<le> n * bs" for x :: nat using that E(2) by simp
    have lim: "(L + n - cur) * bs < 2 ^ 64" using L by (intro small mult_le_mono1) simp
    have hs: "unat ((end_lba req + 1 - ucast (prev_lba s + prev_nblks s)) * ucast blk_size) = (L + n - cur) * bs"
      unfolding L(3) bs using e L lim bs E(1) hole_size [of cur "end_lba req + 1" blk_size] by simp
    have "ucast (prev_lba s + prev_nblks s) < end_lba req + 1" using True e c by (simp add: word_less_nat_alt)
    then show ?thesis using fill_hole_ok [OF at L(2) order_refl lim hs] by (fastforce simp: submit_tail_def Let_def)
  next
    case False
    then have "\<not> ucast (prev_lba s + prev_nblks s) < end_lba req + 1" using e c by (simp add: word_less_nat_alt)
    then show ?thesis using at False by (auto simp: submit_tail_def Let_def at_block_def)
  qed
qed

lemma submit_ok:
  assumes bs: "bs = unat blk_size" and req: "L = unat (req_lba req)" "n = unat (req_nlbas req)" "0 < n"
    and E: "L + n < 2 ^ 32" "n * bs < 2 ^ 32" and b: "req_buffer req = Some b" "length b = n * bs" and ps: "pieces_ok L (L + n) ps"
  shows "\<exists>s b'. submit_read_to_backend blk_size fc ps req = Inr (False, s) \<and> rs_futs s = map (fut_of L bs) ps \<and> rs_mem s = Some b' \<and>
    length b' = n * bs \<and> (\<forall>j<n. piece_map ps (of_nat (L + j)) = None \<longrightarrow> blk_at bs b' j = replicate bs 0)"
proof -
  let ?s0 = "\<lparr>prev_lba = ucast (req_lba req), prev_nblks = 0, rs_pos = 0, rs_mem = req_buffer req, rs_futs = []\<rparr>"
  have "(ucast (req_lba req) :: u32) = of_nat L" using req(1) by simp
  then have "at_block L n bs (\<lambda>x. blk_at bs b (x - L)) L ?s0" using b by (simp add: at_block_def)
  from submit_loop_ok [OF this bs E ps] obtain s1 cur where s1: "submit_loop blk_size ps ?s0 = Inr s1" "rs_futs s1 = map (fut_of L bs) ps"
    "at_block L n bs (holes_zeroed bs L ps cur (\<lambda>x. blk_at bs b (x - L))) cur s1" by auto
  obtain s2 b' where s2: "submit_tail blk_size req s1 = Inr s2" "rs_futs s2 = rs_futs s1" "rs_mem s2 = Some b'" "length b' = n * bs"
    "\<forall>j<n. blk_at bs b' j = (if cur \<le> L + j then replicate bs 0 else holes_zeroed bs L ps cur (\<lambda>x. blk_at bs b (x - L)) (L + j))"
    using submit_tail_ok [OF s1(3) bs E req] by blast
  have "submit_read_to_backend blk_size fc ps req = Inr (False, s2)"
    using s1(1) s2(1) b(1) by (simp add: submit_read_to_backend_def)
  then show ?thesis using s1(2) s2 by (auto simp: holes_zeroed_def)
qed

section \<open>The device reads\<close>

text \<open>What a read of the device returns: the blocks of the piece, one after the other; and it changes no block.\<close>

definition piece_bytes :: "'d repl_dev \<Rightarrow> 'd \<Rightarrow> blk_id \<Rightarrow> u8 list" where
  "piece_bytes rd d b = concat (map (\<lambda>j. blk_data rd d (blk_chunk b) (blk_num b + of_nat j)) [0..<unat (blk_count b)])"

definition dev_read_ok :: "'d repl_dev \<Rightarrow> bool" where
  "dev_read_ok rd \<longleftrightarrow>
     (\<forall>d c k. length (blk_data rd d c k) = unat (get_blk_size rd)) \<and>
     (\<forall>b sz d r d'. async_read rd b sz d = (r, d') \<longrightarrow> blk_data rd d' = blk_data rd d \<and>
        (\<forall>bytes. r = Inr bytes \<longrightarrow> unat sz = unat (blk_count b) * unat (get_blk_size rd) \<longrightarrow> bytes = piece_bytes rd d b))"

lemma dev_readD:
  assumes "dev_read_ok rd" "async_read rd b sz d = (r, d')"
  shows "blk_data rd d' = blk_data rd d"
    "r = Inr bytes \<Longrightarrow> unat sz = unat (blk_count b) * unat (get_blk_size rd) \<Longrightarrow> bytes = piece_bytes rd d b"
  using assms unfolding dev_read_ok_def by blast+

lemma blk_at_piece:
  assumes "dev_read_ok rd" "bs = unat (get_blk_size rd)"
  shows "length (piece_bytes rd d b) = unat (blk_count b) * bs"
    "j < unat (blk_count b) \<Longrightarrow> blk_at bs (piece_bytes rd d b) j = blk_data rd d (blk_chunk b) (blk_num b + of_nat j)"
proof -
  have len: "length (blk_data rd d c k) = bs" for c k using assms by (simp add: dev_read_ok_def)
  show "length (piece_bytes rd d b) = unat (blk_count b) * bs"
    unfolding piece_bytes_def by (simp add: length_concat comp_def len sum_list_triv)
  show "blk_at bs (piece_bytes rd d b) j = blk_data rd d (blk_chunk b) (blk_num b + of_nat j)" if "j < unat (blk_count b)"
    unfolding piece_bytes_def by (rule blk_at_concat(1)) (simp_all add: len that)
qed

definition read_in :: "'d repl_dev \<Rightarrow> 'd \<Rightarrow> read_blks_list \<Rightarrow> (nat \<Rightarrow> u8 list) \<Rightarrow> nat \<Rightarrow> u8 list" where
  "read_in rd d ps img x = (case piece_map ps (of_nat x) of None \<Rightarrow> img x | Some (num, chunk) \<Rightarrow> blk_data rd d chunk num)"

lemma run_reads_ok:
  assumes rd: "dev_read_ok rd" and bs: "bs = unat (get_blk_size rd)" and E: "L + n < 2 ^ 32" "n * bs < 2 ^ 32"
    and "pieces_ok cur (L + n) ps" "L \<le> cur" "length b = n * bs"
  shows "\<exists>rs b' d'. run_reads rd (map (fut_of L bs) ps) (Some b) d = Inr (rs, Some b', d') \<and> blk_data rd d' = blk_data rd d \<and> length b' = n * bs \<and>
    (first_error rs = Inr () \<longrightarrow> (\<forall>j<n. blk_at bs b' j = read_in rd d ps (\<lambda>x. blk_at bs b (x - L)) (L + j))) \<and>
    (\<forall>e. first_error rs = Inl e \<longrightarrow> (\<exists>blk sz d0. fst (async_read rd blk sz d0) = Inl e))"
  using assms(5-7)
proof (induction ps arbitrary: cur b d)
  case Nil
  then show ?case by (auto simp: read_in_def piece_map_def)
next
  case (Cons p ps)
  obtain l k where p: "p = (l, k)" by (cases p)
  let ?c = "unat l + unat (blk_count k)"
  have ps: "cur \<le> unat l" "pieces_ok ?c (L + n) ps" using Cons.prems(1) p by auto
  note le = pieces_ok_le [OF ps(2)]
  have Ll: "L \<le> unat l" using ps(1) Cons.prems(2) by simp
  have sum: "(unat l - L) * bs + unat (blk_count k) * bs = (?c - L) * bs" using Ll by (simp flip: add_mult_distrib)
  have "(?c - L) * bs \<le> n * bs" using le Ll by (intro mult_le_mono1) simp
  then have fits: "(unat l - L) * bs + unat (blk_count k) * bs \<le> length b" using sum Cons.prems(3) by simp
  have "unat (blk_count k) * bs \<le> n * bs" using le Ll by (intro mult_le_mono1) simp
  then have sz: "unat (of_nat (unat (blk_count k) * bs) :: u64) = unat (blk_count k) * bs" using E(2) by (intro unat_of_nat_u64) linarith
  obtain r d1 where r: "async_read rd k (of_nat (unat (blk_count k) * bs)) d = (r, d1)" by (meson surj_pair)
  define b1 where "b1 = (case r of Inl _ \<Rightarrow> b | Inr bytes \<Rightarrow> buf_store ((unat l - L) * bs) bytes b)"
  have bytes: "bytes = piece_bytes rd d k" if "r = Inr bytes" for bytes using dev_readD(2) [OF rd r that] sz bs by simp
  have b1: "length b1 = n * bs"
    using fits Cons.prems(3) bytes blk_at_piece(1) [OF rd bs, of d k] by (cases r) (simp_all add: b1_def)
  obtain rs b' d' where IH: "run_reads rd (map (fut_of L bs) ps) (Some b1) d1 = Inr (rs, Some b', d')" "blk_data rd d' = blk_data rd d1" "length b' = n * bs"
    "first_error rs = Inr () \<longrightarrow> (\<forall>j<n. blk_at bs b' j = read_in rd d1 ps (\<lambda>x. blk_at bs b1 (x - L)) (L + j))"
    "\<forall>e. first_error rs = Inl e \<longrightarrow> (\<exists>blk sz d0. fst (async_read rd blk sz d0) = Inl e)"
    using Cons.IH [OF ps(2) _ b1, of d1] Ll by auto
  have same: "blk_data rd d1 = blk_data rd d" by (rule dev_readD(1) [OF rd r])
  have run: "run_reads rd (map (fut_of L bs) (p # ps)) (Some b) d = Inr ((case r of Inl e \<Rightarrow> Inl e | Inr _ \<Rightarrow> Inr ()) # rs, Some b', d')"
    using fits r sz IH(1) p by (auto simp: fut_of_def Let_def b1_def split: sum.splits prod.splits)
  show ?case
  proof (cases r)
    case (Inl e)
    then have "\<exists>blk sz d0. fst (async_read rd blk sz d0) = Inl e" using r by (metis fst_conv)
    then show ?thesis using run IH(2,3) same Inl by auto
  next
    case (Inr bts)
    have "blk_at bs b' j = read_in rd d (p # ps) (\<lambda>x. blk_at bs b (x - L)) (L + j)" if fe: "first_error rs = Inr ()" and j: "j < n" for j
    proof -
      have u: "unat (of_nat (L + j) :: u64) = L + j" using j E(1) by (intro unat_of_nat_u64) simp
      have c32: "?c \<le> 2 ^ 32" using le E(1) by simp
      have Sj: "Suc j * bs \<le> length b" unfolding Cons.prems(3) using j by (intro mult_le_mono1) simp
      have cb: "(unat l - L + unat (blk_count k)) * bs \<le> length b" using fits by (simp add: add_mult_distrib)
      have b1j: "blk_at bs b1 j = (if unat l - L \<le> j \<and> j < unat l - L + unat (blk_count k) then blk_at bs (piece_bytes rd d k) (j - (unat l - L)) else blk_at bs b j)"
        unfolding b1_def Inr sum.case bytes [OF Inr] by (rule blk_at_store [OF blk_at_piece(1) [OF rd bs] cb Sj])
      show ?thesis
      proof (cases "unat l \<le> L + j \<and> L + j < ?c")
        case True
        then have "piece_map ps (of_nat (L + j)) = None" using piece_map_before [OF ps(2), of "of_nat (L + j)"] u E(1) by simp
        moreover have "L + j - unat l = j - (unat l - L)" using Ll by simp
        moreover have "j - (unat l - L) < unat (blk_count k)" "unat l - L \<le> j" "j < unat l - L + unat (blk_count k)" using True Ll by auto
        ultimately show ?thesis using fe j IH(4) b1j True p piece_map_Cons [of p ps "of_nat (L + j)"] u c32
            blk_at_piece(2) [OF rd bs, of "j - (unat l - L)" k d] by (simp add: read_in_def)
      next
        case False
        then have "\<not> (unat l - L \<le> j \<and> j < unat l - L + unat (blk_count k))" using Ll by auto
        then have "blk_at bs b1 j = blk_at bs b j" using b1j by (simp only: if_False)
        then show ?thesis using fe j IH(4) False p piece_map_Cons [of p ps "of_nat (L + j)"] u c32 same
          by (auto simp: read_in_def split: option.splits)
      qed
    qed
    then show ?thesis using run IH(2,3,5) same Inr by auto
  qed
qed

section \<open>The verification\<close>

definition csums_ok :: "(u16 \<Rightarrow> u8 list \<Rightarrow> csum_t) \<Rightarrow> (nat \<Rightarrow> u8 list) \<Rightarrow> index_kv_list \<Rightarrow> bool" where
  "csums_ok crc img kvs \<longleftrightarrow> (\<forall>e\<in>set kvs. crc init_crc_16 (img (unat (fst e))) = iv_checksum (snd e))"

lemma verify_loop_ok:
  assumes bs: "bs = unat blk_size" and E: "L + n < 2 ^ 32" "n * bs < 2 ^ 32" and b: "length b = n * bs"
    and "sorted_wrt (<) (map fst kvs)" "\<forall>e\<in>set kvs. unat cur \<le> unat (fst e) \<and> unat (fst e) < L + n" "L \<le> unat cur" "pos = (unat cur - L) * bs"
  shows "verify_loop crc blk_size (Some b) kvs cur pos =
    Inr (if csums_ok crc (\<lambda>x. blk_at bs b (x - L)) kvs then Inr () else Inl (VolErr CRC_MISMATCH))"
  using assms(5-8)
proof (induction kvs arbitrary: cur pos)
  case Nil
  then show ?case by (simp add: csums_ok_def)
next
  case (Cons e kvs)
  obtain l v where e: "e = (l, v)" by (cases e)
  have l: "unat cur \<le> unat l" "unat l < L + n" using Cons.prems(2) e by auto
  have small: "x < 2 ^ 64" if "x \<le> n * bs" for x :: nat using that E(2) by simp
  have "unat (ucast blk_size :: u64) = bs" using bs u32_bound [of blk_size] by (simp add: unsigned_ucast_eq take_bit_nat_eq_self)
  moreover have "unat (l - cur) = unat l - unat cur" using l(1) by (simp add: unat_sub word_le_nat_alt)
  moreover have "(unat l - unat cur) * bs < 2 ^ 64" using l Cons.prems(3) by (intro small mult_le_mono1) linarith
  ultimately have hole: "unat ((l - cur) * ucast blk_size) = (unat l - unat cur) * bs" by (simp add: unat_word_ariths)
  have pos: "(if cur \<noteq> l then pos + unat ((l - cur) * ucast blk_size) else pos) = (unat l - L) * bs"
    using hole l(1) Cons.prems(3,4) by (auto simp flip: add_mult_distrib)
  have "Suc (unat l - L) * bs \<le> n * bs" using l Cons.prems(3) by (intro mult_le_mono1) linarith
  then have fits: "(unat l - L) * bs + bs \<le> length b" using b by simp
  have l1: "unat (l + 1) = unat l + 1" using l(2) E(1) by (simp add: unat_word_ariths)
  have lt: "unat (l + 1) \<le> unat (fst x)" if "x \<in> set kvs" for x
  proof -
    have "l < fst x" using Cons.prems(1) that e by simp
    then show ?thesis by (simp add: l1 word_less_nat_alt)
  qed
  have IH: "verify_loop crc blk_size (Some b) kvs (l + 1) ((unat l - L) * bs + bs) =
      Inr (if csums_ok crc (\<lambda>x. blk_at bs b (x - L)) kvs then Inr () else Inl (VolErr CRC_MISMATCH))"
  proof (rule Cons.IH)
    show "sorted_wrt (<) (map fst kvs)" using Cons.prems(1) by simp
    show "\<forall>x\<in>set kvs. unat (l + 1) \<le> unat (fst x) \<and> unat (fst x) < L + n" using lt Cons.prems(2) by simp
    show "L \<le> unat (l + 1)" using l1 l(1) Cons.prems(3) by linarith
    show "(unat l - L) * bs + bs = (unat (l + 1) - L) * bs" using l1 l(1) Cons.prems(3) by (simp add: Suc_diff_le)
  qed
  show ?case unfolding e verify_loop.simps Let_def pos
    using fits IH bs by (simp add: csums_ok_def blk_at_def)
qed

end
