(* ===== verification/Volume_Read_Contract.thy ===== *)
theory Volume_Read_Contract
  imports Volume_Image
begin

text \<open>
  The contract of a read: the bytes a volume holds, as the index and the device say, and that \<^verbatim>\<open>volume::read\<close> returns them. The client of
  an index is the locale \<open>volume_index\<close>, so the result holds for both builds.
\<close>

section \<open>The image of a volume\<close>

definition block_image :: "'d repl_dev \<Rightarrow> 'd \<Rightarrow> (lba_t \<Rightarrow> index_value option) \<Rightarrow> nat \<Rightarrow> u8 list" where
  "block_image rd d view x = (case view (of_nat x) of
     None \<Rightarrow> replicate (unat (get_blk_size rd)) 0
   | Some v \<Rightarrow> blk_data rd d (blk_chunk (iv_blkid v)) (blk_num (iv_blkid v)))"

definition volume_image :: "'d repl_dev \<Rightarrow> 'd \<Rightarrow> (lba_t \<Rightarrow> index_value option) \<Rightarrow> nat \<Rightarrow> nat \<Rightarrow> u8 list" where
  "volume_image rd d view L n = concat (map (block_image rd d view) [L..<L + n])"

text \<open>Every mapped block of a range has the checksum the index records.\<close>

definition image_ok :: "(u16 \<Rightarrow> u8 list \<Rightarrow> csum_t) \<Rightarrow> 'd repl_dev \<Rightarrow> 'd \<Rightarrow> (lba_t \<Rightarrow> index_value option) \<Rightarrow> nat \<Rightarrow> nat \<Rightarrow> bool" where
  "image_ok crc rd d view L n \<longleftrightarrow> (\<forall>x v. L \<le> x \<longrightarrow> x < L + n \<longrightarrow> view (of_nat x) = Some v \<longrightarrow>
     crc init_crc_16 (block_image rd d view x) = iv_checksum v)"

text \<open>The requests the read path is made for: a buffer of the right size, fewer than \<open>2 ^ 16\<close> blocks and all addresses below \<open>2 ^ 32\<close>.\<close>

definition read_req_ok :: "u32 \<Rightarrow> io_req \<Rightarrow> bool" where
  "read_req_ok blk_size req \<longleftrightarrow>
     0 < req_nlbas req \<and> unat (req_nlbas req) < 2 ^ 16 \<and> unat (req_lba req) + unat (req_nlbas req) < 2 ^ 32 \<and>
     unat (req_nlbas req) * unat blk_size < 2 ^ 32 \<and>
     (case req_buffer req of None \<Rightarrow> False | Some b \<Rightarrow> length b = unat (req_nlbas req) * unat blk_size)"

lemma end_lba_unat:
  assumes "0 < req_nlbas req" "unat (req_lba req) + unat (req_nlbas req) < 2 ^ 32"
  shows "unat (end_lba req) = unat (req_lba req) + unat (req_nlbas req) - 1"
proof -
  have n: "0 < unat (req_nlbas req)" using assms(1) by (simp add: word_gt_0 unat_gt_0)
  have "unat (ucast (req_nlbas req) :: u64) = unat (req_nlbas req)"
    using u32_bound [of "req_nlbas req"] by (simp add: unsigned_ucast_eq take_bit_nat_eq_self)
  then have s: "unat (req_lba req + ucast (req_nlbas req)) = unat (req_lba req) + unat (req_nlbas req)"
    using assms(2) by (simp add: unat_word_ariths)
  then have "req_lba req + ucast (req_nlbas req) \<noteq> 0" using n by (metis add_is_0 less_numeral_extra(3) unat_0)
  then show ?thesis using s by (simp add: end_lba_def unat_minus_one)
qed

section \<open>Entries and pieces\<close>

lemma entries_unat:
  assumes "entries_between view lo hi kvs" "unat lo = L" "unat hi + 1 = L + n"
  shows "e \<in> set kvs \<Longrightarrow> L \<le> unat (fst e) \<and> unat (fst e) < L + n" "length kvs \<le> n"
    "L \<le> unat l \<Longrightarrow> unat l < L + n \<Longrightarrow> map_of kvs l = view l"
proof -
  have rng: "lo \<le> l \<and> l \<le> hi \<longleftrightarrow> L \<le> unat l \<and> unat l < L + n" for l
    using assms(2,3) unfolding word_le_nat_alt by linarith
  show mem: "L \<le> unat (fst e) \<and> unat (fst e) < L + n" if "e \<in> set kvs" for e
    using that assms(1) rng [of "fst e"] by (auto simp: entries_between_def)
  have srt: "sorted_wrt (<) (map fst kvs)" using assms(1) by (simp add: entries_between_def)
  then have dist: "distinct (map fst kvs)" by (simp add: strict_sorted_iff)
  then have "distinct (map (unat \<circ> fst) kvs)" by (auto simp: distinct_map inj_on_def word_unat_eq_iff)
  moreover have "set (map (unat \<circ> fst) kvs) \<subseteq> {L..<L + n}" using mem by auto
  ultimately have "length (map (unat \<circ> fst) kvs) \<le> card {L..<L + n}"
    by (metis card_mono distinct_card finite_atLeastLessThan)
  then show "length kvs \<le> n" by simp
  show "map_of kvs l = view l" if "L \<le> unat l" "unat l < L + n"
  proof (cases "view l")
    case None
    then have "l \<notin> fst ` set kvs" using assms(1) by (auto simp: entries_between_def)
    then show ?thesis using None by (simp add: map_of_eq_None_iff)
  next
    case (Some v)
    then have "(l, v) \<in> set kvs" using assms(1) rng [of l] that by (simp add: entries_between_def)
    then show ?thesis using Some dist by simp
  qed
qed

lemma piece_map_entries:
  assumes "concat (map piece_entries ps) = map kv_entry kvs"
  shows "piece_map ps l = map_option (\<lambda>v. (blk_num (iv_blkid v), blk_chunk (iv_blkid v))) (map_of kvs l)"
proof -
  have "map kv_entry kvs = map (\<lambda>(k, v). (k, blk_num (iv_blkid v), blk_chunk (iv_blkid v))) kvs"
    by (auto simp: kv_entry_def kv_blk_num_def kv_chunk_def)
  from arg_cong [OF this, of "\<lambda>m. map_of m l"] show ?thesis unfolding piece_map_def assms by (simp add: map_of_map)
qed

section \<open>Reading\<close>

lemma read_backend:
  assumes rd: "dev_read_ok rd" and req: "read_req_ok (get_blk_size rd) req" and ent: "entries_between view (req_lba req) (end_lba req) kvs"
  defines "L \<equiv> unat (req_lba req)" and "n \<equiv> unat (req_nlbas req)" and "bs \<equiv> unat (get_blk_size rd)"
  shows "\<exists>s rs b d'. submit_read_to_backend (get_blk_size rd) fc (generate_blkids_to_read kvs) req = Inr (False, s) \<and>
    run_reads rd (rs_futs s) (rs_mem s) d = Inr (rs, Some b, d') \<and> blk_data rd d' = blk_data rd d \<and> length b = n * bs \<and>
    (kvs = [] \<longrightarrow> rs_mem s = Some b \<and> rs = []) \<and>
    (first_error rs = Inr () \<longrightarrow> (\<forall>j<n. blk_at bs b j = block_image rd d view (L + j))) \<and>
    (\<forall>e. first_error rs = Inl e \<longrightarrow> (\<exists>blk sz d0. fst (async_read rd blk sz d0) = Inl e))"
proof -
  let ?ps = "generate_blkids_to_read kvs"
  obtain b0 where R: "0 < n" "n < 2 ^ 16" "L + n < 2 ^ 32" "n * bs < 2 ^ 32" "req_buffer req = Some b0" "length b0 = n * bs"
    using req by (auto simp: read_req_ok_def L_def n_def bs_def word_gt_0 unat_gt_0 split: option.splits)
  have hi: "unat (end_lba req) + 1 = L + n"
    using end_lba_unat [of req] req R(1) unfolding read_req_ok_def L_def n_def by linarith
  have eqs: "bs = unat (get_blk_size rd)" "L = unat (req_lba req)" "n = unat (req_nlbas req)" by (simp_all add: bs_def L_def n_def)
  note ents = entries_unat [OF ent eqs(2) [symmetric] hi]
  have co: "concat (map piece_entries ?ps) = map kv_entry kvs" "\<forall>p\<in>set ?ps. blk_count (snd p) \<noteq> 0"
    using coalesce_lossless [of kvs] ents(2) R(2) by auto
  have fsts: "map fst (concat (map piece_entries ?ps)) = map fst kvs" unfolding co(1) by (simp add: kv_entry_def)
  have ps: "pieces_ok L (L + n) ?ps"
    using co(2) ent ents(1) R(3) unfolding fsts [symmetric] entries_between_def
    by (intro pieces_ok_of_entries) (auto simp: fsts)
  obtain s b1 where s: "submit_read_to_backend (get_blk_size rd) fc ?ps req = Inr (False, s)" "rs_futs s = map (fut_of L bs) ?ps" "rs_mem s = Some b1"
    "length b1 = n * bs" "\<forall>j<n. piece_map ?ps (of_nat (L + j)) = None \<longrightarrow> blk_at bs b1 j = replicate bs 0"
    using submit_ok [OF eqs R(1,3-6) ps] by blast
  obtain rs b d' where r: "run_reads rd (map (fut_of L bs) ?ps) (Some b1) d = Inr (rs, Some b, d')" "blk_data rd d' = blk_data rd d" "length b = n * bs"
    "first_error rs = Inr () \<longrightarrow> (\<forall>j<n. blk_at bs b j = read_in rd d ?ps (\<lambda>x. blk_at bs b1 (x - L)) (L + j))"
    "\<forall>e. first_error rs = Inl e \<longrightarrow> (\<exists>blk sz d0. fst (async_read rd blk sz d0) = Inl e)"
    using run_reads_ok [OF rd eqs(1) R(3,4) ps order_refl s(4)] by blast
  have img: "read_in rd d ?ps (\<lambda>x. blk_at bs b1 (x - L)) (L + j) = block_image rd d view (L + j)" if "j < n" for j
  proof -
    have u: "unat (of_nat (L + j) :: u64) = L + j" using that R(3) by (intro unat_of_nat_u64) simp
    have "piece_map ?ps (of_nat (L + j)) = map_option (\<lambda>v. (blk_num (iv_blkid v), blk_chunk (iv_blkid v))) (view (of_nat (L + j)))"
      using piece_map_entries [OF co(1)] ents(3) [of "of_nat (L + j)"] u that by simp
    then show ?thesis using s(5) that by (auto simp: read_in_def block_image_def bs_def split: option.splits)
  qed
  have "?ps = []" if "kvs = []" using that by (simp add: generate_blkids_to_read_def)
  then show ?thesis using s r img by (intro exI [of _ s] exI [of _ rs] exI [of _ b] exI [of _ d']) auto
qed

lemma csums_image:
  assumes "entries_between view (req_lba req) (end_lba req) kvs" "0 < req_nlbas req" "unat (req_lba req) + unat (req_nlbas req) < 2 ^ 32"
    and "\<And>j. j < unat (req_nlbas req) \<Longrightarrow> img (unat (req_lba req) + j) = block_image rd d view (unat (req_lba req) + j)"
  shows "csums_ok crc img kvs \<longleftrightarrow> image_ok crc rd d view (unat (req_lba req)) (unat (req_nlbas req))"
proof -
  let ?L = "unat (req_lba req)" and ?n = "unat (req_nlbas req)"
  have "0 < ?n" using assms(2) by (simp add: word_gt_0 unat_gt_0)
  then have hi: "unat (end_lba req) + 1 = ?L + ?n" using end_lba_unat [OF assms(2,3)] by linarith
  note ents = entries_unat [OF assms(1) refl hi]
  have im: "img x = block_image rd d view x" if "?L \<le> x" "x < ?L + ?n" for x
    using assms(4) [of "x - ?L"] that by simp
  show ?thesis
  proof
    assume c: "csums_ok crc img kvs"
    show "image_ok crc rd d view ?L ?n"
      unfolding image_ok_def
    proof (intro allI impI)
      fix x v assume x: "?L \<le> x" "x < ?L + ?n" "view (of_nat x) = Some v"
      have u: "unat (of_nat x :: u64) = x" using x assms(3) by (intro unat_of_nat_u64) simp
      then have "map_of kvs (of_nat x) = Some v" using ents(3) [of "of_nat x"] x by simp
      then have "(of_nat x, v) \<in> set kvs" by (rule map_of_SomeD)
      then show "crc init_crc_16 (block_image rd d view x) = iv_checksum v" using c u im [OF x(1,2)] unfolding csums_ok_def by force
    qed
  next
    assume i: "image_ok crc rd d view ?L ?n"
    show "csums_ok crc img kvs"
      unfolding csums_ok_def
    proof
      fix e assume e: "e \<in> set kvs"
      have x: "?L \<le> unat (fst e)" "unat (fst e) < ?L + ?n" using ents(1) [OF e] by auto
      have "view (fst e) = Some (snd e)" using e assms(1) by (auto simp: entries_between_def)
      then have "view (of_nat (unat (fst e))) = Some (snd e)" by simp
      then show "crc init_crc_16 (img (unat (fst e))) = iv_checksum (snd e)" using i x im [OF x] unfolding image_ok_def by simp
    qed
  qed
qed

lemma image_of_blocks:
  assumes "length b = n * unat (get_blk_size rd)" "\<And>j. j < n \<Longrightarrow> blk_at (unat (get_blk_size rd)) b j = block_image rd d view (L + j)"
  shows "b = volume_image rd d view L n"
proof -
  have "b = concat (map (blk_at (unat (get_blk_size rd)) b) [0..<n])" using concat_blk_at [of n "unat (get_blk_size rd)" b] assms(1) by simp
  also have "\<dots> = concat (map (\<lambda>j. block_image rd d view (j + L)) [0..<n])"
    using assms(2) by (intro arg_cong [of _ _ concat] map_cong) (auto simp: add.commute)
  also have "\<dots> = volume_image rd d view L n"
  proof -
    have "[L..<L + n] = map (\<lambda>i. i + L) [0..<n]" by (simp only: map_add_upt add.commute)
    then show ?thesis unfolding volume_image_def by (simp only: map_map comp_def)
  qed
  finally show ?thesis .
qed

lemma volume_read_split:
  "volume_read ix rd crc fc req (t, d) =
     (case ix_read ix (req_lba req) (end_lba req) t of
        (Inl _, t') \<Rightarrow> Inr (\<lparr>rr_status = Inr (), rr_contained = False, rr_mem = req_buffer req\<rparr>, t', d)
      | (Inr kvs, t') \<Rightarrow> bind_sum (read_blocks rd crc fc req kvs d) (\<lambda>(res, d'). Inr (res, t', d')))"
proof -
  have assoc: "bind_sum (bind_sum m f) g = bind_sum m (\<lambda>x. bind_sum (f x) g)" for m :: "'x checked" and f :: "'x \<Rightarrow> 'y checked" and g :: "'y \<Rightarrow> 'z checked"
    by (cases m) simp_all
  show ?thesis by (auto simp: volume_read_def read_blocks_def assoc Let_def bind_sum_def split: prod.split sum.split)
qed

text \<open>Behind the lookup: what the entries of the index map is read and verified.\<close>

lemma read_blocks_correct:
  assumes rd: "dev_read_ok rd" and req: "read_req_ok (get_blk_size rd) req" and ent: "entries_between view (req_lba req) (end_lba req) kvs"
  defines "L \<equiv> unat (req_lba req)" and "n \<equiv> unat (req_nlbas req)"
  shows "\<exists>res d'. read_blocks rd crc fc req kvs d = Inr (res, d') \<and>
    blk_data rd d' = blk_data rd d \<and> \<not> rr_contained res \<and>
    (rr_status res = Inr () \<longrightarrow> rr_mem res = Some (volume_image rd d view L n) \<and> image_ok crc rd d view L n) \<and>
    (\<forall>e. rr_status res = Inl e \<longrightarrow>
       e = VolErr CRC_MISMATCH \<and> \<not> image_ok crc rd d view L n \<or> (\<exists>blk sz d0. fst (async_read rd blk sz d0) = Inl e))"
proof -
  let ?bs = "unat (get_blk_size rd)"
  obtain s rs b d' where B: "submit_read_to_backend (get_blk_size rd) fc (generate_blkids_to_read kvs) req = Inr (False, s)"
    "run_reads rd (rs_futs s) (rs_mem s) d = Inr (rs, Some b, d')" "blk_data rd d' = blk_data rd d" "length b = n * ?bs"
    "kvs = [] \<longrightarrow> rs_mem s = Some b \<and> rs = []"
    "first_error rs = Inr () \<longrightarrow> (\<forall>j<n. blk_at ?bs b j = block_image rd d view (L + j))"
    "\<forall>e. first_error rs = Inl e \<longrightarrow> (\<exists>blk sz d0. fst (async_read rd blk sz d0) = Inl e)"
    using read_backend [OF rd req ent, of fc d, folded L_def n_def] by (elim exE conjE) (rule that, assumption+)
  have R: "0 < req_nlbas req" "L + n < 2 ^ 32" "n * ?bs < 2 ^ 32" "0 < n"
    using req by (auto simp: read_req_ok_def L_def n_def word_gt_0 unat_gt_0)
  show ?thesis
  proof (cases "first_error rs")
    case (Inl e)
    then have "kvs \<noteq> []" using B(5) by auto
    then show ?thesis using B Inl by (auto simp: read_blocks_def)
  next
    case (Inr u)
    have blocks: "\<forall>j<n. blk_at ?bs b j = block_image rd d view (L + j)" using B(6) Inr by simp
    then have img: "b = volume_image rd d view L n" using B(4) by (intro image_of_blocks) auto
    have hi: "unat (end_lba req) + 1 = L + n" using end_lba_unat [of req] R unfolding L_def n_def by linarith
    note ents = entries_unat [OF ent L_def [symmetric, THEN meta_eq_to_obj_eq] hi]
    have "verify_checksum crc (get_blk_size rd) (Some b) req kvs =
        Inr (if csums_ok crc (\<lambda>x. blk_at ?bs b (x - L)) kvs then Inr () else Inl (VolErr CRC_MISMATCH))"
      unfolding verify_checksum_def
      by (rule verify_loop_ok [OF refl R(2,3) B(4)]) (use ent ents(1) in \<open>auto simp: entries_between_def L_def\<close>)
    moreover have ok: "csums_ok crc (\<lambda>x. blk_at ?bs b (x - L)) kvs \<longleftrightarrow> image_ok crc rd d view L n"
      unfolding L_def n_def by (rule csums_image [OF ent R(1)]) (use R(2) blocks in \<open>simp_all add: L_def n_def\<close>)
    moreover have "csums_ok crc (\<lambda>x. blk_at ?bs b (x - L)) []" by (simp add: csums_ok_def)
    ultimately show ?thesis using B Inr img
      by (cases "kvs = []") (auto simp: read_blocks_def)
  qed
qed

context volume_index
begin

lemma volume_read_correct:
  assumes inv: "invar t" and rd: "dev_read_ok rd" and req: "read_req_ok (get_blk_size rd) req"
    and idx: "read_from_index (req_lba req) (end_lba req) t = (Inr kvs, t')"
  defines "L \<equiv> unat (req_lba req)" and "n \<equiv> unat (req_nlbas req)"
  shows "\<exists>res d'. volume_read \<lparr>ix_write = write_to_index, ix_read = read_from_index\<rparr> rd crc fc req (t, d) = Inr (res, t', d') \<and>
    blk_data rd d' = blk_data rd d \<and> \<not> rr_contained res \<and>
    (rr_status res = Inr () \<longrightarrow> rr_mem res = Some (volume_image rd d (view t) L n) \<and> image_ok crc rd d (view t) L n) \<and>
    (\<forall>e. rr_status res = Inl e \<longrightarrow>
       e = VolErr CRC_MISMATCH \<and> \<not> image_ok crc rd d (view t) L n \<or> (\<exists>blk sz d0. fst (async_read rd blk sz d0) = Inl e))"
proof -
  have "entries_between (view t) (req_lba req) (end_lba req) kvs" using read_ok [OF inv idx] by blast
  from read_blocks_correct [OF rd req this, of crc fc d, folded L_def n_def] obtain res d' where "read_blocks rd crc fc req kvs d = Inr (res, d')" "blk_data rd d' = blk_data rd d" "\<not> rr_contained res"
    "rr_status res = Inr () \<longrightarrow> rr_mem res = Some (volume_image rd d (view t) L n) \<and> image_ok crc rd d (view t) L n"
    "\<forall>e. rr_status res = Inl e \<longrightarrow> e = VolErr CRC_MISMATCH \<and> \<not> image_ok crc rd d (view t) L n \<or> (\<exists>blk sz d0. fst (async_read rd blk sz d0) = Inl e)"
    by (elim exE conjE) (rule that)
  then show ?thesis using idx by (simp add: volume_read_split)
qed

end

end
