(* ===== verification/Volume_Write_Index.thy ===== *)
theory Volume_Write_Index
  imports Volume_Write Volume_Read_Contract
begin

text \<open>
  What the loop over the allocated pieces does to the index and to the block infos, for any index that keeps the contract
  \<open>volume_index\<close>. The loop is shared by the write, which computes the checksums from the data, and by the replay, which finds them in the journal entry.
\<close>

section \<open>The blocks of a piece\<close>

definition blks_of :: "blk_id \<Rightarrow> blk_id list" where
  "blks_of b = map (single_blk b) [0..<unat (blk_count b)]"

definition all_blks :: "blk_id list \<Rightarrow> blk_id list" where
  "all_blks blkids = concat (map blks_of blkids)"

definition pieces_wf :: "blk_id list \<Rightarrow> bool" where
  "pieces_wf blkids \<longleftrightarrow> (\<forall>b\<in>set blkids. blk_count b \<noteq> 0 \<and> unat (blk_num b) + unat (blk_count b) < 2 ^ 31)"

lemma length_blks_of [simp]: "length (blks_of b) = unat (blk_count b)"
  by (simp add: blks_of_def)

lemma all_blks_simps [simp]: "all_blks [] = []" "all_blks (b # bs) = blks_of b @ all_blks bs"
  by (simp_all add: all_blks_def)

lemma nth_blks_of: "k < unat (blk_count b) \<Longrightarrow> blks_of b ! k = single_blk b k"
  by (simp add: blks_of_def)

section \<open>The inner loop\<close>

lemma piece_infos_ok:
  assumes "\<And>j. j < length is \<Longrightarrow> csum_at (pos + j * step) = Inr (cs (is ! j))" "distinct is" "\<And>i. i \<in> set is \<Longrightarrow> i < 2 ^ 32"
    and "\<And>i. i \<in> set is \<Longrightarrow> map_of bi (l + of_nat i) = None" "distinct (map fst bi)"
  shows "\<exists>bi'. piece_infos api csum_at step b l is pos bi = Inr (pos + length is * step, bi') \<and> distinct (map fst bi') \<and>
    (\<forall>i\<in>set is. map_of bi' (l + of_nat i) =
       Some \<lparr>new_blkid = single_blk b i, old_blkid = no_blk api, new_checksum = cs i, old_checksum = 0\<rparr>) \<and>
    (\<forall>x. x \<notin> (\<lambda>i. l + of_nat i) ` set is \<longrightarrow> map_of bi' x = map_of bi x)"
  using assms
proof (induction "is" arbitrary: pos bi)
  case (Cons i "is")
  let ?info = "\<lparr>new_blkid = single_blk b i, old_blkid = no_blk api, new_checksum = cs i, old_checksum = 0\<rparr>"
  let ?bi = "emplace (l + of_nat i) ?info bi"
  have i: "csum_at pos = Inr (cs i)" "map_of bi (l + of_nat i) = None" using Cons.prems(1) [of 0] Cons.prems(4) by auto
  have ne: "(of_nat i :: u64) \<noteq> of_nat j" if "j \<in> set is" for j
    using that Cons.prems(2,3) unat_of_nat_u64 [of i] unat_of_nat_u64 [of j] by (metis distinct.simps(2) list.set_intros)
  have m: "map_of ?bi = (map_of bi)(l + of_nat i \<mapsto> ?info)" using i(2) by (simp add: map_of_emplace)
  have "\<exists>bi'. piece_infos api csum_at step b l is (pos + step) ?bi = Inr (pos + step + length is * step, bi') \<and> distinct (map fst bi') \<and>
    (\<forall>i\<in>set is. map_of bi' (l + of_nat i) =
       Some \<lparr>new_blkid = single_blk b i, old_blkid = no_blk api, new_checksum = cs i, old_checksum = 0\<rparr>) \<and>
    (\<forall>x. x \<notin> (\<lambda>i. l + of_nat i) ` set is \<longrightarrow> map_of bi' x = map_of ?bi x)"
  proof (rule Cons.IH)
    show "csum_at (pos + step + j * step) = Inr (cs (is ! j))" if "j < length is" for j
      using Cons.prems(1) [of "Suc j"] that by (simp add: add.assoc)
    show "map_of ?bi (l + of_nat j) = None" if "j \<in> set is" for j using Cons.prems(4) [of j] that ne [OF that] m by auto
  qed (use Cons.prems in \<open>auto intro: distinct_emplace\<close>)
  then obtain bi' where bi': "piece_infos api csum_at step b l is (pos + step) ?bi = Inr (pos + step + length is * step, bi')" "distinct (map fst bi')"
    "\<forall>i\<in>set is. map_of bi' (l + of_nat i) = Some \<lparr>new_blkid = single_blk b i, old_blkid = no_blk api, new_checksum = cs i, old_checksum = 0\<rparr>"
    "\<forall>x. x \<notin> (\<lambda>i. l + of_nat i) ` set is \<longrightarrow> map_of bi' x = map_of ?bi x" by blast
  have "l + of_nat i \<notin> (\<lambda>i. l + of_nat i) ` set is" using ne by auto
  then have "map_of bi' (l + of_nat i) = Some ?info" using bi'(4) m by simp
  then show ?case using i(1) bi' m by (intro exI [of _ bi']) (auto simp: add.assoc)
qed simp

text \<open>The infos of one piece, by address.\<close>

lemma piece_infos_range:
  assumes cs: "\<And>j. j < unat (blk_count b) \<Longrightarrow> csum_at (pos + j * step) = Inr (cs j)" and E: "unat l + unat (blk_count b) < 2 ^ 32"
    and bi: "\<And>x. unat l \<le> unat x \<Longrightarrow> map_of bi x = None" "distinct (map fst bi)"
  shows "\<exists>bi'. piece_infos api csum_at step b l [0..<unat (blk_count b)] pos bi = Inr (pos + unat (blk_count b) * step, bi') \<and> distinct (map fst bi') \<and>
    (\<forall>x. map_of bi' x = (if unat l \<le> unat x \<and> unat x < unat l + unat (blk_count b)
       then Some \<lparr>new_blkid = single_blk b (unat x - unat l), old_blkid = no_blk api, new_checksum = cs (unat x - unat l), old_checksum = 0\<rparr>
       else map_of bi x))"
proof -
  let ?c = "unat (blk_count b)"
  have u: "unat (l + of_nat i) = unat l + i" if "i < ?c" for i using that E by (simp add: unat_word_ariths unat_of_nat)
  have fresh: "map_of bi (l + of_nat i) = None" if "i \<in> set [0..<?c]" for i using bi(1) [of "l + of_nat i"] u [of i] that by simp
  obtain bi' where bi': "piece_infos api csum_at step b l [0..<?c] pos bi = Inr (pos + length [0..<?c] * step, bi')" "distinct (map fst bi')"
    "\<forall>i\<in>set [0..<?c]. map_of bi' (l + of_nat i) = Some \<lparr>new_blkid = single_blk b i, old_blkid = no_blk api, new_checksum = cs i, old_checksum = 0\<rparr>"
    "\<forall>x. x \<notin> (\<lambda>i. l + of_nat i) ` set [0..<?c] \<longrightarrow> map_of bi' x = map_of bi x"
    using piece_infos_ok [of "[0..<?c]" csum_at pos step cs bi l api b] cs E fresh bi(2) by auto
  have "map_of bi' x = (if unat l \<le> unat x \<and> unat x < unat l + ?c
       then Some \<lparr>new_blkid = single_blk b (unat x - unat l), old_blkid = no_blk api, new_checksum = cs (unat x - unat l), old_checksum = 0\<rparr>
       else map_of bi x)" for x
  proof (cases "unat l \<le> unat x \<and> unat x < unat l + ?c")
    case True
    then have j: "unat x - unat l < ?c" by linarith
    then have "x = l + of_nat (unat x - unat l)" using u [OF j] True by (simp add: word_unat_eq_iff)
    then show ?thesis using bi'(3) j True by (metis atLeastLessThan_iff set_upt zero_le)
  next
    case False
    then have "x \<notin> (\<lambda>i. l + of_nat i) ` set [0..<?c]" using u by auto
    then have "map_of bi' x = map_of bi x" using bi'(4) by blast
    then show ?thesis using False by (simp only: if_False)
  qed
  then show ?thesis using bi'(1,2) by auto
qed

section \<open>The outer loop\<close>

lemma low_less_max: "unat (x :: u64) < 2 ^ 32 \<Longrightarrow> x < - 1"
  by (simp add: word_less_nat_alt unsigned_minus_1_eq_mask mask_eq_exp_minus_1)

text \<open>An index all of whose ranges below address \<open>2 ^ 32\<close> can be written.\<close>

locale volume_index_low = volume_index +
  assumes range_low: "lo \<le> hi \<Longrightarrow> unat hi < 2 ^ 32 \<Longrightarrow> unat (hi - lo) < 2 ^ 31 \<Longrightarrow> range_ok lo hi"

interpretation fixed_low: volume_index_low "fixed_write_to_index api" fixed_read_from_index fixed_view fixed_invar "\<lambda>_ _. True" for api
  by unfold_locales simp

interpretation prefix_low: volume_index_low "prefix_write_to_index api" prefix_read_from_index prefix_view prefix_invar prefix_range_ok for api
proof unfold_locales
  fix lo hi :: lba_t
  assume "lo \<le> hi" "unat hi < 2 ^ 32" "unat (hi - lo) < 2 ^ 31"
  moreover from this have "unat lo < 2 ^ 32" by (simp add: word_le_nat_alt)
  ultimately show "prefix_range_ok lo hi" by (simp add: prefix_range_ok_def)
qed

text \<open>The value the loop gives to the block \<open>k\<close> of the request, and the update of one range.\<close>

definition blk_val :: "blk_id list \<Rightarrow> (nat \<Rightarrow> csum_t) \<Rightarrow> nat \<Rightarrow> index_value" where
  "blk_val blks cs k = \<lparr>iv_blkid = blks ! k, iv_checksum = cs k\<rparr>"

definition upd_range :: "nat \<Rightarrow> nat \<Rightarrow> (nat \<Rightarrow> 'v) \<Rightarrow> (lba_t \<Rightarrow> 'v option) \<Rightarrow> lba_t \<Rightarrow> 'v option" where
  "upd_range S m f g x = (if S \<le> unat x \<and> unat x < S + m then Some (f (unat x - S)) else g x)"

lemma upd_range_0 [simp]: "upd_range S 0 f g = g"
  by (auto simp: upd_range_def fun_eq_iff)

lemma upd_range_split:
  "upd_range (S + c) m (\<lambda>k. f (c + k)) (upd_range S c f g) = upd_range S (c + m) f g"
  by (auto simp: upd_range_def fun_eq_iff add.assoc diff_diff_left)

lemma upd_range_cong: "(\<And>k. k < m \<Longrightarrow> f k = f' k) \<Longrightarrow> upd_range S m f g = upd_range S m f' g"
  by (auto simp: upd_range_def fun_eq_iff)

text \<open>The old block of an address, as the infos record it.\<close>

definition old_at :: "blk_api \<Rightarrow> (lba_t \<Rightarrow> index_value option) \<Rightarrow> nat \<Rightarrow> blk_id" where
  "old_at api view x = (case view (of_nat x) of None \<Rightarrow> no_blk api | Some v \<Rightarrow> iv_blkid v)"

context volume_index_low
begin

text \<open>One piece: its infos and its range of the index.\<close>

lemma index_piece:
  assumes inv: "invar t" and c: "0 < unat (blk_count b)" "unat (blk_num b) + unat (blk_count b) < 2 ^ 31"
    and cs: "\<And>j. j < unat (blk_count b) \<Longrightarrow> csum_at (pos + j * step) = Inr (cs j)" and E: "unat l + unat (blk_count b) < 2 ^ 32"
    and bi: "\<And>x. unat l \<le> unat x \<Longrightarrow> map_of bi x = None" "distinct (map fst bi)"
    and p: "piece_infos api csum_at step b l [0..<unat (blk_count b)] pos bi = Inr (pos', bi1)"
    and w: "write_to_index l (l + ucast (blk_count b) - 1) bi1 t = Some (Inr u, bi2, t2)"
  defines "c \<equiv> unat (blk_count b)" and "L \<equiv> unat l"
  shows "invar t2 \<and> pos' = pos + c * step \<and> distinct (map fst bi2) \<and> set (map fst bi2) = set (map fst bi) \<union> {x. L \<le> unat x \<and> unat x < L + c} \<and>
    unat (l + ucast (blk_count b) - 1 + 1) = L + c \<and>
    view t2 = upd_range L c (blk_val (blks_of b) cs) (view t) \<and>
    info_new bi2 = upd_range L c (blk_val (blks_of b) cs) (info_new bi) \<and>
    info_old bi2 = upd_range L c (\<lambda>k. old_at api (view t) (L + k)) (info_old bi)"
proof -
  obtain bi1' where "piece_infos api csum_at step b l [0..<c] pos bi = Inr (pos + c * step, bi1')" and I: "distinct (map fst bi1')"
    "\<forall>x. map_of bi1' x = (if L \<le> unat x \<and> unat x < L + c
       then Some \<lparr>new_blkid = single_blk b (unat x - L), old_blkid = no_blk api, new_checksum = cs (unat x - L), old_checksum = 0\<rparr> else map_of bi x)"
    using piece_infos_range [of b csum_at pos step cs l bi api, OF cs E bi] unfolding c_def L_def by blast
  then have eq: "bi1' = bi1" "pos' = pos + c * step" using p unfolding c_def by simp_all
  note I = I [unfolded eq(1)]
  have uc: "unat (ucast (blk_count b) :: u64) = c" using u16_bound [of "blk_count b"] by (simp add: c_def unsigned_ucast_eq take_bit_nat_eq_self)
  have lc: "unat (l + ucast (blk_count b)) = L + c" using E uc by (simp add: unat_word_ariths L_def c_def)
  then have "l + ucast (blk_count b) \<noteq> 0" using c(1) by (metis add_is_0 c_def less_numeral_extra(3) unat_0)
  then have hi: "unat (l + ucast (blk_count b) - 1) = L + c - 1" using lc by (simp add: unat_minus_one)
  let ?hi = "l + ucast (blk_count b) - 1"
  have rng: "l \<le> x \<and> x \<le> ?hi \<longleftrightarrow> L \<le> unat x \<and> unat x < L + c" for x
    unfolding word_le_nat_alt hi L_def using c(1) c_def by linarith
  have le: "l \<le> ?hi" unfolding word_le_nat_alt hi L_def using c(1) c_def by linarith
  have hil: "unat (?hi - l) = c - 1" unfolding unat_sub [OF le] hi by (simp add: L_def)
  have low: "unat ?hi < 2 ^ 32" using hi E unfolding L_def c_def by linarith
  have c31: "c - 1 < 2 ^ 31" using c(2) unfolding c_def by linarith
  have run: "blk_run bi1 l ?hi"
    unfolding blk_run_def
  proof (intro exI [of _ "single_blk b 0"] conjI allI impI)
    show "unat (blk_num (single_blk b 0)) + unat (?hi - l) < 2 ^ 31" using c(2) hil by (simp add: single_blk_def c_def)
    fix x assume "l \<le> x" "x \<le> ?hi"
    then have x: "L \<le> unat x \<and> unat x < L + c" and "l \<le> x" using rng by auto
    then have "unat x - L = unat (x - l)" by (simp add: unat_sub L_def)
    then have "single_blk b (unat x - L) = (single_blk b 0)\<lparr>blk_num := blk_num (single_blk b 0) + ucast (x - l)\<rparr>" by (simp add: single_blk_def)
    then show "\<exists>i. map_of bi1 x = Some i \<and> new_blkid i = (single_blk b 0)\<lparr>blk_num := blk_num (single_blk b 0) + ucast (x - l)\<rparr>"
      using I(2) x by simp
  qed
  note W = write_ok [OF inv le low_less_max [OF low] range_low [OF le low] run w, unfolded hil, OF c31]
  have new: "info_new bi1 = upd_range L c (blk_val (blks_of b) cs) (info_new bi)"
    using I(2) by (auto simp: fun_eq_iff info_new_def upd_range_def blk_val_def nth_blks_of c_def)
  have old: "info_old bi1 x = (if L \<le> unat x \<and> unat x < L + c then Some (no_blk api) else info_old bi x)" for x
    using I(2) by (simp add: info_old_def)
  have "set (map fst bi1) = set (map fst bi) \<union> {x. L \<le> unat x \<and> unat x < L + c}"
  proof (intro set_eqI)
    fix x
    have "x \<in> set (map fst m) \<longleftrightarrow> map_of m x \<noteq> None" for m :: blocks_info by (simp add: map_of_eq_None_iff)
    then show "x \<in> set (map fst bi1) \<longleftrightarrow> x \<in> set (map fst bi) \<union> {x. L \<le> unat x \<and> unat x < L + c}"
      using I(2) by auto
  qed
  moreover have "view t2 = upd_range L c (blk_val (blks_of b) cs) (view t)"
    using W rng new by (auto simp: fun_eq_iff upd_range_def)
  moreover have "info_old bi2 = upd_range L c (\<lambda>k. old_at api (view t) (L + k)) (info_old bi)"
  proof
    fix x
    have "info_old bi2 x = (if l \<le> x \<and> x \<le> ?hi \<and> view t x \<noteq> None then map_option iv_blkid (view t x) else info_old bi1 x)"
      using W by simp
    then show "info_old bi2 x = upd_range L c (\<lambda>k. old_at api (view t) (L + k)) (info_old bi) x"
      using rng [of x] old [of x] by (auto simp: upd_range_def old_at_def split: option.splits)
  qed
  moreover have "unat (?hi + 1) = L + c" using lc by simp
  ultimately show ?thesis using W I(1) eq(2) new by simp
qed

text \<open>All pieces.\<close>

lemma index_pieces_ok:
  assumes "invar t" "pieces_wf blkids" "\<And>k. k < length (all_blks blkids) \<Longrightarrow> csum_at (pos + k * step) = Inr (cs k)"
    and "unat l + length (all_blks blkids) < 2 ^ 32" "\<And>x. unat l \<le> unat x \<Longrightarrow> map_of bi x = None" "distinct (map fst bi)"
    and "index_pieces api \<lparr>ix_write = write_to_index, ix_read = read_from_index\<rparr> csum_at step blkids l pos bi t = Inr (Inr u, pos', bi', t')"
  shows "invar t' \<and> pos' = pos + length (all_blks blkids) * step \<and> distinct (map fst bi') \<and>
    set (map fst bi') = set (map fst bi) \<union> {x. unat l \<le> unat x \<and> unat x < unat l + length (all_blks blkids)} \<and>
    view t' = upd_range (unat l) (length (all_blks blkids)) (blk_val (all_blks blkids) cs) (view t) \<and>
    info_new bi' = upd_range (unat l) (length (all_blks blkids)) (blk_val (all_blks blkids) cs) (info_new bi) \<and>
    info_old bi' = upd_range (unat l) (length (all_blks blkids)) (\<lambda>k. old_at api (view t) (unat l + k)) (info_old bi)"
  using assms
proof (induction blkids arbitrary: l pos bi t cs)
  case Nil
  then show ?case by auto
next
  case (Cons b bs)
  let ?c = "unat (blk_count b)" and ?m = "length (all_blks bs)" and ?hi = "l + ucast (blk_count b) - 1"
  have b: "0 < ?c" "unat (blk_num b) + ?c < 2 ^ 31" using Cons.prems(2) by (auto simp: pieces_wf_def unat_gt_0)
  have cs: "csum_at (pos + j * step) = Inr (cs j)" if "j < ?c" for j using Cons.prems(3) that by simp
  have E: "unat l + ?c < 2 ^ 32" using Cons.prems(4) by simp
  obtain bi1 bi2 t2 v where p: "piece_infos api csum_at step b l [0..<?c] pos bi = Inr (pos + ?c * step, bi1)"
    and w: "write_to_index l ?hi bi1 t = Some (Inr v, bi2, t2)"
    and rest: "index_pieces api \<lparr>ix_write = write_to_index, ix_read = read_from_index\<rparr> csum_at step bs (?hi + 1) (pos + ?c * step) bi2 t2 = Inr (Inr u, pos', bi', t')"
    using Cons.prems(7) piece_infos_range [of b csum_at pos step cs l bi api, OF cs E Cons.prems(5,6)]
    by (auto simp: Let_def split: option.splits sum.splits)
  note P = index_piece [OF Cons.prems(1) b cs E Cons.prems(5,6) p w]
  have keys2: "map_of bi2 x = None" if "unat (?hi + 1) \<le> unat x" for x
  proof -
    have "unat l \<le> unat x" "\<not> unat x < unat l + ?c" using that P by linarith+
    then have "x \<notin> set (map fst bi2)" using P Cons.prems(5) [of x] by (auto simp: map_of_eq_None_iff)
    then show ?thesis by (simp add: map_of_eq_None_iff)
  qed
  have IH: "invar t' \<and> pos' = pos + ?c * step + ?m * step \<and> distinct (map fst bi') \<and>
    set (map fst bi') = set (map fst bi2) \<union> {x. unat (?hi + 1) \<le> unat x \<and> unat x < unat (?hi + 1) + ?m} \<and>
    view t' = upd_range (unat (?hi + 1)) ?m (blk_val (all_blks bs) (\<lambda>k. cs (?c + k))) (view t2) \<and>
    info_new bi' = upd_range (unat (?hi + 1)) ?m (blk_val (all_blks bs) (\<lambda>k. cs (?c + k))) (info_new bi2) \<and>
    info_old bi' = upd_range (unat (?hi + 1)) ?m (\<lambda>k. old_at api (view t2) (unat (?hi + 1) + k)) (info_old bi2)"
  proof (rule Cons.IH [OF _ _ _ _ _ _ rest])
    show "csum_at (pos + ?c * step + k * step) = Inr (cs (?c + k))" if "k < ?m" for k
      using Cons.prems(3) [of "?c + k"] that by (simp add: add_mult_distrib add.assoc)
    show "unat (?hi + 1) + ?m < 2 ^ 32" using P Cons.prems(4) by simp
  qed (use P Cons.prems(2) keys2 in \<open>simp_all add: pieces_wf_def\<close>)
  have val: "blk_val (all_blks bs) (\<lambda>k. cs (?c + k)) = (\<lambda>k. blk_val (all_blks (b # bs)) cs (?c + k))"
    by (simp add: fun_eq_iff blk_val_def nth_append)
  have first: "upd_range (unat l) ?c (blk_val (blks_of b) cs) g = upd_range (unat l) ?c (blk_val (all_blks (b # bs)) cs) g" for g
    by (rule upd_range_cong) (simp add: blk_val_def nth_append)
  have old: "old_at api (view t2) (unat l + ?c + k) = old_at api (view t) (unat l + (?c + k))" if "k < ?m" for k
  proof -
    have "unat (of_nat (unat l + (?c + k)) :: u64) = unat l + (?c + k)" using that Cons.prems(4) by (intro unat_of_nat_u64) simp
    then have "view t2 (of_nat (unat l + (?c + k))) = view t (of_nat (unat l + (?c + k)))" using P by (simp add: upd_range_def)
    then show ?thesis by (simp add: old_at_def add.assoc)
  qed
  have hi1: "unat (?hi + 1) = unat l + ?c" using P by blast
  have eqs: "view t2 = upd_range (unat l) ?c (blk_val (all_blks (b # bs)) cs) (view t)"
    "info_new bi2 = upd_range (unat l) ?c (blk_val (all_blks (b # bs)) cs) (info_new bi)"
    "info_old bi2 = upd_range (unat l) ?c (\<lambda>k. old_at api (view t) (unat l + k)) (info_old bi)"
    using P first by simp_all
  have olds: "info_old bi' = upd_range (unat l + ?c) ?m (\<lambda>k. old_at api (view t) (unat l + (?c + k))) (info_old bi2)"
  proof -
    have "info_old bi' = upd_range (unat l + ?c) ?m (\<lambda>k. old_at api (view t2) (unat l + ?c + k)) (info_old bi2)" using IH unfolding hi1 by blast
    also have "\<dots> = upd_range (unat l + ?c) ?m (\<lambda>k. old_at api (view t) (unat l + (?c + k))) (info_old bi2)" using old by (rule upd_range_cong)
    finally show ?thesis .
  qed
  have len: "length (all_blks (b # bs)) = ?c + ?m" by simp
  have "view t' = upd_range (unat l) (?c + ?m) (blk_val (all_blks (b # bs)) cs) (view t)"
    "info_new bi' = upd_range (unat l) (?c + ?m) (blk_val (all_blks (b # bs)) cs) (info_new bi)"
    using IH unfolding hi1 val eqs(1,2) upd_range_split by blast+
  moreover have "info_old bi' = upd_range (unat l) (?c + ?m) (\<lambda>k. old_at api (view t) (unat l + k)) (info_old bi)"
    unfolding olds eqs(3) by (rule upd_range_split)
  moreover have "set (map fst bi') = set (map fst bi) \<union> {x. unat l \<le> unat x \<and> unat x < unat l + (?c + ?m)}"
  proof -
    have "set (map fst bi2) = set (map fst bi) \<union> {x. unat l \<le> unat x \<and> unat x < unat l + ?c}" using P by blast
    moreover have "set (map fst bi') = set (map fst bi2) \<union> {x. unat l + ?c \<le> unat x \<and> unat x < unat l + ?c + ?m}" using IH unfolding hi1 by blast
    ultimately show ?thesis by (auto simp only: Un_iff mem_Collect_eq set_eq_iff)
  qed
  moreover have "invar t'" "pos' = pos + (?c + ?m) * step" "distinct (map fst bi')" using IH by (simp_all add: add_mult_distrib)
  ultimately show ?case unfolding len by blast
qed

end

end
