(* ===== verification/Volume_Journal.thy ===== *)
theory Volume_Journal
  imports Volume_Write_Index
begin

text \<open>
  The key of a journal entry: what the write puts into it and what the commit and the replay find there; and the device operations of the
  write path, with the laws a volume relies on.
\<close>

section \<open>The key\<close>

definition blk_codec_ok :: "blk_codec \<Rightarrow> bool" where
  "blk_codec_ok codec \<longleftrightarrow> (\<forall>b. length (blk_bytes codec b) = blk_sizeof codec \<and> blk_parse codec (blk_bytes codec b) = b)"

lemma length_journal_entry_bytes [simp]: "length (journal_entry_bytes e) = journal_entry_size"
  by (simp add: journal_entry_bytes_def journal_entry_size_def)

lemma journal_entry_roundtrip: "journal_entry_of (journal_entry_bytes e @ rest) = Inr e"
  using u64_bound [of "je_start_lba e"] u32_bound [of "je_nlbas e"] u16_bound [of "je_num_old_blks e"]
  by (simp add: journal_entry_of_def) (simp add: journal_entry_size_def journal_entry_bytes_def le_value_inverse)

lemma length_key_csums [simp]: "length (key_csums api req bi) = 2 * unat (req_nlbas req)"
  unfolding key_csums_def by (simp add: length_concat comp_def sum_list_triv)

lemma peek_append: "length pre = pos \<Longrightarrow> length bytes = n \<Longrightarrow> peek pos n (pre @ bytes @ rest) = Inr bytes"
  by (simp add: peek_def)

lemma length_concat_const: "(\<And>x. x \<in> set xs \<Longrightarrow> length (f x) = n) \<Longrightarrow> length (concat (map f xs)) = length xs * n"
  by (induction xs) auto

lemma peek_block:
  assumes "\<And>x. x \<in> set xs \<Longrightarrow> length (f x) = n" "k < length xs" "length pre = pos"
  shows "peek (pos + k * n) n (pre @ concat (map f xs) @ rest) = Inr (f (xs ! k))"
proof -
  have "xs = take k xs @ xs ! k # drop (Suc k) xs" by (rule id_take_nth_drop [OF assms(2)])
  then have split: "pre @ concat (map f xs) @ rest = (pre @ concat (map f (take k xs))) @ f (xs ! k) @ (concat (map f (drop (Suc k) xs)) @ rest)"
    by (metis (no_types, lifting) append.assoc concat.simps(2) concat_append list.simps(9) map_append)
  have "length (concat (map f (take k xs))) = k * n"
    using length_concat_const [of "take k xs" f n] assms(1,2) by (auto dest: in_set_takeD)
  then show ?thesis unfolding split using assms by (intro peek_append) simp_all
qed

text \<open>The checksums in the key.\<close>

lemma csum_in_journal_key:
  assumes "k < unat (req_nlbas req)"
  shows "csum_in_key (journal_key api codec req bi) (journal_entry_size + k * 2) = Inr (new_checksum (info_at api (req_lba req + of_nat k) bi))"
proof -
  let ?f = "\<lambda>i. le_bytes 2 (unat (new_checksum (info_at api (req_lba req + of_nat i) bi)))"
  have "peek (journal_entry_size + k * 2) 2 (journal_key api codec req bi) = Inr (?f ([0..<unat (req_nlbas req)] ! k))"
    unfolding journal_key_def key_csums_def Let_def using assms by (intro peek_block) simp_all
  then show ?thesis using assms u16_bound by (simp add: csum_in_key_def le_value_inverse)
qed

section \<open>The device\<close>

definition alloced :: "'d repl_dev \<Rightarrow> 'd \<Rightarrow> blk_id \<Rightarrow> bool" where
  "alloced rd d b \<longleftrightarrow> is_blk_alloced rd b d"

text \<open>
  The laws: an allocation returns fresh blocks for the size asked for; a write stores its data in them and touches no other block; journaling changes nothing a volume
  sees; a free affects no block but its own, and no contents.
\<close>

definition alloc_ok :: "'d repl_dev \<Rightarrow> bool" where
  "alloc_ok rd \<longleftrightarrow> (\<forall>sz hint d r d'. alloc_blks rd sz hint d = (r, d') \<longrightarrow> blk_data rd d' = blk_data rd d \<and> journal_log rd d' = journal_log rd d \<and>
     (case r of
        None \<Rightarrow> alloced rd d' = alloced rd d
      | Some bids \<Rightarrow> pieces_wf bids \<and> length (all_blks bids) * unat (get_blk_size rd) = unat sz \<and> distinct (all_blks bids) \<and>
          (\<forall>b\<in>set (all_blks bids). \<not> alloced rd d b) \<and> alloced rd d' = (\<lambda>b. alloced rd d b \<or> b \<in> set (all_blks bids))))"

definition write_ok_law :: "'d repl_dev \<Rightarrow> bool" where
  "write_ok_law rd \<longleftrightarrow> (\<forall>bids data d ok d'. async_write rd bids data d = (ok, d') \<longrightarrow> alloced rd d' = alloced rd d \<and> journal_log rd d' = journal_log rd d \<and>
     (\<forall>c k. \<lparr>blk_num = k, blk_count = 1, blk_chunk = c\<rparr> \<notin> set (all_blks bids) \<longrightarrow> blk_data rd d' c k = blk_data rd d c k) \<and>
     (ok \<longrightarrow> distinct (all_blks bids) \<longrightarrow> length data = length (all_blks bids) * unat (get_blk_size rd) \<longrightarrow>
        (\<forall>i<length (all_blks bids). blk_data rd d' (blk_chunk (all_blks bids ! i)) (blk_num (all_blks bids ! i)) = blk_at (unat (get_blk_size rd)) data i)))"

definition journal_ok :: "'d repl_dev \<Rightarrow> bool" where
  "journal_ok rd \<longleftrightarrow> (\<forall>bids h key sz d r d'. async_write_journal rd bids h key sz d = (r, d') \<longrightarrow>
     blk_data rd d' = blk_data rd d \<and> alloced rd d' = alloced rd d \<and>
     (case r of None \<Rightarrow> True | Some _ \<Rightarrow> journal_log rd d' = journal_log rd d @ [(h, key, bids)]))"

definition free_ok :: "'d repl_dev \<Rightarrow> bool" where
  "free_ok rd \<longleftrightarrow> (\<forall>lsn b d. \<forall>d'\<in>{async_free_blks rd lsn b d, free_blk_now rd b d}.
     blk_data rd d' = blk_data rd d \<and> journal_log rd d' = journal_log rd d \<and> (\<forall>x. alloced rd d' x \<longrightarrow> alloced rd d x) \<and>
     (\<forall>x. x \<noteq> b \<longrightarrow> alloced rd d' x = alloced rd d x))"

definition dev_ok :: "'d repl_dev \<Rightarrow> bool" where
  "dev_ok rd \<longleftrightarrow> 0 < get_blk_size rd \<and> dev_read_ok rd \<and> alloc_ok rd \<and> write_ok_law rd \<and> journal_ok rd \<and> free_ok rd"

text \<open>One free of the commit.\<close>

definition free_one :: "'d repl_dev \<Rightarrow> int \<Rightarrow> bool \<Rightarrow> blk_id \<Rightarrow> 'd \<Rightarrow> 'd" where
  "free_one rd lsn recovery b d =
     (if is_blk_alloced rd b d then if recovery then free_blk_now rd b d else async_free_blks rd lsn b d else d)"

lemma free_one_facts:
  assumes "free_ok rd"
  shows "blk_data rd (free_one rd lsn recovery b d) = blk_data rd d" "journal_log rd (free_one rd lsn recovery b d) = journal_log rd d" "alloced rd (free_one rd lsn recovery b d) x \<Longrightarrow> alloced rd d x"
    "x \<noteq> b \<Longrightarrow> alloced rd (free_one rd lsn recovery b d) x = alloced rd d x"
proof -
  have law: "blk_data rd d' = blk_data rd d \<and> journal_log rd d' = journal_log rd d \<and> (\<forall>x. alloced rd d' x \<longrightarrow> alloced rd d x) \<and> (\<forall>x. x \<noteq> b \<longrightarrow> alloced rd d' x = alloced rd d x)"
    if "d' \<in> {d, async_free_blks rd lsn b d, free_blk_now rd b d}" for d'
    using that assms unfolding free_ok_def by (elim insertE) blast+
  have "free_one rd lsn recovery b d \<in> {d, async_free_blks rd lsn b d, free_blk_now rd b d}" by (simp add: free_one_def)
  from law [OF this] show "blk_data rd (free_one rd lsn recovery b d) = blk_data rd d" "journal_log rd (free_one rd lsn recovery b d) = journal_log rd d" "alloced rd (free_one rd lsn recovery b d) x \<Longrightarrow> alloced rd d x"
    "x \<noteq> b \<Longrightarrow> alloced rd (free_one rd lsn recovery b d) x = alloced rd d x" by blast+
qed

lemma free_fold_facts:
  assumes "free_ok rd"
  shows "blk_data rd (fold (free_one rd lsn recovery) bs d) = blk_data rd d \<and> journal_log rd (fold (free_one rd lsn recovery) bs d) = journal_log rd d \<and>
    (\<forall>x. alloced rd (fold (free_one rd lsn recovery) bs d) x \<longrightarrow> alloced rd d x) \<and>
    (\<forall>x. x \<notin> set bs \<longrightarrow> alloced rd (fold (free_one rd lsn recovery) bs d) x = alloced rd d x)"
proof (induction bs arbitrary: d)
  case (Cons b bs)
  show ?case using Cons [of "free_one rd lsn recovery b d"] free_one_facts [OF assms] by auto
qed simp

lemma free_old_ok:
  assumes codec: "blk_codec_ok codec" and "length pre = pos"
  shows "free_old codec rd lsn recovery (pre @ concat (map (blk_bytes codec) bs) @ rest) (length bs) pos d = Inr (fold (free_one rd lsn recovery) bs d)"
  using assms(2)
proof (induction bs arbitrary: pre pos d)
  case (Cons b bs)
  have c: "length (blk_bytes codec b) = blk_sizeof codec" "blk_parse codec (blk_bytes codec b) = b" using codec by (auto simp: blk_codec_ok_def)
  have pk: "peek pos (blk_sizeof codec) (pre @ concat (map (blk_bytes codec) (b # bs)) @ rest) = Inr (blk_bytes codec b)"
    using peek_append [OF Cons.prems c(1)] by simp
  have "free_old codec rd lsn recovery ((pre @ blk_bytes codec b) @ concat (map (blk_bytes codec) bs) @ rest) (length bs) (pos + blk_sizeof codec)
      (free_one rd lsn recovery b d) = Inr (fold (free_one rd lsn recovery) bs (free_one rd lsn recovery b d))"
    using Cons.prems c(1) by (intro Cons.IH) simp
  then show ?case unfolding length_Cons free_old.simps pk bind_sum_simps Let_def c(2) by (simp flip: free_one_def)
qed simp

text \<open>The commit of a key the write built frees exactly the blocks the write replaced.\<close>

lemma on_write_commit:
  assumes "blk_codec_ok codec" "length (old_blkids_of api bi) < 2 ^ 16"
  shows "on_write api codec ix rd lsn False (journal_key api codec req bi) blkids (vol, d) =
    Inr (vol, fold (free_one rd lsn False) (old_blkids_of api bi) d)"
proof -
  let ?e = "\<lparr>je_start_lba = req_lba req, je_nlbas = req_nlbas req, je_num_old_blks = of_nat (length (old_blkids_of api bi))\<rparr>"
  have n: "unat (of_nat (length (old_blkids_of api bi)) :: u16) = length (old_blkids_of api bi)" using assms(2) by (simp add: unat_of_nat)
  have key: "journal_key api codec req bi = (journal_entry_bytes ?e @ key_csums api req bi) @ concat (map (blk_bytes codec) (old_blkids_of api bi)) @ []"
    by (simp add: journal_key_def Let_def)
  have "journal_entry_of (journal_key api codec req bi) = Inr ?e" unfolding key append_assoc by (rule journal_entry_roundtrip)
  moreover have "free_old codec rd lsn False (journal_key api codec req bi) (length (old_blkids_of api bi)) (journal_entry_size + unat (req_nlbas req) * 2) d =
      Inr (fold (free_one rd lsn False) (old_blkids_of api bi) d)"
    unfolding key by (rule free_old_ok [OF assms(1)]) simp
  ultimately show ?thesis by (simp add: on_write_def Let_def n)
qed

text \<open>A commit, replayed or not, changes no data.\<close>

lemma free_old_data:
  assumes "free_ok rd"
  shows "free_old codec rd lsn recovery key n pos d = Inr d' \<Longrightarrow> blk_data rd d' = blk_data rd d"
proof (induction n arbitrary: pos d)
  case (Suc n)
  then show ?case using free_one_facts(1) [OF assms] by (auto simp: bind_sum_eq_Inr Let_def simp flip: free_one_def)
qed simp

lemma on_write_data:
  assumes "free_ok rd" "on_write api codec ix rd lsn recovery key bids (vol, d) = Inr (r, d')"
  shows "blk_data rd d' = blk_data rd d"
  using assms(2) free_old_data [OF assms(1)]
  by (auto simp: on_write_def Let_def bind_sum_eq_Inr split: if_splits option.splits sum.splits) (metis obj_sumE old.unit.exhaust)

text \<open>The addresses of a request.\<close>

definition in_req :: "io_req \<Rightarrow> lba_t \<Rightarrow> bool" where
  "in_req req x \<longleftrightarrow> unat (req_lba req) \<le> unat x \<and> unat x < unat (req_lba req) + unat (req_nlbas req)"

end
