(* ===== verification/Volume_Write_Contract.thy ===== *)
theory Volume_Write_Contract
  imports Volume_Journal
begin

text \<open>
  The contract of a write: an acknowledged write updates the image of the volume pointwise, records checksums that fit, and keeps every
  mapped block allocated and mapped once. The replay of its journal entry on any earlier state of the index leads to the same index.
\<close>

section \<open>Indexes that take updates\<close>

text \<open>From the states \<open>S\<close> on, every update of the index succeeds and stays within \<open>S\<close>.\<close>

definition accepts :: "(lba_t \<Rightarrow> lba_t \<Rightarrow> blocks_info \<Rightarrow> 't \<Rightarrow> (unit res \<times> blocks_info \<times> 't) option) \<Rightarrow> ('t \<Rightarrow> bool) \<Rightarrow> bool" where
  "accepts wr S \<longleftrightarrow> (\<forall>lo hi bi t. S t \<longrightarrow> hi < - 1 \<longrightarrow> (\<exists>bi' t'. wr lo hi bi t = Some (Inr (), bi', t') \<and> S t'))"

section \<open>The mapping invariant\<close>

definition api_ok :: "blk_api \<Rightarrow> bool" where
  "api_ok api \<longleftrightarrow> \<not> is_valid api (no_blk api) \<and> (\<forall>b. blk_count b \<noteq> 0 \<longrightarrow> is_valid api b)"

text \<open>Every mapped block is one allocated block, and no two addresses share one.\<close>

definition mapped_ok :: "'d repl_dev \<Rightarrow> 'd \<Rightarrow> (lba_t \<Rightarrow> index_value option) \<Rightarrow> bool" where
  "mapped_ok rd d view \<longleftrightarrow> (\<forall>x v. view x = Some v \<longrightarrow> blk_count (iv_blkid v) = 1 \<and> alloced rd d (iv_blkid v) \<and>
     (\<forall>y w. view y = Some w \<longrightarrow> iv_blkid w = iv_blkid v \<longrightarrow> y = x))"

lemma mapped_okD:
  assumes "mapped_ok rd d view" "view x = Some v"
  shows "blk_count (iv_blkid v) = 1" "alloced rd d (iv_blkid v)" "view y = Some w \<Longrightarrow> iv_blkid w = iv_blkid v \<Longrightarrow> y = x"
  using assms unfolding mapped_ok_def by blast+

lemma info_old_Nil: "info_old [] = (\<lambda>_. None)"
  by (simp add: info_old_def fun_eq_iff)

lemma info_new_Nil: "info_new [] = (\<lambda>_. None)"
  by (simp add: info_new_def fun_eq_iff)

lemma set_old_blkids:
  "distinct (map fst bi) \<Longrightarrow> b \<in> set (old_blkids_of api bi) \<longleftrightarrow> is_valid api b \<and> (\<exists>l. info_old bi l = Some b)"
  by (auto simp: old_blkids_of_def info_old_def map_of_eq_Some_iff)

lemma all_blks_count: "b \<in> set (all_blks bids) \<Longrightarrow> blk_count b = 1"
  by (auto simp: all_blks_def blks_of_def single_blk_def)

lemma blk_id_eq: "blk_count b = 1 \<Longrightarrow> \<lparr>blk_num = blk_num b, blk_count = 1, blk_chunk = blk_chunk b\<rparr> = b"
  by (cases b) simp

section \<open>The blocks a write replaces\<close>

text \<open>The state of the infos after the index is updated, for a request of \<open>n\<close> blocks from \<open>L\<close> on.\<close>

lemma old_blkids_range:
  assumes "distinct (map fst bi)" "set (map fst bi) = {x. L \<le> unat x \<and> unat x < L + n}"
    and "info_old bi = upd_range L n (\<lambda>k. old_at api view (L + k)) (\<lambda>_. None)" and api: "\<not> is_valid api (no_blk api)"
    and valid: "\<forall>x v. view x = Some v \<longrightarrow> is_valid api (iv_blkid v)" and L: "L + n < 2 ^ 32"
  shows "b \<in> set (old_blkids_of api bi) \<longleftrightarrow> (\<exists>x v. L \<le> unat x \<and> unat x < L + n \<and> view x = Some v \<and> b = iv_blkid v)"
    "length (old_blkids_of api bi) \<le> n"
proof -
  show "b \<in> set (old_blkids_of api bi) \<longleftrightarrow> (\<exists>x v. L \<le> unat x \<and> unat x < L + n \<and> view x = Some v \<and> b = iv_blkid v)"
    unfolding set_old_blkids [OF assms(1)] assms(3)
  proof
    assume "is_valid api b \<and> (\<exists>l. upd_range L n (\<lambda>k. old_at api view (L + k)) (\<lambda>_. None) l = Some b)"
    then obtain l :: lba_t where l: "is_valid api b" "L \<le> unat l" "unat l < L + n" "b = old_at api view (unat l)"
      by (auto simp: upd_range_def split: if_splits)
    then obtain v where "view l = Some v" using api by (cases "view l") (auto simp: old_at_def)
    then show "\<exists>x v. L \<le> unat x \<and> unat x < L + n \<and> view x = Some v \<and> b = iv_blkid v" using l by (auto simp: old_at_def)
  next
    assume "\<exists>x v. L \<le> unat x \<and> unat x < L + n \<and> view x = Some v \<and> b = iv_blkid v"
    then obtain x v where x: "L \<le> unat x" "unat x < L + n" "view x = Some v" "b = iv_blkid v" by blast
    then have "upd_range L n (\<lambda>k. old_at api view (L + k)) (\<lambda>_. None) x = Some b" by (simp add: upd_range_def old_at_def)
    then show "is_valid api b \<and> (\<exists>l. upd_range L n (\<lambda>k. old_at api view (L + k)) (\<lambda>_. None) l = Some b)" using valid x by blast
  qed
  have "length bi = card (set (map fst bi))" using distinct_card [OF assms(1)] by simp
  also have "\<dots> = card (unat ` {x :: u64. L \<le> unat x \<and> unat x < L + n})" unfolding assms(2)
    by (intro card_image [symmetric] inj_onI) (simp add: word_unat_eq_iff)
  also have "\<dots> \<le> card {L..<L + n}" by (intro card_mono) auto
  finally have "length bi \<le> n" by simp
  then show "length (old_blkids_of api bi) \<le> n" unfolding old_blkids_of_def by (intro order_trans [OF length_filter_le]) simp
qed

section \<open>Writing\<close>

lemma csum_of_data_ok:
  assumes "k < n" "length b = n * unat blk_size"
  shows "csum_of_data crc blk_size (Some b) (k * unat blk_size) = Inr (crc init_crc_16 (blk_at (unat blk_size) b k))"
proof -
  have "Suc k * unat blk_size \<le> n * unat blk_size" using assms(1) by (intro mult_le_mono1) simp
  then show ?thesis using assms(2) by (simp add: csum_of_data_def peek_buf_def peek_def blk_at_def)
qed

text \<open>The steps of an acknowledged write.\<close>

lemma volume_write_ackE:
  assumes "volume_write api codec ix rd crc vol_id ordinal req (t, d) = Inr (Inr u, t', d')"
  obtains bids d1 data d2 pos bi d3 lsn where
    "alloc_blks rd (req_nlbas req * get_blk_size rd) ordinal d = (Some bids, d1)"
    "peek_buf 0 (unat (req_nlbas req * get_blk_size rd)) (req_buffer req) = Inr data"
    "async_write rd bids data d1 = (True, d2)"
    "index_pieces api ix (csum_of_data crc (get_blk_size rd) (req_buffer req)) (unat (get_blk_size rd)) bids (req_lba req) 0 [] t = Inr (Inr (), pos, bi, t')"
    "async_write_journal rd bids \<lparr>msg_type = WRITE, volume_id = vol_id\<rparr> (journal_key api codec req bi) (req_nlbas req * get_blk_size rd) d2 = (Some lsn, d3)"
    "\<exists>w. on_write api codec ix rd lsn False (journal_key api codec req bi) bids (Some t', d3) = Inr (w, d')"
proof -
  obtain r d1 where al: "alloc_blks rd (req_nlbas req * get_blk_size rd) ordinal d = (r, d1)" by (meson surj_pair)
  then obtain bids where r: "r = Some bids" using assms by (cases r) (auto simp: volume_write_def Let_def)
  obtain data where data: "peek_buf 0 (unat (req_nlbas req * get_blk_size rd)) (req_buffer req) = Inr data"
    using assms al r by (cases "peek_buf 0 (unat (req_nlbas req * get_blk_size rd)) (req_buffer req)") (auto simp: volume_write_def Let_def)
  obtain wr d2 where wr: "async_write rd bids data d1 = (wr, d2)" by (meson surj_pair)
  then have wr: "async_write rd bids data d1 = (True, d2)" using assms al r data by (cases wr) (auto simp: volume_write_def Let_def)
  obtain st pos bi t1 where ip: "index_pieces api ix (csum_of_data crc (get_blk_size rd) (req_buffer req)) (unat (get_blk_size rd)) bids (req_lba req) 0 [] t = Inr (st, pos, bi, t1)"
    using assms al r data wr
    by (cases "index_pieces api ix (csum_of_data crc (get_blk_size rd) (req_buffer req)) (unat (get_blk_size rd)) bids (req_lba req) 0 [] t")
      (auto simp: volume_write_def Let_def)
  then have st: "st = Inr ()" and wj: "write_journal_entry api codec ix rd vol_id req (req_nlbas req * get_blk_size rd) bids bi t1 d2 = Inr (Inr u, t', d')"
    using assms al r data wr by (cases st; auto simp: volume_write_def Let_def)+
  obtain c d3 where j: "async_write_journal rd bids \<lparr>msg_type = WRITE, volume_id = vol_id\<rparr> (journal_key api codec req bi) (req_nlbas req * get_blk_size rd) d2 = (c, d3)"
    by (meson surj_pair)
  then obtain lsn where c: "c = Some lsn" using wj by (cases c) (auto simp: write_journal_entry_def Let_def)
  then have "t1 = t'" "\<exists>w. on_write api codec ix rd lsn False (journal_key api codec req bi) bids (Some t1, d3) = Inr (w, d')"
    using wj j by (auto simp: write_journal_entry_def Let_def on_commit_def bind_sum_eq_Inr)
  then show thesis using that al r data wr ip st j c by blast
qed

lemma write_data:
  assumes "read_req_ok blk_size req" "peek_buf 0 (unat (req_nlbas req * blk_size)) (req_buffer req) = Inr data"
  shows "unat (req_nlbas req * blk_size) = unat (req_nlbas req) * unat blk_size" "req_buffer req = Some data"
    "length data = unat (req_nlbas req) * unat blk_size"
proof -
  show n: "unat (req_nlbas req * blk_size) = unat (req_nlbas req) * unat blk_size"
    using assms(1) by (simp add: read_req_ok_def unat_word_ariths)
  obtain b where b: "req_buffer req = Some b" "length b = unat (req_nlbas req) * unat blk_size"
    using assms(1) by (auto simp: read_req_ok_def split: option.splits)
  then have "data = b" using assms(2) n by (simp add: peek_buf_def peek_def)
  then show "req_buffer req = Some data" "length data = unat (req_nlbas req) * unat blk_size" using b by auto
qed

context volume_index_low
begin

lemma volume_write_facts:
  assumes inv: "invar t" and dev: "dev_ok rd" and api: "api_ok api" and codec: "blk_codec_ok codec" and req: "read_req_ok (get_blk_size rd) req"
    and map: "mapped_ok rd d (view t)"
    and w: "volume_write api codec \<lparr>ix_write = write_to_index, ix_read = read_from_index\<rparr> rd crc vol_id ordinal req (t, d) = Inr (Inr u, t', d')"
  defines "L \<equiv> unat (req_lba req)" and "n \<equiv> unat (req_nlbas req)" and "bs \<equiv> unat (get_blk_size rd)"
  obtains data bids bi where "req_buffer req = Some data" "length data = n * bs" "pieces_wf bids" "length (all_blks bids) = n" "distinct (all_blks bids)"
    "invar t'" "view t' = upd_range L n (blk_val (all_blks bids) (\<lambda>k. crc init_crc_16 (blk_at bs data k))) (view t)"
    "info_new bi = upd_range L n (blk_val (all_blks bids) (\<lambda>k. crc init_crc_16 (blk_at bs data k))) (\<lambda>_. None)"
    "\<forall>b\<in>set (all_blks bids). \<not> alloced rd d b"
    "\<forall>k<n. blk_data rd d' (blk_chunk (all_blks bids ! k)) (blk_num (all_blks bids ! k)) = blk_at bs data k"
    "\<forall>b. blk_count b = 1 \<longrightarrow> b \<notin> set (all_blks bids) \<longrightarrow> blk_data rd d' (blk_chunk b) (blk_num b) = blk_data rd d (blk_chunk b) (blk_num b)"
    "\<forall>b. b \<in> set (old_blkids_of api bi) \<longleftrightarrow> (\<exists>x v. L \<le> unat x \<and> unat x < L + n \<and> view t x = Some v \<and> b = iv_blkid v)"
    "length (old_blkids_of api bi) < 2 ^ 16"
    "\<forall>b. b \<notin> set (old_blkids_of api bi) \<longrightarrow> alloced rd d' b = (alloced rd d b \<or> b \<in> set (all_blks bids))"
    "journal_log rd d' = journal_log rd d @ [(\<lparr>msg_type = WRITE, volume_id = vol_id\<rparr>, journal_key api codec req bi, bids)]"
proof -
  note D = dev [unfolded dev_ok_def]
  have R: "0 < n" "n < 2 ^ 16" "L + n < 2 ^ 32" using req by (auto simp: read_req_ok_def L_def n_def word_gt_0 unat_gt_0)
  obtain bids d1 data d2 pos bi d3 lsn where al: "alloc_blks rd (req_nlbas req * get_blk_size rd) ordinal d = (Some bids, d1)"
    and pk: "peek_buf 0 (unat (req_nlbas req * get_blk_size rd)) (req_buffer req) = Inr data"
    and wr: "async_write rd bids data d1 = (True, d2)"
    and ip: "index_pieces api \<lparr>ix_write = write_to_index, ix_read = read_from_index\<rparr> (csum_of_data crc (get_blk_size rd) (req_buffer req)) bs bids (req_lba req) 0 [] t = Inr (Inr (), pos, bi, t')"
    and jr: "async_write_journal rd bids \<lparr>msg_type = WRITE, volume_id = vol_id\<rparr> (journal_key api codec req bi) (req_nlbas req * get_blk_size rd) d2 = (Some lsn, d3)"
    and cm: "\<exists>w. on_write api codec \<lparr>ix_write = write_to_index, ix_read = read_from_index\<rparr> rd lsn False (journal_key api codec req bi) bids (Some t', d3) = Inr (w, d')"
    using w unfolding bs_def by (rule volume_write_ackE)
  note data = write_data [OF req pk, folded n_def bs_def]
  have bs0: "0 < bs" using D by (simp add: bs_def word_gt_0 unat_gt_0)
  have A: "pieces_wf bids" "length (all_blks bids) * bs = n * bs" "distinct (all_blks bids)" "\<forall>b\<in>set (all_blks bids). \<not> alloced rd d b"
    "alloced rd d1 = (\<lambda>b. alloced rd d b \<or> b \<in> set (all_blks bids))" "blk_data rd d1 = blk_data rd d" "journal_log rd d1 = journal_log rd d"
    using D al data(1) unfolding alloc_ok_def bs_def by fastforce+
  then have m: "length (all_blks bids) = n" using bs0 by simp
  have W: "alloced rd d2 = alloced rd d1" "journal_log rd d2 = journal_log rd d1"
    "\<forall>c k. \<lparr>blk_num = k, blk_count = 1, blk_chunk = c\<rparr> \<notin> set (all_blks bids) \<longrightarrow> blk_data rd d2 c k = blk_data rd d1 c k"
    "\<forall>i<n. blk_data rd d2 (blk_chunk (all_blks bids ! i)) (blk_num (all_blks bids ! i)) = blk_at bs data i"
    using D wr data(3) m A(3) unfolding write_ok_law_def bs_def by fastforce+
  have J: "blk_data rd d3 = blk_data rd d2" "alloced rd d3 = alloced rd d2"
    "journal_log rd d3 = journal_log rd d2 @ [(\<lparr>msg_type = WRITE, volume_id = vol_id\<rparr>, journal_key api codec req bi, bids)]"
    using D jr unfolding journal_ok_def by fastforce+
  have I: "invar t' \<and> pos = 0 + n * bs \<and> distinct (map fst bi) \<and> set (map fst bi) = set (map fst ([] :: blocks_info)) \<union> {x. L \<le> unat x \<and> unat x < L + n} \<and>
    view t' = upd_range L n (blk_val (all_blks bids) (\<lambda>k. crc init_crc_16 (blk_at bs data k))) (view t) \<and>
    info_new bi = upd_range L n (blk_val (all_blks bids) (\<lambda>k. crc init_crc_16 (blk_at bs data k))) (info_new []) \<and>
    info_old bi = upd_range L n (\<lambda>k. old_at api (view t) (L + k)) (info_old [])"
  proof (rule index_pieces_ok [where cs = "\<lambda>k. crc init_crc_16 (blk_at bs data k)", OF inv A(1) _ _ _ _ ip, unfolded m, folded L_def])
    show "csum_of_data crc (get_blk_size rd) (req_buffer req) (0 + k * bs) = Inr (crc init_crc_16 (blk_at bs data k))" if "k < n" for k
      using csum_of_data_ok [OF that data(3) [unfolded bs_def]] data(2) by (simp add: bs_def)
  qed (use R(3) in simp_all)
  have valid: "\<forall>x v. view t x = Some v \<longrightarrow> is_valid api (iv_blkid v)" using mapped_okD(1) [OF map] api by (auto simp: api_ok_def)
  have keys: "set (map fst bi) = {x. L \<le> unat x \<and> unat x < L + n}" "info_old bi = upd_range L n (\<lambda>k. old_at api (view t) (L + k)) (\<lambda>_. None)"
    using I by (simp_all add: info_old_Nil)
  have nv: "\<not> is_valid api (no_blk api)" using api by (simp add: api_ok_def)
  note O = old_blkids_range [OF conjunct1 [OF conjunct2 [OF conjunct2 [OF I]]] keys nv valid R(3)]
  have "on_write api codec \<lparr>ix_write = write_to_index, ix_read = read_from_index\<rparr> rd lsn False (journal_key api codec req bi) bids (Some t', d3) =
      Inr (Some t', fold (free_one rd lsn False) (old_blkids_of api bi) d3)"
    using O(2) R(2) by (intro on_write_commit [OF codec]) linarith
  then have d': "d' = fold (free_one rd lsn False) (old_blkids_of api bi) d3" using cm by simp
  note F = free_fold_facts [of rd lsn False "old_blkids_of api bi" d3, folded d', OF conjunct2 [OF conjunct2 [OF conjunct2 [OF conjunct2 [OF conjunct2 [OF D]]]]]]
  have same: "blk_data rd d' (blk_chunk b) (blk_num b) = blk_data rd d (blk_chunk b) (blk_num b)" if "blk_count b = 1" "b \<notin> set (all_blks bids)" for b
    using W(3) F J A(6) that blk_id_eq [OF that(1)] by metis
  have jl: "journal_log rd d' = journal_log rd d @ [(\<lparr>msg_type = WRITE, volume_id = vol_id\<rparr>, journal_key api codec req bi, bids)]"
    using F J(3) W(2) A(7) by simp
  have new: "info_new bi = upd_range L n (blk_val (all_blks bids) (\<lambda>k. crc init_crc_16 (blk_at bs data k))) (\<lambda>_. None)"
    using I by (simp add: info_new_Nil)
  have o16: "length (old_blkids_of api bi) < 2 ^ 16" using O(2) R(2) by linarith
  have al': "\<forall>b. b \<notin> set (old_blkids_of api bi) \<longrightarrow> alloced rd d' b = (alloced rd d b \<or> b \<in> set (all_blks bids))"
    using F J(2) W(1) A(5) by simp
  have dt: "\<forall>k<n. blk_data rd d' (blk_chunk (all_blks bids ! k)) (blk_num (all_blks bids ! k)) = blk_at bs data k"
    using F J(1) W(4) by simp
  have I': "invar t'" "view t' = upd_range L n (blk_val (all_blks bids) (\<lambda>k. crc init_crc_16 (blk_at bs data k))) (view t)" using I by auto
  show thesis by (rule that [OF data(2,3) A(1) m A(3) I' new A(4) dt _ _ o16 al' jl]) (use same O(1) in blast)+
qed

text \<open>The write as an update of the image.\<close>

lemma volume_write_image:
  assumes inv: "invar t" and dev: "dev_ok rd" and api: "api_ok api" and codec: "blk_codec_ok codec" and req: "read_req_ok (get_blk_size rd) req"
    and map: "mapped_ok rd d (view t)"
    and w: "volume_write api codec \<lparr>ix_write = write_to_index, ix_read = read_from_index\<rparr> rd crc vol_id ordinal req (t, d) = Inr (Inr u, t', d')"
  defines "L \<equiv> unat (req_lba req)" and "n \<equiv> unat (req_nlbas req)" and "bs \<equiv> unat (get_blk_size rd)"
  shows "\<exists>data. req_buffer req = Some data \<and> length data = n * bs \<and> invar t' \<and> mapped_ok rd d' (view t') \<and>
    (\<forall>x<2 ^ 64. block_image rd d' (view t') x = (if L \<le> x \<and> x < L + n then blk_at bs data (x - L) else block_image rd d (view t) x)) \<and>
    image_ok crc rd d' (view t') L n"
proof -
  obtain data bids bi where V: "req_buffer req = Some data" "length data = n * bs" "pieces_wf bids" "length (all_blks bids) = n" "distinct (all_blks bids)"
    "invar t'" "view t' = upd_range L n (blk_val (all_blks bids) (\<lambda>k. crc init_crc_16 (blk_at bs data k))) (view t)"
    "info_new bi = upd_range L n (blk_val (all_blks bids) (\<lambda>k. crc init_crc_16 (blk_at bs data k))) (\<lambda>_. None)"
    "\<forall>b\<in>set (all_blks bids). \<not> alloced rd d b"
    "\<forall>k<n. blk_data rd d' (blk_chunk (all_blks bids ! k)) (blk_num (all_blks bids ! k)) = blk_at bs data k"
    "\<forall>b. blk_count b = 1 \<longrightarrow> b \<notin> set (all_blks bids) \<longrightarrow> blk_data rd d' (blk_chunk b) (blk_num b) = blk_data rd d (blk_chunk b) (blk_num b)"
    "\<forall>b. b \<in> set (old_blkids_of api bi) \<longleftrightarrow> (\<exists>x v. L \<le> unat x \<and> unat x < L + n \<and> view t x = Some v \<and> b = iv_blkid v)"
    "\<forall>b. b \<notin> set (old_blkids_of api bi) \<longrightarrow> alloced rd d' b = (alloced rd d b \<or> b \<in> set (all_blks bids))"
    unfolding L_def n_def bs_def by (rule volume_write_facts [OF inv dev api codec req map w])
  define all olds where "all = all_blks bids" and "olds = old_blkids_of api bi"
  note V = V [folded all_def olds_def]
  have count1: "\<forall>b\<in>set all. blk_count b = 1" using all_blks_count unfolding all_def by blast
  let ?in = "\<lambda>x :: lba_t. L \<le> unat x \<and> unat x < L + n"
  have inr: "view t' x = Some (blk_val all (\<lambda>k. crc init_crc_16 (blk_at bs data k)) (unat x - L))" "unat x - L < n" if "?in x" for x
    using that V(7) by (simp add: upd_range_def, linarith)
  have outr: "view t' x = view t x" if "\<not> ?in x" for x using that V(7) by (auto simp: upd_range_def)
  have fresh: "iv_blkid v \<notin> set all" if "view t x = Some v" for x v using mapped_okD(2) [OF map that] V(9) by blast
  have img: "block_image rd d' (view t') x = (if L \<le> x \<and> x < L + n then blk_at bs data (x - L) else block_image rd d (view t) x)" if "x < 2 ^ 64" for x
  proof -
    have u: "unat (of_nat x :: u64) = x" using that by (simp add: unat_of_nat)
    show ?thesis
    proof (cases "L \<le> x \<and> x < L + n")
      case True
      then show ?thesis using inr [of "of_nat x"] u V(10) by (simp add: block_image_def blk_val_def)
    next
      case False
      then have "view t' (of_nat x) = view t (of_nat x)" using outr [of "of_nat x"] u by simp
      then show ?thesis using False V(11) fresh mapped_okD(1) [OF map] by (auto simp: block_image_def split: option.splits)
    qed
  qed
  have "mapped_ok rd d' (view t')"
    unfolding mapped_ok_def
  proof (intro allI impI)
    fix x v assume xv: "view t' x = Some v"
    show "blk_count (iv_blkid v) = 1 \<and> alloced rd d' (iv_blkid v) \<and> (\<forall>y w. view t' y = Some w \<longrightarrow> iv_blkid w = iv_blkid v \<longrightarrow> y = x)"
    proof (cases "?in x")
      case True
      then have v: "iv_blkid v = all ! (unat x - L)" "unat x - L < n" using inr xv by (auto simp: blk_val_def)
      then have mem: "iv_blkid v \<in> set all" using V(4) by simp
      then have "iv_blkid v \<notin> set olds" using V(12) fresh by metis
      moreover have "y = x" if "view t' y = Some w" "iv_blkid w = iv_blkid v" for y w
      proof (cases "?in y")
        case y: True
        then have "iv_blkid w = all ! (unat y - L)" "unat y - L < n" using inr that(1) by (auto simp: blk_val_def)
        then have "unat y - L = unat x - L" using that(2) v V(4,5) nth_eq_iff_index_eq by metis
        then have "unat y = unat x" using True y by linarith
        then show ?thesis by (simp add: word_unat_eq_iff)
      next
        case False
        then show ?thesis using outr [OF False] that fresh mem by metis
      qed
      ultimately show ?thesis using mem count1 V(13) by blast
    next
      case False
      then have xv': "view t x = Some v" using outr xv by simp
      note O = mapped_okD [OF map xv']
      have "iv_blkid v \<notin> set olds" using V(12) O(3) False by metis
      moreover have "y = x" if "view t' y = Some w" "iv_blkid w = iv_blkid v" for y w
      proof (cases "?in y")
        case True
        then have "iv_blkid w \<in> set all" using inr that(1) V(4) by (auto simp: blk_val_def)
        then show ?thesis using that(2) fresh [OF xv'] by simp
      next
        case False
        then show ?thesis using outr that O(3) by metis
      qed
      ultimately show ?thesis using O(1,2) V(13) by blast
    qed
  qed
  moreover have "image_ok crc rd d' (view t') L n"
    unfolding image_ok_def
  proof (intro allI impI)
    fix x v assume x: "L \<le> x" "x < L + n" "view t' (of_nat x) = Some v"
    have "x < 2 ^ 32" using x(2) req by (auto simp: read_req_ok_def L_def n_def)
    then show "crc init_crc_16 (block_image rd d' (view t') x) = iv_checksum v"
      using img [of x] inr(1) [of "of_nat x"] unat_of_nat_u64 [of x] x by (auto simp: blk_val_def)
  qed
  ultimately show ?thesis using V(1,2,6) img by blast
qed

section \<open>Faults\<close>

text \<open>With checksums at hand and an index whose updates succeed, the loop over the pieces succeeds.\<close>

lemma index_pieces_total:
  assumes "\<And>k. k < length (all_blks blkids) \<Longrightarrow> csum_at (pos + k * step) = Inr (cs k)"
    and wr: "accepts write_to_index S"
    and "S t" "pieces_wf blkids" "unat l + length (all_blks blkids) < 2 ^ 64"
  shows "\<exists>pos' bi' t'. index_pieces api \<lparr>ix_write = write_to_index, ix_read = read_from_index\<rparr> csum_at step blkids l pos bi t = Inr (Inr (), pos', bi', t') \<and> S t'"
  using assms(1,3-5)
proof (induction blkids arbitrary: l pos bi t cs)
  case (Cons b bs)
  let ?c = "unat (blk_count b)"
  have infos: "\<exists>bi'. piece_infos api csum_at step b l is (pos + k * step) bi = Inr (pos + (k + length is) * step, bi')"
    if "k + length is \<le> ?c" for k "is" and bi :: blocks_info
    using that
  proof (induction "is" arbitrary: k bi)
    case (Cons i "is")
    have "csum_at (pos + k * step) = Inr (cs k)" using Cons.prems \<open>\<And>k. k < length (all_blks (b # bs)) \<Longrightarrow> csum_at (pos + k * step) = Inr (cs k)\<close> by simp
    then show ?case using Cons.IH [of "Suc k"] Cons.prems by (simp add: add.assoc add.commute add.left_commute)
  qed simp
  obtain bi1 where p: "piece_infos api csum_at step b l [0..<?c] pos bi = Inr (pos + ?c * step, bi1)" using infos [of 0 "[0..<?c]" bi] by auto
  have c: "0 < ?c" using Cons.prems(3) by (auto simp: pieces_wf_def unat_gt_0)
  have lb: "unat l + ?c + length (all_blks bs) < 2 ^ 64" using Cons.prems(4) by simp
  have uc: "unat (ucast (blk_count b) :: u64) = ?c" using u16_bound [of "blk_count b"] by (simp add: unsigned_ucast_eq take_bit_nat_eq_self)
  have next': "unat (l + ucast (blk_count b)) = unat l + ?c" using lb uc by (simp add: unat_word_ariths)
  then have "l + ucast (blk_count b) \<noteq> 0" using c by (metis add_gr_0 less_irrefl unat_0)
  then have "l + ucast (blk_count b) - 1 < - 1" by (metis add_diff_cancel_right' diff_0 diff_add_cancel word_order.not_eq_extremum)
  then obtain bi2 t2 where w: "write_to_index l (l + ucast (blk_count b) - 1) bi1 t = Some (Inr (), bi2, t2)" and S: "S t2"
    using wr Cons.prems(2) unfolding accepts_def by blast
  have cs: "csum_at (pos + ?c * step + k * step) = Inr (cs (?c + k))" if "k < length (all_blks bs)" for k
    using Cons.prems(1) [of "?c + k"] that by (simp add: add_mult_distrib add.assoc)
  have "pieces_wf bs" using Cons.prems(3) by (simp add: pieces_wf_def)
  from Cons.IH [OF cs S this, of "l + ucast (blk_count b)"] show ?case using p w lb next' by (simp add: Let_def)
qed simp

text \<open>The replay of an entry the write journaled.\<close>

lemma replay_entry:
  assumes inv: "invar t0" and codec: "blk_codec_ok codec" and wf: "pieces_wf bids" and len: "length (all_blks bids) = n" and E: "L + n < 2 ^ 32"
    and req: "L = unat (req_lba req)" "n = unat (req_nlbas req)"
    and bi: "info_new bi = upd_range L n (blk_val (all_blks bids) cs) (\<lambda>_. None)" and o16: "length (old_blkids_of api bi) < 2 ^ 16"
  defines "ix \<equiv> \<lparr>ix_write = write_to_index, ix_read = read_from_index\<rparr>" and "key \<equiv> journal_key api codec req bi"
  shows "on_write api codec ix rd lsn True key bids (Some t0, d0) = Inr (r, d1) \<Longrightarrow>
      \<exists>t1. r = Some t1 \<and> invar t1 \<and> view t1 = upd_range L n (blk_val (all_blks bids) cs) (view t0)"
    "accepts write_to_index S \<Longrightarrow> S t0 \<Longrightarrow>
      \<exists>t1. on_write api codec ix rd lsn True key bids (Some t0, d0) = Inr (Some t1, fold (free_one rd lsn True) (old_blkids_of api bi) d0) \<and> S t1"
proof -
  let ?e = "\<lparr>je_start_lba = req_lba req, je_nlbas = req_nlbas req, je_num_old_blks = of_nat (length (old_blkids_of api bi))\<rparr>"
  have num: "unat (of_nat (length (old_blkids_of api bi)) :: u16) = length (old_blkids_of api bi)" using o16 by (simp add: unat_of_nat)
  have k: "key = (journal_entry_bytes ?e @ key_csums api req bi) @ concat (map (blk_bytes codec) (old_blkids_of api bi)) @ []"
    by (simp add: key_def journal_key_def Let_def)
  have je: "journal_entry_of key = Inr ?e" unfolding k append_assoc by (rule journal_entry_roundtrip)
  have cs: "csum_in_key key (journal_entry_size + j * 2) = Inr (cs j)" if "j < n" for j
  proof -
    have "unat (req_lba req + of_nat j) = L + j" using that E req(1) by (simp add: unat_word_ariths unat_of_nat)
    then have "info_new bi (req_lba req + of_nat j) = Some (blk_val (all_blks bids) cs j)" using that by (simp add: bi upd_range_def)
    then have "new_checksum (info_at api (req_lba req + of_nat j) bi) = cs j" by (auto simp: info_new_def info_at_def blk_val_def)
    then show ?thesis using csum_in_journal_key [of j req api codec bi] that req(2) by (simp add: key_def)
  qed
  have free: "free_old codec rd lsn True key (length (old_blkids_of api bi)) (journal_entry_size + n * 2) d0 =
      Inr (fold (free_one rd lsn True) (old_blkids_of api bi) d0)"
    unfolding k by (rule free_old_ok [OF codec]) (simp add: req(2))
  have post: "invar t1 \<and> pos = journal_entry_size + n * 2 \<and> view t1 = upd_range L n (blk_val (all_blks bids) cs) (view t0)"
    if "index_pieces api ix (csum_in_key key) 2 bids (req_lba req) journal_entry_size [] t0 = Inr (Inr u, pos, bi', t1)" for u pos bi' t1
    using index_pieces_ok [OF inv wf _ _ _ _ that [unfolded ix_def], of cs] cs len E req(1) by simp
  show "\<exists>t1. r = Some t1 \<and> invar t1 \<and> view t1 = upd_range L n (blk_val (all_blks bids) cs) (view t0)"
    if w: "on_write api codec ix rd lsn True key bids (Some t0, d0) = Inr (r, d1)"
  proof -
    obtain st pos bi' t1 where ip: "index_pieces api ix (csum_in_key key) 2 bids (req_lba req) journal_entry_size [] t0 = Inr (st, pos, bi', t1)"
      using w je by (cases "index_pieces api ix (csum_in_key key) 2 bids (req_lba req) journal_entry_size [] t0") (auto simp: on_write_def Let_def)
    then obtain u where "st = Inr u" using w je by (cases st) (auto simp: on_write_def Let_def)
    then show ?thesis using w je ip post [of u] by (auto simp: on_write_def Let_def bind_sum_eq_Inr)
  qed
  assume total: "accepts write_to_index S" and S: "S t0"
  obtain pos bi' t1 where ip: "index_pieces api ix (csum_in_key key) 2 bids (req_lba req) journal_entry_size [] t0 = Inr (Inr (), pos, bi', t1)" "S t1"
    using index_pieces_total [of bids "csum_in_key key" journal_entry_size 2 cs S, OF _ total S wf, of "req_lba req" api "[]"] cs len E req(1) unfolding ix_def by auto
  then have "pos = journal_entry_size + n * 2" using post by blast
  then show "\<exists>t1. on_write api codec ix rd lsn True key bids (Some t0, d0) = Inr (Some t1, fold (free_one rd lsn True) (old_blkids_of api bi) d0) \<and> S t1"
    using ip je free num by (simp add: on_write_def Let_def)
qed

text \<open>
  What an acknowledged write leaves in the journal: replayed on any index, it gives the range of the write the mapping the write gave it, changes nothing else, and touches no data.
\<close>

lemma volume_write_replay:
  assumes inv: "invar t" and dev: "dev_ok rd" and api: "api_ok api" and codec: "blk_codec_ok codec" and req: "read_req_ok (get_blk_size rd) req"
    and map: "mapped_ok rd d (view t)"
    and w: "volume_write api codec ix rd crc vol_id ordinal req (t, d) = Inr (Inr u, t', d')"
    and ix: "ix = \<lparr>ix_write = write_to_index, ix_read = read_from_index\<rparr>"
  obtains key bids where "journal_log rd d' = journal_log rd d @ [(\<lparr>msg_type = WRITE, volume_id = vol_id\<rparr>, key, bids)]"
    and "\<And>x. \<not> in_req req x \<Longrightarrow> view t' x = view t x"
    and "\<And>t0 d0 lsn r d1. invar t0 \<Longrightarrow> on_write api codec ix rd lsn True key bids (Some t0, d0) = Inr (r, d1) \<Longrightarrow>
      \<exists>t1. r = Some t1 \<and> invar t1 \<and> view t1 = (\<lambda>x. if in_req req x then view t' x else view t0 x) \<and> blk_data rd d1 = blk_data rd d0"
    and "\<And>t0 d0 lsn S. invar t0 \<Longrightarrow> accepts write_to_index S \<Longrightarrow> S t0 \<Longrightarrow>
      \<exists>t1 d1. on_write api codec ix rd lsn True key bids (Some t0, d0) = Inr (Some t1, d1) \<and> S t1"
proof -
  obtain data bids bi where V: "pieces_wf bids" "length (all_blks bids) = unat (req_nlbas req)"
    "view t' = upd_range (unat (req_lba req)) (unat (req_nlbas req)) (blk_val (all_blks bids) (\<lambda>k. crc init_crc_16 (blk_at (unat (get_blk_size rd)) data k))) (view t)"
    "info_new bi = upd_range (unat (req_lba req)) (unat (req_nlbas req)) (blk_val (all_blks bids) (\<lambda>k. crc init_crc_16 (blk_at (unat (get_blk_size rd)) data k))) (\<lambda>_. None)"
    "length (old_blkids_of api bi) < 2 ^ 16"
    "journal_log rd d' = journal_log rd d @ [(\<lparr>msg_type = WRITE, volume_id = vol_id\<rparr>, journal_key api codec req bi, bids)]"
    by (rule volume_write_facts [OF inv dev api codec req map w [unfolded ix]])
  have E: "unat (req_lba req) + unat (req_nlbas req) < 2 ^ 32" using req by (simp add: read_req_ok_def)
  have fr: "free_ok rd" using dev by (simp add: dev_ok_def)
  show thesis
  proof (rule that [OF V(6)])
    show "view t' x = view t x" if "\<not> in_req req x" for x using that V(3) by (auto simp: in_req_def upd_range_def)
  next
    fix t0 d0 lsn r d1
    assume t0: "invar t0" and ow: "on_write api codec ix rd lsn True (journal_key api codec req bi) bids (Some t0, d0) = Inr (r, d1)"
    note ow' = ow [unfolded ix]
    have "blk_data rd d1 = blk_data rd d0" using on_write_data [OF fr ow] .
    then show "\<exists>t1. r = Some t1 \<and> invar t1 \<and> view t1 = (\<lambda>x. if in_req req x then view t' x else view t0 x) \<and> blk_data rd d1 = blk_data rd d0"
      using replay_entry(1) [OF t0 codec V(1,2) E refl refl V(4,5) ow'] V(3) by (auto simp: in_req_def upd_range_def fun_eq_iff)
  next
    fix t0 d0 lsn S
    assume t0: "invar t0" and S: "accepts write_to_index S" "S t0"
    show "\<exists>t1 d1. on_write api codec ix rd lsn True (journal_key api codec req bi) bids (Some t0, d0) = Inr (Some t1, d1) \<and> S t1"
      using replay_entry(2) [OF t0 codec V(1,2) E refl refl V(4,5) S, of rd lsn d0] unfolding ix by blast
  qed
qed

end

end
