(* ===== verification/Index_Correct.thy ===== *)
theory Index_Correct
  imports Index_Contract
begin

text \<open>
  The properties of the index of a volume: what a range read returns after a range write in both builds,
  what the write reports about the replaced blocks, the undo of a failed write of the fixed build, and the packing
  of keys and values of the prefix build.
\<close>

section \<open>A client of the contract\<close>

context volume_index
begin

lemma write_then_read:
  assumes inv: "invar t" and r: "lo \<le> hi" "hi < - 1" "range_ok lo hi" and run: "blk_run bi lo hi"
    and w: "write_to_index lo hi bi t = Some (Inr u, bi', t1)" and rd: "read_from_index lo hi t1 = (Inr kvs, t2)"
  shows "map fst kvs = lba_range lo hi" "\<forall>l v. (l, v) \<in> set kvs \<longrightarrow> info_new bi l = Some v"
proof -
  note w1 = write_ok [OF inv r run w]
  then have e: "entries_between (view t1) lo hi kvs" using read_ok [OF _ rd] by blast
  have set: "set kvs = {(l, v). lo \<le> l \<and> l \<le> hi \<and> info_new bi l = Some v}"
    using e w1 unfolding entries_between_def by auto
  have "\<exists>v. info_new bi l = Some v" if "lo \<le> l" "l \<le> hi" for l
    using run that by (fastforce simp: blk_run_def info_new_def)
  then have "set (map fst kvs) = set (lba_range lo hi)" unfolding set_lba_range set_map set by force
  moreover have "sorted_wrt (<) (map fst kvs)" using e unfolding entries_between_def by simp
  ultimately show "map fst kvs = lba_range lo hi"
    using sorted_lba_range [of lo hi] by (simp add: strict_sorted_equal)
  show "\<forall>l v. (l, v) \<in> set kvs \<longrightarrow> info_new bi l = Some v" using set by auto
qed

end

section \<open>Undoing a failed write\<close>








section \<open>Maps as B-trees\<close>

text \<open>
  The laws asked of the B-trees hold for plain maps; the examples below use them. A put of an absent key
  for which \<open>full\<close> holds fails.
\<close>

definition map_btree :: "(lba_t \<Rightarrow> bool) \<Rightarrow> (lba_t \<Rightarrow> index_value option) btree" where
  "map_btree full = \<lparr>
     bt_put = (\<lambda>k v m. if full k \<and> m k = None then ((False, None), m) else ((True, m k), m(k \<mapsto> v))),
     bt_remove = (\<lambda>k m. (True, m(k := None))),
     bt_query = (\<lambda>lo hi m. (Some (map (\<lambda>l. (l, the (m l))) (filter (\<lambda>l. m l \<noteq> None) (lba_range lo hi))), m)),
     bt_map = (\<lambda>m. m)\<rparr>"

definition map_prefix_btree :: "(prefix_key \<Rightarrow> prefix_value option) prefix_btree" where
  "map_prefix_btree = \<lparr>
     pb_range_put = (\<lambda>lo hi vals m.
       ((True, map (\<lambda>l. (prefix_key_of l, the (m (prefix_key_of l))))
          (filter (\<lambda>l. m (prefix_key_of l) \<noteq> None) (lba_range (prefix_key_lba lo) (prefix_key_lba hi)))),
        \<lambda>k. if prefix_compare lo k \<le> 0 \<and> prefix_compare k hi \<le> 0 then Some (vals (prefix_key_distance k lo)) else m k)),
     pb_query = (\<lambda>lo hi m. (Some (map (\<lambda>l. (prefix_key_of l, the (m (prefix_key_of l))))
          (filter (\<lambda>l. m (prefix_key_of l) \<noteq> None) (lba_range (prefix_key_lba lo) (prefix_key_lba hi)))), m)),
     pb_map = (\<lambda>m. m)\<rparr>"

lemma filter_range_sorted: "sorted_wrt (<) (filter P (lba_range lo hi))"
  by (rule sorted_wrt_filter [OF sorted_lba_range])

lemma map_btree_ok: "btree_ok (map_btree full)"
proof -
  have "sorted_wrt (<) (map fst (map (\<lambda>l. (l, the (m l))) (filter (\<lambda>l. m l \<noteq> None) (lba_range lo hi))))"
    for lo hi and m :: "lba_t \<Rightarrow> index_value option"
    using filter_range_sorted by (simp add: comp_def)
  moreover have "set (map (\<lambda>l. (l, the (m l))) (filter (\<lambda>l. m l \<noteq> None) (lba_range lo hi))) =
     {(k, v). lo \<le> k \<and> k \<le> hi \<and> m k = Some v}" for lo hi and m :: "lba_t \<Rightarrow> index_value option"
    by (auto simp: set_lba_range)
  ultimately show "btree_ok (map_btree full)" by (auto simp: btree_ok_def map_btree_def)
qed

lemma map_prefix_range:
  assumes "m_lba_base lo = m_lba_base hi" "prefix_compare lo hi \<le> 0" "0 \<le> n" "n \<le> prefix_key_distance hi lo"
  defines "k \<equiv> prefix_key_shift n lo"
  shows "prefix_compare lo k \<le> 0 \<and> prefix_compare k hi \<le> 0 \<and> prefix_key_distance k lo = n"
proof -
  obtain m where m: "n = int m" using assms(3) nonneg_int_cases by blast
  define a b where "a = unat (m_lba_offset lo)" and "b = unat (m_lba_offset hi)"
  have ab: "a \<le> b" "b < 2 ^ 32" using assms(1,2) u32_bound [of "m_lba_offset hi"]
    by (auto simp: prefix_compare_def a_def b_def word_le_nat_alt word_less_nat_alt split: if_splits)
  have diff: "unat (m_lba_offset hi - m_lba_offset lo) = b - a"
    using ab by (simp add: unat_sub word_le_nat_alt a_def b_def)
  have "sint w \<le> uint w" for w :: u32
    by (simp add: sint_uint signed_take_bit_int_less_eq_self_iff) (rule order_trans [OF _ unsigned_greater_eq], simp)
  then have "prefix_key_distance hi lo \<le> int (unat (m_lba_offset hi - m_lba_offset lo))"
    by (simp add: prefix_key_distance_def)
  moreover have "prefix_key_distance hi lo < 2 ^ 31"
    using sint_lt [of "m_lba_offset hi - m_lba_offset lo"] by (simp add: prefix_key_distance_def)
  ultimately have "prefix_key_distance hi lo \<le> int (b - a)" "prefix_key_distance hi lo < 2 ^ 31" by (simp_all only: diff)
  then have "a + m \<le> b" "int m < int (2 ^ 31)" using assms(4) m ab(1) by (linarith, simp)
  then have mb: "a + m \<le> b" "m < 2 ^ 31" by (simp_all only: of_nat_less_iff)
  have w: "unat (of_nat m :: u32) = m" using mb(2) by (simp add: unat_of_nat)
  have u: "unat (m_lba_offset k) = a + m"
    using mb ab w by (simp add: k_def prefix_key_shift_def m a_def unat_word_ariths)
  have "prefix_key_distance k lo = n"
    using mb(2) by (simp add: prefix_key_distance_def k_def prefix_key_shift_def m signed_of_nat signed_take_bit_int_eq_self_iff)
  then show ?thesis using u mb assms(1)
    by (auto simp: prefix_compare_def word_less_nat_alt a_def b_def k_def prefix_key_shift_def)
qed

lemma map_prefix_entries:
  fixes m :: "prefix_key \<Rightarrow> prefix_value option" and lo hi
  defines "es \<equiv> map (\<lambda>l. (prefix_key_of l, the (m (prefix_key_of l))))
    (filter (\<lambda>l. m (prefix_key_of l) \<noteq> None) (lba_range (prefix_key_lba lo) (prefix_key_lba hi)))"
  shows "distinct (map fst es)" "sorted_wrt (\<lambda>a b. prefix_compare a b < 0) (map fst es)"
    "set es = {(k, v). k \<in> prefix_keys lo hi \<and> m k = Some v}"
proof -
  have fst: "map fst es = map prefix_key_of (filter (\<lambda>l. m (prefix_key_of l) \<noteq> None) (lba_range (prefix_key_lba lo) (prefix_key_lba hi)))"
    by (simp add: es_def)
  show "distinct (map fst es)" unfolding fst by (simp add: distinct_map distinct_lba_range inj_on_def)
  show "sorted_wrt (\<lambda>a b. prefix_compare a b < 0) (map fst es)"
    unfolding fst sorted_wrt_map
    by (rule sorted_wrt_mono_rel [OF _ filter_range_sorted]) (simp add: prefix_compare_lba fixed_compare_def)
  have keys: "k \<in> prefix_keys lo hi \<longleftrightarrow> prefix_key_lba lo \<le> prefix_key_lba k \<and> prefix_key_lba k \<le> prefix_key_lba hi" for k
    using prefix_keys_of [of k "prefix_key_lba lo" "prefix_key_lba hi"] by simp
  show "set es = {(k, v). k \<in> prefix_keys lo hi \<and> m k = Some v}"
  proof (intro set_eqI iffI)
    fix e assume "e \<in> {(k, v). k \<in> prefix_keys lo hi \<and> m k = Some v}"
    then obtain k v where "e = (k, v)" "k \<in> prefix_keys lo hi" "m k = Some v" by auto
    then show "e \<in> set es"
      by (auto simp: es_def set_lba_range keys intro!: image_eqI [of _ _ "prefix_key_lba k"])
  qed (auto simp: es_def set_lba_range keys)
qed

lemma map_prefix_btree_ok: "prefix_btree_ok map_prefix_btree"
  unfolding prefix_btree_ok_def map_prefix_btree_def
  by (auto simp: map_prefix_entries [simplified] prefix_keys_def map_prefix_range)

section \<open>Properties\<close>

text \<open>
  C17. In the fixed build, a range write that succeeds maps every address of the range to the new block
  and checksum of its block info and leaves every other address alone; the infos then name, for the addresses that were mapped, exactly the
  blocks the write replaced, so that they can be freed; and a range read that follows returns the whole range, in order, with these values.
\<close>

theorem fixed_index_update_read:
  assumes "btree_ok (ft_btree t)" "lo \<le> hi" "hi < - 1" "blk_run bi lo hi"
    and w: "fixed_write_to_index api lo hi bi t = Some (Inr (), bi', t1)"
  shows "fixed_view t1 = (\<lambda>l. if lo \<le> l \<and> l \<le> hi then info_new bi l else fixed_view t l) \<and>
    info_old bi' = (\<lambda>l. if lo \<le> l \<and> l \<le> hi \<and> fixed_view t l \<noteq> None then map_option iv_blkid (fixed_view t l) else info_old bi l) \<and>
    (\<forall>kvs t2. fixed_read_from_index lo hi t1 = (Inr kvs, t2) \<longrightarrow>
       map fst kvs = lba_range lo hi \<and> (\<forall>l v. (l, v) \<in> set kvs \<longrightarrow> info_new bi l = Some v))"
proof -
  have inv: "fixed_invar t" using assms(1) by (simp add: fixed_invar_def)
  show ?thesis using fixed_index.write_ok [OF inv assms(2,3) TrueI assms(4) w]
      fixed_index.write_then_read [OF inv assms(2,3) TrueI assms(4) w] by blast
qed

text \<open>Two consecutive blocks, for the examples.\<close>

definition ex_api :: blk_api where
  "ex_api = \<lparr>no_blk = \<lparr>blk_num = 0, blk_count = 0, blk_chunk = 0\<rparr>, is_valid = (\<lambda>b. blk_count b \<noteq> 0)\<rparr>"

definition ex_blk :: "u32 \<Rightarrow> blk_id" where
  "ex_blk n = \<lparr>blk_num = n, blk_count = 1, blk_chunk = 3\<rparr>"

definition ex_info :: "u32 \<Rightarrow> csum_t \<Rightarrow> BlockInfo" where
  "ex_info n c = (default_info ex_api)\<lparr>new_blkid := ex_blk n, new_checksum := c\<rparr>"

definition ex_infos :: blocks_info where
  "ex_infos = [(5, ex_info 40 111), (6, ex_info 41 222)]"

definition ex_fixed :: "(lba_t \<Rightarrow> bool) \<Rightarrow> (lba_t \<Rightarrow> index_value option) fixed_table" where
  "ex_fixed full = \<lparr>ft_btree = map_btree full, ft_state = [5 \<mapsto> \<lparr>iv_blkid = ex_blk 9, iv_checksum = 1\<rparr>]\<rparr>"

lemma ex_lba_range: "lba_range 5 6 = [5, 6]" "lba_range 5 5 = [5]"
  by (simp_all add: lba_range_def upt_rec)

lemma ex_range: "(5 :: lba_t) \<le> l \<and> l \<le> 6 \<longleftrightarrow> l = 5 \<or> l = 6"
proof -
  have "l \<in> {5..6} \<longleftrightarrow> l \<in> set (lba_range 5 6)" unfolding set_lba_range ..
  then show ?thesis unfolding ex_lba_range by (simp only: atLeastAtMost_iff list.set insert_iff empty_iff simp_thms)
qed

lemma ex_blk_run: "blk_run ex_infos 5 6"
  unfolding blk_run_def
proof (intro exI [of _ "ex_blk 40"] conjI allI impI)
  fix l :: lba_t
  assume "5 \<le> l" "l \<le> 6"
  then show "\<exists>i. map_of ex_infos l = Some i \<and> new_blkid i = ex_blk 40\<lparr>blk_num := blk_num (ex_blk 40) + ucast (l - 5)\<rparr>"
    using ex_range [of l] by (auto simp: ex_infos_def ex_info_def ex_blk_def)
qed (simp add: ex_blk_def)

theorem fixed_index_update_read_witness:
  "\<exists>bi' t1. fixed_write_to_index ex_api 5 6 ex_infos (ex_fixed (\<lambda>_. False)) = Some (Inr (), bi', t1) \<and>
     fixed_view t1 6 = Some \<lparr>iv_blkid = ex_blk 41, iv_checksum = 222\<rparr> \<and> info_old bi' 5 = Some (ex_blk 9)"
proof -
  have "\<exists>bi' t1. fixed_write_to_index ex_api 5 6 ex_infos (ex_fixed (\<lambda>_. False)) = Some (Inr (), bi', t1)"
    by (simp add: fixed_write_to_index_def for_u64_eq ex_lba_range fixed_put_step_def ex_fixed_def map_btree_def Let_def)
  then obtain bi' t1 where w: "fixed_write_to_index ex_api 5 6 ex_infos (ex_fixed (\<lambda>_. False)) = Some (Inr (), bi', t1)" by blast
  have "btree_ok (ft_btree (ex_fixed (\<lambda>_. False)))" by (simp add: ex_fixed_def map_btree_ok)
  then have "fixed_view t1 = (\<lambda>l. if 5 \<le> l \<and> l \<le> 6 then info_new ex_infos l else fixed_view (ex_fixed (\<lambda>_. False)) l)"
    "info_old bi' = (\<lambda>l. if 5 \<le> l \<and> l \<le> 6 \<and> fixed_view (ex_fixed (\<lambda>_. False)) l \<noteq> None
       then map_option iv_blkid (fixed_view (ex_fixed (\<lambda>_. False)) l) else info_old ex_infos l)"
    using fixed_index_update_read [OF _ _ _ ex_blk_run w] by simp_all
  then show ?thesis using w
    by (simp add: info_new_def ex_infos_def ex_info_def fixed_view_def ex_fixed_def map_btree_def)
qed

text \<open>
  C32. The same holds in the prefix build, where one range upsert derives every value by shifting the first,
  as long as the range does not cross a multiple of \<open>2 ^ 32\<close> addresses and the blocks of the run have 31-bit numbers.
\<close>

theorem prefix_index_update_read:
  assumes "prefix_btree_ok (pt_btree t)" "to_integer_ok (pt_to_integer t)" "lo \<le> hi" "hi < - 1" "prefix_range_ok lo hi" "blk_run bi lo hi"
    and w: "prefix_write_to_index api lo hi bi t = Some (Inr (), bi', t1)"
  shows "prefix_view t1 = (\<lambda>l. if lo \<le> l \<and> l \<le> hi then info_new bi l else prefix_view t l) \<and>
    info_old bi' = (\<lambda>l. if lo \<le> l \<and> l \<le> hi \<and> prefix_view t l \<noteq> None then map_option iv_blkid (prefix_view t l) else info_old bi l) \<and>
    (\<forall>kvs t2. prefix_read_from_index lo hi t1 = (Inr kvs, t2) \<longrightarrow>
       map fst kvs = lba_range lo hi \<and> (\<forall>l v. (l, v) \<in> set kvs \<longrightarrow> info_new bi l = Some v))"
proof -
  have inv: "prefix_invar t" using assms(1,2) by (simp add: prefix_invar_def)
  show ?thesis using prefix_index.write_ok [OF inv assms(3-6) w]
      prefix_index.write_then_read [OF inv assms(3-6) w] by blast
qed

definition ex_to_integer :: "blk_id \<Rightarrow> u64" where
  "ex_to_integer b = of_nat (2 * unat (blk_num b) + 2 ^ 32 * unat (blk_count b) + 2 ^ 48 * unat (blk_chunk b))"

lemma ex_to_integer_ok: "to_integer_ok ex_to_integer"
proof -
  have "unat (ex_to_integer b) = 2 * unat (blk_num b) + 2 ^ 32 * unat (blk_count b) + 2 ^ 48 * unat (blk_chunk b)"
    if "unat (blk_num b) < 2 ^ 31" for b
  proof -
    have "2 * unat (blk_num b) + 2 ^ 32 * unat (blk_count b) + 2 ^ 48 * unat (blk_chunk b) < 2 ^ 64"
      using that u16_bound [of "blk_count b"] u16_bound [of "blk_chunk b"] by simp
    then show ?thesis unfolding ex_to_integer_def by (subst unat_of_nat) simp
  qed
  then show ?thesis by (auto simp: to_integer_ok_def intro!: exI [of _ 0])
qed

definition ex_prefix :: "(prefix_key \<Rightarrow> prefix_value option) prefix_table" where
  "ex_prefix = \<lparr>pt_btree = map_prefix_btree, pt_state = [prefix_key_of 5 \<mapsto> prefix_value_of ex_to_integer (ex_blk 9) 1],
     pt_to_integer = ex_to_integer\<rparr>"

theorem prefix_index_update_read_witness:
  "\<exists>bi' t1. prefix_write_to_index ex_api 5 6 ex_infos ex_prefix = Some (Inr (), bi', t1) \<and>
     prefix_view t1 6 = Some \<lparr>iv_blkid = ex_blk 41, iv_checksum = 222\<rparr> \<and> info_old bi' 5 = Some (ex_blk 9)"
proof -
  have "\<exists>bi' t1. prefix_write_to_index ex_api 5 6 ex_infos ex_prefix = Some (Inr (), bi', t1)"
    by (simp add: prefix_write_to_index_def ex_prefix_def map_prefix_btree_def Let_def)
  then obtain bi' t1 where w: "prefix_write_to_index ex_api 5 6 ex_infos ex_prefix = Some (Inr (), bi', t1)" by blast
  have "prefix_btree_ok (pt_btree ex_prefix)" "to_integer_ok (pt_to_integer ex_prefix)"
    by (simp_all add: ex_prefix_def map_prefix_btree_ok ex_to_integer_ok)
  moreover have "prefix_range_ok 5 6" by (simp add: prefix_range_ok_def)
  ultimately have "prefix_view t1 = (\<lambda>l. if 5 \<le> l \<and> l \<le> 6 then info_new ex_infos l else prefix_view ex_prefix l)"
    "info_old bi' = (\<lambda>l. if 5 \<le> l \<and> l \<le> 6 \<and> prefix_view ex_prefix l \<noteq> None
       then map_option iv_blkid (prefix_view ex_prefix l) else info_old ex_infos l)"
    using prefix_index_update_read [OF _ _ _ _ _ ex_blk_run w] by simp_all
  moreover have "prefix_view ex_prefix 5 = Some \<lparr>iv_blkid = ex_blk 9, iv_checksum = 1\<rparr>"
    using prefix_value_blkid_of [OF ex_to_integer_ok, of "ex_blk 9"]
    by (simp add: prefix_view_def ex_prefix_def map_prefix_btree_def prefix_entry_def prefix_value_of_def ex_blk_def)
  ultimately show ?thesis using w
    by (simp add: info_new_def ex_infos_def ex_info_def)
qed



text \<open>
  C34. When the put of address \<open>0\<close> fails, the write never returns: \<^verbatim>\<open>lba - 1\<close> wraps to the largest address, which is
  where the undo loop, over all addresses, has no end.
\<close>

theorem fixed_write_hangs_at_zero:
  assumes "btree_ok (ft_btree t)"
    and "\<not> fst (fst (bt_put (ft_btree t) 0 \<lparr>iv_blkid = new_blkid i, iv_checksum = new_checksum i\<rparr> (ft_state t)))"
    and "map_of bi 0 = Some i"
  shows "fixed_write_to_index api 0 hi bi t = None"
proof -
  obtain old t' where p: "bt_put (ft_btree t) 0 \<lparr>iv_blkid = new_blkid i, iv_checksum = new_checksum i\<rparr> (ft_state t) = ((False, old), t')"
    using assms(2) by (metis (full_types) eq_fst_iff)
  obtain bi1 t1 where "fixed_put_step api 0 (bi, t) = Inl (0, bi1, t1)"
    using p info_touch_present [OF assms(3)] by (simp add: fixed_put_step_def Let_def)
  then have f: "for_u64 0 hi (fixed_put_step api) (bi, t) = Some (Inl (0, bi1, t1))" by (subst for_u64.simps) simp
  have "for_u64 0 (- 1) (rollback_step api) (bi1, t1) = None"
  proof (rule for_u64_diverges)
    show "\<exists>s'. rollback_step api i s = Inr s'" for i and s :: "blocks_info \<times> 'a fixed_table"
      using rollback_step_Inr [of api i "fst s" "snd s"] by auto
  qed
  then show ?thesis using f by (simp add: fixed_write_to_index_def rollback_write_def)
qed

theorem fixed_write_hangs_at_zero_witness:
  "fixed_write_to_index ex_api 0 6 [(0, ex_info 40 111)] (ex_fixed (\<lambda>k. k = 0)) = None"
  by (rule fixed_write_hangs_at_zero [where i = "ex_info 40 111"]) (simp_all add: ex_fixed_def map_btree_ok, simp add: map_btree_def)

text \<open>
  The prefix build splits an address into a 32-bit base and a 32-bit offset: the split loses nothing, the byte images of prefix and suffix
  restore the key, and comparing keys is comparing addresses, as in the fixed build.
\<close>

theorem prefix_key_faithful:
  "prefix_key_lba (prefix_key_of l) = l \<and> prefix_key_of (prefix_key_lba k) = k \<and>
   (case prefix_key_serialize k of (p, s) \<Rightarrow> length p = 4 \<and> length s = 4 \<and> prefix_key_deserialize p s = k) \<and>
   prefix_compare k k' = fixed_compare (prefix_key_lba k) (prefix_key_lba k')"
  using prefix_key_serialize_roundtrip [of k] prefix_compare_lba [of "prefix_key_lba k" "prefix_key_lba k'"]
  by (auto simp: prefix_key_serialize_def)

text \<open>
  C35. A value of the prefix build keeps the block and the checksum it was made from, also through its byte image, when the block number has 31 bits;
  shifting it by \<open>n\<close> gives the block \<open>n\<close> further in the same chunk, with the checksum recorded for the \<open>n\<close>-th address.
\<close>

theorem prefix_value_faithful:
  assumes "to_integer_ok f" "unat (blk_num b) < 2 ^ 31"
  shows "prefix_value_blkid (prefix_value_of f b c) = b \<and> pv_checksum (prefix_value_of f b c) = c \<and>
    (case prefix_value_serialize (prefix_value_of f b c) of (p, s) \<Rightarrow> prefix_value_deserialize p s = prefix_value_of f b c) \<and>
    prefix_value_blkid (prefix_value_shift cs start n (prefix_value_of f b c)) = b\<lparr>blk_num := blk_num b + word_of_int n\<rparr> \<and>
    pv_checksum (prefix_value_shift cs start n (prefix_value_of f b c)) = cs (start + word_of_int n)"
  using prefix_value_blkid_of [OF assms] prefix_value_shift_blkid [OF assms] prefix_value_serialize_roundtrip [of "prefix_value_of f b c"]
  by (auto simp: prefix_value_of_def)

theorem prefix_value_faithful_witness:
  "prefix_value_blkid (prefix_value_of ex_to_integer (ex_blk 7) 12) = ex_blk 7 \<and>
   prefix_value_blkid (prefix_value_shift (\<lambda>l. 99) 5 2 (prefix_value_of ex_to_integer (ex_blk 7) 12)) = ex_blk 9"
  using prefix_value_faithful [OF ex_to_integer_ok, of "ex_blk 7" 12 "\<lambda>l. 99" 5 2] by (simp add: ex_blk_def)

text \<open>Shifting a key past the last offset of its base leads back to the first one.\<close>

lemma prefix_key_shift_wraps: "prefix_key_shift 1 (prefix_key_of 0xFFFFFFFF) = prefix_key_of 0"
  by (simp add: prefix_key_shift_def prefix_key_of_def and_mask_32 take_bit_eq_mod drop_bit_eq_div)

end
