(* ===== verification/Volume_Example.thy ===== *)
theory Volume_Example
  imports Volume_Write_Contract Index_Correct
begin

text \<open>
  A small device in memory that keeps the laws the volume relies on, for the examples. Its blocks have two bytes; it allocates one run from
  a position of its state when all blocks of it are free, and fails otherwise.
\<close>

record mem_dev =
  md_next :: u32
  md_data :: "u16 \<Rightarrow> u32 \<Rightarrow> u8 list"
  md_alloc :: "blk_id \<Rightarrow> bool"
  md_log :: "(MsgHeader \<times> u8 list \<times> blk_id list) list"

definition md_blk :: "mem_dev \<Rightarrow> u16 \<Rightarrow> u32 \<Rightarrow> u8 list" where
  "md_blk d c k = take 2 (md_data d c k @ [0, 0])"

definition md_alloc_blks :: "u32 \<Rightarrow> u64 \<Rightarrow> mem_dev \<Rightarrow> blk_id list option \<times> mem_dev" where
  "md_alloc_blks sz hint d =
     (let n = unat sz div 2; b = \<lparr>blk_num = md_next d, blk_count = of_nat n, blk_chunk = 0\<rparr>; bs = blks_of b in
      if 0 < n \<and> n < 2 ^ 16 \<and> n * 2 = unat sz \<and> unat (md_next d) + n < 2 ^ 31 \<and> list_all (\<lambda>b. \<not> md_alloc d b) bs
      then (Some [b], d\<lparr>md_next := md_next d + of_nat n, md_alloc := (\<lambda>x. md_alloc d x \<or> x \<in> set bs)\<rparr>)
      else (None, d))"

definition md_async_write :: "blk_id list \<Rightarrow> u8 list \<Rightarrow> mem_dev \<Rightarrow> bool \<times> mem_dev" where
  "md_async_write bids data d =
     (let bs = all_blks bids; m = map_of (zip bs (map (blk_at 2 data) [0..<length bs])) in
      (True, d\<lparr>md_data := (\<lambda>c k. case m \<lparr>blk_num = k, blk_count = 1, blk_chunk = c\<rparr> of None \<Rightarrow> md_data d c k | Some x \<Rightarrow> x)\<rparr>))"

definition md_async_read :: "blk_id \<Rightarrow> u64 \<Rightarrow> mem_dev \<Rightarrow> u8 list res \<times> mem_dev" where
  "md_async_read b sz d = (Inr (concat (map (\<lambda>j. md_blk d (blk_chunk b) (blk_num b + of_nat j)) [0..<unat (blk_count b)])), d)"

definition mem_repl_dev :: "mem_dev repl_dev" where
  "mem_repl_dev = \<lparr>get_blk_size = 2, alloc_blks = md_alloc_blks, async_write = md_async_write, async_read = md_async_read,
     async_write_journal = (\<lambda>bids h key sz d. (Some 7, d\<lparr>md_log := md_log d @ [(h, key, bids)]\<rparr>)),
     async_free_blks = (\<lambda>lsn b d. d\<lparr>md_alloc := (md_alloc d)(b := False)\<rparr>), is_blk_alloced = (\<lambda>b d. md_alloc d b),
     free_blk_now = (\<lambda>b d. d\<lparr>md_alloc := (md_alloc d)(b := False)\<rparr>), blk_data = md_blk, journal_log = md_log\<rparr>"

lemma mem_repl_dev_sel [simp]:
  "get_blk_size mem_repl_dev = 2" "alloc_blks mem_repl_dev = md_alloc_blks" "async_write mem_repl_dev = md_async_write"
  "async_read mem_repl_dev = md_async_read" "blk_data mem_repl_dev = md_blk" "journal_log mem_repl_dev = md_log"
  "async_write_journal mem_repl_dev = (\<lambda>bids h key sz d. (Some 7, d\<lparr>md_log := md_log d @ [(h, key, bids)]\<rparr>))"
  "alloced mem_repl_dev d = md_alloc d" "is_blk_alloced mem_repl_dev b d = md_alloc d b"
  by (simp_all add: mem_repl_dev_def alloced_def fun_eq_iff)

lemma md_alloc_ok: "alloc_ok mem_repl_dev"
proof -
  have some: "pieces_wf bids \<and> length (all_blks bids) * 2 = unat sz \<and> distinct (all_blks bids) \<and> (\<forall>b\<in>set (all_blks bids). \<not> md_alloc d b) \<and>
      md_alloc d' = (\<lambda>b. md_alloc d b \<or> b \<in> set (all_blks bids)) \<and> md_blk d' = md_blk d \<and> md_log d' = md_log d"
    if a: "md_alloc_blks sz hint d = (Some bids, d')" for sz hint bids and d d' :: mem_dev
  proof -
    define n where "n = unat sz div 2"
    define b where "b = \<lparr>blk_num = md_next d, blk_count = of_nat n, blk_chunk = 0\<rparr>"
    have c: "0 < n" "n < 2 ^ 16" "n * 2 = unat sz" "unat (md_next d) + n < 2 ^ 31" "list_all (\<lambda>b. \<not> md_alloc d b) (blks_of b)" "bids = [b]"
      "d' = d\<lparr>md_next := md_next d + of_nat n, md_alloc := (\<lambda>x. md_alloc d x \<or> x \<in> set (blks_of b))\<rparr>"
      using a unfolding md_alloc_blks_def Let_def n_def [symmetric] b_def [symmetric] by (auto split: if_splits)
    have u: "unat (blk_count b) = n" using c(2) by (simp add: b_def unat_of_nat)
    have "inj_on (single_blk b) {0..<n}"
    proof (rule inj_onI)
      fix i j assume ij: "i \<in> {0..<n}" "j \<in> {0..<n}" "single_blk b i = single_blk b j"
      then have "(of_nat i :: u32) = of_nat j" by (simp add: single_blk_def)
      moreover have "unat (of_nat i :: u32) = i" "unat (of_nat j :: u32) = j" using ij c(2) by (simp_all add: unat_of_nat)
      ultimately show "i = j" by metis
    qed
    then have "distinct (blks_of b)" by (simp add: blks_of_def distinct_map u)
    moreover have "blk_count b \<noteq> 0" using u c(1) by auto
    ultimately show ?thesis using c u by (auto simp: pieces_wf_def b_def list_all_iff md_blk_def fun_eq_iff)
  qed
  have none: "d' = d" if "md_alloc_blks sz hint d = (None, d')" for sz hint and d d' :: mem_dev
    using that by (auto simp: md_alloc_blks_def Let_def split: if_splits)
  have "md_blk d' = md_blk d \<and> md_log d' = md_log d \<and> (case r of None \<Rightarrow> md_alloc d' = md_alloc d
      | Some bids \<Rightarrow> pieces_wf bids \<and> length (all_blks bids) * 2 = unat sz \<and> distinct (all_blks bids) \<and> (\<forall>b\<in>set (all_blks bids). \<not> md_alloc d b) \<and>
          md_alloc d' = (\<lambda>b. md_alloc d b \<or> b \<in> set (all_blks bids)))"
    if "md_alloc_blks sz hint d = (r, d')" for sz hint r and d d' :: mem_dev
  proof (cases r)
    case None
    then show ?thesis using none [of sz hint d d'] that by simp
  next
    case (Some bids)
    then show ?thesis using some [of sz hint d bids d'] that by simp
  qed
  then show ?thesis unfolding alloc_ok_def by (simp cong: option.case_cong)
qed

lemma md_write_ok: "write_ok_law mem_repl_dev"
  unfolding write_ok_law_def
proof (intro allI impI conjI)
  fix bids data ok and d d' :: mem_dev
  assume w: "async_write mem_repl_dev bids data d = (ok, d')"
  let ?bs = "all_blks bids" and ?m = "map_of (zip (all_blks bids) (map (blk_at 2 data) [0..<length (all_blks bids)]))"
  have sel: "md_data (d\<lparr>md_data := f\<rparr>) = f" for f by simp
  have d': "d' = d\<lparr>md_data := (\<lambda>c k. case ?m \<lparr>blk_num = k, blk_count = 1, blk_chunk = c\<rparr> of None \<Rightarrow> md_data d c k | Some x \<Rightarrow> x)\<rparr>"
    using w by (simp add: md_async_write_def Let_def)
  show "alloced mem_repl_dev d' = alloced mem_repl_dev d" "journal_log mem_repl_dev d' = journal_log mem_repl_dev d" using d' by simp_all
  show "blk_data mem_repl_dev d' c k = blk_data mem_repl_dev d c k" if "\<lparr>blk_num = k, blk_count = 1, blk_chunk = c\<rparr> \<notin> set ?bs" for c k
  proof -
    have none: "?m \<lparr>blk_num = k, blk_count = 1, blk_chunk = c\<rparr> = None" using that by (simp add: map_of_zip_is_None)
    have "md_data d' c k = md_data d c k" unfolding d' sel none by (simp only: option.case)
    then show ?thesis by (simp only: mem_repl_dev_sel md_blk_def)
  qed
  show "blk_data mem_repl_dev d' (blk_chunk (?bs ! i)) (blk_num (?bs ! i)) = blk_at (unat (get_blk_size mem_repl_dev)) data i"
    if "ok" "distinct ?bs" "length data = length ?bs * unat (get_blk_size mem_repl_dev)" "i < length ?bs" for i
  proof -
    have b: "\<lparr>blk_num = blk_num (?bs ! i), blk_count = 1, blk_chunk = blk_chunk (?bs ! i)\<rparr> = ?bs ! i"
      by (rule blk_id_eq [OF all_blks_count [OF nth_mem [OF that(4)]]])
    have "?m (?bs ! i) = Some (blk_at 2 data i)" using map_of_zip_nth [of ?bs "map (blk_at 2 data) [0..<length ?bs]" i] that(2,4) by simp
    moreover have "length (blk_at 2 data i) = 2" using that(3,4) by (simp add: blk_at_def)
    moreover have "md_data d' (blk_chunk (?bs ! i)) (blk_num (?bs ! i)) = (case ?m (?bs ! i) of None \<Rightarrow> md_data d (blk_chunk (?bs ! i)) (blk_num (?bs ! i)) | Some x \<Rightarrow> x)"
      unfolding d' sel b ..
    ultimately show ?thesis by (simp add: md_blk_def)
  qed
qed

lemma md_read_ok: "dev_read_ok mem_repl_dev"
proof -
  have len: "length (md_blk d c k) = 2" for d c k by (simp add: md_blk_def)
  moreover have "d' = d \<and> (\<forall>bytes. r = Inr bytes \<longrightarrow> bytes = piece_bytes mem_repl_dev d b)" if "md_async_read b sz d = (r, d')" for b sz r and d d' :: mem_dev
    using that by (auto simp: md_async_read_def piece_bytes_def)
  ultimately show ?thesis unfolding dev_read_ok_def by (simp add: fun_eq_iff) blast
qed

lemma md_dev_ok: "dev_ok mem_repl_dev"
proof -
  have "journal_ok mem_repl_dev" by (auto simp: journal_ok_def md_blk_def fun_eq_iff)
  moreover have "free_ok mem_repl_dev" by (auto simp: free_ok_def mem_repl_dev_def alloced_def md_blk_def fun_eq_iff)
  ultimately show ?thesis using md_alloc_ok md_write_ok md_read_ok by (simp add: dev_ok_def)
qed

text \<open>The examples: an empty volume, a request of three blocks at address 5, a checksum that adds up the bytes.\<close>

definition ex_codec :: blk_codec where
  "ex_codec = \<lparr>blk_sizeof = 8, blk_bytes = (\<lambda>b. le_bytes 4 (unat (blk_num b)) @ le_bytes 2 (unat (blk_count b)) @ le_bytes 2 (unat (blk_chunk b))),
     blk_parse = (\<lambda>bs. \<lparr>blk_num = of_nat (le_value (take 4 bs)), blk_count = of_nat (le_value (take 2 (drop 4 bs))), blk_chunk = of_nat (le_value (drop 6 bs))\<rparr>)\<rparr>"

lemma ex_codec_ok: "blk_codec_ok ex_codec"
  unfolding blk_codec_ok_def
proof (intro allI conjI)
  fix b
  show "blk_parse ex_codec (blk_bytes ex_codec b) = b"
    using u32_bound [of "blk_num b"] u16_bound [of "blk_count b"] u16_bound [of "blk_chunk b"]
    by (intro blk_id.equality) (simp_all add: ex_codec_def le_value_inverse)
qed (simp add: ex_codec_def)

lemma ex_api_ok: "api_ok ex_api"
  by (simp add: api_ok_def ex_api_def)

definition ex_crc :: "u16 \<Rightarrow> u8 list \<Rightarrow> csum_t" where
  "ex_crc init bs = fold (\<lambda>b c. c + ucast b) bs init"

definition ex_dev :: mem_dev where
  "ex_dev = \<lparr>md_next = 40, md_data = (\<lambda>_ _. [1, 1]), md_alloc = (\<lambda>_. False), md_log = []\<rparr>"

definition ex_wreq :: io_req where
  "ex_wreq = \<lparr>req_buffer = Some [10, 11, 12, 13, 14, 15], req_lba = 5, req_nlbas = 3\<rparr>"

definition ex_empty :: "(lba_t \<Rightarrow> index_value option) fixed_table" where
  "ex_empty = \<lparr>ft_btree = map_btree (\<lambda>_. False), ft_state = (\<lambda>_. None)\<rparr>"

lemma ex_wreq_ok: "read_req_ok 2 ex_wreq"
  by (simp add: read_req_ok_def ex_wreq_def)

lemma ex_lba_range_3: "lba_range 5 7 = [5, 6, 7]"
  by (simp add: lba_range_def upt_rec)

lemma ex_index_pieces:
  "\<exists>t' bi. index_pieces ex_api (fixed_index_ops ex_api) (csum_of_data ex_crc 2 (Some [10, 11, 12, 13, 14, 15])) 2
     [\<lparr>blk_num = 40, blk_count = 3, blk_chunk = 0\<rparr>] 5 0 [] ex_empty = Inr (Inr (), 6, bi, t') \<and> old_blkids_of ex_api bi = [] \<and>
     ft_btree t' = map_btree (\<lambda>_. False)"
  by (simp add: upt_rec csum_of_data_def peek_buf_def peek_def fixed_index_ops_def fixed_write_to_index_def for_u64_eq ex_lba_range_3,
      simp add: fixed_put_step_def ex_empty_def map_btree_def Let_def old_blkids_of_def info_touch_def info_at_def emplace_def ex_api_def)

lemma ex_write_with_index:
  assumes "index_pieces ex_api ix (csum_of_data ex_crc 2 (Some [10, 11, 12, 13, 14, 15])) 2
     [\<lparr>blk_num = 40, blk_count = 3, blk_chunk = 0\<rparr>] 5 0 [] t = Inr (Inr (), 6, bi, t')" "old_blkids_of ex_api bi = []"
  shows "\<exists>d'. volume_write ex_api ex_codec ix mem_repl_dev ex_crc i 0 ex_wreq (t, ex_dev) = Inr (Inr (), t', d') \<and>
    md_next d' = 43 \<and> \<not> md_alloc d' \<lparr>blk_num = 43, blk_count = 1, blk_chunk = 0\<rparr>"
proof -
  have c: "on_write ex_api ex_codec ix rd lsn False (journal_key ex_api ex_codec req bi) blkids (vol, d) = Inr (vol, d)" for lsn req blkids vol d and rd :: "'d repl_dev"
    using on_write_commit [OF ex_codec_ok, of ex_api bi] assms(2) by simp
  have n: "\<lparr>blk_num = 43, blk_count = 1, blk_chunk = 0\<rparr> \<notin> set (blks_of \<lparr>blk_num = 40, blk_count = 3, blk_chunk = 0\<rparr>)"
    by (simp add: blks_of_def single_blk_def upt_rec)
  show ?thesis
    by (simp add: n volume_write_def assms(1) c ex_wreq_def ex_dev_def md_alloc_blks_def Let_def peek_buf_def peek_def md_async_write_def list_all_iff
        write_journal_entry_def on_commit_def del: index_pieces.simps)
qed

lemma ex_write_returns:
  "\<exists>t' d'. volume_write ex_api ex_codec (fixed_index_ops ex_api) mem_repl_dev ex_crc i 0 ex_wreq (ex_empty, ex_dev) = Inr (Inr (), t', d') \<and>
     ft_btree t' = map_btree (\<lambda>_. False) \<and> md_next d' = 43 \<and> \<not> md_alloc d' \<lparr>blk_num = 43, blk_count = 1, blk_chunk = 0\<rparr>"
  using ex_index_pieces ex_write_with_index by metis

end
