(* ===== verification/Volume_Correct.thy ===== *)
theory Volume_Correct
  imports Volume_Example
begin

text \<open>
  The properties of reads and writes of a volume: lossless coalescing, reads that return the image of the volume or report an error, writes that update it, the replay of
  the journal, and the limits of the read path.
\<close>

section \<open>Coalescing\<close>

text \<open>
  Coalescing the index entries of a read into runs of blocks loses and invents nothing: listing the runs block by block gives back the entries, in order, and
  no run is empty, as long as there are fewer than \<open>2 ^ 16\<close> entries.
\<close>

theorem coalescing_lossless:
  assumes "length kvs < 2 ^ 16"
  shows "concat (map piece_entries (generate_blkids_to_read kvs)) = map kv_entry kvs \<and>
    (\<forall>p\<in>set (generate_blkids_to_read kvs). blk_count (snd p) \<noteq> 0)"
  using assms by (rule coalesce_lossless)

definition ex_kvs :: index_kv_list where
  "ex_kvs = [(5, \<lparr>iv_blkid = ex_blk 40, iv_checksum = 1\<rparr>), (6, \<lparr>iv_blkid = ex_blk 41, iv_checksum = 2\<rparr>), (9, \<lparr>iv_blkid = ex_blk 42, iv_checksum = 3\<rparr>)]"

theorem coalescing_lossless_witness:
  "concat (map piece_entries (generate_blkids_to_read ex_kvs)) = [(5, 40, 3), (6, 41, 3), (9, 42, 3)] \<and>
   generate_blkids_to_read ex_kvs = [(5, \<lparr>blk_num = 40, blk_count = 2, blk_chunk = 3\<rparr>), (9, \<lparr>blk_num = 42, blk_count = 1, blk_chunk = 3\<rparr>)]"
proof -
  have "map kv_entry ex_kvs = [(5, 40, 3), (6, 41, 3), (9, 42, 3)]"
    by (simp add: ex_kvs_def kv_entry_def kv_blk_num_def kv_chunk_def ex_blk_def)
  moreover have "length ex_kvs < 2 ^ 16" by (simp add: ex_kvs_def)
  moreover have "generate_blkids_to_read ex_kvs = [(5, \<lparr>blk_num = 40, blk_count = 2, blk_chunk = 3\<rparr>), (9, \<lparr>blk_num = 42, blk_count = 1, blk_chunk = 3\<rparr>)]"
    by (simp add: generate_blkids_to_read_def ex_kvs_def upt_rec blkids_step_def is_contiguous_def kv_blk_num_def kv_chunk_def ex_blk_def Let_def)
  ultimately show ?thesis using coalescing_lossless [of ex_kvs] by simp
qed

section \<open>Reading\<close>

text \<open>
  C11. A read of the fixed build whose index lookup works does not fault, changes neither the index nor the device contents, and either fills the buffer with the
  image of the volume, mapped blocks from the device and zeros in the holes, all checksums being right, or reports an error: a checksum mismatch, if there is one, or the error of a
  device read. The request has fewer than \<open>2 ^ 16\<close> blocks, below address \<open>2 ^ 32\<close>, and a buffer of its size.
\<close>

theorem volume_read_fixed:
  assumes "btree_ok (ft_btree t)" "dev_read_ok rd" "read_req_ok (get_blk_size rd) req"
    and "fixed_read_from_index (req_lba req) (end_lba req) t = (Inr kvs, t')"
  shows "\<exists>res d'. volume_read (fixed_index_ops api) rd crc fc req (t, d) = Inr (res, t', d') \<and> fixed_view t' = fixed_view t \<and>
    blk_data rd d' = blk_data rd d \<and> \<not> rr_contained res \<and>
    (rr_status res = Inr () \<longrightarrow>
       rr_mem res = Some (volume_image rd d (fixed_view t) (unat (req_lba req)) (unat (req_nlbas req))) \<and>
       image_ok crc rd d (fixed_view t) (unat (req_lba req)) (unat (req_nlbas req))) \<and>
    (\<forall>e. rr_status res = Inl e \<longrightarrow>
       e = VolErr CRC_MISMATCH \<and> \<not> image_ok crc rd d (fixed_view t) (unat (req_lba req)) (unat (req_nlbas req)) \<or>
       (\<exists>blk sz d0. fst (async_read rd blk sz d0) = Inl e))"
proof -
  have inv: "fixed_invar t" using assms(1) by (simp add: fixed_invar_def)
  show ?thesis
    using fixed_index.volume_read_correct [OF inv assms(2,3,4), of api crc fc d] fixed_index.read_ok [OF inv assms(4)]
    unfolding fixed_index_ops_def by blast
qed

definition ex_rreq :: io_req where
  "ex_rreq = \<lparr>req_buffer = Some [9, 9, 9, 9, 9, 9], req_lba = 5, req_nlbas = 3\<rparr>"

definition ex_written :: "(lba_t \<Rightarrow> index_value option) fixed_table" where
  "ex_written = ex_empty\<lparr>ft_state := [6 \<mapsto> \<lparr>iv_blkid = ex_blk 40, iv_checksum = 0x8007\<rparr>]\<rparr>"

lemma ex_rreq_ok: "read_req_ok 2 ex_rreq"
  by (simp add: read_req_ok_def ex_rreq_def)

theorem volume_read_fixed_witness:
  "\<exists>res t' d'. volume_read (fixed_index_ops ex_api) mem_repl_dev ex_crc True ex_rreq (ex_written, ex_dev) = Inr (res, t', d') \<and>
     rr_status res = Inr () \<and> rr_mem res = Some [0, 0, 1, 1, 0, 0]"
proof -
  have q: "fixed_read_from_index (req_lba ex_rreq) (end_lba ex_rreq) ex_written = (Inr [(6, \<lparr>iv_blkid = ex_blk 40, iv_checksum = 0x8007\<rparr>)], ex_written)"
    by (simp add: fixed_read_from_index_def ex_written_def ex_empty_def ex_rreq_def end_lba_def map_btree_def ex_lba_range_3)
  have img: "block_image mem_repl_dev ex_dev (fixed_view ex_written) x = (if x = 6 then [1, 1] else [0, 0])" if "x \<in> {5, 6, 7}" for x
    using that by (auto simp: block_image_def fixed_view_def ex_written_def ex_empty_def map_btree_def ex_dev_def md_blk_def)
  have st: "\<exists>res t' d'. volume_read (fixed_index_ops ex_api) mem_repl_dev ex_crc True ex_rreq (ex_written, ex_dev) = Inr (res, t', d') \<and> rr_status res = Inr ()"
    using q by (simp add: volume_read_def fixed_index_ops_def generate_blkids_to_read_def blkids_step_def is_contiguous_def kv_blk_num_def kv_chunk_def ex_blk_def
        submit_read_to_backend_def ex_rreq_def submit_step_def fill_hole_def memset_zero_def buf_store_def submit_tail_def end_lba_def Let_def
        md_async_read_def md_blk_def ex_dev_def verify_checksum_def ex_crc_def init_crc_16_def)
  have "volume_image mem_repl_dev ex_dev (fixed_view ex_written) 5 3 = [0, 0, 1, 1, 0, 0]"
    using img by (simp add: volume_image_def upt_rec)
  moreover have "btree_ok (ft_btree ex_written)" by (simp add: ex_written_def ex_empty_def map_btree_ok)
  moreover have "unat (req_lba ex_rreq) = 5" "unat (req_nlbas ex_rreq) = 3" by (simp_all add: ex_rreq_def)
  ultimately show ?thesis
    using volume_read_fixed [OF _ md_read_ok _ q, of ex_api ex_crc True ex_dev] ex_rreq_ok st by fastforce
qed

text \<open>C37. The same holds for the prefix build.\<close>

theorem volume_read_prefix:
  assumes "prefix_btree_ok (pt_btree t)" "to_integer_ok (pt_to_integer t)" "dev_read_ok rd" "read_req_ok (get_blk_size rd) req"
    and "prefix_read_from_index (req_lba req) (end_lba req) t = (Inr kvs, t')"
  shows "\<exists>res d'. volume_read (prefix_index_ops api) rd crc fc req (t, d) = Inr (res, t', d') \<and> prefix_view t' = prefix_view t \<and>
    blk_data rd d' = blk_data rd d \<and> \<not> rr_contained res \<and>
    (rr_status res = Inr () \<longrightarrow>
       rr_mem res = Some (volume_image rd d (prefix_view t) (unat (req_lba req)) (unat (req_nlbas req))) \<and>
       image_ok crc rd d (prefix_view t) (unat (req_lba req)) (unat (req_nlbas req))) \<and>
    (\<forall>e. rr_status res = Inl e \<longrightarrow>
       e = VolErr CRC_MISMATCH \<and> \<not> image_ok crc rd d (prefix_view t) (unat (req_lba req)) (unat (req_nlbas req)) \<or>
       (\<exists>blk sz d0. fst (async_read rd blk sz d0) = Inl e))"
proof -
  have inv: "prefix_invar t" using assms(1,2) by (simp add: prefix_invar_def)
  show ?thesis
    using prefix_index.volume_read_correct [OF inv assms(3,4,5), of api crc fc d] prefix_index.read_ok [OF inv assms(5)]
    unfolding prefix_index_ops_def by blast
qed

definition ex_pempty :: "(prefix_key \<Rightarrow> prefix_value option) prefix_table" where
  "ex_pempty = \<lparr>pt_btree = map_prefix_btree, pt_state = (\<lambda>_. None), pt_to_integer = ex_to_integer\<rparr>"

definition ex_pwritten :: "(prefix_key \<Rightarrow> prefix_value option) prefix_table" where
  "ex_pwritten = ex_pempty\<lparr>pt_state := [prefix_key_of 6 \<mapsto> prefix_value_of ex_to_integer (ex_blk 40) 0x8007]\<rparr>"

lemma ex_pentry: "prefix_entry (prefix_value_of ex_to_integer (ex_blk 40) 0x8007) = \<lparr>iv_blkid = ex_blk 40, iv_checksum = 0x8007\<rparr>"
  using prefix_value_blkid_of [OF ex_to_integer_ok, of "ex_blk 40"] by (simp add: prefix_entry_def prefix_value_of_def ex_blk_def)

theorem volume_read_prefix_witness:
  "\<exists>res t' d'. volume_read (prefix_index_ops ex_api) mem_repl_dev ex_crc True ex_rreq (ex_pwritten, ex_dev) = Inr (res, t', d') \<and>
     rr_status res = Inr () \<and> rr_mem res = Some [0, 0, 1, 1, 0, 0]"
proof -
  have q: "prefix_read_from_index (req_lba ex_rreq) (end_lba ex_rreq) ex_pwritten = (Inr [(6, \<lparr>iv_blkid = ex_blk 40, iv_checksum = 0x8007\<rparr>)], ex_pwritten)"
    by (simp add: prefix_read_from_index_def ex_pwritten_def ex_pempty_def ex_rreq_def end_lba_def map_prefix_btree_def ex_lba_range_3 ex_pentry)
  have img: "block_image mem_repl_dev ex_dev (prefix_view ex_pwritten) x = (if x = 6 then [1, 1] else [0, 0])" if "x \<in> {5, 6, 7}" for x
    using that ex_pentry by (auto simp: block_image_def prefix_view_def ex_pwritten_def ex_pempty_def map_prefix_btree_def ex_dev_def md_blk_def)
  have st: "\<exists>res t' d'. volume_read (prefix_index_ops ex_api) mem_repl_dev ex_crc True ex_rreq (ex_pwritten, ex_dev) = Inr (res, t', d') \<and> rr_status res = Inr ()"
    using q by (simp add: volume_read_def prefix_index_ops_def generate_blkids_to_read_def blkids_step_def is_contiguous_def kv_blk_num_def kv_chunk_def ex_blk_def
        submit_read_to_backend_def ex_rreq_def submit_step_def fill_hole_def memset_zero_def buf_store_def submit_tail_def end_lba_def Let_def
        md_async_read_def md_blk_def ex_dev_def verify_checksum_def ex_crc_def init_crc_16_def)
  have "volume_image mem_repl_dev ex_dev (prefix_view ex_pwritten) 5 3 = [0, 0, 1, 1, 0, 0]"
    using img by (simp add: volume_image_def upt_rec)
  moreover have "prefix_btree_ok (pt_btree ex_pwritten)" "to_integer_ok (pt_to_integer ex_pwritten)"
    by (simp_all add: ex_pwritten_def ex_pempty_def map_prefix_btree_ok ex_to_integer_ok)
  moreover have "unat (req_lba ex_rreq) = 5" "unat (req_nlbas ex_rreq) = 3" by (simp_all add: ex_rreq_def)
  ultimately show ?thesis
    using volume_read_prefix [OF _ _ md_read_ok _ q, of ex_api ex_crc True ex_dev] ex_rreq_ok st by fastforce
qed

section \<open>Writing\<close>

text \<open>
  C10. An acknowledged write of the fixed build stores its buffer: afterwards the blocks of the request hold the blocks of the buffer, every other block of the volume
  holds what it held, the recorded checksums fit, and every mapped block is still allocated and mapped only once, so that no freed block is in use.
\<close>

theorem volume_write_fixed:
  assumes "btree_ok (ft_btree t)" "dev_ok rd" "api_ok api" "blk_codec_ok codec" "read_req_ok (get_blk_size rd) req" "mapped_ok rd d (fixed_view t)"
    and "volume_write api codec (fixed_index_ops api) rd crc vol_id ordinal req (t, d) = Inr (Inr (), t', d')"
  shows "\<exists>data. req_buffer req = Some data \<and> mapped_ok rd d' (fixed_view t') \<and>
    (\<forall>x<2 ^ 64. block_image rd d' (fixed_view t') x =
       (if unat (req_lba req) \<le> x \<and> x < unat (req_lba req) + unat (req_nlbas req)
        then blk_at (unat (get_blk_size rd)) data (x - unat (req_lba req)) else block_image rd d (fixed_view t) x)) \<and>
    image_ok crc rd d' (fixed_view t') (unat (req_lba req)) (unat (req_nlbas req))"
proof -
  have inv: "fixed_invar t" using assms(1) by (simp add: fixed_invar_def)
  show ?thesis using fixed_low.volume_write_image [OF inv assms(2-6) assms(7) [unfolded fixed_index_ops_def]] by blast
qed

lemma ex_mapped: "mapped_ok mem_repl_dev ex_dev (fixed_view ex_empty)"
  by (simp add: mapped_ok_def fixed_view_def ex_empty_def map_btree_def)

lemma ex_empty_ok: "btree_ok (ft_btree ex_empty)"
  by (simp add: ex_empty_def map_btree_ok)

theorem volume_write_fixed_witness:
  "\<exists>t' d'. volume_write ex_api ex_codec (fixed_index_ops ex_api) mem_repl_dev ex_crc 1 0 ex_wreq (ex_empty, ex_dev) = Inr (Inr (), t', d') \<and>
     block_image mem_repl_dev d' (fixed_view t') 6 = [12, 13] \<and> block_image mem_repl_dev d' (fixed_view t') 4 = [0, 0]"
proof -
  obtain t' d' where w: "volume_write ex_api ex_codec (fixed_index_ops ex_api) mem_repl_dev ex_crc 1 0 ex_wreq (ex_empty, ex_dev) = Inr (Inr (), t', d')"
    using ex_write_returns by blast
  have r: "read_req_ok (get_blk_size mem_repl_dev) ex_wreq" using ex_wreq_ok by simp
  obtain data where d: "req_buffer ex_wreq = Some data" and img: "\<forall>x<2 ^ 64. block_image mem_repl_dev d' (fixed_view t') x =
       (if unat (req_lba ex_wreq) \<le> x \<and> x < unat (req_lba ex_wreq) + unat (req_nlbas ex_wreq)
        then blk_at (unat (get_blk_size mem_repl_dev)) data (x - unat (req_lba ex_wreq)) else block_image mem_repl_dev ex_dev (fixed_view ex_empty) x)"
    using volume_write_fixed [OF ex_empty_ok md_dev_ok ex_api_ok ex_codec_ok r ex_mapped w] by blast
  have data: "data = [10, 11, 12, 13, 14, 15]" using d by (simp add: ex_wreq_def)
  have "block_image mem_repl_dev ex_dev (fixed_view ex_empty) 4 = [0, 0]"
    by (simp add: block_image_def fixed_view_def ex_empty_def map_btree_def)
  then have "block_image mem_repl_dev d' (fixed_view t') 6 = [12, 13]" "block_image mem_repl_dev d' (fixed_view t') 4 = [0, 0]"
    using img [rule_format, of 6] img [rule_format, of 4] by (simp_all add: data ex_wreq_def blk_at_def)
  then show ?thesis using w by blast
qed

text \<open>C36. The same holds for the prefix build.\<close>

theorem volume_write_prefix:
  assumes "prefix_btree_ok (pt_btree t)" "to_integer_ok (pt_to_integer t)" "dev_ok rd" "api_ok api" "blk_codec_ok codec"
    and "read_req_ok (get_blk_size rd) req" "mapped_ok rd d (prefix_view t)"
    and "volume_write api codec (prefix_index_ops api) rd crc vol_id ordinal req (t, d) = Inr (Inr (), t', d')"
  shows "\<exists>data. req_buffer req = Some data \<and> mapped_ok rd d' (prefix_view t') \<and>
    (\<forall>x<2 ^ 64. block_image rd d' (prefix_view t') x =
       (if unat (req_lba req) \<le> x \<and> x < unat (req_lba req) + unat (req_nlbas req)
        then blk_at (unat (get_blk_size rd)) data (x - unat (req_lba req)) else block_image rd d (prefix_view t) x)) \<and>
    image_ok crc rd d' (prefix_view t') (unat (req_lba req)) (unat (req_nlbas req))"
proof -
  have inv: "prefix_invar t" using assms(1,2) by (simp add: prefix_invar_def)
  show ?thesis using prefix_low.volume_write_image [OF inv assms(3-7) assms(8) [unfolded prefix_index_ops_def]] by blast
qed

lemma ex_pindex_pieces:
  "\<exists>t' bi. index_pieces ex_api (prefix_index_ops ex_api) (csum_of_data ex_crc 2 (Some [10, 11, 12, 13, 14, 15])) 2
     [\<lparr>blk_num = 40, blk_count = 3, blk_chunk = 0\<rparr>] 5 0 [] ex_pempty = Inr (Inr (), 6, bi, t') \<and> old_blkids_of ex_api bi = []"
  by (simp add: upt_rec csum_of_data_def peek_buf_def peek_def prefix_index_ops_def prefix_write_to_index_def ex_pempty_def map_prefix_btree_def
      Let_def old_blkids_of_def info_touch_def info_at_def emplace_def ex_api_def)

lemma ex_pwrite_returns:
  "\<exists>t' d'. volume_write ex_api ex_codec (prefix_index_ops ex_api) mem_repl_dev ex_crc 1 0 ex_wreq (ex_pempty, ex_dev) = Inr (Inr (), t', d')"
proof -
  obtain t' bi where i: "index_pieces ex_api (prefix_index_ops ex_api) (csum_of_data ex_crc 2 (Some [10, 11, 12, 13, 14, 15])) 2
   [\<lparr>blk_num = 40, blk_count = 3, blk_chunk = 0\<rparr>] 5 0 [] ex_pempty = Inr (Inr (), 6, bi, t')" "old_blkids_of ex_api bi = []"
    using ex_pindex_pieces by blast
  from ex_write_with_index [OF i] show ?thesis by blast
qed

theorem volume_write_prefix_witness:
  "\<exists>t' d'. volume_write ex_api ex_codec (prefix_index_ops ex_api) mem_repl_dev ex_crc 1 0 ex_wreq (ex_pempty, ex_dev) = Inr (Inr (), t', d') \<and>
     block_image mem_repl_dev d' (prefix_view t') 6 = [12, 13] \<and> block_image mem_repl_dev d' (prefix_view t') 4 = [0, 0]"
proof -
  obtain t' d' where w: "volume_write ex_api ex_codec (prefix_index_ops ex_api) mem_repl_dev ex_crc 1 0 ex_wreq (ex_pempty, ex_dev) = Inr (Inr (), t', d')"
    using ex_pwrite_returns by blast
  have r: "read_req_ok (get_blk_size mem_repl_dev) ex_wreq" using ex_wreq_ok by simp
  have e: "prefix_btree_ok (pt_btree ex_pempty)" "to_integer_ok (pt_to_integer ex_pempty)" "mapped_ok mem_repl_dev ex_dev (prefix_view ex_pempty)"
    by (simp_all add: ex_pempty_def map_prefix_btree_ok ex_to_integer_ok mapped_ok_def prefix_view_def, simp add: map_prefix_btree_def)
  obtain data where d: "req_buffer ex_wreq = Some data" and img: "\<forall>x<2 ^ 64. block_image mem_repl_dev d' (prefix_view t') x =
       (if unat (req_lba ex_wreq) \<le> x \<and> x < unat (req_lba ex_wreq) + unat (req_nlbas ex_wreq)
        then blk_at (unat (get_blk_size mem_repl_dev)) data (x - unat (req_lba ex_wreq)) else block_image mem_repl_dev ex_dev (prefix_view ex_pempty) x)"
    using volume_write_prefix [OF e(1,2) md_dev_ok ex_api_ok ex_codec_ok r e(3) w] by blast
  have data: "data = [10, 11, 12, 13, 14, 15]" using d by (simp add: ex_wreq_def)
  have "block_image mem_repl_dev ex_dev (prefix_view ex_pempty) 4 = [0, 0]"
    by (simp add: block_image_def prefix_view_def ex_pempty_def map_prefix_btree_def)
  then have "block_image mem_repl_dev d' (prefix_view t') 6 = [12, 13]" "block_image mem_repl_dev d' (prefix_view t') 4 = [0, 0]"
    using img [rule_format, of 6] img [rule_format, of 4] by (simp_all add: data ex_wreq_def blk_at_def)
  then show ?thesis using w by blast
qed

text \<open>A write leaves an index that keeps its laws.\<close>

lemma write_keeps_index:
  assumes "btree_ok (ft_btree t)" "dev_ok rd" "api_ok api" "blk_codec_ok codec" "read_req_ok (get_blk_size rd) req" "mapped_ok rd d (fixed_view t)"
    and "volume_write api codec (fixed_index_ops api) rd crc vol_id ordinal req (t, d) = Inr (Inr (), t1, d1)"
  shows "btree_ok (ft_btree t1)"
  using fixed_low.volume_write_image [OF _ assms(2-6) assms(7) [unfolded fixed_index_ops_def]] assms(1) by (auto simp: fixed_invar_def)

text \<open>The updates of an index succeed when the B-tree takes every put.\<close>

lemma fixed_write_succeeds:
  assumes "\<forall>k v s. fst (fst (bt_put (ft_btree t) k v s))" "hi < - 1"
  shows "\<exists>bi' t'. fixed_write_to_index api lo hi bi t = Some (Inr (), bi', t') \<and> ft_btree t' = ft_btree t"
proof -
  have step: "\<exists>bi' t'. fixed_put_step api l (bi, t1) = Inr (bi', t') \<and> ft_btree t' = ft_btree t" if "ft_btree t1 = ft_btree t" for l bi t1
    using assms(1) [rule_format, of l _ "ft_state t1"] that
    by (simp add: fixed_put_step_def Let_def case_prod_beta)
  have "\<exists>bi' t'. run_each (fixed_put_step api) ls (bi, t1) = Inr (bi', t') \<and> ft_btree t' = ft_btree t" if "ft_btree t1 = ft_btree t" for ls bi t1
    using that
  proof (induction ls arbitrary: bi t1)
    case (Cons l ls)
    obtain bi' t' where "fixed_put_step api l (bi, t1) = Inr (bi', t')" "ft_btree t' = ft_btree t" using step [OF Cons.prems] by blast
    then show ?case using Cons.IH by simp
  qed simp
  then obtain bi' t' where "run_each (fixed_put_step api) (lba_range lo hi) (bi, t) = Inr (bi', t')" "ft_btree t' = ft_btree t" by blast
  then show ?thesis using assms(2) by (simp add: fixed_write_to_index_def for_u64_eq)
qed

section \<open>Limits of the read path\<close>

text \<open>
  C38. Above address \<open>2 ^ 32\<close> the read path breaks: the submit phase keeps the previous address in 32 bits, takes the difference for a hole, and zeroes memory far behind the buffer.
\<close>

theorem read_above_32_bits_overruns:
  assumes "ix_read ix (req_lba req) (end_lba req) t = (Inr ((req_lba req, v) # kvs), t')" "length kvs < 2 ^ 16 - 1"
    and "2 ^ 32 \<le> unat (req_lba req)" "0 < get_blk_size rd" "unat (req_lba req) div 2 ^ 32 * unat (get_blk_size rd) < 2 ^ 32"
    and "req_buffer req = Some b" "length b < 2 ^ 32"
  shows "volume_read ix rd crc fc req (t, d) = Inl OutOfBounds"
proof -
  let ?kvs = "(req_lba req, v) # kvs" and ?bs = "unat (get_blk_size rd)"
  have co: "concat (map piece_entries (generate_blkids_to_read ?kvs)) = map kv_entry ?kvs" "\<forall>p\<in>set (generate_blkids_to_read ?kvs). blk_count (snd p) \<noteq> 0"
    using coalesce_lossless [of ?kvs] assms(2) by auto
  obtain p ps where ps: "generate_blkids_to_read ?kvs = p # ps" using co(1) by (cases "generate_blkids_to_read ?kvs") auto
  have "0 < unat (blk_count (snd p))" using co(2) ps by (simp add: unat_gt_0)
  then have "piece_entries p = (fst p, blk_num (snd p), blk_chunk (snd p)) # map (\<lambda>j. (fst p + of_nat j, blk_num (snd p) + of_nat j, blk_chunk (snd p))) [1..<unat (blk_count (snd p))]"
    by (simp add: piece_entries_def upt_conv_Cons)
  then have p: "fst p = req_lba req" using co(1) ps by (simp add: kv_entry_def)
  define q r where "q = unat (req_lba req) div 2 ^ 32" and "r = unat (req_lba req) mod 2 ^ 32"
  have L: "unat (req_lba req) = q * 2 ^ 32 + r" "r < 2 ^ 32" "1 \<le> q" using assms(3) by (auto simp: q_def r_def div_greater_zero_iff Suc_le_eq)
  have "unat (ucast (ucast (req_lba req) :: u32) :: u64) = r" by (simp add: r_def unsigned_ucast_eq take_bit_eq_mod unat_mod)
  then have "unat (req_lba req - ucast (ucast (req_lba req) :: u32)) = q * 2 ^ 32" using L(1) by (simp add: unat_sub word_le_nat_alt)
  moreover have "unat (ucast (get_blk_size rd) :: u64) = ?bs" using u32_bound [of "get_blk_size rd"] by (simp add: unsigned_ucast_eq take_bit_nat_eq_self)
  moreover have small: "q * 2 ^ 32 * ?bs < 2 ^ 64" using assms(5) by (simp add: q_def algebra_simps)
  ultimately have hs: "unat ((req_lba req - ucast (ucast (req_lba req) :: u32)) * ucast (get_blk_size rd)) = q * 2 ^ 32 * ?bs"
    by (simp add: unat_word_ariths)
  have "1 \<le> q * ?bs" using L(3) assms(4) by (simp add: word_gt_0 unat_gt_0 Suc_le_eq)
  then have "2 ^ 32 * 1 \<le> 2 ^ 32 * (q * ?bs)" by (intro mult_le_mono2)
  then have big: "length b < q * 2 ^ 32 * ?bs" using assms(7) by (simp only: mult.assoc mult.left_commute mult_1_right)
  let ?hs = "(req_lba req - ucast (ucast (req_lba req) :: u32)) * ucast (get_blk_size rd)"
  have "0 < unat ?hs" unfolding hs using big by (rule le_less_trans [OF le0])
  then have "0 < ?hs" by (simp only: unat_gt_0 word_gt_0 simp_thms)
  then have "submit_read_to_backend (get_blk_size rd) fc (p # ps) req = Inl OutOfBounds"
    using hs big assms(6) p by (simp add: submit_read_to_backend_def submit_step_def fill_hole_def memset_zero_def Let_def split: prod.split) auto
  then show ?thesis using assms(1) ps by (simp add: volume_read_def)
qed

definition ex_far_req :: io_req where
  "ex_far_req = \<lparr>req_buffer = Some [9, 9], req_lba = 0x100000000, req_nlbas = 1\<rparr>"

definition ex_far :: "(lba_t \<Rightarrow> index_value option) fixed_table" where
  "ex_far = ex_empty\<lparr>ft_state := [0x100000000 \<mapsto> \<lparr>iv_blkid = ex_blk 40, iv_checksum = 0x8007\<rparr>]\<rparr>"

theorem read_above_32_bits_overruns_witness:
  "volume_read (fixed_index_ops ex_api) mem_repl_dev ex_crc True ex_far_req (ex_far, ex_dev) = Inl OutOfBounds"
proof -
  have "ix_read (fixed_index_ops ex_api) (req_lba ex_far_req) (end_lba ex_far_req) ex_far =
      (Inr ((req_lba ex_far_req, \<lparr>iv_blkid = ex_blk 40, iv_checksum = 0x8007\<rparr>) # []), ex_far)"
    by (simp add: fixed_index_ops_def fixed_read_from_index_def ex_far_def ex_empty_def ex_far_req_def end_lba_def map_btree_def lba_range_def)
  from read_above_32_bits_overruns [OF this, of mem_repl_dev "[9, 9]" ex_crc True ex_dev] show ?thesis by (simp add: ex_far_req_def)
qed

end
