(* ===== verification/Volume_Replay.thy ===== *)
theory Volume_Replay
  imports Volume_Correct
begin

text \<open>
  The journal of a volume as a whole: any number of acknowledged writes, the entries they leave, and what replaying all of them in order does to an index that has lost some or all of the updates.
\<close>

section \<open>Runs of writes and their replay\<close>

text \<open>Writes on one volume, all acknowledged.\<close>

fun acked_writes :: "blk_api \<Rightarrow> blk_codec \<Rightarrow> 't index_ops \<Rightarrow> 'd repl_dev \<Rightarrow> (u16 \<Rightarrow> u8 list \<Rightarrow> csum_t) \<Rightarrow> volume_id_t \<Rightarrow> u64 \<Rightarrow> io_req list \<Rightarrow> 't \<times> 'd \<Rightarrow> ('t \<times> 'd) option" where
  "acked_writes api codec ix rd crc vol_id ordinal [] w = Some w"
| "acked_writes api codec ix rd crc vol_id ordinal (req # reqs) w =
     (case volume_write api codec ix rd crc vol_id ordinal req w of
        Inr (Inr _, w') \<Rightarrow> acked_writes api codec ix rd crc vol_id ordinal reqs w'
      | _ \<Rightarrow> None)"

text \<open>The storage layer commits the entries of the log one after the other.\<close>

fun replay_log :: "blk_api \<Rightarrow> blk_codec \<Rightarrow> 't index_ops \<Rightarrow> 'd repl_dev \<Rightarrow> (MsgHeader \<times> u8 list \<times> blk_id list) list \<Rightarrow> int \<Rightarrow> 't option \<times> 'd \<Rightarrow> ('t option \<times> 'd) checked" where
  "replay_log api codec ix rd [] lsn w = Inr w"
| "replay_log api codec ix rd ((header, key, blkids) # es) lsn w =
     bind_sum (on_commit api codec ix rd lsn True header key blkids w) (replay_log api codec ix rd es (lsn + 1))"

definition in_reqs :: "io_req list \<Rightarrow> lba_t \<Rightarrow> bool" where
  "in_reqs reqs x \<longleftrightarrow> (\<exists>req\<in>set reqs. in_req req x)"

lemma in_reqs_simps [simp]: "\<not> in_reqs [] x" "in_reqs (req # reqs) x \<longleftrightarrow> in_req req x \<or> in_reqs reqs x"
  by (auto simp: in_reqs_def)

lemma acked_writes_Cons:
  assumes "acked_writes api codec ix rd crc vol_id ordinal (req # reqs) w = Some w''"
  obtains w' where "volume_write api codec ix rd crc vol_id ordinal req w = Inr (Inr (), w')" "acked_writes api codec ix rd crc vol_id ordinal reqs w' = Some w''"
  using assms by (auto split: sum.splits prod.splits)

context volume_index_low
begin

text \<open>A run keeps the laws and changes nothing outside its ranges.\<close>

lemma acked_writes_keep:
  assumes "dev_ok rd" "api_ok api" "blk_codec_ok codec" and ix: "ix = \<lparr>ix_write = write_to_index, ix_read = read_from_index\<rparr>"
  shows "acked_writes api codec ix rd crc vol_id ordinal reqs (t, d) = Some (t', d') \<Longrightarrow> invar t \<Longrightarrow> mapped_ok rd d (view t) \<Longrightarrow>
    \<forall>req\<in>set reqs. read_req_ok (get_blk_size rd) req \<Longrightarrow>
    invar t' \<and> mapped_ok rd d' (view t') \<and> (\<forall>x. \<not> in_reqs reqs x \<longrightarrow> view t' x = view t x) \<and>
    (\<forall>x<2 ^ 64. \<not> in_reqs reqs (of_nat x) \<longrightarrow> block_image rd d' (view t') x = block_image rd d (view t) x)"
proof (induction reqs arbitrary: t d)
  case (Cons req reqs)
  obtain t1 d1 where w: "volume_write api codec ix rd crc vol_id ordinal req (t, d) = Inr (Inr (), t1, d1)"
    and r: "acked_writes api codec ix rd crc vol_id ordinal reqs (t1, d1) = Some (t', d')"
    using Cons.prems(1) by (elim acked_writes_Cons) auto
  have ok: "read_req_ok (get_blk_size rd) req" using Cons.prems(4) by simp
  obtain data where I: "invar t1" "mapped_ok rd d1 (view t1)"
    "\<forall>x<2 ^ 64. block_image rd d1 (view t1) x = (if unat (req_lba req) \<le> x \<and> x < unat (req_lba req) + unat (req_nlbas req)
       then blk_at (unat (get_blk_size rd)) data (x - unat (req_lba req)) else block_image rd d (view t) x)"
    using volume_write_image [OF Cons.prems(2) assms(1-3) ok Cons.prems(3) w [unfolded ix]] by blast
  have v: "view t1 x = view t x" if "\<not> in_req req x" for x
    by (rule volume_write_replay [OF Cons.prems(2) assms(1-3) ok Cons.prems(3) w ix]) (use that in blast)
  have b: "block_image rd d1 (view t1) x = block_image rd d (view t) x" if "x < 2 ^ 64" "\<not> in_req req (of_nat x)" for x
    using I(3) that by (auto simp: in_req_def unat_of_nat)
  show ?case using Cons.IH [OF r I(1,2)] Cons.prems(4) v b by simp
qed simp

text \<open>Replaying the entries of a run on any index gives the ranges of the run the mapping they have after it.\<close>

lemma acked_writes_replay:
  assumes "dev_ok rd" "api_ok api" "blk_codec_ok codec" and ix: "ix = \<lparr>ix_write = write_to_index, ix_read = read_from_index\<rparr>"
  shows "acked_writes api codec ix rd crc vol_id ordinal reqs (t, d) = Some (t', d') \<Longrightarrow> invar t \<Longrightarrow> mapped_ok rd d (view t) \<Longrightarrow>
    \<forall>req\<in>set reqs. read_req_ok (get_blk_size rd) req \<Longrightarrow>
    \<exists>es. journal_log rd d' = journal_log rd d @ es \<and> length es = length reqs \<and>
      (\<forall>t0 d0 lsn r d1. invar t0 \<longrightarrow> replay_log api codec ix rd es lsn (Some t0, d0) = Inr (r, d1) \<longrightarrow>
         (\<exists>t1. r = Some t1 \<and> invar t1 \<and> view t1 = (\<lambda>x. if in_reqs reqs x then view t' x else view t0 x) \<and> blk_data rd d1 = blk_data rd d0)) \<and>
      (\<forall>t0 d0 lsn S. invar t0 \<longrightarrow> accepts write_to_index S \<longrightarrow> S t0 \<longrightarrow> (\<exists>t1 d1. replay_log api codec ix rd es lsn (Some t0, d0) = Inr (Some t1, d1) \<and> S t1))"
proof (induction reqs arbitrary: t d)
  case (Cons req reqs)
  obtain tm dm where w: "volume_write api codec ix rd crc vol_id ordinal req (t, d) = Inr (Inr (), tm, dm)"
    and r: "acked_writes api codec ix rd crc vol_id ordinal reqs (tm, dm) = Some (t', d')"
    using Cons.prems(1) by (elim acked_writes_Cons) auto
  have ok: "read_req_ok (get_blk_size rd) req" and oks: "\<forall>req\<in>set reqs. read_req_ok (get_blk_size rd) req" using Cons.prems(4) by simp_all
  have I: "invar tm" "mapped_ok rd dm (view tm)" using volume_write_image [OF Cons.prems(2) assms(1-3) ok Cons.prems(3) w [unfolded ix]] by blast+
  obtain key bids where K: "journal_log rd dm = journal_log rd d @ [(\<lparr>msg_type = WRITE, volume_id = vol_id\<rparr>, key, bids)]"
    and K0: "\<And>x. \<not> in_req req x \<Longrightarrow> view tm x = view t x"
    and K1: "\<And>t0 d0 lsn r d1. invar t0 \<Longrightarrow> on_write api codec ix rd lsn True key bids (Some t0, d0) = Inr (r, d1) \<Longrightarrow>
      \<exists>t1. r = Some t1 \<and> invar t1 \<and> view t1 = (\<lambda>x. if in_req req x then view tm x else view t0 x) \<and> blk_data rd d1 = blk_data rd d0"
    and K2: "\<And>t0 d0 lsn S. invar t0 \<Longrightarrow> accepts write_to_index S \<Longrightarrow> S t0 \<Longrightarrow>
      \<exists>t1 d1. on_write api codec ix rd lsn True key bids (Some t0, d0) = Inr (Some t1, d1) \<and> S t1"
    by (rule volume_write_replay [OF Cons.prems(2) assms(1-3) ok Cons.prems(3) w ix that])
  from Cons.IH [OF r I oks] obtain es where E: "journal_log rd d' = journal_log rd dm @ es" "length es = length reqs"
    and E1: "\<forall>t0 d0 lsn r d1. invar t0 \<longrightarrow> replay_log api codec ix rd es lsn (Some t0, d0) = Inr (r, d1) \<longrightarrow>
      (\<exists>t1. r = Some t1 \<and> invar t1 \<and> view t1 = (\<lambda>x. if in_reqs reqs x then view t' x else view t0 x) \<and> blk_data rd d1 = blk_data rd d0)"
    and E2: "\<forall>t0 d0 lsn S. invar t0 \<longrightarrow> accepts write_to_index S \<longrightarrow> S t0 \<longrightarrow> (\<exists>t1 d1. replay_log api codec ix rd es lsn (Some t0, d0) = Inr (Some t1, d1) \<and> S t1)"
    by (elim exE conjE) (rule that)
  let ?e = "(\<lparr>msg_type = WRITE, volume_id = vol_id\<rparr>, key, bids)"
  have out: "view t' x = view tm x" if "\<not> in_reqs reqs x" for x using acked_writes_keep [OF assms r I oks] that by blast
  have step: "replay_log api codec ix rd (?e # es) lsn w0 = bind_sum (on_write api codec ix rd lsn True key bids w0) (replay_log api codec ix rd es (lsn + 1))" for lsn w0
    by (simp add: on_commit_def)
  have "\<exists>t1. r = Some t1 \<and> invar t1 \<and> view t1 = (\<lambda>x. if in_reqs (req # reqs) x then view t' x else view t0 x) \<and> blk_data rd d1 = blk_data rd d0"
    if t0: "invar t0" and rep: "replay_log api codec ix rd (?e # es) lsn (Some t0, d0) = Inr (r, d1)" for t0 d0 lsn r d1
  proof -
    obtain r' dk where o: "on_write api codec ix rd lsn True key bids (Some t0, d0) = Inr (r', dk)" "replay_log api codec ix rd es (lsn + 1) (r', dk) = Inr (r, d1)"
      using rep unfolding step by (auto simp: bind_sum_eq_Inr)
    obtain tk where tk: "r' = Some tk" "invar tk" "view tk = (\<lambda>x. if in_req req x then view tm x else view t0 x)" "blk_data rd dk = blk_data rd d0"
      using K1 [OF t0 o(1)] by blast
    show ?thesis using E1 [rule_format, OF tk(2) o(2) [unfolded tk(1)]] tk(3,4) out by (auto simp: fun_eq_iff)
  qed
  moreover have "\<exists>t1 d1. replay_log api codec ix rd (?e # es) lsn (Some t0, d0) = Inr (Some t1, d1) \<and> S t1"
    if t0: "invar t0" and S: "accepts write_to_index S" "S t0" for t0 d0 lsn S
  proof -
    obtain tk dk where o: "on_write api codec ix rd lsn True key bids (Some t0, d0) = Inr (Some tk, dk)" "S tk" using K2 [OF t0 S] by blast
    then show ?thesis unfolding step using E2 [rule_format, OF _ S(1) o(2)] K1 [OF t0 o(1)] by auto
  qed
  ultimately show ?case by (intro exI [of _ "?e # es"] conjI allI impI) (simp_all add: K E)
qed simp

end

section \<open>The fixed build\<close>

text \<open>The image of a volume depends on the contents of the device only.\<close>

lemma block_image_data: "blk_data rd d1 = blk_data rd d2 \<Longrightarrow> block_image rd d1 = block_image rd d2"
  by (intro ext) (simp add: block_image_def split: option.split)

lemma fixed_ops_accept:
  assumes "\<forall>k v s. fst (fst (bt_put bt k v s))"
  shows "accepts (fixed_write_to_index api) (\<lambda>t. ft_btree t = bt)"
  unfolding accepts_def using fixed_write_succeeds assms by metis

lemma fixed_replay:
  fixes t :: "'t fixed_table"
  assumes "btree_ok (ft_btree t)" "dev_ok rd" "api_ok api" "blk_codec_ok codec" "mapped_ok rd d (fixed_view t)" "\<forall>req\<in>set reqs. read_req_ok (get_blk_size rd) req"
    and "acked_writes api codec (fixed_index_ops api) rd crc vol_id ordinal reqs (t, d) = Some (t', d')"
  shows "\<exists>es. journal_log rd d' = journal_log rd d @ es \<and> length es = length reqs \<and>
    (\<forall>(t0 :: 't fixed_table) d0 lsn r d1. fixed_invar t0 \<longrightarrow> replay_log api codec (fixed_index_ops api) rd es lsn (Some t0, d0) = Inr (r, d1) \<longrightarrow>
       (\<exists>t1. r = Some t1 \<and> fixed_invar t1 \<and> fixed_view t1 = (\<lambda>x. if in_reqs reqs x then fixed_view t' x else fixed_view t0 x) \<and> blk_data rd d1 = blk_data rd d0)) \<and>
    (\<forall>(t0 :: 't fixed_table) d0 lsn S. fixed_invar t0 \<longrightarrow> accepts (fixed_write_to_index api) S \<longrightarrow> S t0 \<longrightarrow>
       (\<exists>t1 d1. replay_log api codec (fixed_index_ops api) rd es lsn (Some t0, d0) = Inr (Some t1, d1) \<and> S t1))"
  using fixed_low.acked_writes_replay [OF assms(2-4) fixed_index_ops_def assms(7) _ assms(5,6)] assms(1) by (simp add: fixed_invar_def)

text \<open>A second request, of one block.\<close>

definition ex_wreq2 :: "lba_t \<Rightarrow> io_req" where
  "ex_wreq2 l = \<lparr>req_buffer = Some [20, 21], req_lba = l, req_nlbas = 1\<rparr>"

lemma ex_index_pieces2:
  assumes "ft_btree t = map_btree (\<lambda>_. False)" "l < 100"
  shows "\<exists>t' bi. index_pieces ex_api (fixed_index_ops ex_api) (csum_of_data ex_crc 2 (Some [20, 21])) 2
     [\<lparr>blk_num = 43, blk_count = 1, blk_chunk = 0\<rparr>] l 0 [] t = Inr (Inr (), 2, bi, t') \<and> length (old_blkids_of ex_api bi) < 2 ^ 16 \<and>
     ft_btree t' = map_btree (\<lambda>_. False)"
proof -
  have r: "lba_range l l = [l]" "l < - 1" using assms(2) less_trans [of l 100 "- 1"] by (simp_all add: lba_range_def)
  show ?thesis using assms(1)
    by (simp add: csum_of_data_def peek_buf_def peek_def fixed_index_ops_def fixed_write_to_index_def for_u64_eq r,
      simp add: fixed_put_step_def map_btree_def Let_def old_blkids_of_def info_touch_def info_at_def emplace_def set_old_def ex_api_def split: option.splits)
qed

lemma ex_write_again:
  assumes "ft_btree t = map_btree (\<lambda>_. False)" "md_next d = 43" "\<not> md_alloc d \<lparr>blk_num = 43, blk_count = 1, blk_chunk = 0\<rparr>" "l < 100"
  shows "\<exists>t' d'. volume_write ex_api ex_codec (fixed_index_ops ex_api) mem_repl_dev ex_crc i 0 (ex_wreq2 l) (t, d) = Inr (Inr (), t', d')"
proof -
  obtain t' bi where p: "index_pieces ex_api (fixed_index_ops ex_api) (csum_of_data ex_crc 2 (Some [20, 21])) 2
     [\<lparr>blk_num = 43, blk_count = 1, blk_chunk = 0\<rparr>] l 0 [] t = Inr (Inr (), 2, bi, t')" "length (old_blkids_of ex_api bi) < 2 ^ 16"
    using ex_index_pieces2 [OF assms(1,4)] by blast
  have s: "blks_of \<lparr>blk_num = 43, blk_count = 1, blk_chunk = 0\<rparr> = [\<lparr>blk_num = 43, blk_count = 1, blk_chunk = 0\<rparr>]" by (simp add: blks_of_def single_blk_def)
  show ?thesis
    by (simp add: volume_write_def p(1) on_write_commit [OF ex_codec_ok p(2)] ex_wreq2_def assms(2,3) md_alloc_blks_def Let_def peek_buf_def peek_def md_async_write_def
        s write_journal_entry_def on_commit_def del: index_pieces.simps)
qed

lemma ex_writes:
  assumes "l < 100"
  shows "\<exists>t' d'. acked_writes ex_api ex_codec (fixed_index_ops ex_api) mem_repl_dev ex_crc i 0 [ex_wreq, ex_wreq2 l] (ex_empty, ex_dev) = Some (t', d')"
proof -
  obtain t1 d1 where w: "volume_write ex_api ex_codec (fixed_index_ops ex_api) mem_repl_dev ex_crc i 0 ex_wreq (ex_empty, ex_dev) = Inr (Inr (), t1, d1)"
    "ft_btree t1 = map_btree (\<lambda>_. False)" "md_next d1 = 43" "\<not> md_alloc d1 \<lparr>blk_num = 43, blk_count = 1, blk_chunk = 0\<rparr>"
    using ex_write_returns by blast
  then show ?thesis using ex_write_again [OF w(2-4) assms, of i] by auto
qed

lemma ex_wreq2_ok: "l < 100 \<Longrightarrow> read_req_ok (get_blk_size mem_repl_dev) (ex_wreq2 l)"
  using word_less_nat_alt [of l 100] by (simp add: ex_wreq2_def read_req_ok_def)

text \<open>
  C5. The journal makes every acknowledged write survive a crash: a run of acknowledged writes leaves one entry each in the journal, in order, and replaying them on an index that differs
  from the one before the run only on the ranges of the writes, whatever was flushed of the updates and what not, leads to the mapping and the contents the volume had after the last write, overlapping
  writes included. The replay returns when the B-tree accepts its puts.
\<close>

theorem replay_restores_writes:
  fixes t :: "'t fixed_table"
  assumes "btree_ok (ft_btree t)" "dev_ok rd" "api_ok api" "blk_codec_ok codec" "mapped_ok rd d (fixed_view t)" "\<forall>req\<in>set reqs. read_req_ok (get_blk_size rd) req"
    and "acked_writes api codec (fixed_index_ops api) rd crc vol_id ordinal reqs (t, d) = Some (t', d')"
  shows "\<exists>es. journal_log rd d' = journal_log rd d @ es \<and> length es = length reqs \<and>
    (\<forall>(t0 :: 't fixed_table) d0 lsn. btree_ok (ft_btree t0) \<longrightarrow> (\<forall>x. \<not> in_reqs reqs x \<longrightarrow> fixed_view t0 x = fixed_view t x) \<longrightarrow> blk_data rd d0 = blk_data rd d' \<longrightarrow>
       (\<forall>r d1. replay_log api codec (fixed_index_ops api) rd es lsn (Some t0, d0) = Inr (r, d1) \<longrightarrow>
          (\<exists>t1. r = Some t1 \<and> fixed_view t1 = fixed_view t' \<and> block_image rd d1 (fixed_view t1) = block_image rd d' (fixed_view t'))) \<and>
       ((\<forall>k v s. fst (fst (bt_put (ft_btree t0) k v s))) \<longrightarrow> (\<exists>r d1. replay_log api codec (fixed_index_ops api) rd es lsn (Some t0, d0) = Inr (r, d1))))"
proof -
  from fixed_replay [OF assms] obtain es where E: "journal_log rd d' = journal_log rd d @ es" "length es = length reqs"
    and R: "\<forall>(t0 :: 't fixed_table) d0 lsn r d1. fixed_invar t0 \<longrightarrow> replay_log api codec (fixed_index_ops api) rd es lsn (Some t0, d0) = Inr (r, d1) \<longrightarrow>
       (\<exists>t1. r = Some t1 \<and> fixed_invar t1 \<and> fixed_view t1 = (\<lambda>x. if in_reqs reqs x then fixed_view t' x else fixed_view t0 x) \<and> blk_data rd d1 = blk_data rd d0)"
    and T: "\<forall>(t0 :: 't fixed_table) d0 lsn S. fixed_invar t0 \<longrightarrow> accepts (fixed_write_to_index api) S \<longrightarrow> S t0 \<longrightarrow>
       (\<exists>t1 d1. replay_log api codec (fixed_index_ops api) rd es lsn (Some t0, d0) = Inr (Some t1, d1) \<and> S t1)"
    by (elim exE conjE) (rule that)
  have out: "fixed_view t' x = fixed_view t x" if "\<not> in_reqs reqs x" for x
    using fixed_low.acked_writes_keep [OF assms(2-4) fixed_index_ops_def assms(7) _ assms(5,6)] assms(1) that by (simp add: fixed_invar_def)
  have "\<exists>t1. r = Some t1 \<and> fixed_view t1 = fixed_view t' \<and> block_image rd d1 (fixed_view t1) = block_image rd d' (fixed_view t')"
    if A: "btree_ok (ft_btree t0)" "\<forall>x. \<not> in_reqs reqs x \<longrightarrow> fixed_view t0 x = fixed_view t x" "blk_data rd d0 = blk_data rd d'"
      "replay_log api codec (fixed_index_ops api) rd es lsn (Some t0, d0) = Inr (r, d1)" for t0 :: "'t fixed_table" and d0 lsn r d1
  proof -
    obtain t1 where t1: "r = Some t1" "fixed_view t1 = (\<lambda>x. if in_reqs reqs x then fixed_view t' x else fixed_view t0 x)" "blk_data rd d1 = blk_data rd d0"
      using R [rule_format, OF _ A(4)] A(1) by (auto simp: fixed_invar_def)
    then have "fixed_view t1 = fixed_view t'" using A(2) out by (auto simp: fun_eq_iff)
    then show ?thesis using t1 A(3) block_image_data [of rd d1 d'] by simp
  qed
  moreover have "\<exists>r d1. replay_log api codec (fixed_index_ops api) rd es lsn (Some t0, d0) = Inr (r, d1)"
    if "btree_ok (ft_btree t0)" "\<forall>k v s. fst (fst (bt_put (ft_btree t0) k v s))" for t0 :: "'t fixed_table" and d0 lsn
    using T [rule_format, OF _ fixed_ops_accept [OF that(2)] refl] that(1) by (fastforce simp: fixed_invar_def)
  ultimately show ?thesis using E by (intro exI [of _ es] conjI allI impI) blast+
qed

theorem replay_restores_writes_witness:
  "\<exists>t' d' es t1 d1. acked_writes ex_api ex_codec (fixed_index_ops ex_api) mem_repl_dev ex_crc 1 0 [ex_wreq, ex_wreq2 6] (ex_empty, ex_dev) = Some (t', d') \<and>
     journal_log mem_repl_dev d' = es \<and> length es = 2 \<and>
     replay_log ex_api ex_codec (fixed_index_ops ex_api) mem_repl_dev es 7 (Some ex_empty, d') = Inr (Some t1, d1) \<and> fixed_view t1 = fixed_view t' \<and>
     block_image mem_repl_dev d1 (fixed_view t1) = block_image mem_repl_dev d' (fixed_view t')"
proof -
  obtain t2 d2 where a: "acked_writes ex_api ex_codec (fixed_index_ops ex_api) mem_repl_dev ex_crc 1 0 [ex_wreq, ex_wreq2 6] (ex_empty, ex_dev) = Some (t2, d2)"
    using ex_writes [of 6 1] by auto
  have r: "\<forall>req\<in>set [ex_wreq, ex_wreq2 6]. read_req_ok (get_blk_size mem_repl_dev) req" using ex_wreq_ok ex_wreq2_ok by simp
  have log: "journal_log mem_repl_dev ex_dev = []" by (simp add: ex_dev_def)
  have put: "\<forall>k v s. fst (fst (bt_put (ft_btree ex_empty) k v s))" by (simp add: ex_empty_def map_btree_def)
  from replay_restores_writes [OF ex_empty_ok md_dev_ok ex_api_ok ex_codec_ok ex_mapped r a] obtain es where
    k: "journal_log mem_repl_dev d2 = journal_log mem_repl_dev ex_dev @ es" "length es = length [ex_wreq, ex_wreq2 6]"
    and rep: "\<exists>r d1. replay_log ex_api ex_codec (fixed_index_ops ex_api) mem_repl_dev es 7 (Some ex_empty, d2) = Inr (r, d1) \<and>
      (\<exists>t1. r = Some t1 \<and> fixed_view t1 = fixed_view t2 \<and> block_image mem_repl_dev d1 (fixed_view t1) = block_image mem_repl_dev d2 (fixed_view t2))"
    using ex_empty_ok put by blast
  then show ?thesis using a log by auto
qed

section \<open>Reading after a run of writes\<close>

text \<open>
  The index and the device that serve a read after a restart: either what the storage layer kept, or what the replay of the journal makes of an index that has lost updates of the run.
\<close>

definition index_restored :: "blk_api \<Rightarrow> blk_codec \<Rightarrow> 'd repl_dev \<Rightarrow> io_req list \<Rightarrow> 't fixed_table \<times> 'd \<Rightarrow> 't fixed_table \<times> 'd \<Rightarrow> 't fixed_table \<times> 'd \<Rightarrow> bool" where
  "index_restored api codec rd reqs before after restored \<longleftrightarrow>
     btree_ok (ft_btree (fst restored)) \<and> fixed_view (fst restored) = fixed_view (fst after) \<and> blk_data rd (snd restored) = blk_data rd (snd after) \<or>
     (\<exists>es t0 d0 lsn. journal_log rd (snd after) = journal_log rd (snd before) @ es \<and> btree_ok (ft_btree t0) \<and>
        (\<forall>x. \<not> in_reqs reqs x \<longrightarrow> fixed_view t0 x = fixed_view (fst before) x) \<and> blk_data rd d0 = blk_data rd (snd after) \<and>
        replay_log api codec (fixed_index_ops api) rd es lsn (Some t0, d0) = Inr (Some (fst restored), snd restored))"

lemma index_restored_facts:
  fixes t :: "'t fixed_table"
  assumes "btree_ok (ft_btree t)" "dev_ok rd" "api_ok api" "blk_codec_ok codec" "mapped_ok rd d (fixed_view t)" "\<forall>req\<in>set reqs. read_req_ok (get_blk_size rd) req"
    and "acked_writes api codec (fixed_index_ops api) rd crc vol_id ordinal reqs (t, d) = Some (t', d')" "index_restored api codec rd reqs (t, d) (t', d') (tr, dr)"
  shows "btree_ok (ft_btree tr) \<and> fixed_view tr = fixed_view t' \<and> blk_data rd dr = blk_data rd d'"
proof -
  from fixed_replay [OF assms(1-7)] obtain es where E: "journal_log rd d' = journal_log rd d @ es"
    and R: "\<forall>(t0 :: 't fixed_table) d0 lsn r d1. fixed_invar t0 \<longrightarrow> replay_log api codec (fixed_index_ops api) rd es lsn (Some t0, d0) = Inr (r, d1) \<longrightarrow>
       (\<exists>t1. r = Some t1 \<and> fixed_invar t1 \<and> fixed_view t1 = (\<lambda>x. if in_reqs reqs x then fixed_view t' x else fixed_view t0 x) \<and> blk_data rd d1 = blk_data rd d0)"
    by (elim exE conjE) (rule that)
  have out: "\<forall>x. \<not> in_reqs reqs x \<longrightarrow> fixed_view t' x = fixed_view t x"
    using fixed_low.acked_writes_keep [OF assms(2-4) fixed_index_ops_def assms(7) _ assms(5,6)] assms(1) by (simp add: fixed_invar_def)
  show ?thesis
    using assms(8) unfolding index_restored_def fst_conv snd_conv
  proof (elim disjE exE conjE)
    fix es' t0 d0 lsn
    assume A: "journal_log rd d' = journal_log rd d @ es'" "btree_ok (ft_btree t0)" "\<forall>x. \<not> in_reqs reqs x \<longrightarrow> fixed_view t0 x = fixed_view t x" "blk_data rd d0 = blk_data rd d'"
      "replay_log api codec (fixed_index_ops api) rd es' lsn (Some t0, d0) = Inr (Some tr, dr)"
    have "es' = es" using A(1) E by simp
    then show ?thesis using R [rule_format, of t0 lsn d0 "Some tr" dr] A(2-5) out by (auto simp: fixed_invar_def fun_eq_iff)
  qed simp
qed

text \<open>
  A read of the range a write was acknowledged for, after any number of writes elsewhere and with any index that maps the same blocks, never reports a checksum mismatch on its own account: it returns the data of the
  write, or the error of a device read.
\<close>

lemma read_after_writes:
  assumes "btree_ok (ft_btree t)" "dev_ok rd" "api_ok api" "blk_codec_ok codec" "read_req_ok (get_blk_size rd) req" "mapped_ok rd d (fixed_view t)"
    and w: "volume_write api codec (fixed_index_ops api) rd crc vol_id ordinal req (t, d) = Inr (Inr (), t1, d1)"
    and ws: "acked_writes api codec (fixed_index_ops api) rd crc vol_id' ordinal' reqs (t1, d1) = Some (t2, d2)" "\<forall>req\<in>set reqs. read_req_ok (get_blk_size rd) req"
      "\<forall>x. in_req req x \<longrightarrow> \<not> in_reqs reqs x"
    and r: "read_req_ok (get_blk_size rd) rreq" "req_lba rreq = req_lba req" "req_nlbas rreq = req_nlbas req"
    and tr: "btree_ok (ft_btree tr)" "fixed_view tr = fixed_view t2" "blk_data rd dr = blk_data rd d2" "fixed_read_from_index (req_lba rreq) (end_lba rreq) tr = (Inr kvs, t3)"
  shows "\<exists>res d3. volume_read (fixed_index_ops api) rd crc fc rreq (tr, dr) = Inr (res, t3, d3) \<and>
    (rr_status res = Inr () \<longrightarrow> rr_mem res = req_buffer req) \<and>
    (\<forall>e. rr_status res = Inl e \<longrightarrow> (\<exists>blk sz d0. fst (async_read rd blk sz d0) = Inl e))"
proof -
  let ?L = "unat (req_lba req)" and ?n = "unat (req_nlbas req)"
  have inv: "fixed_invar t" "fixed_invar tr" using assms(1) tr(1) by (simp_all add: fixed_invar_def)
  obtain data where W: "req_buffer req = Some data" "length data = ?n * unat (get_blk_size rd)" "fixed_invar t1" "mapped_ok rd d1 (fixed_view t1)"
    "\<forall>x<2 ^ 64. block_image rd d1 (fixed_view t1) x = (if ?L \<le> x \<and> x < ?L + ?n then blk_at (unat (get_blk_size rd)) data (x - ?L) else block_image rd d (fixed_view t) x)"
    "image_ok crc rd d1 (fixed_view t1) ?L ?n"
    using fixed_low.volume_write_image [OF inv(1) assms(2-6) w [unfolded fixed_index_ops_def]] by blast
  note K = fixed_low.acked_writes_keep [OF assms(2-4) fixed_index_ops_def ws(1) W(3,4) ws(2)]
  have E: "?L + ?n < 2 ^ 32" using assms(5) by (simp add: read_req_ok_def)
  have keep: "fixed_view t2 (of_nat x) = fixed_view t1 (of_nat x)" "block_image rd dr (fixed_view t2) x = block_image rd d1 (fixed_view t1) x" if "?L \<le> x" "x < ?L + ?n" for x
  proof -
    have x: "x < 2 ^ 64" using that E by simp
    then have "in_req req (of_nat x)" using that by (simp add: in_req_def unat_of_nat)
    then have "\<not> in_reqs reqs (of_nat x)" using ws(3) by simp
    then show "fixed_view t2 (of_nat x) = fixed_view t1 (of_nat x)" "block_image rd dr (fixed_view t2) x = block_image rd d1 (fixed_view t1) x"
      using K x block_image_data [OF tr(3)] by simp_all
  qed
  have rdok: "dev_read_ok rd" using assms(2) by (simp add: dev_ok_def)
  have "data = volume_image rd dr (fixed_view t2) ?L ?n" using W(2,5) keep(2) E by (intro image_of_blocks) auto
  moreover have "image_ok crc rd dr (fixed_view t2) ?L ?n" using W(6) keep by (simp add: image_ok_def)
  ultimately show ?thesis
    using fixed_index.volume_read_correct [OF inv(2) rdok r(1) tr(4), of api crc fc dr] W(1) r(2,3) tr(2)
    unfolding fixed_index_ops_def by auto
qed

end
