(* ===== verification/Volume_Stages.thy ===== *)
theory Volume_Stages
  imports Volume_Replay
begin

text \<open>
  A write as a coroutine (src/lib/volume/volume.cpp: \<^verbatim>\<open>write\<close>): it is suspended while its data is written and while its journal entry is, and on another thread another write can run between the update of the
  index and the submission of the entry. The code between two such points is a function of its own; run one after the other they are the write.
\<close>

section \<open>The stages of a write\<close>

text \<open>
  Where a write stands: its data is being written, the data is on the device, the index is updated, the journal entry is in the log and its commit is to come.
\<close>

datatype write_phase =
    DataPending "blk_id list" "u8 list"
  | DataDone "blk_id list"
  | Indexed "blk_id list" blocks_info
  | Journaled "blk_id list" blocks_info int

text \<open>Step 1: blocks for the data.\<close>

definition write_start :: "'d repl_dev \<Rightarrow> u64 \<Rightarrow> io_req \<Rightarrow> 'd \<Rightarrow> (write_phase res \<times> 'd) checked" where
  "write_start rd ordinal req d =
     (let data_size = req_nlbas req * get_blk_size rd; (alloc_res, d1) = alloc_blks rd data_size ordinal d in
      (case alloc_res of
         None \<Rightarrow> Inr (Inl (Errc no_space_on_device), d1)
       | Some new_blkids \<Rightarrow> bind_sum (peek_buf 0 (unat data_size) (req_buffer req)) (\<lambda>data. Inr (Inr (DataPending new_blkids data), d1))))"

text \<open>Step 2: the data reaches the device.\<close>

definition write_data_done :: "'d repl_dev \<Rightarrow> blk_id list \<Rightarrow> u8 list \<Rightarrow> 'd \<Rightarrow> write_phase res \<times> 'd" where
  "write_data_done rd new_blkids data d =
     (let (wr, d2) = async_write rd new_blkids data d in (if \<not> wr then Inl (Errc io_error) else Inr (DataDone new_blkids), d2))"

text \<open>Step 3: the index.\<close>

definition write_update_index ::
  "blk_api \<Rightarrow> 't index_ops \<Rightarrow> 'd repl_dev \<Rightarrow> (u16 \<Rightarrow> u8 list \<Rightarrow> csum_t) \<Rightarrow> io_req \<Rightarrow> blk_id list \<Rightarrow> 't \<Rightarrow> (write_phase res \<times> 't) checked" where
  "write_update_index api ix rd crc16_t10dif req new_blkids t =
     bind_sum (index_pieces api ix (csum_of_data crc16_t10dif (get_blk_size rd) (req_buffer req)) (unat (get_blk_size rd)) new_blkids (req_lba req) 0 [] t)
       (\<lambda>(idx_res, _, bi, t'). Inr (case idx_res of Inl _ \<Rightarrow> Inl (VolErr INDEX_ERROR) | Inr _ \<Rightarrow> Inr (Indexed new_blkids bi), t'))"

text \<open>Step 4: the journal entry, and its commit.\<close>

definition write_submit_journal :: "blk_api \<Rightarrow> blk_codec \<Rightarrow> 'd repl_dev \<Rightarrow> volume_id_t \<Rightarrow> io_req \<Rightarrow> blk_id list \<Rightarrow> blocks_info \<Rightarrow> 'd \<Rightarrow> (write_phase \<times> 'd) checked" where
  "write_submit_journal api codec rd vol_id req new_blkids bi d =
     (let (committed, d') =
        async_write_journal rd new_blkids \<lparr>msg_type = WRITE, volume_id = vol_id\<rparr> (journal_key api codec req bi) (req_nlbas req * get_blk_size rd) d
      in (case committed of None \<Rightarrow> Inl Hung | Some lsn \<Rightarrow> Inr (Journaled new_blkids bi lsn, d')))"

definition write_committed ::
  "blk_api \<Rightarrow> blk_codec \<Rightarrow> 't index_ops \<Rightarrow> 'd repl_dev \<Rightarrow> volume_id_t \<Rightarrow> io_req \<Rightarrow> blk_id list \<Rightarrow> blocks_info \<Rightarrow> int \<Rightarrow> 't \<Rightarrow> 'd \<Rightarrow> 'd checked" where
  "write_committed api codec ix rd vol_id req new_blkids bi lsn t d =
     bind_sum (on_commit api codec ix rd lsn False \<lparr>msg_type = WRITE, volume_id = vol_id\<rparr> (journal_key api codec req bi) new_blkids (Some t, d)) (\<lambda>(_, d'). Inr d')"

text \<open>A write that runs alone resumes at once at every point.\<close>

definition write_alone ::
  "blk_api \<Rightarrow> blk_codec \<Rightarrow> 't index_ops \<Rightarrow> 'd repl_dev \<Rightarrow> (u16 \<Rightarrow> u8 list \<Rightarrow> csum_t) \<Rightarrow> volume_id_t \<Rightarrow> u64 \<Rightarrow> io_req \<Rightarrow> 't \<times> 'd \<Rightarrow> (unit res \<times> 't \<times> 'd) checked" where
  "write_alone api codec ix rd crc vol_id ordinal req w =
     (let (t, d) = w in
      bind_sum (write_start rd ordinal req d) (\<lambda>(r1, d1).
      (case r1 of
         Inr (DataPending bids data) \<Rightarrow>
           (let (r2, d2) = write_data_done rd bids data d1 in
            (case r2 of
               Inr _ \<Rightarrow>
                 bind_sum (write_update_index api ix rd crc req bids t) (\<lambda>(r3, t').
                 (case r3 of
                    Inr (Indexed bids' bi) \<Rightarrow>
                      bind_sum (write_submit_journal api codec rd vol_id req bids bi d2) (\<lambda>(r4, d3).
                      (case r4 of
                         Journaled bids'' bi'' lsn \<Rightarrow> bind_sum (write_committed api codec ix rd vol_id req bids bi lsn t' d3) (\<lambda>d4. Inr (Inr (), t', d4))
                       | _ \<Rightarrow> Inl Hung))
                  | Inl e \<Rightarrow> Inr (Inl e, t', d2)
                  | Inr _ \<Rightarrow> Inl Hung))
             | Inl e \<Rightarrow> Inr (Inl e, t, d2)))
       | Inl e \<Rightarrow> Inr (Inl e, t, d1)
       | Inr _ \<Rightarrow> Inl Hung)))"

lemma bind_sum_assoc: "bind_sum (bind_sum m f) g = bind_sum m (\<lambda>x. bind_sum (f x) g)"
  by (cases m) auto

lemmas stage_defs = write_start_def write_data_done_def write_update_index_def write_submit_journal_def write_committed_def

text \<open>The two ways to cut the code agree, errors and faults included: what is shown of the whole write holds of its stages when nothing comes in between.\<close>

lemma write_alone_eq: "write_alone api codec ix rd crc vol_id ordinal req w = volume_write api codec ix rd crc vol_id ordinal req w"
proof -
  obtain t d where w: "w = (t, d)" by (cases w)
  let ?size = "req_nlbas req * get_blk_size rd"
  let ?ix = "\<lambda>bids. index_pieces api ix (csum_of_data crc (get_blk_size rd) (req_buffer req)) (unat (get_blk_size rd)) bids (req_lba req) 0 [] t"
  show ?thesis
  proof (cases "alloc_blks rd ?size ordinal d")
    case (Pair r d1)
    show ?thesis
    proof (cases r)
      case None
      then show ?thesis using Pair w by (simp add: write_alone_def volume_write_def stage_defs Let_def)
    next
      case (Some bids)
      show ?thesis
      proof (cases "peek_buf 0 (unat ?size) (req_buffer req)")
        case (Inl f)
        then show ?thesis using Pair Some w by (simp add: write_alone_def volume_write_def stage_defs Let_def)
      next
        case (Inr data)
        obtain wr d2 where wr: "async_write rd bids data d1 = (wr, d2)" by fastforce
        show ?thesis
        proof (cases "wr")
          case False
          then show ?thesis using Pair Some Inr wr w by (simp add: write_alone_def volume_write_def stage_defs Let_def)
        next
          case True
          have "write_alone api codec ix rd crc vol_id ordinal req w =
              bind_sum (?ix bids) (\<lambda>(idx_res, _, bi, t').
                (case idx_res of Inl _ \<Rightarrow> Inr (Inl (VolErr INDEX_ERROR), t', d2) | Inr _ \<Rightarrow> write_journal_entry api codec ix rd vol_id req ?size bids bi t' d2))"
            using Pair Some Inr wr True w
            by (cases "?ix bids") (auto simp: write_alone_def stage_defs write_journal_entry_def Let_def bind_sum_assoc case_prod_unfold split: sum.splits option.splits)
          then show ?thesis using Pair Some Inr wr True w by (simp add: volume_write_def Let_def)
        qed
      qed
    qed
  qed
qed

end
