(* ===== verification/Volume_Steps.thy ===== *)
theory Volume_Steps
  imports Volume_Stages "HOL-Library.Multiset"
begin

text \<open>
  Any number of writes in flight on a volume, each at one of its stages, interleaved in any order: the step relation, the ledger of the blocks, and that every step keeps it. Requests in flight are a multiset. An
  update of the index is one step; when it fails the run is not followed further.
\<close>

section \<open>The state machine\<close>

definition overlapping :: "io_req \<Rightarrow> io_req \<Rightarrow> bool" where
  "overlapping r1 r2 \<longleftrightarrow>
     unat (req_lba r1) < unat (req_lba r2) + unat (req_nlbas r2) \<and> unat (req_lba r2) < unat (req_lba r1) + unat (req_nlbas r1)"

lemma overlapping_in_req: "in_req r1 x \<Longrightarrow> in_req r2 x \<Longrightarrow> overlapping r1 r2"
  by (auto simp: in_req_def overlapping_def)

lemma overlapping_sym: "overlapping r1 r2 = overlapping r2 r1"
  by (auto simp: overlapping_def)

type_synonym ('t, 'd) vol_sys = "'t \<times> 'd \<times> (io_req \<times> write_phase) multiset"

text \<open>
  A step carries the request whose update of the index it is, if any. With \<open>serial\<close> the clients never have two overlapping writes in flight.
\<close>

inductive vol_step ::
  "bool \<Rightarrow> blk_api \<Rightarrow> blk_codec \<Rightarrow> 't index_ops \<Rightarrow> 'd repl_dev \<Rightarrow> (u16 \<Rightarrow> u8 list \<Rightarrow> csum_t) \<Rightarrow> volume_id_t \<Rightarrow> u64 \<Rightarrow> ('t, 'd) vol_sys \<Rightarrow> io_req option \<Rightarrow> ('t, 'd) vol_sys \<Rightarrow> bool"
  for serial :: bool and api :: blk_api and codec :: blk_codec and ix :: "'t index_ops" and rd :: "'d repl_dev" and crc :: "u16 \<Rightarrow> u8 list \<Rightarrow> csum_t"
    and vol_id :: volume_id_t and ordinal :: u64 where
  start: "read_req_ok (get_blk_size rd) req \<Longrightarrow> serial \<longrightarrow> (\<forall>w\<in>#W. \<not> overlapping req (fst w)) \<Longrightarrow> write_start rd ordinal req d = Inr (Inr ph, d') \<Longrightarrow>
    vol_step serial api codec ix rd crc vol_id ordinal (t, d, W) None (t, d', add_mset (req, ph) W)"
| refused: "write_start rd ordinal req d = Inr (Inl e, d') \<Longrightarrow> vol_step serial api codec ix rd crc vol_id ordinal (t, d, W) None (t, d', W)"
| data: "write_data_done rd bids data d = (Inr ph, d') \<Longrightarrow>
    vol_step serial api codec ix rd crc vol_id ordinal (t, d, add_mset (req, DataPending bids data) W) None (t, d', add_mset (req, ph) W)"
| data_failed: "write_data_done rd bids data d = (Inl e, d') \<Longrightarrow>
    vol_step serial api codec ix rd crc vol_id ordinal (t, d, add_mset (req, DataPending bids data) W) None (t, d', W)"
| index: "write_update_index api ix rd crc req bids t = Inr (Inr ph, t') \<Longrightarrow>
    vol_step serial api codec ix rd crc vol_id ordinal (t, d, add_mset (req, DataDone bids) W) (Some req) (t', d, add_mset (req, ph) W)"
| journal: "write_submit_journal api codec rd vol_id req bids bi d = Inr (ph, d') \<Longrightarrow>
    vol_step serial api codec ix rd crc vol_id ordinal (t, d, add_mset (req, Indexed bids bi) W) None (t, d', add_mset (req, ph) W)"
| commit: "write_committed api codec ix rd vol_id req bids bi lsn t d = Inr d' \<Longrightarrow>
    vol_step serial api codec ix rd crc vol_id ordinal (t, d, add_mset (req, Journaled bids bi lsn) W) None (t, d', W)"

inductive_cases vol_stepE: "vol_step serial api codec ix rd crc vol_id ordinal s l s'"

text \<open>A run, with the requests in the order of their updates of the index.\<close>

inductive vol_run ::
  "bool \<Rightarrow> blk_api \<Rightarrow> blk_codec \<Rightarrow> 't index_ops \<Rightarrow> 'd repl_dev \<Rightarrow> (u16 \<Rightarrow> u8 list \<Rightarrow> csum_t) \<Rightarrow> volume_id_t \<Rightarrow> u64 \<Rightarrow> ('t, 'd) vol_sys \<Rightarrow> io_req list \<Rightarrow> ('t, 'd) vol_sys \<Rightarrow> bool"
  for serial :: bool and api :: blk_api and codec :: blk_codec and ix :: "'t index_ops" and rd :: "'d repl_dev" and crc :: "u16 \<Rightarrow> u8 list \<Rightarrow> csum_t"
    and vol_id :: volume_id_t and ordinal :: u64 and s :: "('t, 'd) vol_sys" where
  none: "vol_run serial api codec ix rd crc vol_id ordinal s [] s"
| step: "vol_run serial api codec ix rd crc vol_id ordinal s reqs s1 \<Longrightarrow> vol_step serial api codec ix rd crc vol_id ordinal s1 l s2 \<Longrightarrow>
    vol_run serial api codec ix rd crc vol_id ordinal s (reqs @ (case l of None \<Rightarrow> [] | Some req \<Rightarrow> [req])) s2"

section \<open>The ledger of the blocks\<close>

text \<open>The blocks a write in flight holds: those it is going to map, and after the update of the index those it is going to free.\<close>

primrec phase_blks :: "blk_api \<Rightarrow> write_phase \<Rightarrow> blk_id list" where
  "phase_blks api (DataPending bids data) = all_blks bids"
| "phase_blks api (DataDone bids) = all_blks bids"
| "phase_blks api (Indexed bids bi) = old_blkids_of api bi"
| "phase_blks api (Journaled bids bi lsn) = old_blkids_of api bi"

definition held :: "blk_api \<Rightarrow> (io_req \<times> write_phase) multiset \<Rightarrow> blk_id multiset" where
  "held api W = sum_mset (image_mset (\<lambda>w. mset (phase_blks api (snd w))) W)"

lemma held_simps [simp]: "held api {#} = {#}" "held api (add_mset w W) = mset (phase_blks api (snd w)) + held api W"
  by (simp_all add: held_def)

text \<open>What a write in flight has achieved.\<close>

definition new_blks_ok :: "io_req \<Rightarrow> blk_id list \<Rightarrow> bool" where
  "new_blks_ok req bids \<longleftrightarrow> pieces_wf bids \<and> length (all_blks bids) = unat (req_nlbas req)"

definition info_ok :: "blk_api \<Rightarrow> io_req \<Rightarrow> blk_id list \<Rightarrow> blocks_info \<Rightarrow> bool" where
  "info_ok api req bids bi \<longleftrightarrow> new_blks_ok req bids \<and> length (old_blkids_of api bi) < 2 ^ 16 \<and>
     (\<exists>cs. info_new bi = upd_range (unat (req_lba req)) (unat (req_nlbas req)) (blk_val (all_blks bids) cs) (\<lambda>_. None))"

primrec phase_ok :: "blk_api \<Rightarrow> 'd repl_dev \<Rightarrow> 'd \<Rightarrow> io_req \<Rightarrow> write_phase \<Rightarrow> bool" where
  "phase_ok api rd d req (DataPending bids data) \<longleftrightarrow> new_blks_ok req bids \<and> req_buffer req = Some data"
| "phase_ok api rd d req (DataDone bids) \<longleftrightarrow> new_blks_ok req bids \<and>
     (\<forall>data. req_buffer req = Some data \<longrightarrow> (\<forall>k<unat (req_nlbas req). blk_data rd d (blk_chunk (all_blks bids ! k)) (blk_num (all_blks bids ! k)) = blk_at (unat (get_blk_size rd)) data k))"
| "phase_ok api rd d req (Indexed bids bi) \<longleftrightarrow> info_ok api req bids bi"
| "phase_ok api rd d req (Journaled bids bi lsn) \<longleftrightarrow> info_ok api req bids bi"

text \<open>Every mapped block has the checksum the index records.\<close>

definition mapped_csums_ok :: "(u16 \<Rightarrow> u8 list \<Rightarrow> csum_t) \<Rightarrow> 'd repl_dev \<Rightarrow> 'd \<Rightarrow> (lba_t \<Rightarrow> index_value option) \<Rightarrow> bool" where
  "mapped_csums_ok crc rd d view \<longleftrightarrow> (\<forall>x v. view x = Some v \<longrightarrow> crc init_crc_16 (blk_data rd d (blk_chunk (iv_blkid v)) (blk_num (iv_blkid v))) = iv_checksum v)"

definition vol_ledger :: "blk_api \<Rightarrow> 'd repl_dev \<Rightarrow> (u16 \<Rightarrow> u8 list \<Rightarrow> csum_t) \<Rightarrow> (lba_t \<Rightarrow> index_value option) \<Rightarrow> 'd \<Rightarrow> (io_req \<times> write_phase) multiset \<Rightarrow> bool" where
  "vol_ledger api rd crc view d W \<longleftrightarrow> mapped_ok rd d view \<and> mapped_csums_ok crc rd d view \<and> (\<forall>b. count (held api W) b \<le> 1) \<and>
     (\<forall>b\<in>#held api W. blk_count b = 1 \<and> alloced rd d b \<and> (\<forall>x v. view x = Some v \<longrightarrow> iv_blkid v \<noteq> b)) \<and>
     (\<forall>w\<in>#W. read_req_ok (get_blk_size rd) (fst w) \<and> phase_ok api rd d (fst w) (snd w))"

lemma ledgerD:
  assumes "vol_ledger api rd crc view d W"
  shows "mapped_ok rd d view" "mapped_csums_ok crc rd d view" "count (held api W) b \<le> 1" "b \<in># held api W \<Longrightarrow> blk_count b = 1" "b \<in># held api W \<Longrightarrow> alloced rd d b"
    "b \<in># held api W \<Longrightarrow> view x = Some v \<Longrightarrow> iv_blkid v \<noteq> b" "w \<in># W \<Longrightarrow> read_req_ok (get_blk_size rd) (fst w)" "w \<in># W \<Longrightarrow> phase_ok api rd d (fst w) (snd w)"
  using assms unfolding vol_ledger_def by blast+

lemma ledger_drop: "vol_ledger api rd crc view d (add_mset w W) \<Longrightarrow> vol_ledger api rd crc view d W"
  unfolding vol_ledger_def using add_leD2 by fastforce

text \<open>One write and the rest.\<close>

lemma ledger_member:
  assumes "vol_ledger api rd crc view d (add_mset (req, ph) W)"
  shows "read_req_ok (get_blk_size rd) req" "phase_ok api rd d req ph" "distinct (phase_blks api ph)"
    "b \<in> set (phase_blks api ph) \<Longrightarrow> blk_count b = 1 \<and> alloced rd d b \<and> (\<forall>x v. view x = Some v \<longrightarrow> iv_blkid v \<noteq> b) \<and> b \<notin># held api W"
proof -
  note L = ledgerD [OF assms]
  show "read_req_ok (get_blk_size rd) req" "phase_ok api rd d req ph" using L(7,8) [of "(req, ph)"] by simp_all
  have c: "count (mset (phase_blks api ph)) b + count (held api W) b \<le> 1" for b using L(3) [of b] by simp
  have "count (mset (phase_blks api ph)) b \<le> 1" for b using c [of b] by linarith
  then show "distinct (phase_blks api ph)" by (auto simp: distinct_count_atmost_1 le_Suc_eq count_eq_zero_iff)
  assume b: "b \<in> set (phase_blks api ph)"
  then have "b \<in># mset (phase_blks api ph)" by simp
  then have "0 < count (mset (phase_blks api ph)) b" by (simp only: count_greater_zero_iff)
  then have "count (held api W) b = 0" using c [of b] by linarith
  then have "b \<notin># held api W" by (simp add: not_in_iff)
  then show "blk_count b = 1 \<and> alloced rd d b \<and> (\<forall>x v. view x = Some v \<longrightarrow> iv_blkid v \<noteq> b) \<and> b \<notin># held api W" using L(4-6) [of b] b by auto
qed

lemma ledger_add:
  assumes "vol_ledger api rd crc view d W" "read_req_ok (get_blk_size rd) req" "phase_ok api rd d req ph" "distinct (phase_blks api ph)"
    and "\<forall>b\<in>set (phase_blks api ph). blk_count b = 1 \<and> alloced rd d b \<and> (\<forall>x v. view x = Some v \<longrightarrow> iv_blkid v \<noteq> b) \<and> b \<notin># held api W"
  shows "vol_ledger api rd crc view d (add_mset (req, ph) W)"
proof -
  have "count (held api (add_mset (req, ph) W)) b \<le> 1" for b
  proof (cases "b \<in> set (phase_blks api ph)")
    case True
    then have "count (held api W) b = 0" using assms(5) by (simp add: not_in_iff)
    moreover have "count (mset (phase_blks api ph)) b \<le> 1" using assms(4) by (simp add: distinct_count_atmost_1)
    ultimately show ?thesis by simp
  next
    case False
    then show ?thesis using ledgerD(3) [OF assms(1), of b] by (simp add: count_mset_0_iff [THEN iffD2])
  qed
  moreover have "blk_count b = 1 \<and> alloced rd d b \<and> (\<forall>x v. view x = Some v \<longrightarrow> iv_blkid v \<noteq> b)" if "b \<in># held api (add_mset (req, ph) W)" for b
    using that assms(5) ledgerD(4-6) [OF assms(1), of b] by auto
  ultimately show ?thesis using assms(1-3) unfolding vol_ledger_def by simp
qed

text \<open>A change of the device that keeps the blocks somebody holds.\<close>

lemma ledger_frame:
  assumes "vol_ledger api rd crc view d W"
    and keep: "\<And>b. b \<in># held api W \<or> (\<exists>x v. view x = Some v \<and> iv_blkid v = b) \<Longrightarrow>
      alloced rd d' b \<and> blk_data rd d' (blk_chunk b) (blk_num b) = blk_data rd d (blk_chunk b) (blk_num b)"
  shows "vol_ledger api rd crc view d' W" "block_image rd d' view = block_image rd d view"
proof -
  note L = ledgerD [OF assms(1)]
  have m: "alloced rd d' (iv_blkid v)" "blk_data rd d' (blk_chunk (iv_blkid v)) (blk_num (iv_blkid v)) = blk_data rd d (blk_chunk (iv_blkid v)) (blk_num (iv_blkid v))"
    if "view x = Some v" for x v using keep [of "iv_blkid v"] that by blast+
  show "block_image rd d' view = block_image rd d view" by (intro ext) (simp add: block_image_def m split: option.split)
  have "phase_ok api rd d' req ph" if w: "(req, ph) \<in># W" for req ph
  proof (cases ph)
    case (DataDone bids)
    obtain W' where W: "W = add_mset (req, ph) W'" using multi_member_split [OF w] by blast
    have "all_blks bids ! k \<in># held api W" if "k < unat (req_nlbas req)" for k
      using that L(8) [OF w] DataDone by (simp add: W new_blks_ok_def)
    then show ?thesis using L(8) [OF w] DataDone keep by simp
  qed (use L(8) [OF w] in simp_all)
  moreover have "mapped_ok rd d' view" using L(1) m(1) unfolding mapped_ok_def by blast
  moreover have "mapped_csums_ok crc rd d' view" using L(2) m(2) unfolding mapped_csums_ok_def by simp
  moreover have "\<forall>b\<in>#held api W. blk_count b = 1 \<and> alloced rd d' b \<and> (\<forall>x v. view x = Some v \<longrightarrow> iv_blkid v \<noteq> b)" using L(4,6) keep by blast
  ultimately show "vol_ledger api rd crc view d' W" using L(3,7) unfolding vol_ledger_def by (auto simp: split_paired_all)
qed

section \<open>What a stage does\<close>

lemma start_facts:
  assumes dev: "dev_ok rd" and req: "read_req_ok (get_blk_size rd) req" and st: "write_start rd ordinal req d = Inr (Inr ph, d')"
  obtains bids data where "ph = DataPending bids data" "new_blks_ok req bids" "distinct (all_blks bids)" "\<forall>b\<in>set (all_blks bids). \<not> alloced rd d b"
    "alloced rd d' = (\<lambda>b. alloced rd d b \<or> b \<in> set (all_blks bids))" "blk_data rd d' = blk_data rd d" "journal_log rd d' = journal_log rd d" "req_buffer req = Some data"
proof -
  let ?size = "req_nlbas req * get_blk_size rd"
  note D = dev [unfolded dev_ok_def]
  obtain r d1 where al: "alloc_blks rd ?size ordinal d = (r, d1)" by fastforce
  obtain bids where r: "r = Some bids" using st al by (cases r) (auto simp: write_start_def Let_def)
  obtain data where data: "peek_buf 0 (unat ?size) (req_buffer req) = Inr data" using st al r
    by (cases "peek_buf 0 (unat ?size) (req_buffer req)") (auto simp: write_start_def Let_def)
  have ph: "ph = DataPending bids data" "d' = d1" using st al r data by (simp_all add: write_start_def Let_def)
  note W = write_data [OF req data]
  have A: "blk_data rd d' = blk_data rd d" "journal_log rd d' = journal_log rd d" "pieces_wf bids" "length (all_blks bids) * unat (get_blk_size rd) = unat ?size" "distinct (all_blks bids)"
    "\<forall>b\<in>set (all_blks bids). \<not> alloced rd d b" "alloced rd d' = (\<lambda>b. alloced rd d b \<or> b \<in> set (all_blks bids))"
    using D al r ph(2) unfolding alloc_ok_def by fastforce+
  have "0 < unat (get_blk_size rd)" using D by (simp add: word_gt_0 unat_gt_0)
  then have "length (all_blks bids) = unat (req_nlbas req)" using A(4) W(1) by simp
  then show thesis using that [OF ph(1)] A W(2) by (simp add: new_blks_ok_def)
qed

lemma data_facts:
  assumes dev: "dev_ok rd" and dd: "write_data_done rd bids data d = (r, d')"
  shows "alloced rd d' = alloced rd d" "journal_log rd d' = journal_log rd d"
    "blk_count b = 1 \<Longrightarrow> b \<notin> set (all_blks bids) \<Longrightarrow> blk_data rd d' (blk_chunk b) (blk_num b) = blk_data rd d (blk_chunk b) (blk_num b)"
    "r = Inr ph \<Longrightarrow> ph = DataDone bids"
    "r = Inr ph \<Longrightarrow> distinct (all_blks bids) \<Longrightarrow> length data = length (all_blks bids) * unat (get_blk_size rd) \<Longrightarrow> k < length (all_blks bids) \<Longrightarrow>
      blk_data rd d' (blk_chunk (all_blks bids ! k)) (blk_num (all_blks bids ! k)) = blk_at (unat (get_blk_size rd)) data k"
proof -
  obtain wr d2 where w: "async_write rd bids data d = (wr, d2)" by fastforce
  have e: "d' = d2" "r = (if \<not> wr then Inl (Errc io_error) else Inr (DataDone bids))" using dd w by (simp_all add: write_data_done_def)
  have W: "alloced rd d2 = alloced rd d" "journal_log rd d2 = journal_log rd d"
    "\<forall>c k. \<lparr>blk_num = k, blk_count = 1, blk_chunk = c\<rparr> \<notin> set (all_blks bids) \<longrightarrow> blk_data rd d2 c k = blk_data rd d c k"
    "wr \<longrightarrow> distinct (all_blks bids) \<longrightarrow> length data = length (all_blks bids) * unat (get_blk_size rd) \<longrightarrow>
       (\<forall>i<length (all_blks bids). blk_data rd d2 (blk_chunk (all_blks bids ! i)) (blk_num (all_blks bids ! i)) = blk_at (unat (get_blk_size rd)) data i)"
    using dev w unfolding dev_ok_def write_ok_law_def by blast+
  show "alloced rd d' = alloced rd d" "journal_log rd d' = journal_log rd d" using W(1,2) e by simp_all
  show "blk_data rd d' (blk_chunk b) (blk_num b) = blk_data rd d (blk_chunk b) (blk_num b)" if "blk_count b = 1" "b \<notin> set (all_blks bids)"
    using W(3) e(1) that blk_id_eq [OF that(1)] by metis
  show "ph = DataDone bids" if "r = Inr ph" using that e(2) by (auto split: if_splits)
  show "blk_data rd d' (blk_chunk (all_blks bids ! k)) (blk_num (all_blks bids ! k)) = blk_at (unat (get_blk_size rd)) data k"
    if "r = Inr ph" "distinct (all_blks bids)" "length data = length (all_blks bids) * unat (get_blk_size rd)" "k < length (all_blks bids)"
    using W(4) e that by (auto split: if_splits)
qed

lemma submit_facts:
  assumes "dev_ok rd" "write_submit_journal api codec rd vol_id req bids bi d = Inr (ph, d')"
  obtains lsn where "ph = Journaled bids bi lsn" "blk_data rd d' = blk_data rd d" "alloced rd d' = alloced rd d"
    "journal_log rd d' = journal_log rd d @ [(\<lparr>msg_type = WRITE, volume_id = vol_id\<rparr>, journal_key api codec req bi, bids)]"
proof -
  obtain c d1 where j: "async_write_journal rd bids \<lparr>msg_type = WRITE, volume_id = vol_id\<rparr> (journal_key api codec req bi) (req_nlbas req * get_blk_size rd) d = (c, d1)" by fastforce
  obtain lsn where c: "c = Some lsn" using assms(2) j by (cases c) (auto simp: write_submit_journal_def Let_def)
  have "ph = Journaled bids bi lsn" "d' = d1" using assms(2) j c by (simp_all add: write_submit_journal_def Let_def)
  moreover have "blk_data rd d1 = blk_data rd d" "alloced rd d1 = alloced rd d"
    "journal_log rd d1 = journal_log rd d @ [(\<lparr>msg_type = WRITE, volume_id = vol_id\<rparr>, journal_key api codec req bi, bids)]"
    using assms(1) j c unfolding dev_ok_def journal_ok_def by fastforce+
  ultimately show thesis using that by simp
qed

lemma commit_facts:
  assumes "dev_ok rd" "blk_codec_ok codec" "length (old_blkids_of api bi) < 2 ^ 16" "write_committed api codec ix rd vol_id req bids bi lsn t d = Inr d'"
  shows "blk_data rd d' = blk_data rd d" "journal_log rd d' = journal_log rd d" "b \<notin> set (old_blkids_of api bi) \<Longrightarrow> alloced rd d' b = alloced rd d b"
proof -
  have "d' = fold (free_one rd lsn False) (old_blkids_of api bi) d"
    using assms(4) on_write_commit [OF assms(2,3), of ix rd lsn req bids "Some t" d] by (simp add: write_committed_def on_commit_def)
  then show "blk_data rd d' = blk_data rd d" "journal_log rd d' = journal_log rd d" "b \<notin> set (old_blkids_of api bi) \<Longrightarrow> alloced rd d' b = alloced rd d b"
    using free_fold_facts [of rd lsn False "old_blkids_of api bi" d] assms(1) by (auto simp: dev_ok_def)
qed

end
