(* ===== verification/Volume_Interleave.thy ===== *)
theory Volume_Interleave
  imports Volume_Steps
begin

text \<open>
  Every step of the writes in flight on a volume keeps the ledger of the blocks, and only the update of an index changes what the volume holds. Proved once for every index that keeps the contract.
\<close>

section \<open>The abstract volume\<close>

text \<open>An array of blocks; a write stores its buffer.\<close>

definition store_req :: "nat \<Rightarrow> io_req \<Rightarrow> (nat \<Rightarrow> u8 list) \<Rightarrow> nat \<Rightarrow> u8 list" where
  "store_req bs req img x =
     (case req_buffer req of
        None \<Rightarrow> img x
      | Some data \<Rightarrow> if unat (req_lba req) \<le> x \<and> x < unat (req_lba req) + unat (req_nlbas req) then blk_at bs data (x - unat (req_lba req)) else img x)"

section \<open>The update of the index\<close>

lemma old_blkids_distinct:
  assumes "distinct (map fst bi)" "info_old bi = upd_range L n (\<lambda>k. old_at api view (L + k)) (\<lambda>_. None)" "\<not> is_valid api (no_blk api)"
    and inj: "\<And>x y v w. view x = Some v \<Longrightarrow> view y = Some w \<Longrightarrow> iv_blkid w = iv_blkid v \<Longrightarrow> y = x"
  shows "distinct (old_blkids_of api bi)"
proof -
  let ?old = "\<lambda>(_ :: lba_t, i). old_blkid i"
  let ?bs = "filter (is_valid api \<circ> ?old) bi"
  have mapped: "\<exists>v. view l = Some v \<and> iv_blkid v = old_blkid i" if "(l, i) \<in> set ?bs" for l i
  proof -
    have "map_of bi l = Some i" using that assms(1) by auto
    then have "info_old bi l = Some (old_blkid i)" by (simp add: info_old_def)
    then have "old_blkid i = old_at api view (unat l)" unfolding assms(2) by (auto simp: upd_range_def split: if_splits)
    then show ?thesis using that assms(3) by (cases "view l") (auto simp: old_at_def)
  qed
  have "inj_on ?old (set ?bs)"
  proof (intro inj_onI, clarify)
    fix l i l' i'
    assume A: "(l, i) \<in> set ?bs" "(l', i') \<in> set ?bs" "old_blkid i = old_blkid i'"
    then have "l = l'" using mapped [OF A(1)] mapped [OF A(2)] inj by metis
    then show "l = l' \<and> i = i'" using A(1,2) eq_key_imp_eq_value [OF assms(1)] by auto
  qed
  moreover have "distinct ?bs" using assms(1) by (simp add: distinct_map)
  ultimately show ?thesis by (simp add: old_blkids_of_def filter_map distinct_map)
qed

context volume_index_low
begin

lemma index_facts:
  assumes inv: "invar t" and dev: "dev_ok rd" and api: "api_ok api" and led: "vol_ledger api rd crc (view t) d (add_mset (req, DataDone bids) W)"
    and ix: "ix = \<lparr>ix_write = write_to_index, ix_read = read_from_index\<rparr>" and w: "write_update_index api ix rd crc req bids t = Inr (Inr ph, t')"
  defines "L \<equiv> unat (req_lba req)" and "n \<equiv> unat (req_nlbas req)" and "bs \<equiv> unat (get_blk_size rd)"
  obtains data bi where "ph = Indexed bids bi" "invar t'" "req_buffer req = Some data" "length data = n * bs" "info_ok api req bids bi" "info_new bi = upd_range L n (blk_val (all_blks bids) (\<lambda>k. crc init_crc_16 (blk_at bs data k))) (\<lambda>_. None)"
    "view t' = upd_range L n (blk_val (all_blks bids) (\<lambda>k. crc init_crc_16 (blk_at bs data k))) (view t)"
    "distinct (old_blkids_of api bi)" "\<And>b. b \<in> set (old_blkids_of api bi) \<longleftrightarrow> (\<exists>x v. in_req req x \<and> view t x = Some v \<and> b = iv_blkid v)"
proof -
  note M = ledger_member(1,2) [OF led] and map = ledgerD(1) [OF led]
  have R: "n < 2 ^ 16" "L + n < 2 ^ 32" using M(1) by (auto simp: read_req_ok_def L_def n_def)
  obtain data where data: "req_buffer req = Some data" "length data = n * bs" using M(1) by (auto simp: read_req_ok_def n_def bs_def split: option.splits)
  have nb: "pieces_wf bids" "length (all_blks bids) = n" using M(2) by (simp_all add: new_blks_ok_def n_def)
  let ?cs = "csum_of_data crc (get_blk_size rd) (req_buffer req)"
  obtain st pos bi t1 where ip: "index_pieces api ix ?cs bs bids (req_lba req) 0 [] t = Inr (st, pos, bi, t1)"
    using w unfolding bs_def by (cases "index_pieces api ix ?cs (unat (get_blk_size rd)) bids (req_lba req) 0 [] t") (auto simp: write_update_index_def)
  then have st: "st = Inr ()" "t1 = t'" "ph = Indexed bids bi" using w unfolding bs_def by (cases st; auto simp: write_update_index_def)+
  have I: "invar t' \<and> pos = 0 + n * bs \<and> distinct (map fst bi) \<and> set (map fst bi) = set (map fst ([] :: blocks_info)) \<union> {x. L \<le> unat x \<and> unat x < L + n} \<and>
    view t' = upd_range L n (blk_val (all_blks bids) (\<lambda>k. crc init_crc_16 (blk_at bs data k))) (view t) \<and>
    info_new bi = upd_range L n (blk_val (all_blks bids) (\<lambda>k. crc init_crc_16 (blk_at bs data k))) (info_new []) \<and>
    info_old bi = upd_range L n (\<lambda>k. old_at api (view t) (L + k)) (info_old [])"
  proof (rule index_pieces_ok [where cs = "\<lambda>k. crc init_crc_16 (blk_at bs data k)", OF inv nb(1) _ _ _ _ ip [unfolded st(1,2) ix], unfolded nb(2), folded L_def])
    show "?cs (0 + k * bs) = Inr (crc init_crc_16 (blk_at bs data k))" if "k < n" for k
      using csum_of_data_ok [OF that data(2) [unfolded bs_def]] data(1) by (simp add: bs_def)
  qed (use R(2) in simp_all)
  have valid: "\<forall>x v. view t x = Some v \<longrightarrow> is_valid api (iv_blkid v)" using mapped_okD(1) [OF map] api by (auto simp: api_ok_def)
  have keys: "distinct (map fst bi)" "set (map fst bi) = {x. L \<le> unat x \<and> unat x < L + n}" "info_old bi = upd_range L n (\<lambda>k. old_at api (view t) (L + k)) (\<lambda>_. None)"
    using I by (simp_all add: info_old_Nil)
  have nv: "\<not> is_valid api (no_blk api)" using api by (simp add: api_ok_def)
  note O = old_blkids_range [OF keys nv valid R(2)]
  have new: "info_new bi = upd_range L n (blk_val (all_blks bids) (\<lambda>k. crc init_crc_16 (blk_at bs data k))) (\<lambda>_. None)" using I by (simp add: info_new_Nil)
  moreover have "info_ok api req bids bi" using new nb O(2) R(1) unfolding info_ok_def new_blks_ok_def L_def n_def by auto
  moreover have "distinct (old_blkids_of api bi)" by (rule old_blkids_distinct [OF keys(1,3) nv]) (rule mapped_okD(3) [OF map])
  moreover have "b \<in> set (old_blkids_of api bi) \<longleftrightarrow> (\<exists>x v. in_req req x \<and> view t x = Some v \<and> b = iv_blkid v)" for b using O(1) [of b] by (simp add: in_req_def L_def n_def conj_assoc)
  ultimately show thesis using that [OF st(3) _ data] I by blast
qed

lemma index_step:
  assumes inv: "invar t" and dev: "dev_ok rd" and api: "api_ok api" and led: "vol_ledger api rd crc (view t) d (add_mset (req, DataDone bids) W)"
    and ix: "ix = \<lparr>ix_write = write_to_index, ix_read = read_from_index\<rparr>" and w: "write_update_index api ix rd crc req bids t = Inr (Inr ph, t')"
  shows "invar t'" "vol_ledger api rd crc (view t') d (add_mset (req, ph) W)"
    "x < 2 ^ 64 \<Longrightarrow> block_image rd d (view t') x = store_req (unat (get_blk_size rd)) req (block_image rd d (view t)) x"
proof -
  let ?bs = "unat (get_blk_size rd)" and ?L = "unat (req_lba req)" and ?n = "unat (req_nlbas req)" and ?all = "all_blks bids"
  obtain data bi where F: "ph = Indexed bids bi" "invar t'" "req_buffer req = Some data" "length data = ?n * ?bs" "info_ok api req bids bi"
    "view t' = upd_range ?L ?n (blk_val ?all (\<lambda>k. crc init_crc_16 (blk_at ?bs data k))) (view t)"
    and O: "distinct (old_blkids_of api bi)" "\<And>b. b \<in> set (old_blkids_of api bi) \<longleftrightarrow> (\<exists>x v. in_req req x \<and> view t x = Some v \<and> b = iv_blkid v)"
    by (rule index_facts [OF inv dev api led ix w]) blast
  show "invar t'" by (rule F(2))
  note M = ledger_member [OF led] and L0 = ledger_drop [OF led]
  note L = ledgerD [OF L0]
  have len: "length ?all = ?n" and dat: "\<And>k. k < ?n \<Longrightarrow> blk_data rd d (blk_chunk (?all ! k)) (blk_num (?all ! k)) = blk_at ?bs data k"
    using M(2) F(3) by (simp_all add: new_blks_ok_def)
  have inr: "view t' x = Some \<lparr>iv_blkid = ?all ! (unat x - ?L), iv_checksum = crc init_crc_16 (blk_at ?bs data (unat x - ?L))\<rparr>" "unat x - ?L < ?n" if "in_req req x" for x
    using that by (auto simp: F(6) upd_range_def blk_val_def in_req_def)
  have out: "view t' x = view t x" if "\<not> in_req req x" for x using that by (auto simp: F(6) upd_range_def in_req_def)
  have new: "?all ! (unat x - ?L) \<in> set (phase_blks api (DataDone bids))" if "in_req req x" for x using inr(2) [OF that] len by simp
  have nb: "iv_blkid v \<in> set (phase_blks api (DataDone bids))" if "in_req req x" "view t' x = Some v" for x v using new [OF that(1)] inr(1) [OF that(1)] that(2) by auto
  have inj: "y = x" if "view t' x = Some v" "view t' y = Some u" "iv_blkid u = iv_blkid v" for x y u v
  proof (cases "in_req req x"; cases "in_req req y")
    assume A: "in_req req x" "in_req req y"
    then have "?all ! (unat x - ?L) = ?all ! (unat y - ?L)" using inr(1) that by auto
    then have "unat x - ?L = unat y - ?L" using M(3) inr(2) [OF A(1)] inr(2) [OF A(2)] len nth_eq_iff_index_eq [of ?all] by simp
    then have "unat x = unat y" using A by (auto simp: in_req_def)
    then show ?thesis by (simp add: word_unat_eq_iff)
  next
    assume A: "in_req req x" "\<not> in_req req y"
    then show ?thesis using M(4) [OF new [OF A(1)]] inr(1) out that by auto
  next
    assume A: "\<not> in_req req x" "in_req req y"
    then show ?thesis using M(4) [OF new [OF A(2)]] inr(1) [OF A(2)] out [OF A(1)] that by (metis index_value.select_convs(1) option.inject)
  next
    assume "\<not> in_req req x" "\<not> in_req req y"
    then show ?thesis using out that mapped_okD(3) [OF L(1)] by auto
  qed
  have one: "blk_count (iv_blkid v) = 1 \<and> alloced rd d (iv_blkid v)" if "view t' x = Some v" for x v
    using that M(4) [OF new] inr(1) out mapped_okD(1,2) [OF L(1)] by (cases "in_req req x") auto
  have mp: "mapped_ok rd d (view t')" unfolding mapped_ok_def using one inj by blast
  have "crc init_crc_16 (blk_data rd d (blk_chunk (iv_blkid v)) (blk_num (iv_blkid v))) = iv_checksum v" if v: "view t' x = Some v" for x v
  proof (cases "in_req req x")
    case True
    then show ?thesis using inr [OF True] dat v by auto
  next
    case False
    then show ?thesis using L(2) out v by (simp add: mapped_csums_ok_def)
  qed
  then have cs: "mapped_csums_ok crc rd d (view t')" by (simp add: mapped_csums_ok_def)
  have unm: "iv_blkid v \<noteq> b" if "b \<in># held api W" "view t' x = Some v" for b x v
    using that M(4) [OF new] inr(1) out L(6) by (cases "in_req req x") auto
  have base: "vol_ledger api rd crc (view t') d W" unfolding vol_ledger_def using mp cs unm L(3-5,7,8) by (intro conjI ballI allI impI) simp_all
  have gone: "iv_blkid v \<noteq> b" if old: "b \<in> set (old_blkids_of api bi)" and "view t' x = Some v" for b x v
  proof -
    obtain y u where y: "in_req req y" "view t y = Some u" "b = iv_blkid u" using O(2) [of b] old by auto
    show ?thesis
    proof (cases "in_req req x")
      case True
      then show ?thesis using M(4) [OF nb [OF True that(2)]] y(2,3) by metis
    next
      case False
      then show ?thesis using mapped_okD(3) [OF L(1) y(2), of x v] out [OF False] that(2) y(1,3) by auto
    qed
  qed
  have old: "blk_count b = 1 \<and> alloced rd d b \<and> b \<notin># held api W" if b: "b \<in> set (old_blkids_of api bi)" for b
  proof -
    obtain x v where "view t x = Some v" "b = iv_blkid v" using O(2) [of b] b by auto
    then show ?thesis using mapped_okD(1,2) [OF L(1), of x v] L(6) [of b x v] by auto
  qed
  show "vol_ledger api rd crc (view t') d (add_mset (req, ph) W)" by (rule ledger_add [OF base M(1)]) (use F(1,5) O(1) old gone in auto)
  have u: "unat (of_nat x :: u64) = x" if "x < 2 ^ 64" for x using that by (simp add: unat_of_nat)
  show "block_image rd d (view t') x = store_req ?bs req (block_image rd d (view t)) x" if "x < 2 ^ 64"
    using u [OF that] inr [of "of_nat x"] out [of "of_nat x"] dat by (auto simp: block_image_def store_req_def F(3) in_req_def)
qed

end

section \<open>Every step\<close>

lemma start_step:
  assumes dev: "dev_ok rd" and led: "vol_ledger api rd crc vw d W" and req: "read_req_ok (get_blk_size rd) req" and st: "write_start rd ordinal req d = Inr (Inr ph, d')"
  shows "vol_ledger api rd crc vw d' (add_mset (req, ph) W)" "block_image rd d' vw = block_image rd d vw" "journal_log rd d' = journal_log rd d"
proof -
  obtain bids data where S: "ph = DataPending bids data" "new_blks_ok req bids" "distinct (all_blks bids)" "\<forall>b\<in>set (all_blks bids). \<not> alloced rd d b"
    "alloced rd d' = (\<lambda>b. alloced rd d b \<or> b \<in> set (all_blks bids))" "blk_data rd d' = blk_data rd d" "journal_log rd d' = journal_log rd d" "req_buffer req = Some data"
    by (rule start_facts [OF dev req st])
  note L = ledgerD [OF led]
  have "alloced rd d' b" if "b \<in># held api W \<or> (\<exists>x v. vw x = Some v \<and> iv_blkid v = b)" for b
    using that L(5) mapped_okD(2) [OF L(1)] S(5) by auto
  then have f: "vol_ledger api rd crc vw d' W" "block_image rd d' vw = block_image rd d vw" using ledger_frame [OF led] S(6) by simp_all
  show "block_image rd d' vw = block_image rd d vw" "journal_log rd d' = journal_log rd d" using f(2) S(7) by simp_all
  have "blk_count b = 1 \<and> alloced rd d' b \<and> (\<forall>x v. vw x = Some v \<longrightarrow> iv_blkid v \<noteq> b) \<and> b \<notin># held api W" if "b \<in> set (all_blks bids)" for b
    using that all_blks_count [OF that] S(4) fun_cong [OF S(5), of b] L(5) [of b] mapped_okD(2) [OF L(1)] by blast
  then show "vol_ledger api rd crc vw d' (add_mset (req, ph) W)" using S(1-3,8) by (intro ledger_add [OF f(1) req]) simp_all
qed

lemma data_step:
  assumes dev: "dev_ok rd" and led: "vol_ledger api rd crc vw d (add_mset (req, DataPending bids data) W)" and w: "write_data_done rd bids data d = (r, d')"
  shows "vol_ledger api rd crc vw d' W" "r = Inr ph \<Longrightarrow> vol_ledger api rd crc vw d' (add_mset (req, ph) W)" "block_image rd d' vw = block_image rd d vw"
    "journal_log rd d' = journal_log rd d"
proof -
  note M = ledger_member [OF led] and L = ledgerD [OF ledger_drop [OF led]] and D = data_facts [OF dev w]
  have "alloced rd d' b \<and> blk_data rd d' (blk_chunk b) (blk_num b) = blk_data rd d (blk_chunk b) (blk_num b)"
    if "b \<in># held api W \<or> (\<exists>x v. vw x = Some v \<and> iv_blkid v = b)" for b
  proof -
    have "blk_count b = 1" "alloced rd d b" "b \<notin> set (all_blks bids)" using that L(4,5) mapped_okD(1,2) [OF L(1)] M(4) [of b] by auto
    then show ?thesis using D(1,3) by simp
  qed
  note f = ledger_frame [OF ledger_drop [OF led] this]
  show "vol_ledger api rd crc vw d' W" "block_image rd d' vw = block_image rd d vw" "journal_log rd d' = journal_log rd d" using f D(2) by simp_all
  have buf: "length data = unat (req_nlbas req) * unat (get_blk_size rd)" using M(1,2) by (simp add: read_req_ok_def)
  assume r: "r = Inr ph"
  have "phase_ok api rd d' req (DataDone bids)" using M(2,3) D(5) [OF r] buf by (simp add: new_blks_ok_def)
  then show "vol_ledger api rd crc vw d' (add_mset (req, ph) W)" unfolding D(4) [OF r]
    by (intro ledger_add [OF f(1) M(1)]) (use M(3,4) D(1) in auto)
qed

lemma journal_step:
  assumes dev: "dev_ok rd" and led: "vol_ledger api rd crc vw d (add_mset (req, Indexed bids bi) W)" and w: "write_submit_journal api codec rd vol_id req bids bi d = Inr (ph, d')"
  shows "vol_ledger api rd crc vw d' (add_mset (req, ph) W)" "block_image rd d' vw = block_image rd d vw"
proof -
  obtain lsn where J: "ph = Journaled bids bi lsn" "blk_data rd d' = blk_data rd d" "alloced rd d' = alloced rd d" by (rule submit_facts [OF dev w])
  note L = ledgerD [OF led]
  have "alloced rd d' b" if "b \<in># held api (add_mset (req, Indexed bids bi) W) \<or> (\<exists>x v. vw x = Some v \<and> iv_blkid v = b)" for b
    using that L(5) mapped_okD(2) [OF L(1)] J(3) by auto
  then have f: "vol_ledger api rd crc vw d' (add_mset (req, Indexed bids bi) W)" "block_image rd d' vw = block_image rd d vw" using ledger_frame [OF led] J(2) by simp_all
  show "block_image rd d' vw = block_image rd d vw" by (rule f(2))
  note M = ledger_member [OF f(1)]
  show "vol_ledger api rd crc vw d' (add_mset (req, ph) W)" unfolding J(1) using M(2-4) by (intro ledger_add [OF ledger_drop [OF f(1)] M(1)]) auto
qed

lemma commit_step:
  assumes dev: "dev_ok rd" and codec: "blk_codec_ok codec" and led: "vol_ledger api rd crc vw d (add_mset (req, Journaled bids bi lsn) W)"
    and w: "write_committed api codec ix rd vol_id req bids bi lsn t d = Inr d'"
  shows "vol_ledger api rd crc vw d' W" "block_image rd d' vw = block_image rd d vw" "journal_log rd d' = journal_log rd d"
proof -
  note M = ledger_member [OF led] and L = ledgerD [OF ledger_drop [OF led]]
  have "length (old_blkids_of api bi) < 2 ^ 16" using M(2) by (simp add: info_ok_def)
  note C = commit_facts [OF dev codec this w]
  have "alloced rd d' b" if "b \<in># held api W \<or> (\<exists>x v. vw x = Some v \<and> iv_blkid v = b)" for b
  proof -
    have "alloced rd d b" "b \<notin> set (old_blkids_of api bi)" using that L(5) mapped_okD(2) [OF L(1)] M(4) [of b] by auto
    then show ?thesis using C(3) by simp
  qed
  then show "vol_ledger api rd crc vw d' W" "block_image rd d' vw = block_image rd d vw" "journal_log rd d' = journal_log rd d"
    using ledger_frame [OF ledger_drop [OF led]] C(1,2) by simp_all
qed

lemma refused_facts:
  assumes "dev_ok rd" "write_start rd ordinal req d = Inr (Inl e, d')"
  shows "blk_data rd d' = blk_data rd d" "alloced rd d' = alloced rd d" "journal_log rd d' = journal_log rd d"
proof -
  obtain r d1 where al: "alloc_blks rd (req_nlbas req * get_blk_size rd) ordinal d = (r, d1)" by fastforce
  then have "r = None" "d' = d1" using assms(2) by (cases r; auto simp: write_start_def Let_def bind_sum_eq_Inr)+
  then show "blk_data rd d' = blk_data rd d" "alloced rd d' = alloced rd d" "journal_log rd d' = journal_log rd d"
    using assms(1) al unfolding dev_ok_def alloc_ok_def by fastforce+
qed

context volume_index_low
begin

lemma vol_step_keeps:
  assumes env: "dev_ok rd" "api_ok api" "blk_codec_ok codec" "ix = \<lparr>ix_write = write_to_index, ix_read = read_from_index\<rparr>"
    and inv: "invar t" and led: "vol_ledger api rd crc (view t) d W" and st: "vol_step serial api codec ix rd crc vol_id ordinal (t, d, W) l (t', d', W')"
  shows "invar t' \<and> vol_ledger api rd crc (view t') d' W' \<and>
    (\<forall>x<2 ^ 64. block_image rd d' (view t') x = (case l of None \<Rightarrow> block_image rd d (view t) | Some req \<Rightarrow> store_req (unat (get_blk_size rd)) req (block_image rd d (view t))) x)"
  using st
proof (cases rule: vol_step.cases)
  case (start req ph)
  then show ?thesis using start_step [OF env(1) led start(4,6)] inv by simp
next
  case (refused req e)
  note R = refused_facts [OF env(1) refused(4)]
  have "alloced rd d' b" if "b \<in># held api W \<or> (\<exists>x v. view t x = Some v \<and> iv_blkid v = b)" for b
    using that ledgerD(5) [OF led] mapped_okD(2) [OF ledgerD(1) [OF led]] R(2) by auto
  then show ?thesis using ledger_frame [OF led] R(1) inv refused by simp
next
  case (data bids dat ph req V)
  then show ?thesis using data_step [OF env(1) led [unfolded data(1)] data(5)] inv by simp
next
  case (data_failed bids dat e req)
  then show ?thesis using data_step [OF env(1) led [unfolded data_failed(1)] data_failed(4)] inv by simp
next
  case (index req bids ph V)
  then show ?thesis using index_step [OF inv env(1,2) led [unfolded index(1)] env(4) index(5)] by simp
next
  case (journal req bids bi ph V)
  then show ?thesis using journal_step [OF env(1) led [unfolded journal(1)] journal(5)] inv by simp
next
  case (commit req bids bi lsn)
  then show ?thesis using commit_step [OF env(1,3) led [unfolded commit(1)] commit(4)] inv by simp
qed

end

end
