(* ===== verification/Volume_Concurrent.thy ===== *)
theory Volume_Concurrent
  imports Volume_Interleave
begin

text \<open>
  Runs of concurrent writes on a volume: what the volume holds is what the writes store one after the other in the order of their updates of the index, and the journal restores it after a crash when no two
  overlapping writes are in flight together.
\<close>

section \<open>What the volume holds\<close>

lemma store_req_cong: "img x = img' x \<Longrightarrow> store_req bs req img x = store_req bs req img' x"
  by (auto simp: store_req_def split: option.split)

context volume_index_low
begin

lemma vol_run_keeps:
  assumes run: "vol_run serial api codec ix rd crc vol_id ordinal (t, d, W) reqs s"
    and env: "dev_ok rd" "api_ok api" "blk_codec_ok codec" "ix = \<lparr>ix_write = write_to_index, ix_read = read_from_index\<rparr>"
    and inv: "invar t" and led: "vol_ledger api rd crc (view t) d W"
  shows "\<exists>t' d' W'. s = (t', d', W') \<and> invar t' \<and> vol_ledger api rd crc (view t') d' W' \<and>
    (\<forall>x<2 ^ 64. block_image rd d' (view t') x = fold (store_req (unat (get_blk_size rd))) reqs (block_image rd d (view t)) x)"
  using run
proof (induction rule: vol_run.induct)
  case none
  then show ?case using inv led by simp
next
  case (step reqs s1 l s2)
  obtain t1 d1 W1 where s1: "s1 = (t1, d1, W1)" "invar t1" "vol_ledger api rd crc (view t1) d1 W1"
    "\<forall>x<2 ^ 64. block_image rd d1 (view t1) x = fold (store_req (unat (get_blk_size rd))) reqs (block_image rd d (view t)) x"
    using step.IH by blast
  obtain t2 d2 W2 where s2: "s2 = (t2, d2, W2)" by (cases s2)
  note K = vol_step_keeps [OF env s1(2,3) step.hyps(2) [unfolded s1(1) s2]]
  have "block_image rd d2 (view t2) x = fold (store_req (unat (get_blk_size rd))) (reqs @ (case l of None \<Rightarrow> [] | Some req \<Rightarrow> [req])) (block_image rd d (view t)) x" if x: "x < 2 ^ 64" for x
    using K s1(4) x by (cases l) (auto intro: store_req_cong)
  then show ?case using K s2 by blast
qed

end

section \<open>The journal\<close>

lemma replay_log_append:
  "replay_log api codec ix rd (es @ es') lsn w = bind_sum (replay_log api codec ix rd es lsn w) (replay_log api codec ix rd es' (lsn + int (length es)))"
proof (induction es arbitrary: lsn w)
  case (Cons e es)
  obtain h key bids where "e = (h, key, bids)" by (cases e)
  then show ?case by (cases "on_commit api codec ix rd lsn True h key bids w") (simp_all add: Cons.IH add.assoc)
qed simp

text \<open>Replaying the entries overrides any index with the mapping \<open>g\<close>, and returns when the index accepts its updates.\<close>

definition log_effect ::
  "blk_api \<Rightarrow> blk_codec \<Rightarrow> 't index_ops \<Rightarrow> 'd repl_dev \<Rightarrow> ('t \<Rightarrow> lba_t \<Rightarrow> index_value option) \<Rightarrow> ('t \<Rightarrow> bool) \<Rightarrow> (MsgHeader \<times> u8 list \<times> blk_id list) list \<Rightarrow> (lba_t \<Rightarrow> index_value option) \<Rightarrow> bool" where
  "log_effect api codec ix rd vw ok es g \<longleftrightarrow>
     (\<forall>t0 d0 lsn r d1. ok t0 \<longrightarrow> replay_log api codec ix rd es lsn (Some t0, d0) = Inr (r, d1) \<longrightarrow>
        (\<exists>t1. r = Some t1 \<and> ok t1 \<and> vw t1 = vw t0 ++ g \<and> blk_data rd d1 = blk_data rd d0)) \<and>
     (\<forall>t0 d0 lsn S. ok t0 \<longrightarrow> accepts (ix_write ix) S \<longrightarrow> S t0 \<longrightarrow> (\<exists>t1 d1. replay_log api codec ix rd es lsn (Some t0, d0) = Inr (Some t1, d1) \<and> S t1))"

lemma log_effect_none: "log_effect api codec ix rd vw ok [] Map.empty"
  by (simp add: log_effect_def)

lemma log_effect_snoc:
  assumes "log_effect api codec ix rd vw ok es g" "log_effect api codec ix rd vw ok [e] m"
  shows "log_effect api codec ix rd vw ok (es @ [e]) (g ++ m)"
  unfolding log_effect_def
proof (intro conjI allI impI)
  fix t0 d0 lsn r d1
  assume t0: "ok t0" and rep: "replay_log api codec ix rd (es @ [e]) lsn (Some t0, d0) = Inr (r, d1)"
  obtain r1 d2 where r1: "replay_log api codec ix rd es lsn (Some t0, d0) = Inr (r1, d2)" "replay_log api codec ix rd [e] (lsn + int (length es)) (r1, d2) = Inr (r, d1)"
    using rep unfolding replay_log_append by (auto simp: bind_sum_eq_Inr)
  obtain t1 where t1: "r1 = Some t1" "ok t1" "vw t1 = vw t0 ++ g" "blk_data rd d2 = blk_data rd d0" using assms(1) t0 r1(1) unfolding log_effect_def by blast
  obtain t2 where "r = Some t2" "ok t2" "vw t2 = vw t1 ++ m" "blk_data rd d1 = blk_data rd d2" using assms(2) t1(2) r1(2) [unfolded t1(1)] unfolding log_effect_def by blast
  then show "\<exists>t1. r = Some t1 \<and> ok t1 \<and> vw t1 = vw t0 ++ (g ++ m) \<and> blk_data rd d1 = blk_data rd d0" using t1 by simp
next
  fix t0 d0 lsn S
  assume t0: "ok t0" and S: "accepts (ix_write ix) S" "S t0"
  obtain t1 d1 where t1: "replay_log api codec ix rd es lsn (Some t0, d0) = Inr (Some t1, d1)" "S t1" using assms(1) t0 S unfolding log_effect_def by blast
  have "ok t1" using assms(1) t0 t1(1) unfolding log_effect_def by blast
  then obtain t2 d2 where "replay_log api codec ix rd [e] (lsn + int (length es)) (Some t1, d1) = Inr (Some t2, d2)" "S t2"
    using assms(2) S(1) t1(2) unfolding log_effect_def by blast
  then show "\<exists>t1 d1. replay_log api codec ix rd (es @ [e]) lsn (Some t0, d0) = Inr (Some t1, d1) \<and> S t1" using t1(1) unfolding replay_log_append by auto
qed

lemma info_ok_at:
  assumes "info_ok api req bids bi"
  shows "in_req req x \<longleftrightarrow> info_new bi x \<noteq> None"
  using assms by (auto simp: info_ok_def in_req_def upd_range_def split: if_splits)

context volume_index_low
begin

lemma entry_effect:
  assumes dev: "dev_ok rd" and codec: "blk_codec_ok codec" and req: "read_req_ok (get_blk_size rd) req" and bi: "info_ok api req bids bi"
    and ix: "ix = \<lparr>ix_write = write_to_index, ix_read = read_from_index\<rparr>"
  shows "log_effect api codec ix rd view invar [(\<lparr>msg_type = WRITE, volume_id = vol_id\<rparr>, journal_key api codec req bi, bids)] (info_new bi)"
proof -
  let ?L = "unat (req_lba req)" and ?n = "unat (req_nlbas req)"
  obtain cs where B: "pieces_wf bids" "length (all_blks bids) = ?n" "length (old_blkids_of api bi) < 2 ^ 16" "info_new bi = upd_range ?L ?n (blk_val (all_blks bids) cs) (\<lambda>_. None)"
    using bi by (auto simp: info_ok_def new_blks_ok_def)
  have E: "?L + ?n < 2 ^ 32" using req by (simp add: read_req_ok_def)
  have fr: "free_ok rd" using dev by (simp add: dev_ok_def)
  have over: "upd_range ?L ?n (blk_val (all_blks bids) cs) v = v ++ info_new bi" for v by (auto simp: B(4) fun_eq_iff upd_range_def map_add_def)
  have one: "replay_log api codec ix rd [(\<lparr>msg_type = WRITE, volume_id = vol_id\<rparr>, journal_key api codec req bi, bids)] lsn w = on_write api codec ix rd lsn True (journal_key api codec req bi) bids w" for lsn w
    by (cases "on_write api codec ix rd lsn True (journal_key api codec req bi) bids w") (simp_all add: on_commit_def)
  show ?thesis
    unfolding log_effect_def one
  proof (intro conjI allI impI)
    fix t0 d0 lsn r d1
    assume t0: "invar t0" and ow: "on_write api codec ix rd lsn True (journal_key api codec req bi) bids (Some t0, d0) = Inr (r, d1)"
    have "blk_data rd d1 = blk_data rd d0" by (rule on_write_data [OF fr ow])
    then show "\<exists>t1. r = Some t1 \<and> invar t1 \<and> view t1 = view t0 ++ info_new bi \<and> blk_data rd d1 = blk_data rd d0"
      using replay_entry(1) [OF t0 codec B(1,2) E refl refl B(4,3) ow [unfolded ix]] unfolding over by blast
  next
    fix t0 d0 lsn S
    assume t0: "invar t0" and S: "accepts (ix_write ix) S" "S t0"
    have "accepts write_to_index S" using S(1) by (simp add: ix)
    from replay_entry(2) [OF t0 codec B(1,2) E refl refl B(4,3) this S(2), of rd lsn d0]
    show "\<exists>t1 d1. on_write api codec ix rd lsn True (journal_key api codec req bi) bids (Some t0, d0) = Inr (Some t1, d1) \<and> S t1" unfolding ix by blast
  qed
qed

end

section \<open>Writes that do not overlap\<close>

text \<open>The addresses of the writes whose update of the index is not in the journal yet.\<close>

definition unjournaled :: "(io_req \<times> write_phase) multiset \<Rightarrow> lba_t \<Rightarrow> bool" where
  "unjournaled W x \<longleftrightarrow> (\<exists>(req, ph)\<in>#W. in_req req x \<and> (case ph of Indexed _ _ \<Rightarrow> True | _ \<Rightarrow> False))"

lemma unjournaled_simps [simp]:
  "\<not> unjournaled {#} x"
  "unjournaled (add_mset (req, ph) W) x \<longleftrightarrow> in_req req x \<and> (case ph of Indexed _ _ \<Rightarrow> True | _ \<Rightarrow> False) \<or> unjournaled W x"
  by (auto simp: unjournaled_def)

definition apart :: "(io_req \<times> write_phase) multiset \<Rightarrow> bool" where
  "apart W \<longleftrightarrow> (\<forall>w V. W = add_mset w V \<longrightarrow> (\<forall>u\<in>#V. \<not> overlapping (fst w) (fst u)))"

lemma apart_add: "apart (add_mset w W) \<longleftrightarrow> (\<forall>u\<in>#W. \<not> overlapping (fst w) (fst u)) \<and> apart W"
proof
  assume a: "apart (add_mset w W)"
  have "\<not> overlapping (fst v) (fst u)" if W: "W = add_mset v V" "u \<in># V" for v V u
  proof -
    have "add_mset w W = add_mset v (add_mset w V)" by (simp add: W(1) add_mset_commute)
    then show ?thesis using a W(2) unfolding apart_def by (metis insertI2 set_mset_add_mset_insert)
  qed
  then show "(\<forall>u\<in>#W. \<not> overlapping (fst w) (fst u)) \<and> apart W" using a unfolding apart_def by blast
next
  assume a: "(\<forall>u\<in>#W. \<not> overlapping (fst w) (fst u)) \<and> apart W"
  have "\<not> overlapping (fst v) (fst u)" if V: "add_mset w W = add_mset v V" "u \<in># V" for v V u
  proof (cases "w = v")
    case True
    then show ?thesis using V a by simp
  next
    case False
    then obtain K where K: "W = add_mset v K" "V = add_mset w K" using V(1) by (auto simp: add_eq_conv_ex)
    have "\<not> overlapping (fst v) (fst u)" if "u \<in># K" using a K(1) that unfolding apart_def by blast
    moreover have "\<not> overlapping (fst v) (fst w)" using a K(1) overlapping_sym by simp
    ultimately show ?thesis using V(2) K(2) by auto
  qed
  then show "apart (add_mset w W)" by (simp add: apart_def)
qed

text \<open>The index is the one before the run, overridden by the journal and then by what is not journaled yet.\<close>

definition journal_inv ::
  "blk_api \<Rightarrow> blk_codec \<Rightarrow> 't index_ops \<Rightarrow> 'd repl_dev \<Rightarrow> ('t \<Rightarrow> lba_t \<Rightarrow> index_value option) \<Rightarrow> ('t \<Rightarrow> bool) \<Rightarrow> (MsgHeader \<times> u8 list \<times> blk_id list) list \<Rightarrow> (lba_t \<Rightarrow> index_value option) \<Rightarrow>
   io_req list \<Rightarrow> ('t, 'd) vol_sys \<Rightarrow> bool" where
  "journal_inv api codec ix rd vw ok log0 view0 reqs s \<longleftrightarrow>
     (\<exists>t d W es g. s = (t, d, W) \<and> journal_log rd d = log0 @ es \<and> log_effect api codec ix rd vw ok es g \<and> apart W \<and>
        (\<forall>req bids bi x. (req, Indexed bids bi) \<in># W \<longrightarrow> in_req req x \<longrightarrow> vw t x = info_new bi x) \<and>
        (\<forall>x. \<not> unjournaled W x \<longrightarrow> vw t x = (view0 ++ g) x) \<and> (\<forall>x. in_reqs reqs x \<longleftrightarrow> x \<in> dom g \<or> unjournaled W x))"

lemma journal_inv_same:
  assumes "journal_inv api codec ix rd vw ok log0 view0 reqs (t, d, W)" "journal_log rd d' = journal_log rd d" "apart W'"
    and "\<And>req bids bi. (req, Indexed bids bi) \<in># W' \<longleftrightarrow> (req, Indexed bids bi) \<in># W" "unjournaled W' = unjournaled W"
  shows "journal_inv api codec ix rd vw ok log0 view0 reqs (t, d', W')"
  using assms unfolding journal_inv_def by auto

context volume_index_low
begin

lemma journal_inv_index:
  assumes env: "dev_ok rd" "api_ok api" "ix = \<lparr>ix_write = write_to_index, ix_read = read_from_index\<rparr>"
    and inv: "invar t" and led: "vol_ledger api rd crc (view t) d (add_mset (req, DataDone bids) W)"
    and j: "journal_inv api codec ix rd view invar log0 view0 reqs (t, d, add_mset (req, DataDone bids) W)" and w: "write_update_index api ix rd crc req bids t = Inr (Inr ph, t')"
  shows "journal_inv api codec ix rd view invar log0 view0 (reqs @ [req]) (t', d, add_mset (req, ph) W)"
proof -
  obtain data bi where F: "ph = Indexed bids bi" "info_ok api req bids bi" "info_new bi = upd_range (unat (req_lba req)) (unat (req_nlbas req)) (blk_val (all_blks bids) (\<lambda>k. crc init_crc_16 (blk_at (unat (get_blk_size rd)) data k))) (\<lambda>_. None)"
    "view t' = upd_range (unat (req_lba req)) (unat (req_nlbas req)) (blk_val (all_blks bids) (\<lambda>k. crc init_crc_16 (blk_at (unat (get_blk_size rd)) data k))) (view t)"
    by (rule index_facts [OF inv env(1,2) led env(3) w]) blast
  have v: "view t' x = (if in_req req x then info_new bi x else view t x)" for x unfolding F(3,4) by (auto simp: upd_range_def in_req_def)
  obtain es g where J: "journal_log rd d = log0 @ es" "log_effect api codec ix rd view invar es g" "\<forall>u\<in>#W. \<not> overlapping req (fst u)" "apart W"
    "\<forall>req bids bi x. (req, Indexed bids bi) \<in># W \<longrightarrow> in_req req x \<longrightarrow> view t x = info_new bi x" "\<forall>x. \<not> unjournaled W x \<longrightarrow> view t x = (view0 ++ g) x"
    "\<forall>x. in_reqs reqs x \<longleftrightarrow> x \<in> dom g \<or> unjournaled W x"
    using j by (auto simp: journal_inv_def apart_add)
  have other: "\<not> in_req req x" if "(req', Indexed b' i') \<in># W" "in_req req' x" for req' b' i' x using that J(3) overlapping_in_req by fastforce
  have "view t' x = info_new bi' x" if "(req', Indexed bids' bi') \<in># add_mset (req, ph) W" "in_req req' x" for req' bids' bi' x
    using that F(1) v [of x] J(5) other by (cases "(req', Indexed bids' bi') \<in># W") auto
  moreover have "view t' x = (view0 ++ g) x" if "\<not> unjournaled (add_mset (req, ph) W) x" for x using that F(1) v [of x] J(6) by simp
  moreover have "in_reqs (reqs @ [req]) x \<longleftrightarrow> x \<in> dom g \<or> unjournaled (add_mset (req, ph) W) x" for x using F(1) J(7) by (auto simp: in_reqs_def)
  moreover have "apart (add_mset (req, ph) W)" using J(3,4) by (simp add: apart_add)
  ultimately show ?thesis using J(1,2) unfolding journal_inv_def by blast
qed

lemma journal_inv_submit:
  assumes env: "dev_ok rd" "blk_codec_ok codec" "ix = \<lparr>ix_write = write_to_index, ix_read = read_from_index\<rparr>"
    and led: "vol_ledger api rd crc (view t) d (add_mset (req, Indexed bids bi) W)"
    and j: "journal_inv api codec ix rd view invar log0 view0 reqs (t, d, add_mset (req, Indexed bids bi) W)" and w: "write_submit_journal api codec rd vol_id req bids bi d = Inr (ph, d')"
  shows "journal_inv api codec ix rd view invar log0 view0 reqs (t, d', add_mset (req, ph) W)"
proof -
  let ?e = "(\<lparr>msg_type = WRITE, volume_id = vol_id\<rparr>, journal_key api codec req bi, bids)"
  obtain lsn where S: "ph = Journaled bids bi lsn" "journal_log rd d' = journal_log rd d @ [?e]" by (rule submit_facts [OF env(1) w])
  obtain es g where J: "journal_log rd d = log0 @ es" "log_effect api codec ix rd view invar es g" "apart (add_mset (req, Indexed bids bi) W)"
    "\<forall>req' bids' bi' x. (req', Indexed bids' bi') \<in># add_mset (req, Indexed bids bi) W \<longrightarrow> in_req req' x \<longrightarrow> view t x = info_new bi' x"
    "\<forall>x. \<not> unjournaled (add_mset (req, Indexed bids bi) W) x \<longrightarrow> view t x = (view0 ++ g) x"
    "\<forall>x. in_reqs reqs x \<longleftrightarrow> x \<in> dom g \<or> unjournaled (add_mset (req, Indexed bids bi) W) x"
    using j unfolding journal_inv_def by blast
  note M = ledger_member(1,2) [OF led]
  have io: "info_ok api req bids bi" using M(2) by simp
  note at = info_ok_at [OF io]
  have "log_effect api codec ix rd view invar (es @ [?e]) (g ++ info_new bi)"
    by (rule log_effect_snoc [OF J(2) entry_effect [OF env(1,2) M(1) io env(3)]])
  moreover have "view t x = (view0 ++ (g ++ info_new bi)) x" if x: "\<not> unjournaled (add_mset (req, ph) W) x" for x
  proof (cases "in_req req x")
    case True
    then have "view t x = info_new bi x" using J(4) by auto
    then show ?thesis using True at [of x] by (auto simp: map_add_def split: option.splits)
  next
    case False
    then have "info_new bi x = None" "view t x = (view0 ++ g) x" using at [of x] J(5) x S(1) by simp_all
    then show ?thesis by (simp add: map_add_def)
  qed
  moreover have "in_reqs reqs x \<longleftrightarrow> x \<in> dom (g ++ info_new bi) \<or> unjournaled (add_mset (req, ph) W) x" for x
    using J(6) at [of x] S(1) by (auto simp: dom_def map_add_def split: option.splits)
  moreover have "apart (add_mset (req, ph) W)" using J(3) by (simp add: apart_add)
  moreover have "view t x = info_new bi' x" if "(req', Indexed bids' bi') \<in># add_mset (req, ph) W" "in_req req' x" for req' bids' bi' x
    using that J(4) S(1) by auto
  moreover have "journal_log rd d' = log0 @ (es @ [?e])" using S(2) J(1) by simp
  ultimately show ?thesis unfolding journal_inv_def by blast
qed

lemma vol_run_journal:
  assumes run: "vol_run True api codec ix rd crc vol_id ordinal (t, d, {#}) reqs s"
    and env: "dev_ok rd" "api_ok api" "blk_codec_ok codec" "ix = \<lparr>ix_write = write_to_index, ix_read = read_from_index\<rparr>"
    and inv: "invar t" and led: "vol_ledger api rd crc (view t) d {#}"
  shows "journal_inv api codec ix rd view invar (journal_log rd d) (view t) reqs s"
  using run
proof (induction rule: vol_run.induct)
  case none
  show ?case unfolding journal_inv_def by (intro exI [of _ t] exI [of _ d] exI [of _ "{#}"] exI [of _ "[]"] exI [of _ Map.empty]) (simp add: log_effect_none apart_def)
next
  case (step reqs s1 l s2)
  obtain t1 d1 W1 where s1: "s1 = (t1, d1, W1)" "invar t1" "vol_ledger api rd crc (view t1) d1 W1"
    using vol_run_keeps [OF step.hyps(1) env inv led] by blast
  note j = step.IH [unfolded s1(1)]
  have ap: "apart W1" using j unfolding journal_inv_def by blast
  show ?case
    using step.hyps(2) unfolding s1(1)
  proof (cases rule: vol_step.cases)
    case (start req ph d')
    obtain bids data where ph: "ph = DataPending bids data" by (rule start_facts [OF env(1) start(3,5)])
    show ?thesis unfolding start
      by (simp, rule journal_inv_same [OF j]) (use start(4) ph ap start_step(3) [OF env(1) s1(3) start(3,5)] in \<open>auto simp: apart_add fun_eq_iff\<close>)
  next
    case (refused req e d')
    then show ?thesis using journal_inv_same [OF j refused_facts(3) [OF env(1) refused(3)] ap] by simp
  next
    case (data bids dat ph d' req V)
    have ph: "ph = DataDone bids" using data_facts(4) [OF env(1) data(4)] by simp
    show ?thesis unfolding data(2,3)
      by (simp, rule journal_inv_same [OF j]) (use ph ap data(1) data_step(4) [OF env(1) s1(3) [unfolded data(1)] data(4)] in \<open>auto simp: apart_add fun_eq_iff\<close>)
  next
    case (data_failed bids dat e d' req V)
    show ?thesis unfolding data_failed(2,3)
      by (simp, rule journal_inv_same [OF j]) (use ap data_failed(1) data_step(4) [OF env(1) s1(3) [unfolded data_failed(1)] data_failed(4)] in \<open>auto simp: apart_add fun_eq_iff\<close>)
  next
    case (index req bids ph t' V)
    then show ?thesis using journal_inv_index [OF env(1,2,4) s1(2) s1(3) [unfolded index(1)] j [unfolded index(1)] index(4)] by simp
  next
    case (journal req bids bi ph d' V)
    then show ?thesis using journal_inv_submit [OF env(1,3,4) s1(3) [unfolded journal(1)] j [unfolded journal(1)] journal(4)] by simp
  next
    case (commit req bids bi lsn d' V)
    show ?thesis unfolding commit(2,3)
      by (simp, rule journal_inv_same [OF j]) (use ap commit(1) commit_step(3) [OF env(1,3) s1(3) [unfolded commit(1)] commit(4)] in \<open>auto simp: apart_add fun_eq_iff\<close>)
  qed
qed

end

end
