(* ===== verification/Volume_Run_Example.thy ===== *)
theory Volume_Run_Example
  imports Volume_Concurrent
begin

text \<open>
  A concrete run of two concurrent writes of one block each: the first to start updates the index first and is journaled last. On different addresses nothing is wrong with that; on the same address the journal holds the two
  writes in the opposite order of their effects.
\<close>

definition ex_one :: "lba_t \<Rightarrow> u8 \<Rightarrow> u8 \<Rightarrow> io_req" where
  "ex_one l a b = \<lparr>req_buffer = Some [a, b], req_lba = l, req_nlbas = 1\<rparr>"

definition ex_new :: "u32 \<Rightarrow> blk_id" where
  "ex_new k = \<lparr>blk_num = k, blk_count = 1, blk_chunk = 0\<rparr>"

definition ex_bi :: "lba_t \<Rightarrow> u32 \<Rightarrow> u8 \<Rightarrow> u8 \<Rightarrow> index_value option \<Rightarrow> blocks_info" where
  "ex_bi l k a b old = [(l, (case old of None \<Rightarrow> default_info ex_api | Some v \<Rightarrow> (default_info ex_api)\<lparr>old_blkid := iv_blkid v, old_checksum := iv_checksum v\<rparr>)
     \<lparr>new_blkid := ex_new k, new_checksum := ex_crc init_crc_16 [a, b]\<rparr>)]"

definition ex_value :: "u32 \<Rightarrow> u8 \<Rightarrow> u8 \<Rightarrow> index_value" where
  "ex_value k a b = \<lparr>iv_blkid = ex_new k, iv_checksum = ex_crc init_crc_16 [a, b]\<rparr>"

lemma ex_one_sel [simp]: "req_buffer (ex_one l a b) = Some [a, b]" "req_lba (ex_one l a b) = l" "req_nlbas (ex_one l a b) = 1"
  by (simp_all add: ex_one_def)

lemma ex_new_sel [simp]: "blk_num (ex_new k) = k" "blk_count (ex_new k) = 1" "blk_chunk (ex_new k) = 0" "ex_new k = ex_new k' \<longleftrightarrow> k = k'" "blks_of (ex_new k) = [ex_new k]"
  "all_blks [ex_new k] = [ex_new k]" "single_blk (ex_new k) 0 = ex_new k"
  by (auto simp: ex_new_def blks_of_def single_blk_def all_blks_def)

lemma ex_new_fold: "\<lparr>blk_num = k, blk_count = 1, blk_chunk = 0\<rparr> = ex_new k" "\<lparr>blk_num = j, blk_count = 1, blk_chunk = c\<rparr> = ex_new k \<longleftrightarrow> c = 0 \<and> j = k"
  by (auto simp: ex_new_def)

lemma ex_one_ok: "l < 100 \<Longrightarrow> read_req_ok (get_blk_size mem_repl_dev) (ex_one l a b)"
  using word_less_nat_alt [of l 100] by (simp add: read_req_ok_def)

section \<open>The stages\<close>

lemma ex_start:
  assumes "md_next d = k" "k < 1000" "\<not> md_alloc d (ex_new k)"
  shows "write_start mem_repl_dev 0 (ex_one l a b) d = Inr (Inr (DataPending [ex_new k] [a, b]), d\<lparr>md_next := k + 1, md_alloc := (\<lambda>x. md_alloc d x \<or> x = ex_new k)\<rparr>)"
proof -
  have "unat k < 1000" using assms(2) by (simp add: word_less_nat_alt)
  then show ?thesis using assms(1,3) by (simp add: write_start_def md_alloc_blks_def Let_def peek_buf_def peek_def ex_new_fold)
qed

lemma ex_data:
  "write_data_done mem_repl_dev [ex_new k] [a, b] d = (Inr (DataDone [ex_new k]), d\<lparr>md_data := (\<lambda>c j. if c = 0 \<and> j = k then [a, b] else md_data d c j)\<rparr>)"
proof -
  have "(\<lambda>c j. case map_of (zip [ex_new k] [[a, b]]) \<lparr>blk_num = j, blk_count = 1, blk_chunk = c\<rparr> of None \<Rightarrow> md_data d c j | Some x \<Rightarrow> x) = (\<lambda>c j. if c = 0 \<and> j = k then [a, b] else md_data d c j)"
    by (auto simp: fun_eq_iff ex_new_fold)
  then show ?thesis by (simp add: write_data_done_def md_async_write_def Let_def blk_at_def)
qed

lemma ex_index:
  assumes "ft_btree t = map_btree (\<lambda>_. False)" "l < 100"
  shows "write_update_index ex_api (fixed_index_ops ex_api) mem_repl_dev ex_crc (ex_one l a b) [ex_new k] t =
    Inr (Inr (Indexed [ex_new k] (ex_bi l k a b (ft_state t l))), t\<lparr>ft_state := (ft_state t)(l \<mapsto> ex_value k a b)\<rparr>)"
proof -
  have r: "lba_range l l = [l]" "l < - 1" using assms(2) less_trans [of l 100 "- 1"] by (simp_all add: lba_range_def)
  show ?thesis using assms(1)
    by (simp add: write_update_index_def csum_of_data_def peek_buf_def peek_def fixed_index_ops_def fixed_write_to_index_def for_u64_eq r,
      simp add: fixed_put_step_def map_btree_def Let_def info_touch_def info_at_def emplace_def set_old_def ex_api_def ex_bi_def ex_value_def default_info_def split: option.splits)
qed

definition ex_entry :: "volume_id_t \<Rightarrow> io_req \<Rightarrow> u32 \<Rightarrow> blocks_info \<Rightarrow> MsgHeader \<times> u8 list \<times> blk_id list" where
  "ex_entry i req k bi = (\<lparr>msg_type = WRITE, volume_id = i\<rparr>, journal_key ex_api ex_codec req bi, [ex_new k])"

lemma ex_submit:
  "write_submit_journal ex_api ex_codec mem_repl_dev i req [ex_new k] bi d = Inr (Journaled [ex_new k] bi 7, d\<lparr>md_log := md_log d @ [ex_entry i req k bi]\<rparr>)"
  by (simp add: write_submit_journal_def ex_entry_def)

lemma ex_old: "old_blkids_of ex_api (ex_bi l k a b old) = (case old of None \<Rightarrow> [] | Some v \<Rightarrow> if blk_count (iv_blkid v) = 0 then [] else [iv_blkid v])"
  by (simp add: old_blkids_of_def ex_bi_def ex_api_def default_info_def split: option.split)

lemma ex_free: "free_one mem_repl_dev lsn recovery b d = d\<lparr>md_alloc := (md_alloc d)(b := False)\<rparr>"
proof (cases "md_alloc d b")
  case False
  then have "(md_alloc d)(b := False) = md_alloc d" by (simp add: fun_upd_idem)
  then show ?thesis using False by (simp add: free_one_def mem_repl_dev_def)
qed (simp add: free_one_def mem_repl_dev_def)

lemma ex_commit:
  "write_committed ex_api ex_codec ix mem_repl_dev i req bids (ex_bi l k a b old) lsn t d =
     Inr (case old of None \<Rightarrow> d | Some v \<Rightarrow> if blk_count (iv_blkid v) = 0 then d else d\<lparr>md_alloc := (md_alloc d)(iv_blkid v := False)\<rparr>)"
proof -
  have "length (old_blkids_of ex_api (ex_bi l k a b old)) < 2 ^ 16" by (simp add: ex_old split: option.split)
  from on_write_commit [OF ex_codec_ok this, of ix mem_repl_dev lsn req bids "Some t" d] show ?thesis
    by (simp add: write_committed_def on_commit_def ex_old ex_free split: option.split)
qed

section \<open>The run\<close>

definition ex_A :: "lba_t \<Rightarrow> io_req" where
  "ex_A l = ex_one l 20 21"

definition ex_B :: "lba_t \<Rightarrow> io_req" where
  "ex_B l = ex_one l 30 31"

definition ex_t1 :: "lba_t \<Rightarrow> (lba_t \<Rightarrow> index_value option) fixed_table" where
  "ex_t1 la = ex_empty\<lparr>ft_state := [la \<mapsto> ex_value 40 20 21]\<rparr>"

definition ex_t2 :: "lba_t \<Rightarrow> lba_t \<Rightarrow> (lba_t \<Rightarrow> index_value option) fixed_table" where
  "ex_t2 la lb = ex_empty\<lparr>ft_state := [la \<mapsto> ex_value 40 20 21, lb \<mapsto> ex_value 41 30 31]\<rparr>"

definition ex_biA :: "lba_t \<Rightarrow> blocks_info" where
  "ex_biA la = ex_bi la 40 20 21 None"

definition ex_biB :: "lba_t \<Rightarrow> lba_t \<Rightarrow> blocks_info" where
  "ex_biB la lb = ex_bi lb 41 30 31 (if lb = la then Some (ex_value 40 20 21) else None)"

text \<open>The device when both have written their data, and when the second has submitted its entry.\<close>

definition ex_d1 :: mem_dev where
  "ex_d1 = \<lparr>md_next = 42, md_data = (\<lambda>c j. if c = 0 \<and> j = 40 then [20, 21] else if c = 0 \<and> j = 41 then [30, 31] else [1, 1]),
     md_alloc = (\<lambda>x. x = ex_new 40 \<or> x = ex_new 41), md_log = []\<rparr>"

definition ex_d2 :: "volume_id_t \<Rightarrow> lba_t \<Rightarrow> lba_t \<Rightarrow> mem_dev" where
  "ex_d2 i la lb = ex_d1\<lparr>md_log := [ex_entry i (ex_B lb) 41 (ex_biB la lb)]\<rparr>"

definition ex_d3 :: "volume_id_t \<Rightarrow> lba_t \<Rightarrow> lba_t \<Rightarrow> mem_dev" where
  "ex_d3 i la lb = ex_d1\<lparr>md_log := [ex_entry i (ex_B lb) 41 (ex_biB la lb), ex_entry i (ex_A la) 40 (ex_biA la)],
     md_alloc := (\<lambda>x. x = ex_new 40 \<and> lb \<noteq> la \<or> x = ex_new 41)\<rparr>"

lemmas ex_run_defs = ex_A_def ex_B_def ex_t1_def ex_t2_def ex_biA_def ex_biB_def ex_d1_def ex_d2_def ex_d3_def

lemma vol_run_quiet:
  "vol_run serial api codec ix rd crc vol_id ordinal s reqs s1 \<Longrightarrow> vol_step serial api codec ix rd crc vol_id ordinal s1 None s2 \<Longrightarrow> vol_run serial api codec ix rd crc vol_id ordinal s reqs s2"
  using vol_run.step [of serial api codec ix rd crc vol_id ordinal s reqs s1 None s2] by simp

lemma vol_run_index:
  "vol_run serial api codec ix rd crc vol_id ordinal s reqs s1 \<Longrightarrow> vol_step serial api codec ix rd crc vol_id ordinal s1 (Some req) s2 \<Longrightarrow> vol_run serial api codec ix rd crc vol_id ordinal s (reqs @ [req]) s2"
  using vol_run.step [of serial api codec ix rd crc vol_id ordinal s reqs s1 "Some req" s2] by simp

lemma vol_run_trans:
  assumes "vol_run serial api codec ix rd crc vol_id ordinal s1 reqs2 s2" "vol_run serial api codec ix rd crc vol_id ordinal s reqs1 s1"
  shows "vol_run serial api codec ix rd crc vol_id ordinal s (reqs1 @ reqs2) s2"
  using assms
proof (induction rule: vol_run.induct)
  case (step reqs s2 l s3)
  then show ?case using vol_run.step [OF step.IH step.hyps(2)] by simp
qed simp

text \<open>Both start and write their data, and the first updates the index.\<close>

lemma ex_run_first:
  assumes "la < 100" "lb < 100" "serial \<longrightarrow> la \<noteq> lb"
  shows "vol_run serial ex_api ex_codec (fixed_index_ops ex_api) mem_repl_dev ex_crc i 0 (ex_empty, ex_dev, {#}) [ex_A la]
    (ex_t1 la, ex_d1, {#(ex_A la, Indexed [ex_new 40] (ex_biA la)), (ex_B lb, DataDone [ex_new 41])#})"
proof -
  let ?step = "vol_step serial ex_api ex_codec (fixed_index_ops ex_api) mem_repl_dev ex_crc i 0"
  let ?A = "ex_one la 20 21" and ?B = "ex_one lb 30 31"
  let ?da = "ex_dev\<lparr>md_next := 41, md_alloc := (\<lambda>x. x = ex_new 40)\<rparr>"
  let ?db = "ex_dev\<lparr>md_next := 42, md_alloc := (\<lambda>x. x = ex_new 40 \<or> x = ex_new 41)\<rparr>"
  let ?dc = "?db\<lparr>md_data := (\<lambda>c j. if c = 0 \<and> j = 41 then [30, 31] else [1, 1])\<rparr>"
  have "write_start mem_repl_dev 0 ?A ex_dev = Inr (Inr (DataPending [ex_new 40] [20, 21]), ?da)" using ex_start [of ex_dev 40 la 20 21] by (simp add: ex_dev_def)
  then have 1: "?step (ex_empty, ex_dev, {#}) None (ex_empty, ?da, {#(?A, DataPending [ex_new 40] [20, 21])#})" by (intro vol_step.start ex_one_ok assms) simp_all
  have ov: "\<not> overlapping ?B ?A" if "la \<noteq> lb" using that by (auto simp: overlapping_def word_unat_eq_iff)
  have "write_start mem_repl_dev 0 ?B ?da = Inr (Inr (DataPending [ex_new 41] [30, 31]), ?db)" using ex_start [of ?da 41 lb 30 31] by (simp add: ex_dev_def)
  then have 2: "?step (ex_empty, ?da, {#(?A, DataPending [ex_new 40] [20, 21])#}) None (ex_empty, ?db, {#(?B, DataPending [ex_new 41] [30, 31]), (?A, DataPending [ex_new 40] [20, 21])#})"
    by (intro vol_step.start ex_one_ok assms) (use assms(3) ov in simp_all)
  have "write_data_done mem_repl_dev [ex_new 41] [30, 31] ?db = (Inr (DataDone [ex_new 41]), ?dc)" by (simp add: ex_data ex_dev_def cong: if_cong)
  then have 3: "?step (ex_empty, ?db, {#(?B, DataPending [ex_new 41] [30, 31]), (?A, DataPending [ex_new 40] [20, 21])#}) None
      (ex_empty, ?dc, {#(?B, DataDone [ex_new 41]), (?A, DataPending [ex_new 40] [20, 21])#})" by (rule vol_step.data)
  have "write_data_done mem_repl_dev [ex_new 40] [20, 21] ?dc = (Inr (DataDone [ex_new 40]), ex_d1)" by (simp add: ex_data ex_dev_def ex_d1_def cong: if_cong)
  then have 4: "?step (ex_empty, ?dc, {#(?A, DataPending [ex_new 40] [20, 21]), (?B, DataDone [ex_new 41])#}) None
      (ex_empty, ex_d1, {#(?A, DataDone [ex_new 40]), (?B, DataDone [ex_new 41])#})" by (rule vol_step.data)
  have "write_update_index ex_api (fixed_index_ops ex_api) mem_repl_dev ex_crc ?A [ex_new 40] ex_empty = Inr (Inr (Indexed [ex_new 40] (ex_biA la)), ex_t1 la)"
    using ex_index [of ex_empty la 20 21 40] assms(1) by (simp add: ex_empty_def ex_t1_def ex_biA_def)
  then have 5: "?step (ex_empty, ex_d1, {#(?A, DataDone [ex_new 40]), (?B, DataDone [ex_new 41])#}) (Some ?A)
      (ex_t1 la, ex_d1, {#(?A, Indexed [ex_new 40] (ex_biA la)), (?B, DataDone [ex_new 41])#})" by (rule vol_step.index)
  show ?thesis
    using vol_run_index [OF vol_run_quiet [OF vol_run_quiet [OF vol_run_quiet [OF vol_run_quiet [OF vol_run.none 1] 2] 3] 4 [unfolded add_mset_commute [of "(?A, DataPending [ex_new 40] [20, 21])"]]] 5]
    by (simp add: ex_A_def ex_B_def)
qed

text \<open>The second updates the index and submits its entry.\<close>

lemma ex_run_second:
  assumes "lb < 100"
  shows "vol_run serial ex_api ex_codec (fixed_index_ops ex_api) mem_repl_dev ex_crc i 0 (ex_t1 la, ex_d1, {#(ex_A la, Indexed [ex_new 40] (ex_biA la)), (ex_B lb, DataDone [ex_new 41])#}) [ex_B lb]
    (ex_t2 la lb, ex_d2 i la lb, {#(ex_B lb, Journaled [ex_new 41] (ex_biB la lb) 7), (ex_A la, Indexed [ex_new 40] (ex_biA la))#})"
proof -
  let ?step = "vol_step serial ex_api ex_codec (fixed_index_ops ex_api) mem_repl_dev ex_crc i 0"
  let ?A = "(ex_A la, Indexed [ex_new 40] (ex_biA la))"
  have "write_update_index ex_api (fixed_index_ops ex_api) mem_repl_dev ex_crc (ex_B lb) [ex_new 41] (ex_t1 la) = Inr (Inr (Indexed [ex_new 41] (ex_biB la lb)), ex_t2 la lb)"
    using ex_index [of "ex_t1 la" lb 30 31 41] assms by (simp add: ex_empty_def ex_run_defs)
  then have 1: "?step (ex_t1 la, ex_d1, {#(ex_B lb, DataDone [ex_new 41]), ?A#}) (Some (ex_B lb)) (ex_t2 la lb, ex_d1, {#(ex_B lb, Indexed [ex_new 41] (ex_biB la lb)), ?A#})" by (rule vol_step.index)
  have "write_submit_journal ex_api ex_codec mem_repl_dev i (ex_B lb) [ex_new 41] (ex_biB la lb) ex_d1 = Inr (Journaled [ex_new 41] (ex_biB la lb) 7, ex_d2 i la lb)"
    by (simp add: ex_submit ex_d1_def ex_d2_def)
  then have 2: "?step (ex_t2 la lb, ex_d1, {#(ex_B lb, Indexed [ex_new 41] (ex_biB la lb)), ?A#}) None (ex_t2 la lb, ex_d2 i la lb, {#(ex_B lb, Journaled [ex_new 41] (ex_biB la lb) 7), ?A#})"
    by (rule vol_step.journal)
  show ?thesis using vol_run_quiet [OF vol_run_index [OF vol_run.none 1] 2] by (simp add: add_mset_commute)
qed

text \<open>The first submits its entry, and both are committed in the order of the journal.\<close>

lemma ex_run_third:
  "vol_run serial ex_api ex_codec (fixed_index_ops ex_api) mem_repl_dev ex_crc i 0
     (ex_t2 la lb, ex_d2 i la lb, {#(ex_B lb, Journaled [ex_new 41] (ex_biB la lb) 7), (ex_A la, Indexed [ex_new 40] (ex_biA la))#}) [] (ex_t2 la lb, ex_d3 i la lb, {#})"
proof -
  let ?step = "vol_step serial ex_api ex_codec (fixed_index_ops ex_api) mem_repl_dev ex_crc i 0"
  let ?B = "(ex_B lb, Journaled [ex_new 41] (ex_biB la lb) 7)" and ?A = "(ex_A la, Journaled [ex_new 40] (ex_biA la) 7)"
  let ?d = "(ex_d2 i la lb)\<lparr>md_log := [ex_entry i (ex_B lb) 41 (ex_biB la lb), ex_entry i (ex_A la) 40 (ex_biA la)]\<rparr>"
  have "write_submit_journal ex_api ex_codec mem_repl_dev i (ex_A la) [ex_new 40] (ex_biA la) (ex_d2 i la lb) = Inr (Journaled [ex_new 40] (ex_biA la) 7, ?d)"
    by (simp add: ex_submit ex_d2_def)
  then have 1: "?step (ex_t2 la lb, ex_d2 i la lb, {#(ex_A la, Indexed [ex_new 40] (ex_biA la)), ?B#}) None (ex_t2 la lb, ?d, {#?A, ?B#})" by (rule vol_step.journal)
  have "(\<lambda>x. x = ex_new 40 \<or> x = ex_new 41)(ex_new 40 := False) = (\<lambda>x. x = ex_new 41)" by (auto simp: fun_eq_iff)
  then have "write_committed ex_api ex_codec (fixed_index_ops ex_api) mem_repl_dev i (ex_B lb) [ex_new 41] (ex_biB la lb) 7 (ex_t2 la lb) ?d = Inr (ex_d3 i la lb)"
    by (simp add: ex_biB_def ex_commit ex_d1_def ex_d2_def ex_d3_def ex_value_def)
  then have 2: "?step (ex_t2 la lb, ?d, {#?B, ?A#}) None (ex_t2 la lb, ex_d3 i la lb, {#?A#})" by (rule vol_step.commit)
  have "write_committed ex_api ex_codec (fixed_index_ops ex_api) mem_repl_dev i (ex_A la) [ex_new 40] (ex_biA la) 7 (ex_t2 la lb) (ex_d3 i la lb) = Inr (ex_d3 i la lb)"
    by (simp add: ex_biA_def ex_commit)
  then have 3: "?step (ex_t2 la lb, ex_d3 i la lb, {#?A#}) None (ex_t2 la lb, ex_d3 i la lb, {#})" by (rule vol_step.commit)
  show ?thesis using vol_run_quiet [OF vol_run_quiet [OF vol_run_quiet [OF vol_run.none 1] 2 [unfolded add_mset_commute [of ?B]]] 3] by (simp add: add_mset_commute)
qed

section \<open>Replaying the entries\<close>

lemma ex_info_ok:
  assumes "k < 1000"
  shows "info_ok ex_api (ex_one l a b) [ex_new k] (ex_bi l k a b old)"
proof -
  have "unat k < 1000" using assms by (simp add: word_less_nat_alt)
  moreover have "info_new (ex_bi l k a b old) = upd_range (unat l) 1 (blk_val [ex_new k] (\<lambda>_. ex_crc init_crc_16 [a, b])) (\<lambda>_. None)"
    by (auto simp: info_new_def ex_bi_def upd_range_def blk_val_def fun_eq_iff word_unat_eq_iff split: option.split)
  moreover have "length (old_blkids_of ex_api (ex_bi l k a b old)) < 2 ^ 16" by (simp add: ex_old split: option.split)
  ultimately show ?thesis by (auto simp: info_ok_def new_blks_ok_def pieces_wf_def)
qed

lemma ex_new_at: "info_new (ex_bi l k a b old) = [l \<mapsto> ex_value k a b]"
  by (auto simp: info_new_def ex_bi_def ex_value_def fun_eq_iff split: option.split)

lemma ex_replay_one:
  assumes "ft_btree t = map_btree (\<lambda>_. False)" "k < 1000" "l < 100"
  shows "\<exists>t'. replay_log ex_api ex_codec (fixed_index_ops ex_api) mem_repl_dev [ex_entry i (ex_one l a b) k (ex_bi l k a b old)] lsn (Some t, d) =
      Inr (Some t', fold (free_one mem_repl_dev lsn True) (old_blkids_of ex_api (ex_bi l k a b old)) d) \<and>
    ft_btree t' = map_btree (\<lambda>_. False) \<and> fixed_view t' = (fixed_view t)(l \<mapsto> ex_value k a b)"
proof -
  let ?bi = "ex_bi l k a b old" and ?r = "ex_one l a b"
  have inv: "fixed_invar t" by (simp add: fixed_invar_def assms(1) map_btree_ok)
  have acc: "accepts (fixed_write_to_index ex_api) (\<lambda>t'. ft_btree t' = ft_btree t)" by (rule fixed_ops_accept) (simp add: assms(1) map_btree_def)
  obtain cs where B: "pieces_wf [ex_new k]" "length (all_blks [ex_new k]) = unat (req_nlbas ?r)" "length (old_blkids_of ex_api ?bi) < 2 ^ 16"
    "info_new ?bi = upd_range (unat (req_lba ?r)) (unat (req_nlbas ?r)) (blk_val (all_blks [ex_new k]) cs) (\<lambda>_. None)"
    using ex_info_ok [OF assms(2)] unfolding info_ok_def new_blks_ok_def by blast
  have E: "unat (req_lba ?r) + unat (req_nlbas ?r) < 2 ^ 32" using ex_one_ok [OF assms(3)] by (simp only: read_req_ok_def)
  note R = fixed_low.replay_entry [OF inv ex_codec_ok B(1,2) E refl refl B(4,3), folded fixed_index_ops_def]
  obtain t' where t': "on_write ex_api ex_codec (fixed_index_ops ex_api) mem_repl_dev lsn True (journal_key ex_api ex_codec ?r ?bi) [ex_new k] (Some t, d) =
      Inr (Some t', fold (free_one mem_repl_dev lsn True) (old_blkids_of ex_api ?bi) d)" "ft_btree t' = ft_btree t"
    using R(2) [OF acc refl, of mem_repl_dev lsn d] by blast
  have "fixed_view t' = upd_range (unat (req_lba ?r)) (unat (req_nlbas ?r)) (blk_val (all_blks [ex_new k]) cs) (fixed_view t)" using R(1) [OF t'(1)] by blast
  moreover have "upd_range (unat (req_lba ?r)) (unat (req_nlbas ?r)) (blk_val (all_blks [ex_new k]) cs) v = v ++ info_new ?bi" for v
    by (auto simp: B(4) fun_eq_iff upd_range_def map_add_def)
  ultimately have "fixed_view t' = (fixed_view t)(l \<mapsto> ex_value k a b)" by (simp add: ex_new_at)
  then show ?thesis using t' assms(1) by (simp add: ex_entry_def on_commit_def)
qed

end
