(* ===== verification/Volume_Runs.thy ===== *)
theory Volume_Runs
  imports Volume_Run_Example
begin

text \<open>
  The properties of concurrent requests on a volume: writes take effect in the order of their index updates, the journal restores them when overlapping writes are not in flight together and does not
  otherwise, and a read that is overtaken by writes elsewhere returns what the volume held.
\<close>

section \<open>Addresses no write touches\<close>

lemma store_req_out: "x < 2 ^ 64 \<Longrightarrow> \<not> in_req req (of_nat x) \<Longrightarrow> store_req bs req img x = img x"
  by (auto simp: store_req_def in_req_def unat_of_nat split: option.split)

lemma fold_store_out:
  assumes "x < 2 ^ 64" "\<not> in_reqs reqs (of_nat x)"
  shows "fold (store_req bs) reqs img x = img x"
  using assms(2) by (induction reqs arbitrary: img) (simp_all add: store_req_out [OF assms(1)])

lemma ledger_none: "vol_ledger api rd crc view d {#} \<longleftrightarrow> mapped_ok rd d view \<and> mapped_csums_ok crc rd d view"
  by (simp add: vol_ledger_def)

context volume_index_low
begin

lemma vol_step_view:
  assumes env: "dev_ok rd" "api_ok api" "ix = \<lparr>ix_write = write_to_index, ix_read = read_from_index\<rparr>"
    and inv: "invar t" and led: "vol_ledger api rd crc (view t) d W" and st: "vol_step serial api codec ix rd crc vol_id ordinal (t, d, W) l (t', d', W')"
    and x: "\<forall>req. l = Some req \<longrightarrow> \<not> in_req req x"
  shows "view t' x = view t x"
  using st
proof (cases rule: vol_step.cases)
  case (index req bids ph V)
  obtain data where "view t' = upd_range (unat (req_lba req)) (unat (req_nlbas req)) (blk_val (all_blks bids) (\<lambda>k. crc init_crc_16 (blk_at (unat (get_blk_size rd)) data k))) (view t)"
    by (rule index_facts [OF inv env(1,2) led [unfolded index(1)] env(3) index(5)]) blast
  moreover have "\<not> in_req req x" using x index by simp
  ultimately show ?thesis by (auto simp: upd_range_def in_req_def)
qed simp_all

lemma vol_run_view:
  assumes run: "vol_run serial api codec ix rd crc vol_id ordinal (t, d, W) reqs (t', d', W')"
    and env: "dev_ok rd" "api_ok api" "blk_codec_ok codec" "ix = \<lparr>ix_write = write_to_index, ix_read = read_from_index\<rparr>"
    and inv: "invar t" and led: "vol_ledger api rd crc (view t) d W" and x: "\<not> in_reqs reqs x"
  shows "view t' x = view t x"
proof -
  have "\<not> in_reqs reqs x \<longrightarrow> view (fst s) x = view t x" if "vol_run serial api codec ix rd crc vol_id ordinal (t, d, W) reqs s" for reqs s
    using that
  proof (induction rule: vol_run.induct)
    case (step reqs s1 l s2)
    obtain t1 d1 W1 where s1: "s1 = (t1, d1, W1)" "invar t1" "vol_ledger api rd crc (view t1) d1 W1" using vol_run_keeps [OF step.hyps(1) env inv led] by blast
    obtain t2 d2 W2 where s2: "s2 = (t2, d2, W2)" by (cases s2)
    show ?case
    proof
      assume "\<not> in_reqs (reqs @ (case l of None \<Rightarrow> [] | Some req \<Rightarrow> [req])) x"
      then have n: "\<not> in_reqs reqs x" "\<forall>req. l = Some req \<longrightarrow> \<not> in_req req x" by (auto simp: in_reqs_def split: option.splits)
      then show "view (fst s2) x = view t x"
        using vol_step_view [OF env(1,2,4) s1(2,3) step.hyps(2) [unfolded s1(1) s2]] step.IH s1(1) s2 by simp
    qed
  qed simp
  then show ?thesis using run x by fastforce
qed

lemma run_linearized:
  assumes run: "vol_run serial api codec ix rd crc vol_id ordinal (t, d, {#}) reqs (t', d', W)"
    and env: "dev_ok rd" "api_ok api" "blk_codec_ok codec" "ix = \<lparr>ix_write = write_to_index, ix_read = read_from_index\<rparr>"
    and inv: "invar t" and led: "mapped_ok rd d (view t)" "mapped_csums_ok crc rd d (view t)"
  shows "(\<forall>x<2 ^ 64. block_image rd d' (view t') x = fold (store_req (unat (get_blk_size rd))) reqs (block_image rd d (view t)) x) \<and>
    mapped_ok rd d' (view t') \<and> mapped_csums_ok crc rd d' (view t') \<and>
    (\<forall>b\<in>#held api W. count (held api W) b = 1 \<and> alloced rd d' b \<and> (\<forall>x v. view t' x = Some v \<longrightarrow> iv_blkid v \<noteq> b))"
proof -
  have led0: "vol_ledger api rd crc (view t) d {#}" using led by (simp add: ledger_none)
  have K: "vol_ledger api rd crc (view t') d' W" "\<forall>x<2 ^ 64. block_image rd d' (view t') x = fold (store_req (unat (get_blk_size rd))) reqs (block_image rd d (view t)) x"
    using vol_run_keeps [OF run env inv led0] by auto
  note L = ledgerD [OF K(1)]
  have "count (held api W) b = 1" if "b \<in># held api W" for b
    using L(3) [of b] that by (simp add: le_Suc_eq not_in_iff [symmetric])
  then show ?thesis using K(2) L(1,2,5,6) by blast
qed

lemma run_restored:
  assumes run: "vol_run True api codec ix rd crc vol_id ordinal (t, d, {#}) reqs (t', d', W)"
    and env: "dev_ok rd" "api_ok api" "blk_codec_ok codec" "ix = \<lparr>ix_write = write_to_index, ix_read = read_from_index\<rparr>"
    and inv: "invar t" and led: "mapped_ok rd d (view t)" "mapped_csums_ok crc rd d (view t)"
  shows "\<exists>es. journal_log rd d' = journal_log rd d @ es \<and>
    (\<forall>t0 d0 lsn. invar t0 \<longrightarrow> (\<forall>x. \<not> in_reqs reqs x \<longrightarrow> view t0 x = view t x) \<longrightarrow> blk_data rd d0 = blk_data rd d' \<longrightarrow>
       (\<forall>r d1. replay_log api codec ix rd es lsn (Some t0, d0) = Inr (r, d1) \<longrightarrow>
          (\<exists>t1. r = Some t1 \<and> (\<forall>x. \<not> unjournaled W x \<longrightarrow> view t1 x = view t' x) \<and>
            (\<forall>x<2 ^ 64. \<not> unjournaled W (of_nat x) \<longrightarrow> block_image rd d1 (view t1) x = block_image rd d' (view t') x))) \<and>
       (\<forall>S. accepts write_to_index S \<longrightarrow> S t0 \<longrightarrow> (\<exists>r d1. replay_log api codec ix rd es lsn (Some t0, d0) = Inr (r, d1))))"
proof -
  have led0: "vol_ledger api rd crc (view t) d {#}" using led by (simp add: ledger_none)
  have "journal_inv api codec ix rd view invar (journal_log rd d) (view t) reqs (t', d', W)" by (rule vol_run_journal [OF run env inv led0])
  then obtain es g where J: "journal_log rd d' = journal_log rd d @ es" "log_effect api codec ix rd view invar es g"
    "\<forall>x. \<not> unjournaled W x \<longrightarrow> view t' x = (view t ++ g) x" "\<forall>x. in_reqs reqs x \<longleftrightarrow> x \<in> dom g \<or> unjournaled W x"
    unfolding journal_inv_def prod.inject by blast
  note E = J(2) [unfolded log_effect_def]
  have "\<exists>t1. r = Some t1 \<and> (\<forall>x. \<not> unjournaled W x \<longrightarrow> view t1 x = view t' x) \<and>
      (\<forall>x<2 ^ 64. \<not> unjournaled W (of_nat x) \<longrightarrow> block_image rd d1 (view t1) x = block_image rd d' (view t') x)"
    if A: "invar t0" "\<forall>x. \<not> in_reqs reqs x \<longrightarrow> view t0 x = view t x" "blk_data rd d0 = blk_data rd d'" "replay_log api codec ix rd es lsn (Some t0, d0) = Inr (r, d1)" for t0 d0 lsn r d1
  proof -
    obtain t1 where t1: "r = Some t1" "view t1 = view t0 ++ g" "blk_data rd d1 = blk_data rd d0"
      using conjunct1 [OF E, rule_format, OF A(1,4)] by auto
    have v: "view t1 x = view t' x" if "\<not> unjournaled W x" for x
    proof (cases "x \<in> dom g")
      case True
      then show ?thesis using J(3) that t1(2) by (auto simp: map_add_def)
    next
      case False
      then have "view t0 x = view t x" using A(2) J(4) that by blast
      then show ?thesis using J(3) that t1(2) by (simp add: map_add_def split: option.split)
    qed
    then show ?thesis using t1(1,3) A(3) by (auto simp: block_image_def split: option.split)
  qed
  moreover have "\<exists>r d1. replay_log api codec ix rd es lsn (Some t0, d0) = Inr (r, d1)" if "invar t0" "accepts write_to_index S" "S t0" for t0 d0 lsn S
    using conjunct2 [OF E, rule_format, of t0 S] that env(4) by fastforce
  ultimately show ?thesis using J(1) by (intro exI [of _ es] conjI allI impI) blast+
qed

lemma run_overtakes_read:
  assumes env: "dev_ok rd" "api_ok api" "blk_codec_ok codec" "ix = \<lparr>ix_write = write_to_index, ix_read = read_from_index\<rparr>"
    and inv: "invar t" and led: "mapped_ok rd d (view t)" "mapped_csums_ok crc rd d (view t)"
    and run1: "vol_run serial api codec ix rd crc vol_id ordinal (t, d, {#}) reqs1 (t1, d1, W1)"
    and req: "read_req_ok (get_blk_size rd) req" and idx: "read_from_index (req_lba req) (end_lba req) t1 = (Inr kvs, t2)"
    and run2: "vol_run serial api codec ix rd crc vol_id ordinal (t2, d1, W1) reqs2 (t3, d3, W3)" and sep: "\<forall>x. in_req req x \<longrightarrow> \<not> in_reqs reqs2 x"
  shows "\<exists>res d4. read_blocks rd crc fc req kvs d3 = Inr (res, d4) \<and> \<not> rr_contained res \<and>
    (rr_status res = Inr () \<longrightarrow> rr_mem res =
       Some (concat (map (fold (store_req (unat (get_blk_size rd))) reqs1 (block_image rd d (view t))) [unat (req_lba req)..<unat (req_lba req) + unat (req_nlbas req)]))) \<and>
    (\<forall>e. rr_status res = Inl e \<longrightarrow> (\<exists>blk sz d0. fst (async_read rd blk sz d0) = Inl e))"
proof -
  let ?L = "unat (req_lba req)" and ?n = "unat (req_nlbas req)" and ?st = "store_req (unat (get_blk_size rd))"
  have led0: "vol_ledger api rd crc (view t) d {#}" using led by (simp add: ledger_none)
  have K1: "invar t1" "vol_ledger api rd crc (view t1) d1 W1" "\<forall>x<2 ^ 64. block_image rd d1 (view t1) x = fold ?st reqs1 (block_image rd d (view t)) x"
    using vol_run_keeps [OF run1 env inv led0] by auto
  have R: "invar t2" "view t2 = view t1" "entries_between (view t1) (req_lba req) (end_lba req) kvs" using read_ok [OF K1(1) idx] by auto
  note led2 = K1(2) [folded R(2)]
  have K3: "vol_ledger api rd crc (view t3) d3 W3" "\<forall>x<2 ^ 64. block_image rd d3 (view t3) x = fold ?st reqs2 (block_image rd d1 (view t1)) x"
    using vol_run_keeps [OF run2 env R(1) led2] R(2) by auto
  have same: "view t3 x = view t1 x" if "in_req req x" for x using vol_run_view [OF run2 env R(1) led2] sep that R(2) by simp
  have b: "?L + ?n < 2 ^ 32" "0 < ?n" "0 < req_nlbas req" using req by (auto simp: read_req_ok_def unat_gt_0 word_gt_0)
  then have "view t3 x = view t1 x" if "req_lba req \<le> x" "x \<le> end_lba req" for x
    using same [of x] that end_lba_unat [of req] by (simp add: in_req_def word_le_nat_alt)
  then have ent: "entries_between (view t3) (req_lba req) (end_lba req) kvs" using R(3) by (auto simp: entries_between_def)
  have img: "block_image rd d3 (view t3) x = fold ?st reqs1 (block_image rd d (view t)) x" if "x \<in> set [?L..<?L + ?n]" for x
  proof -
    have x: "x < 2 ^ 64" "in_req req (of_nat x)" using that b(1) by (simp_all add: in_req_def unat_of_nat)
    then show ?thesis using K1(3) K3(2) fold_store_out [OF x(1)] sep by simp
  qed
  have "volume_image rd d3 (view t3) ?L ?n = concat (map (fold ?st reqs1 (block_image rd d (view t))) [?L..<?L + ?n])"
    unfolding volume_image_def by (intro arg_cong [where f = concat] map_cong refl) (rule img)
  moreover have "image_ok crc rd d3 (view t3) ?L ?n" using ledgerD(2) [OF K3(1)] by (auto simp: image_ok_def mapped_csums_ok_def block_image_def)
  moreover have "dev_read_ok rd" using env(1) by (simp add: dev_ok_def)
  note read_blocks_correct [OF this req ent, of crc fc d3]
  ultimately show ?thesis by auto
qed

end

section \<open>The properties\<close>

text \<open>
  C6. Concurrent writes take effect one after the other: however the stages of any number of writes are interleaved, overlapping ones included, the volume holds at every moment what it held before with the requests
  stored in the order of their index updates. At every moment every mapped block is allocated, mapped once and has the checksum the index records, and a block a write in flight holds, to map it or to free
  it, is allocated, is held by that write only and is not mapped, so that no write overwrites or frees a block another one or a reader of the index uses.
\<close>

theorem concurrent_writes_linearize:
  fixes t :: "'t fixed_table"
  assumes "btree_ok (ft_btree t)" "dev_ok rd" "api_ok api" "blk_codec_ok codec" "mapped_ok rd d (fixed_view t)" "mapped_csums_ok crc rd d (fixed_view t)"
    and "vol_run serial api codec (fixed_index_ops api) rd crc vol_id ordinal (t, d, {#}) reqs (t', d', W)"
  shows "(\<forall>x<2 ^ 64. block_image rd d' (fixed_view t') x = fold (store_req (unat (get_blk_size rd))) reqs (block_image rd d (fixed_view t)) x) \<and>
    mapped_ok rd d' (fixed_view t') \<and> mapped_csums_ok crc rd d' (fixed_view t') \<and>
    (\<forall>b\<in>#held api W. count (held api W) b = 1 \<and> alloced rd d' b \<and> (\<forall>x v. fixed_view t' x = Some v \<longrightarrow> iv_blkid v \<noteq> b))"
  using fixed_low.run_linearized [OF assms(7,2-4) fixed_index_ops_def _ assms(5,6)] assms(1) by (simp add: fixed_invar_def)

lemma ex_csums: "mapped_csums_ok ex_crc mem_repl_dev ex_dev (fixed_view ex_empty)"
  by (simp add: mapped_csums_ok_def fixed_view_def ex_empty_def map_btree_def)

lemma ex_image_none: "block_image mem_repl_dev ex_dev (fixed_view ex_empty) = (\<lambda>_. [0, 0])"
  by (intro ext) (simp add: block_image_def fixed_view_def ex_empty_def map_btree_def)

lemmas ex_run_two = vol_run_trans [OF ex_run_second ex_run_first, simplified]

theorem concurrent_writes_linearize_witness:
  "\<exists>W. vol_run False ex_api ex_codec (fixed_index_ops ex_api) mem_repl_dev ex_crc 1 0 (ex_empty, ex_dev, {#}) [ex_A 6, ex_B 6] (ex_t2 6 6, ex_d2 1 6 6, W) \<and>
     block_image mem_repl_dev (ex_d2 1 6 6) (fixed_view (ex_t2 6 6)) 6 = [30, 31] \<and> held ex_api W = {#ex_new 40#} \<and> alloced mem_repl_dev (ex_d2 1 6 6) (ex_new 40)"
proof -
  let ?W = "{#(ex_B 6, Journaled [ex_new 41] (ex_biB 6 6) 7), (ex_A 6, Indexed [ex_new 40] (ex_biA 6))#}"
  have run: "vol_run False ex_api ex_codec (fixed_index_ops ex_api) mem_repl_dev ex_crc 1 0 (ex_empty, ex_dev, {#}) [ex_A 6, ex_B 6] (ex_t2 6 6, ex_d2 1 6 6, ?W)"
    by (rule ex_run_two) simp_all
  have h: "held ex_api ?W = {#ex_new 40#}" by (simp add: ex_biA_def ex_biB_def ex_old ex_value_def)
  note K = concurrent_writes_linearize [OF ex_empty_ok md_dev_ok ex_api_ok ex_codec_ok ex_mapped ex_csums run]
  have "block_image mem_repl_dev (ex_d2 1 6 6) (fixed_view (ex_t2 6 6)) 6 = [30, 31]"
    using conjunct1 [OF K, rule_format, of 6] by (simp add: ex_A_def ex_B_def store_req_def blk_at_def)
  moreover have "alloced mem_repl_dev (ex_d2 1 6 6) (ex_new 40)" using K unfolding h by simp
  ultimately show ?thesis using run h by blast
qed

text \<open>
  C7. The journal restores concurrent writes that do not overlap: when no two overlapping writes are in flight together, then at every moment of the run the journal holds entries such that their replay, on an index that lost any
  part of the updates of the run, maps every address as the index does at that moment, and the volume holds the same there, except for the writes that have updated the index and are not in the journal yet,
  which are not acknowledged. The replay returns when the B-tree accepts its puts.
\<close>

theorem concurrent_writes_survive_crash:
  fixes t :: "'t fixed_table"
  assumes "btree_ok (ft_btree t)" "dev_ok rd" "api_ok api" "blk_codec_ok codec" "mapped_ok rd d (fixed_view t)" "mapped_csums_ok crc rd d (fixed_view t)"
    and "vol_run True api codec (fixed_index_ops api) rd crc vol_id ordinal (t, d, {#}) reqs (t', d', W)"
  shows "\<exists>es. journal_log rd d' = journal_log rd d @ es \<and>
    (\<forall>(t0 :: 't fixed_table) d0 lsn. btree_ok (ft_btree t0) \<longrightarrow> (\<forall>x. \<not> in_reqs reqs x \<longrightarrow> fixed_view t0 x = fixed_view t x) \<longrightarrow> blk_data rd d0 = blk_data rd d' \<longrightarrow>
       (\<forall>r d1. replay_log api codec (fixed_index_ops api) rd es lsn (Some t0, d0) = Inr (r, d1) \<longrightarrow>
          (\<exists>t1. r = Some t1 \<and> (\<forall>x. \<not> unjournaled W x \<longrightarrow> fixed_view t1 x = fixed_view t' x) \<and>
            (\<forall>x<2 ^ 64. \<not> unjournaled W (of_nat x) \<longrightarrow> block_image rd d1 (fixed_view t1) x = block_image rd d' (fixed_view t') x))) \<and>
       ((\<forall>k v s. fst (fst (bt_put (ft_btree t0) k v s))) \<longrightarrow> (\<exists>r d1. replay_log api codec (fixed_index_ops api) rd es lsn (Some t0, d0) = Inr (r, d1))))"
proof -
  have inv: "fixed_invar t0 \<longleftrightarrow> btree_ok (ft_btree t0)" for t0 :: "'t fixed_table" by (simp add: fixed_invar_def)
  have acc: "accepts (fixed_write_to_index api) (\<lambda>t'. ft_btree t' = ft_btree t0)" if "\<forall>k v s. fst (fst (bt_put (ft_btree t0) k v s))" for t0 :: "'t fixed_table"
    by (rule fixed_ops_accept [OF that])
  from fixed_low.run_restored [OF assms(7,2-4) fixed_index_ops_def assms(1) [folded inv] assms(5,6), unfolded inv] obtain es where "journal_log rd d' = journal_log rd d @ es"
    and E: "\<forall>(t0 :: 't fixed_table) d0 lsn. btree_ok (ft_btree t0) \<longrightarrow> (\<forall>x. \<not> in_reqs reqs x \<longrightarrow> fixed_view t0 x = fixed_view t x) \<longrightarrow> blk_data rd d0 = blk_data rd d' \<longrightarrow>
       (\<forall>r d1. replay_log api codec (fixed_index_ops api) rd es lsn (Some t0, d0) = Inr (r, d1) \<longrightarrow>
          (\<exists>t1. r = Some t1 \<and> (\<forall>x. \<not> unjournaled W x \<longrightarrow> fixed_view t1 x = fixed_view t' x) \<and>
            (\<forall>x<2 ^ 64. \<not> unjournaled W (of_nat x) \<longrightarrow> block_image rd d1 (fixed_view t1) x = block_image rd d' (fixed_view t') x))) \<and>
       (\<forall>S. accepts (fixed_write_to_index api) S \<longrightarrow> S t0 \<longrightarrow> (\<exists>r d1. replay_log api codec (fixed_index_ops api) rd es lsn (Some t0, d0) = Inr (r, d1)))"
    by (elim exE conjE) (rule that)
  then show ?thesis using acc by (intro exI [of _ es] conjI allI impI) (assumption | blast)+
qed

theorem concurrent_writes_survive_crash_witness:
  "\<exists>W t1 d1. vol_run True ex_api ex_codec (fixed_index_ops ex_api) mem_repl_dev ex_crc 1 0 (ex_empty, ex_dev, {#}) [ex_A 6, ex_B 9] (ex_t2 6 9, ex_d2 1 6 9, W) \<and>
     replay_log ex_api ex_codec (fixed_index_ops ex_api) mem_repl_dev (journal_log mem_repl_dev (ex_d2 1 6 9)) 7 (Some ex_empty, ex_d2 1 6 9) = Inr (Some t1, d1) \<and>
     unjournaled W 6 \<and> \<not> unjournaled W 9 \<and> fixed_view t1 9 = Some (ex_value 41 30 31)"
proof -
  let ?W = "{#(ex_B 9, Journaled [ex_new 41] (ex_biB 6 9) 7), (ex_A 6, Indexed [ex_new 40] (ex_biA 6))#}"
  have run: "vol_run True ex_api ex_codec (fixed_index_ops ex_api) mem_repl_dev ex_crc 1 0 (ex_empty, ex_dev, {#}) [ex_A 6, ex_B 9] (ex_t2 6 9, ex_d2 1 6 9, ?W)"
    by (rule ex_run_two) simp_all
  have u: "unjournaled ?W 6" "\<not> unjournaled ?W 9" by (simp_all add: in_req_def ex_A_def)
  have put: "\<forall>k v s. fst (fst (bt_put (ft_btree ex_empty) k v s))" by (simp add: ex_empty_def map_btree_def)
  have log: "journal_log mem_repl_dev ex_dev = []" by (simp add: ex_dev_def)
  from concurrent_writes_survive_crash [OF ex_empty_ok md_dev_ok ex_api_ok ex_codec_ok ex_mapped ex_csums run, unfolded log append_Nil] obtain t1 d1 where
    "replay_log ex_api ex_codec (fixed_index_ops ex_api) mem_repl_dev (journal_log mem_repl_dev (ex_d2 1 6 9)) 7 (Some ex_empty, ex_d2 1 6 9) = Inr (Some t1, d1)"
    "\<forall>x. \<not> unjournaled ?W x \<longrightarrow> fixed_view t1 x = fixed_view (ex_t2 6 9) x"
    using ex_empty_ok put by blast
  moreover have "fixed_view (ex_t2 6 9) 9 = Some (ex_value 41 30 31)" by (simp add: fixed_view_def ex_t2_def ex_empty_def map_btree_def)
  ultimately show ?thesis using run u by metis
qed

text \<open>
  C12. A read that is overtaken by writes: the read looks its range up and is suspended, while the writes in flight and any number of new ones go on, writes elsewhere only. When it then reads the blocks it returns what the volume held at the
  lookup, the requests stored until then, or the error of a device read: no block it read was freed and given to another write meanwhile.
\<close>

theorem overtaken_read_returns_image:
  fixes t :: "'t fixed_table"
  assumes "btree_ok (ft_btree t)" "dev_ok rd" "api_ok api" "blk_codec_ok codec" "mapped_ok rd d (fixed_view t)" "mapped_csums_ok crc rd d (fixed_view t)"
    and "vol_run serial api codec (fixed_index_ops api) rd crc vol_id ordinal (t, d, {#}) reqs1 (t1, d1, W1)"
    and "read_req_ok (get_blk_size rd) req" "fixed_read_from_index (req_lba req) (end_lba req) t1 = (Inr kvs, t2)"
    and "vol_run serial api codec (fixed_index_ops api) rd crc vol_id ordinal (t2, d1, W1) reqs2 (t3, d3, W3)" "\<forall>x. in_req req x \<longrightarrow> \<not> in_reqs reqs2 x"
  shows "\<exists>res d4. read_blocks rd crc fc req kvs d3 = Inr (res, d4) \<and> \<not> rr_contained res \<and>
    (rr_status res = Inr () \<longrightarrow> rr_mem res =
       Some (concat (map (fold (store_req (unat (get_blk_size rd))) reqs1 (block_image rd d (fixed_view t))) [unat (req_lba req)..<unat (req_lba req) + unat (req_nlbas req)]))) \<and>
    (\<forall>e. rr_status res = Inl e \<longrightarrow> (\<exists>blk sz d0. fst (async_read rd blk sz d0) = Inl e))"
  using fixed_low.run_overtakes_read [OF assms(2-4) fixed_index_ops_def _ assms(5-11)] assms(1) by (simp add: fixed_invar_def)

theorem overtaken_read_returns_image_witness:
  "\<exists>res d4. read_blocks mem_repl_dev ex_crc True ex_rreq [(6, ex_value 40 20 21)] (ex_d2 1 6 9) = Inr (res, d4) \<and> rr_status res = Inr () \<and> rr_mem res = Some [0, 0, 20, 21, 0, 0]"
proof -
  let ?kvs = "[(6, ex_value 40 20 21)]"
  have q: "fixed_read_from_index (req_lba ex_rreq) (end_lba ex_rreq) (ex_t1 6) = (Inr ?kvs, ex_t1 6)"
    by (simp add: fixed_read_from_index_def ex_t1_def ex_empty_def ex_rreq_def end_lba_def map_btree_def ex_lba_range_3)
  have r: "read_req_ok (get_blk_size mem_repl_dev) ex_rreq" using ex_rreq_ok by simp
  have run1: "vol_run True ex_api ex_codec (fixed_index_ops ex_api) mem_repl_dev ex_crc 1 0 (ex_empty, ex_dev, {#}) [ex_A 6]
      (ex_t1 6, ex_d1, {#(ex_A 6, Indexed [ex_new 40] (ex_biA 6)), (ex_B 9, DataDone [ex_new 41])#})" by (rule ex_run_first) simp_all
  have "(9 :: lba_t) < 100" by simp
  note run2 = ex_run_second [OF this, of True 1 6]
  have sep: "\<forall>x. in_req ex_rreq x \<longrightarrow> \<not> in_reqs [ex_B 9] x" by (auto simp: in_req_def ex_rreq_def ex_B_def)
  from overtaken_read_returns_image [OF ex_empty_ok md_dev_ok ex_api_ok ex_codec_ok ex_mapped ex_csums run1 r q run2 sep, of True] obtain res d4 where
    R: "read_blocks mem_repl_dev ex_crc True ex_rreq ?kvs (ex_d2 1 6 9) = Inr (res, d4)"
      "rr_status res = Inr () \<longrightarrow> rr_mem res = Some (concat (map (fold (store_req (unat (get_blk_size mem_repl_dev))) [ex_A 6] (block_image mem_repl_dev ex_dev (fixed_view ex_empty)))
         [unat (req_lba ex_rreq)..<unat (req_lba ex_rreq) + unat (req_nlbas ex_rreq)]))"
      "\<forall>e. rr_status res = Inl e \<longrightarrow> (\<exists>blk sz d0. fst (async_read mem_repl_dev blk sz d0) = Inl e)" by blast
  have "rr_status res = Inr ()" using R(3) by (cases "rr_status res") (auto simp: md_async_read_def)
  moreover have "concat (map (fold (store_req (unat (get_blk_size mem_repl_dev))) [ex_A 6] (block_image mem_repl_dev ex_dev (fixed_view ex_empty)))
      [unat (req_lba ex_rreq)..<unat (req_lba ex_rreq) + unat (req_nlbas ex_rreq)]) = [0, 0, 20, 21, 0, 0]"
    by (simp add: ex_rreq_def ex_A_def store_req_def blk_at_def ex_image_none upt_rec)
  ultimately show ?thesis using R(1,2) by auto
qed

text \<open>
  C23. Overlapping writes in flight together are not protected by the journal: two writes to the same address can enter the journal in the opposite order of their updates of the index. Both are acknowledged and a read
  returns the second; after a crash the replay of the journal brings back the first, whose block was freed when the second was committed, so that the index maps a block that is not allocated.
\<close>

theorem overlapping_writes_diverge:
  "\<exists>t1 d1. vol_run False ex_api ex_codec (fixed_index_ops ex_api) mem_repl_dev ex_crc i 0 (ex_empty, ex_dev, {#}) [ex_A 6, ex_B 6] (ex_t2 6 6, ex_d3 i 6 6, {#}) \<and>
     replay_log ex_api ex_codec (fixed_index_ops ex_api) mem_repl_dev (journal_log mem_repl_dev (ex_d3 i 6 6)) 7 (Some ex_empty, ex_d3 i 6 6) = Inr (Some t1, d1) \<and>
     block_image mem_repl_dev (ex_d3 i 6 6) (fixed_view (ex_t2 6 6)) 6 = [30, 31] \<and> block_image mem_repl_dev d1 (fixed_view t1) 6 = [20, 21] \<and>
     (\<exists>v. fixed_view t1 6 = Some v \<and> \<not> alloced mem_repl_dev d1 (iv_blkid v))"
proof -
  let ?d = "(ex_d3 i 6 6)\<lparr>md_alloc := (md_alloc (ex_d3 i 6 6))(ex_new 40 := False)\<rparr>"
  let ?eB = "ex_entry i (ex_one 6 30 31) 41 (ex_biB 6 6)" and ?eA = "ex_entry i (ex_one 6 20 21) 40 (ex_biA 6)"
  have run: "vol_run False ex_api ex_codec (fixed_index_ops ex_api) mem_repl_dev ex_crc i 0 (ex_empty, ex_dev, {#}) [ex_A 6, ex_B 6] (ex_t2 6 6, ex_d3 i 6 6, {#})"
    using vol_run_trans [OF ex_run_third ex_run_two [of 6 6 False i]] by simp
  have log: "journal_log mem_repl_dev (ex_d3 i 6 6) = [?eB] @ [?eA]" by (simp add: ex_d3_def ex_A_def ex_B_def)
  have "ft_btree ex_empty = map_btree (\<lambda>_. False)" by (simp add: ex_empty_def)
  then obtain t1 where t1: "replay_log ex_api ex_codec (fixed_index_ops ex_api) mem_repl_dev [?eB] 7 (Some ex_empty, ex_d3 i 6 6) = Inr (Some t1, ?d)"
    "ft_btree t1 = map_btree (\<lambda>_. False)"
    using ex_replay_one [of ex_empty 41 6 i 30 31 "Some (ex_value 40 20 21)" 7 "ex_d3 i 6 6"] by (auto simp: ex_biB_def ex_old ex_free ex_value_def)
  obtain t2 where t2: "replay_log ex_api ex_codec (fixed_index_ops ex_api) mem_repl_dev [?eA] 8 (Some t1, ?d) =
      Inr (Some t2, ?d)" "fixed_view t2 6 = Some (ex_value 40 20 21)"
    using ex_replay_one [OF t1(2), of 40 6 i 20 21 None 8 ?d] by (auto simp: ex_biA_def ex_old)
  have "replay_log ex_api ex_codec (fixed_index_ops ex_api) mem_repl_dev ([?eB] @ [?eA]) 7 (Some ex_empty, ex_d3 i 6 6) = Inr (Some t2, ?d)"
    unfolding replay_log_append using t1(1) t2(1) by simp
  moreover have "block_image mem_repl_dev (ex_d3 i 6 6) (fixed_view (ex_t2 6 6)) 6 = [30, 31]"
    by (simp add: block_image_def fixed_view_def ex_t2_def ex_empty_def map_btree_def ex_value_def md_blk_def ex_d3_def ex_d1_def)
  moreover have "block_image mem_repl_dev ?d (fixed_view t2) 6 = [20, 21]"
    using t2(2) by (simp add: block_image_def ex_value_def md_blk_def ex_d3_def ex_d1_def)
  moreover have "\<not> alloced mem_repl_dev ?d (iv_blkid (ex_value 40 20 21))" by (simp add: ex_value_def)
  ultimately show ?thesis using run log t2(2) by metis
qed

section \<open>The prefix build\<close>

text \<open>
  The runs were followed against the contract of an index, which the prefix build keeps too: the same holds for it, and for a run of acknowledged writes and its journal. Its updates succeed when the B-tree takes every put of a range.
\<close>

lemma prefix_ops_accept:
  assumes "\<forall>lo hi vals s. fst (fst (pb_range_put bt lo hi vals s))"
  shows "accepts (prefix_write_to_index api) (\<lambda>t. pt_btree t = bt)"
  unfolding accepts_def
proof (intro allI impI)
  fix lo hi bi and t :: "'a prefix_table"
  assume "pt_btree t = bt"
  moreover from this have "fst (fst (pb_range_put (pt_btree t) l h vals s))" for l h vals s using assms by simp
  ultimately show "\<exists>bi' t'. prefix_write_to_index api lo hi bi t = Some (Inr (), bi', t') \<and> pt_btree t' = bt"
    by (simp add: prefix_write_to_index_def Let_def case_prod_unfold)
qed

lemmas prefix_run_linearized = prefix_low.run_linearized [OF _ _ _ _ prefix_index_ops_def]
lemmas prefix_run_restored = prefix_low.run_restored [OF _ _ _ _ prefix_index_ops_def]
lemmas prefix_run_overtakes_read = prefix_low.run_overtakes_read [OF _ _ _ prefix_index_ops_def]
lemmas prefix_writes_replay = prefix_low.acked_writes_replay [OF _ _ _ prefix_index_ops_def]

end
