(* ===== verification/Volume_Metrics.thy ===== *)
theory Volume_Metrics
  imports Volume_Stages
begin

text \<open>
  The metrics of a volume (src/lib/volume/volume.hpp: \<^verbatim>\<open>VolumeMetrics\<close>): the counters and the distributions of sizes that reads and writes feed. A read or write with its metrics is the read or write of the
  volume, and the counters agree with what was done. Latencies are times of a clock and left out. The group of metrics is the library's: a counter is a number, a distribution the list of what was observed.
\<close>

record VolumeMetrics =
  volume_read_count :: nat
  volume_write_count :: nat
  volume_write_size_total :: nat
  volume_read_size_total :: nat
  volume_write_size_distribution :: "nat list"
  volume_read_size_distribution :: "nat list"

definition VolumeMetrics_new :: VolumeMetrics where
  "VolumeMetrics_new = \<lparr>volume_read_count = 0, volume_write_count = 0, volume_write_size_total = 0, volume_read_size_total = 0,
     volume_write_size_distribution = [], volume_read_size_distribution = []\<rparr>"

text \<open>The callback that is run before the metrics are collected does nothing, so the gauge of the used size is never set.\<close>

definition on_gather :: "VolumeMetrics \<Rightarrow> VolumeMetrics" where
  "on_gather m = m"

section \<open>Requests with their metrics\<close>

definition count_write :: "VolumeMetrics \<Rightarrow> VolumeMetrics" where
  "count_write m = m\<lparr>volume_write_count := volume_write_count m + 1\<rparr>"

definition count_write_size :: "u32 \<Rightarrow> VolumeMetrics \<Rightarrow> VolumeMetrics" where
  "count_write_size sz m = m\<lparr>volume_write_size_total := volume_write_size_total m + unat sz, volume_write_size_distribution := volume_write_size_distribution m @ [unat sz]\<rparr>"

definition count_read :: "VolumeMetrics \<Rightarrow> VolumeMetrics" where
  "count_read m = m\<lparr>volume_read_count := volume_read_count m + 1\<rparr>"

definition count_read_size :: "u32 \<Rightarrow> VolumeMetrics \<Rightarrow> VolumeMetrics" where
  "count_read_size sz m = m\<lparr>volume_read_size_total := volume_read_size_total m + unat sz, volume_read_size_distribution := volume_read_size_distribution m @ [unat sz]\<rparr>"

lemmas count_defs = count_write_def count_write_size_def count_read_def count_read_size_def

text \<open>A write is counted when it has its blocks, and its size when it is committed.\<close>

definition write_counted ::
  "blk_api \<Rightarrow> blk_codec \<Rightarrow> 't index_ops \<Rightarrow> 'd repl_dev \<Rightarrow> (u16 \<Rightarrow> u8 list \<Rightarrow> csum_t) \<Rightarrow> volume_id_t \<Rightarrow> u64 \<Rightarrow> io_req \<Rightarrow> 't \<times> 'd \<Rightarrow> VolumeMetrics \<Rightarrow> (unit res \<times> ('t \<times> 'd) \<times> VolumeMetrics) checked" where
  "write_counted api codec ix rd crc vol_id ordinal req w m =
     (let (t, d) = w in
      bind_sum (write_start rd ordinal req d) (\<lambda>(r1, d1).
      (case r1 of
         Inl e \<Rightarrow> Inr (Inl e, (t, d1), m)
       | Inr (DataPending bids data) \<Rightarrow>
           (let m1 = count_write m; (r2, d2) = write_data_done rd bids data d1 in
            (case r2 of
               Inl e \<Rightarrow> Inr (Inl e, (t, d2), m1)
             | Inr _ \<Rightarrow>
                 bind_sum (write_update_index api ix rd crc req bids t) (\<lambda>(r3, t').
                 (case r3 of
                    Inl e \<Rightarrow> Inr (Inl e, (t', d2), m1)
                  | Inr (Indexed bids' bi) \<Rightarrow>
                      bind_sum (write_submit_journal api codec rd vol_id req bids bi d2) (\<lambda>(r4, d3).
                      (case r4 of
                         Journaled bids'' bi'' lsn \<Rightarrow>
                           bind_sum (write_committed api codec ix rd vol_id req bids bi lsn t' d3) (\<lambda>d4. Inr (Inr (), (t', d4), count_write_size (req_nlbas req * get_blk_size rd) m1))
                       | _ \<Rightarrow> Inl Hung))
                  | Inr _ \<Rightarrow> Inl Hung))))
       | Inr _ \<Rightarrow> Inl Hung)))"

text \<open>A read is counted when its lookup worked, and its size when the checksums have been verified, which they are not when the range is not mapped at all.\<close>

definition read_counted ::
  "'t index_ops \<Rightarrow> 'd repl_dev \<Rightarrow> (u16 \<Rightarrow> u8 list \<Rightarrow> csum_t) \<Rightarrow> bool \<Rightarrow> io_req \<Rightarrow> 't \<times> 'd \<Rightarrow> VolumeMetrics \<Rightarrow> (read_result \<times> ('t \<times> 'd) \<times> VolumeMetrics) checked" where
  "read_counted ix rd crc fc req w m =
     (let (t, d) = w; (index_resp, t') = ix_read ix (req_lba req) (end_lba req) t in
      (case index_resp of
         Inl _ \<Rightarrow> Inr (\<lparr>rr_status = Inr (), rr_contained = False, rr_mem = req_buffer req\<rparr>, (t', d), m)
       | Inr index_kvs \<Rightarrow>
           bind_sum (read_blocks rd crc fc req index_kvs d) (\<lambda>(res, d').
           Inr (res, (t', d'),
             (let m1 = count_read m in if index_kvs \<noteq> [] \<and> rr_status res = Inr () then count_read_size (req_nlbas req * get_blk_size rd) m1 else m1)))))"

section \<open>The metrics change nothing\<close>

text \<open>What an outcome leaves in the metrics.\<close>

definition after_write :: "u32 \<Rightarrow> unit res \<Rightarrow> VolumeMetrics \<Rightarrow> VolumeMetrics" where
  "after_write sz r m = (case r of Inr _ \<Rightarrow> count_write_size sz (count_write m) | Inl e \<Rightarrow> if e = Errc no_space_on_device then m else count_write m)"

lemma index_outcome:
  obtains f where "write_update_index api ix rd crc req bids t = Inl f"
  | t' where "write_update_index api ix rd crc req bids t = Inr (Inl (VolErr INDEX_ERROR), t')"
  | bi t' where "write_update_index api ix rd crc req bids t = Inr (Inr (Indexed bids bi), t')"
proof (cases "index_pieces api ix (csum_of_data crc (get_blk_size rd) (req_buffer req)) (unat (get_blk_size rd)) bids (req_lba req) 0 [] t")
  case (Inl f)
  then show thesis using that(1) by (simp add: write_update_index_def)
next
  case (Inr q)
  obtain r pos bi t' where "q = (r, pos, bi, t')" by (cases q)
  then show thesis using Inr that(2,3) by (cases r) (simp_all add: write_update_index_def)
qed

lemma submit_outcome:
  obtains f where "write_submit_journal api codec rd vol_id req bids bi d = Inl f"
  | lsn d' where "write_submit_journal api codec rd vol_id req bids bi d = Inr (Journaled bids bi lsn, d')"
proof (cases "async_write_journal rd bids \<lparr>msg_type = WRITE, volume_id = vol_id\<rparr> (journal_key api codec req bi) (req_nlbas req * get_blk_size rd) d")
  case (Pair r d')
  then show thesis using that by (cases r) (simp_all add: write_submit_journal_def)
qed

lemma write_counted_alone:
  "write_counted api codec ix rd crc vol_id ordinal req w m =
     bind_sum (write_alone api codec ix rd crc vol_id ordinal req w) (\<lambda>(r, w'). Inr (r, w', after_write (req_nlbas req * get_blk_size rd) r m))"
proof -
  obtain t d where w: "w = (t, d)" by (cases w)
  let ?size = "req_nlbas req * get_blk_size rd"
  obtain al d1 where al: "alloc_blks rd ?size ordinal d = (al, d1)" by fastforce
  show ?thesis
  proof (cases al)
    case None
    then show ?thesis using al w by (simp add: write_counted_def write_alone_def write_start_def after_write_def Let_def)
  next
    case (Some bids)
    show ?thesis
    proof (cases "peek_buf 0 (unat ?size) (req_buffer req)")
      case (Inl f)
      then show ?thesis using al Some w by (simp add: write_counted_def write_alone_def write_start_def Let_def)
    next
      case (Inr data)
      have st: "write_start rd ordinal req d = Inr (Inr (DataPending bids data), d1)" using al Some Inr by (simp add: write_start_def Let_def)
      obtain wr d2 where wr: "async_write rd bids data d1 = (wr, d2)" by fastforce
      show ?thesis
      proof (cases wr)
        case False
        then show ?thesis using st wr w by (simp add: write_counted_def write_alone_def write_data_done_def after_write_def)
      next
        case True
        then have dt: "write_data_done rd bids data d1 = (Inr (DataDone bids), d2)" using wr by (simp add: write_data_done_def)
        show ?thesis
        proof (rule index_outcome [of api ix rd crc req bids t])
          fix bi t' assume ix: "write_update_index api ix rd crc req bids t = Inr (Inr (Indexed bids bi), t')"
          show ?thesis
            by (rule submit_outcome [of api codec rd vol_id req bids bi d2]) (use st dt w ix in \<open>simp_all add: write_counted_def write_alone_def after_write_def bind_sum_assoc\<close>)
        qed (use st dt w in \<open>simp_all add: write_counted_def write_alone_def after_write_def\<close>)
      qed
    qed
  qed
qed

lemma write_counted_is_write:
  "write_counted api codec ix rd crc vol_id ordinal req w m =
     bind_sum (volume_write api codec ix rd crc vol_id ordinal req w) (\<lambda>(r, w'). Inr (r, w', after_write (req_nlbas req * get_blk_size rd) r m))"
  by (simp only: write_counted_alone write_alone_eq)

lemma read_counted_is_read:
  "read_counted ix rd crc fc req w m = Inr (res, w', m') \<Longrightarrow> volume_read ix rd crc fc req w = Inr (res, w') \<and> (m' = m \<or> m' = count_read m \<or> m' = count_read_size (req_nlbas req * get_blk_size rd) (count_read m) \<and> rr_status res = Inr ())"
  by (cases w) (auto simp: read_counted_def volume_read_split bind_sum_eq_Inr Let_def split: prod.splits sum.splits if_splits)

section \<open>What the metrics say\<close>

definition metrics_ok :: "VolumeMetrics \<Rightarrow> bool" where
  "metrics_ok m \<longleftrightarrow> volume_write_size_total m = sum_list (volume_write_size_distribution m) \<and> volume_read_size_total m = sum_list (volume_read_size_distribution m) \<and>
     length (volume_write_size_distribution m) \<le> volume_write_count m \<and> length (volume_read_size_distribution m) \<le> volume_read_count m"

text \<open>
  The metrics follow the requests: the totals are the sums of the distributions and no more sizes are recorded than requests are counted; a write adds its size exactly when it is acknowledged, and is counted unless
  there was no space.
\<close>

lemma metrics_ok_new: "metrics_ok VolumeMetrics_new"
  by (simp add: metrics_ok_def VolumeMetrics_new_def)

lemma metrics_ok_write:
  assumes "metrics_ok m" "write_counted api codec ix rd crc vol_id ordinal req w m = Inr (r, w', m')"
  shows "metrics_ok m'" "volume_write api codec ix rd crc vol_id ordinal req w = Inr (r, w')"
    "volume_write_size_total m' = volume_write_size_total m + (if r = Inr () then unat (req_nlbas req * get_blk_size rd) else 0)"
    "volume_write_count m' = volume_write_count m + (if r = Inl (Errc no_space_on_device) then 0 else 1)"
  using assms by (auto simp: write_counted_is_write bind_sum_eq_Inr metrics_ok_def after_write_def count_defs split: sum.splits if_splits)

lemma metrics_ok_read:
  assumes "metrics_ok m" "read_counted ix rd crc fc req w m = Inr (res, w', m')"
  shows "metrics_ok m'" "volume_read ix rd crc fc req w = Inr (res, w')"
  using assms read_counted_is_read [OF assms(2)] by (auto simp: metrics_ok_def count_defs)

text \<open>A read of a range that is not mapped succeeds with zeros and is counted, its size is not.\<close>

lemma hole_read_size_not_counted:
  assumes "ix_read ix (req_lba req) (end_lba req) t = (Inr [], t')" "read_counted ix rd crc fc req (t, d) m = Inr (res, w', m')"
  shows "m' = count_read m"
  using assms by (auto simp: read_counted_def bind_sum_eq_Inr)

end
