(* ===== verification/Chunk_Selector.thy ===== *)
theory Chunk_Selector
  imports HB_Prelude
begin

text \<open>
  The chunk selector (src/lib/volume/volume_chunk_selector.hpp and .cpp): which chunks of which
  physical device belong to which volume, how a volume's set of chunks grows, and from which chunk
  the next blocks are allocated. A chunk object (\<^verbatim>\<open>shared<HBChunk>\<close>) is shared by the pool of all chunks,
  the pool of its device and the vector of its volume; it is referred to by its chunk id, and its one
  mutable field lives in \<open>m_all_chunks\<close>. The tasks handed to a background reactor are a queue
  (\<open>pending_resizes\<close>) and the calls of the superblock callback a trace (\<open>sb_updates\<close>). A task owns a reference
  to the chunk list of its volume, so it outlives the release of that volume (\<open>resize_target\<close>).
  Block counts are \<open>nat\<close>: they are sums of 32-bit counters over at most \<open>2 ^ 16\<close> chunks, far from the
  64-bit range the code computes them in.
\<close>

section \<open>Data\<close>

type_synonym chunk_num_t = u16
type_synonym pdev_id_t = u32

definition MAX_NUM_VOLUMES :: nat where
  "MAX_NUM_VOLUMES = 2048"

definition num_chunks_per_vol_init :: nat where
  "num_chunks_per_vol_init = 1"

definition num_chunks_per_resize :: nat where
  "num_chunks_per_resize = 3"

definition INVALID_VOL_ORDINAL :: nat where
  "INVALID_VOL_ORDINAL = 2 ^ 64 - 1"

text \<open>What the selector reads of a chunk of the storage layer: the results of its accessors.\<close>

record chunk =
  get_chunk_id :: chunk_num_t
  get_pdev_id :: pdev_id_t
  chunk_bytes :: u64
  get_total_blks :: nat
  available_blks :: nat

record hbchunk = chunk +
  m_vol_ordinal :: nat

record volume_chunks_info =
  m_chunks :: "chunk_num_t option list"
  max_num_chunks :: nat
  num_active_chunks :: nat
  m_next_chunk_index :: u32
  vc_ordinal :: nat
  vc_pdev :: pdev_id_t

datatype resize_status = Idle | InProgress

text \<open>
  The object a resize task works on: the lambda captures the \<^verbatim>\<open>shared_ptr\<close> to the volume's chunk list. While the volume has
  not been released that object is the one in \<open>m_volume_chunks\<close>; afterwards the task holds the only reference to it,
  with the contents it had at the release.
\<close>

datatype resize_target = Live nat | Released volume_chunks_info

type_synonym chunk_pool = "(chunk_num_t \<times> hbchunk option) list"
type_synonym dev_pools = "(pdev_id_t \<times> chunk_num_t list) list"

record selector =
  m_volume_chunks :: "nat \<Rightarrow> volume_chunks_info option"
  m_all_chunks :: chunk_pool
  m_per_dev_chunks :: dev_pools
  resize_op :: resize_status
  pending_resizes :: "resize_target list"
  sb_updates :: "(nat \<times> chunk_num_t list) list"

definition VolumeChunkSelector :: selector where
  "VolumeChunkSelector = \<lparr>m_volume_chunks = (\<lambda>_. None), m_all_chunks = [], m_per_dev_chunks = [],
     resize_op = Idle, pending_resizes = [], sb_updates = []\<rparr>"

definition hb_chunk :: "chunk \<Rightarrow> hbchunk" where
  "hb_chunk c = \<lparr>get_chunk_id = get_chunk_id c, get_pdev_id = get_pdev_id c, chunk_bytes = chunk_bytes c,
     get_total_blks = get_total_blks c, available_blks = available_blks c,
     m_vol_ordinal = INVALID_VOL_ORDINAL\<rparr>"

definition chunk_obj :: "chunk_pool \<Rightarrow> chunk_num_t \<Rightarrow> hbchunk option" where
  "chunk_obj all cid = (case map_of all cid of Some (Some c) \<Rightarrow> Some c | _ \<Rightarrow> None)"

definition pool_of :: "dev_pools \<Rightarrow> pdev_id_t \<Rightarrow> chunk_num_t list" where
  "pool_of pd p = (case map_of pd p of None \<Rightarrow> [] | Some l \<Rightarrow> l)"

definition pool_emplace :: "pdev_id_t \<Rightarrow> chunk_num_t \<Rightarrow> dev_pools \<Rightarrow> dev_pools" where
  "pool_emplace p cid pd =
     AList.update p (if cid \<in> set (pool_of pd p) then pool_of pd p else pool_of pd p @ [cid]) pd"

definition set_vol_ordinal :: "chunk_num_t \<Rightarrow> nat \<Rightarrow> chunk_pool \<Rightarrow> chunk_pool" where
  "set_vol_ordinal cid ord all =
     map (\<lambda>(k, v). (k, if k = cid then map_option (\<lambda>c. c\<lparr>m_vol_ordinal := ord\<rparr>) v else v)) all"

section \<open>Adding chunks\<close>

definition add_chunk :: "chunk \<Rightarrow> selector \<Rightarrow> selector" where
  "add_chunk c s =
     s\<lparr>m_all_chunks := emplace (get_chunk_id c) (Some (hb_chunk c)) (m_all_chunks s),
       m_per_dev_chunks := pool_emplace (get_pdev_id c) (get_chunk_id c) (m_per_dev_chunks s)\<rparr>"

section \<open>Allocating the first chunks of a volume\<close>

text \<open>\<open>max_num_chunks\<close>; its callers divide by the size of a chunk only after they have checked here that it is not 0, where C++ has no result.\<close>

definition chunks_for :: "u64 \<Rightarrow> u64 \<Rightarrow> nat" where
  "chunks_for volume_size chunk_size = unat (max 1 ((volume_size + chunk_size - 1) div chunk_size))"

definition allocate_init_chunks_from_pdev ::
  "nat \<Rightarrow> nat \<Rightarrow> selector \<Rightarrow> (chunk_num_t list \<times> selector) checked" where
  "allocate_init_chunks_from_pdev init_chunks total_chunks s =
     (if \<not> init_chunks \<le> total_chunks then Inl ReleaseAssert
      else case List.find (\<lambda>(p, l). total_chunks \<le> length l) (m_per_dev_chunks s) of
        None \<Rightarrow> Inr ([], s)
      | Some (p, l) \<Rightarrow>
          Inr (take init_chunks l,
               s\<lparr>m_per_dev_chunks := AList.update p (drop init_chunks l) (m_per_dev_chunks s)\<rparr>))"

text \<open>The loop that puts the allocated chunks into the vector of the volume.\<close>

fun assign_chunks :: "nat \<Rightarrow> nat \<Rightarrow> chunk_num_t list \<Rightarrow> chunk_num_t option list \<Rightarrow> chunk_pool \<Rightarrow>
    (chunk_num_t option list \<times> chunk_pool) checked" where
  "assign_chunks ord idx [] v all = Inr (v, all)"
| "assign_chunks ord idx (cid # cids) v all =
     (case chunk_obj all cid of
        None \<Rightarrow> Inl NullDeref
      | Some c \<Rightarrow>
          if m_vol_ordinal c \<noteq> INVALID_VOL_ORDINAL then Inl ReleaseAssert
          else if length v \<le> idx then Inl OutOfBounds
          else assign_chunks ord (Suc idx) cids (v[idx := Some cid]) (set_vol_ordinal cid ord all))"

definition register_init_chunks ::
  "nat \<Rightarrow> nat \<Rightarrow> nat \<Rightarrow> pdev_id_t \<Rightarrow> chunk_num_t list \<Rightarrow> selector \<Rightarrow> (chunk_num_t list \<times> pdev_id_t \<times> selector) checked" where
  "register_init_chunks ord maxc active pdev_id cids s =
     (case cids of
        [] \<Rightarrow> Inr ([], pdev_id, s)
      | cid # _ \<Rightarrow>
          (case chunk_obj (m_all_chunks s) cid of
             None \<Rightarrow> Inl NullDeref
           | Some c \<Rightarrow>
               bind_sum (assign_chunks ord 0 cids (replicate maxc None) (m_all_chunks s)) (\<lambda>(v, all).
                 Inr (cids, get_pdev_id c,
                   s\<lparr>m_all_chunks := all,
                     m_volume_chunks := (m_volume_chunks s)(ord \<mapsto>
                       \<lparr>m_chunks = v, max_num_chunks = maxc, num_active_chunks = active,
                        m_next_chunk_index = 0, vc_ordinal = ord, vc_pdev = get_pdev_id c\<rparr>)\<rparr>))))"

definition allocate_init_chunks ::
  "nat \<Rightarrow> u64 \<Rightarrow> pdev_id_t \<Rightarrow> bool \<Rightarrow> selector \<Rightarrow> (chunk_num_t list \<times> pdev_id_t \<times> selector) checked" where
  "allocate_init_chunks ord volume_size pdev_id lazy_alloc s =
     (if \<not> ord < MAX_NUM_VOLUMES then Inl ReleaseAssert
      else case m_volume_chunks s ord of
        Some volc \<Rightarrow> Inr (somes (m_chunks volc), pdev_id, s)
      | None \<Rightarrow>
          (case m_all_chunks s of
             [] \<Rightarrow> Inr ([], pdev_id, s)
           | (_, None) # _ \<Rightarrow> Inl NullDeref
           | (_, Some c0) # _ \<Rightarrow>
               if chunk_bytes c0 = 0 then Inl DivideByZero
               else
                 let maxc = chunks_for volume_size (chunk_bytes c0);
                     active = (if lazy_alloc then min maxc num_chunks_per_vol_init else maxc)
                 in bind_sum (allocate_init_chunks_from_pdev active maxc s) (\<lambda>(cids, s1).
                      register_init_chunks ord maxc active pdev_id cids s1)))"

section \<open>Releasing and recovering\<close>

fun release_loop :: "chunk_num_t option list \<Rightarrow> chunk_pool \<Rightarrow> dev_pools \<Rightarrow> (chunk_pool \<times> dev_pools) checked" where
  "release_loop [] all pd = Inr (all, pd)"
| "release_loop (None # v) all pd = release_loop v all pd"
| "release_loop (Some cid # v) all pd =
     (case chunk_obj all cid of
        None \<Rightarrow> Inl NullDeref
      | Some c \<Rightarrow> release_loop v (set_vol_ordinal cid INVALID_VOL_ORDINAL all)
                   (pool_emplace (get_pdev_id c) cid pd))"

text \<open>
  The chunk list itself is not cleared: a resize task still queued for the volume keeps it, and goes on to work on it.
\<close>

definition release_target :: "nat \<Rightarrow> volume_chunks_info \<Rightarrow> resize_target \<Rightarrow> resize_target" where
  "release_target ord volc t = (if t = Live ord then Released volc else t)"

definition release_chunks :: "nat \<Rightarrow> selector \<Rightarrow> selector checked" where
  "release_chunks ord s =
     (if \<not> ord < MAX_NUM_VOLUMES then Inl OutOfBounds
      else case m_volume_chunks s ord of
        None \<Rightarrow> Inl ReleaseAssert
      | Some volc \<Rightarrow>
          bind_sum (release_loop (m_chunks volc) (m_all_chunks s) (m_per_dev_chunks s)) (\<lambda>(all, pd).
            Inr (s\<lparr>m_all_chunks := all, m_per_dev_chunks := pd,
                   m_volume_chunks := (m_volume_chunks s)(ord := None),
                   pending_resizes := map (release_target ord volc) (pending_resizes s)\<rparr>)))"

text \<open>
  \<^verbatim>\<open>m_all_chunks[chunk_id]\<close> inserts a null entry for an id it does not know; the loop then returns
  false with what it has done so far in place.
\<close>

fun recover_loop :: "nat \<Rightarrow> pdev_id_t \<Rightarrow> nat \<Rightarrow> chunk_num_t list \<Rightarrow> chunk_num_t option list \<Rightarrow> chunk_pool \<Rightarrow>
    dev_pools \<Rightarrow> (bool \<times> chunk_num_t option list \<times> chunk_pool \<times> dev_pools) checked" where
  "recover_loop ord pdev idx [] v all pd = Inr (True, v, all, pd)"
| "recover_loop ord pdev idx (cid # cids) v all pd =
     (let all' = emplace cid None all in
      case chunk_obj all' cid of
        None \<Rightarrow> Inr (False, v, all', pd)
      | Some c \<Rightarrow>
          if m_vol_ordinal c \<noteq> INVALID_VOL_ORDINAL then Inl ReleaseAssert
          else if get_pdev_id c \<noteq> pdev then Inl ReleaseAssert
          else if length v \<le> idx then Inl OutOfBounds
          else if cid \<notin> set (pool_of pd (get_pdev_id c)) then Inl ReleaseAssert
          else recover_loop ord pdev (Suc idx) cids (v[idx := Some cid])
                 (set_vol_ordinal cid ord all')
                 (AList.update (get_pdev_id c) (remove1 cid (pool_of pd (get_pdev_id c))) pd))"

definition recover_chunks ::
  "nat \<Rightarrow> pdev_id_t \<Rightarrow> u64 \<Rightarrow> chunk_num_t list \<Rightarrow> selector \<Rightarrow> (bool \<times> selector) checked" where
  "recover_chunks ord pdev volume_size chunk_ids s =
     (if \<not> ord < MAX_NUM_VOLUMES then Inl OutOfBounds
      else if m_volume_chunks s ord \<noteq> None then Inl ReleaseAssert
      else case m_all_chunks s of
        [] \<Rightarrow> Inl NullDeref
      | (_, None) # _ \<Rightarrow> Inl NullDeref
      | (_, Some c0) # _ \<Rightarrow>
          if chunk_bytes c0 = 0 then Inl DivideByZero
          else let maxc = chunks_for volume_size (chunk_bytes c0)
          in bind_sum (recover_loop ord pdev 0 chunk_ids (replicate maxc None) (m_all_chunks s)
                         (m_per_dev_chunks s)) (\<lambda>(ok, v, all, pd).
               Inr (ok, s\<lparr>m_all_chunks := all, m_per_dev_chunks := pd,
                  m_volume_chunks := (m_volume_chunks s)(ord \<mapsto>
                    \<lparr>m_chunks = v, max_num_chunks = maxc, num_active_chunks = length chunk_ids,
                     m_next_chunk_index = 0, vc_ordinal = ord, vc_pdev = pdev\<rparr>)\<rparr>)))"

section \<open>Observers\<close>

definition get_chunks :: "nat \<Rightarrow> selector \<Rightarrow> chunk_num_t list checked" where
  "get_chunks ord s =
     (if \<not> ord < MAX_NUM_VOLUMES then Inl ReleaseAssert
      else case m_volume_chunks s ord of None \<Rightarrow> Inr [] | Some volc \<Rightarrow> Inr (somes (m_chunks volc)))"

definition num_free_chunks :: "selector \<Rightarrow> nat" where
  "num_free_chunks s = sum_list (map (\<lambda>(p, l). length l) (m_per_dev_chunks s))"

fun foreach_loop :: "chunk_pool \<Rightarrow> hbchunk list checked" where
  "foreach_loop [] = Inr []"
| "foreach_loop ((_, None) # _) = Inl NullDeref"
| "foreach_loop ((_, Some c) # m) = bind_sum (foreach_loop m) (\<lambda>cs. Inr (c # cs))"

definition foreach_chunks :: "selector \<Rightarrow> hbchunk list checked" where
  "foreach_chunks s = foreach_loop (m_all_chunks s)"

section \<open>Growing a volume\<close>

text \<open>
  \<^verbatim>\<open>(float)available_blks / total_blks\<close> is compared with one half. Converting to \<^verbatim>\<open>float\<close> keeps 24
  significant bits and rounds to nearest, ties to even. The quotient of two such numbers is rounded
  once more, but one half and its neighbours are representable, so the rounded quotient is below
  (above) one half exactly when twice the converted dividend is below (above) the converted divisor;
  a zero divisor gives an infinity or a NaN, for which both descriptions agree as well.
\<close>

fun f32_exp :: "nat \<Rightarrow> nat" where
  "f32_exp n = (if n < 2 ^ 24 then 0 else Suc (f32_exp (n div 2)))"

declare f32_exp.simps [simp del]

definition f32_of_u64 :: "nat \<Rightarrow> nat" where
  "f32_of_u64 n =
     (let e = f32_exp n; q = n div 2 ^ e; r = n mod 2 ^ e in
      if e = 0 then n
      else if 2 * r < 2 ^ e \<or> (2 * r = 2 ^ e \<and> even q) then q * 2 ^ e else (q + 1) * 2 ^ e)"

definition usage_lt_half :: "nat \<Rightarrow> nat \<Rightarrow> bool" where
  "usage_lt_half avail total_blks \<longleftrightarrow> 2 * f32_of_u64 avail < f32_of_u64 total_blks"

definition usage_gt_half :: "nat \<Rightarrow> nat \<Rightarrow> bool" where
  "usage_gt_half avail total_blks \<longleftrightarrow> f32_of_u64 total_blks < 2 * f32_of_u64 avail"

definition vol_total_blks :: "chunk_pool \<Rightarrow> volume_chunks_info \<Rightarrow> nat" where
  "vol_total_blks all v =
     sum_list (map (\<lambda>cid. case chunk_obj all cid of None \<Rightarrow> 0 | Some c \<Rightarrow> get_total_blks c) (somes (m_chunks v)))"

definition vol_available_blks :: "chunk_pool \<Rightarrow> volume_chunks_info \<Rightarrow> nat" where
  "vol_available_blks all v =
     sum_list (map (\<lambda>cid. case chunk_obj all cid of None \<Rightarrow> 0 | Some c \<Rightarrow> available_blks c) (somes (m_chunks v)))"

text \<open>
  The request: at most one resize at a time over all volumes of the selector. The check that another
  thread has already done the work returns without giving \<open>resize_op\<close> back.
\<close>

definition resize_volume_num_chunks :: "nat \<Rightarrow> nat \<Rightarrow> selector \<Rightarrow> selector checked" where
  "resize_volume_num_chunks nblks ord s =
     (case m_volume_chunks s ord of
        None \<Rightarrow> Inl Orphaned
      | Some volc \<Rightarrow>
          if resize_op s \<noteq> Idle then Inr s
          else
            let s1 = s\<lparr>resize_op := InProgress\<rparr>;
                total_blks = vol_total_blks (m_all_chunks s) volc;
                avail = vol_available_blks (m_all_chunks s) volc
            in if nblks < avail \<and> usage_gt_half avail total_blks then Inr s1
               else Inr (s1\<lparr>pending_resizes := pending_resizes s @ [Live ord]\<rparr>))"

definition allocate_resize_chunks_from_pdev ::
  "pdev_id_t \<Rightarrow> nat \<Rightarrow> selector \<Rightarrow> (chunk_num_t list \<times> selector) checked" where
  "allocate_resize_chunks_from_pdev pdev_id num_chunks s =
     (let chunks = pool_of (m_per_dev_chunks s) pdev_id in
      if \<not> num_chunks \<le> length chunks then Inl ReleaseAssert
      else Inr (take num_chunks chunks,
                s\<lparr>m_per_dev_chunks := AList.update pdev_id (drop num_chunks chunks) (m_per_dev_chunks s)\<rparr>))"

fun place_chunks :: "nat \<Rightarrow> chunk_num_t list \<Rightarrow> chunk_num_t option list \<Rightarrow> chunk_num_t option list checked" where
  "place_chunks indx [] v = Inr v"
| "place_chunks indx (cid # cids) v =
     (if length v \<le> indx then Inl OutOfBounds else place_chunks (Suc indx) cids (v[indx := Some cid]))"

text \<open>
  The task on the worker reactor: the lambda of \<^verbatim>\<open>resize_volume_num_chunks\<close>. It takes chunks from the
  pool of the volume's device, stores them behind the active ones, hands the new list of chunk ids to
  the superblock callback and only then makes them active. The 64-bit subtraction wraps. All of this is done to the
  object the task was queued with: after a release nobody else refers to it, so the chunks stored in it are gone from
  the pool and in no volume, and the callback still names the ordinal the volume had.
\<close>

definition target_volc :: "resize_target \<Rightarrow> selector \<Rightarrow> volume_chunks_info option" where
  "target_volc t s = (case t of Live ord \<Rightarrow> m_volume_chunks s ord | Released volc \<Rightarrow> Some volc)"

definition store_volc :: "resize_target \<Rightarrow> volume_chunks_info \<Rightarrow> selector \<Rightarrow> selector" where
  "store_volc t volc s =
     (case t of Live ord \<Rightarrow> s\<lparr>m_volume_chunks := (m_volume_chunks s)(ord \<mapsto> volc)\<rparr> | Released _ \<Rightarrow> s)"

definition resize_task :: "resize_target \<Rightarrow> selector \<Rightarrow> selector checked" where
  "resize_task t s =
     (case target_volc t s of
        None \<Rightarrow> Inl Orphaned
      | Some volc \<Rightarrow>
          let room = (max_num_chunks volc + 2 ^ 64 - num_active_chunks volc) mod 2 ^ 64;
              num_chunks_to_alloc = min num_chunks_per_resize room
          in bind_sum (allocate_resize_chunks_from_pdev (vc_pdev volc) num_chunks_to_alloc s) (\<lambda>(chunks, s1).
               if chunks = [] then Inl ReleaseAssert
               else bind_sum (place_chunks (num_active_chunks volc) chunks (m_chunks volc)) (\<lambda>v.
                 Inr (store_volc t (volc\<lparr>m_chunks := v, num_active_chunks := num_active_chunks volc + length chunks\<rparr>)
                        (s1\<lparr>sb_updates := sb_updates s1 @ [(vc_ordinal volc, somes v)], resize_op := Idle\<rparr>)))))"

definition run_pending_resize :: "selector \<Rightarrow> selector checked" where
  "run_pending_resize s =
     (case pending_resizes s of
        [] \<Rightarrow> Inr s
      | t # rest \<Rightarrow> resize_task t (s\<lparr>pending_resizes := rest\<rparr>))"

section \<open>Selecting the chunk for the next blocks\<close>

text \<open>
  The round-robin scan over the active chunks. The cursor is a 32-bit counter shared by all threads that select a chunk of
  the volume: \<open>others i\<close> is how often other threads advance it between the previous draw of this thread and
  the one after which \<open>i\<close> draws remain.
\<close>

fun scan_active :: "chunk_pool \<Rightarrow> (nat \<Rightarrow> u32) \<Rightarrow> nat \<Rightarrow> nat \<Rightarrow> volume_chunks_info \<Rightarrow>
    (chunk_num_t option \<times> volume_chunks_info) checked" where
  "scan_active all others n 0 v = Inr (None, v)"
| "scan_active all others n (Suc i) v =
     (let cursor = m_next_chunk_index v + others i;
          idx = unat cursor mod n;
          v' = v\<lparr>m_next_chunk_index := cursor + 1\<rparr>
      in if length (m_chunks v) \<le> idx then Inl OutOfBounds
         else case m_chunks v ! idx of
           None \<Rightarrow> scan_active all others n i v'
         | Some cid \<Rightarrow>
             (case chunk_obj all cid of
                None \<Rightarrow> Inl NullDeref
              | Some c \<Rightarrow> if 0 < available_blks c then Inr (Some cid, v') else scan_active all others n i v'))"

text \<open>
  One round of the do-while loop of \<^verbatim>\<open>select_chunk\<close>. The block totals are read once, before the loop, and
  are not refreshed in later rounds. Of what other threads do within the round their draws of the cursor are
  modelled; the free block counts are those at its start.
\<close>

definition select_round ::
  "(nat \<Rightarrow> u32) \<Rightarrow> nat \<Rightarrow> nat \<Rightarrow> nat \<Rightarrow> nat \<Rightarrow> selector \<Rightarrow> (chunk_num_t option \<times> selector) checked" where
  "select_round others nblks total_blks avail ord s =
     (case m_volume_chunks s ord of
        None \<Rightarrow> Inl Orphaned
      | Some volc \<Rightarrow>
          bind_sum
            (if (avail < nblks \<or> usage_lt_half avail total_blks) \<and> num_active_chunks volc < max_num_chunks volc
             then resize_volume_num_chunks nblks ord s else Inr s)
            (\<lambda>s1. bind_sum (scan_active (m_all_chunks s1) others (num_active_chunks volc) (num_active_chunks volc) volc)
               (\<lambda>(found, volc'). Inr (found, s1\<lparr>m_volume_chunks := (m_volume_chunks s1)(ord \<mapsto> volc')\<rparr>))))"

text \<open>
  The whole loop. Between two rounds the thread sleeps; \<open>env k\<close> is what the other threads and the worker
  reactors do to the selector during the \<open>k\<close>-th sleep, \<open>others k\<close> how they draw within the \<open>k\<close>-th round. A loop that never
  finds a chunk is \<^term>\<open>None\<close>. The volume must not be released meanwhile (\<^term>\<open>Orphaned\<close>): the code would go on with the released list.
\<close>

partial_function (option) select_loop ::
  "(nat \<Rightarrow> nat \<Rightarrow> u32) \<Rightarrow> (nat \<Rightarrow> selector \<Rightarrow> selector) \<Rightarrow> nat \<Rightarrow> nat \<Rightarrow> nat \<Rightarrow> nat \<Rightarrow> nat \<Rightarrow> selector \<Rightarrow>
     ((chunk_num_t option \<times> selector) checked) option" where
  "select_loop others env k nblks total_blks avail ord s =
     (case select_round (others k) nblks total_blks avail ord s of
        Inl f \<Rightarrow> Some (Inl f)
      | Inr r \<Rightarrow>
          (case fst r of
             Some cid \<Rightarrow> Some (Inr (Some cid, snd r))
           | None \<Rightarrow> select_loop others env (Suc k) nblks total_blks avail ord (env k (snd r))))"

definition select_chunk ::
  "(nat \<Rightarrow> nat \<Rightarrow> u32) \<Rightarrow> (nat \<Rightarrow> selector \<Rightarrow> selector) \<Rightarrow> nat \<Rightarrow> nat option \<Rightarrow> selector \<Rightarrow>
     ((chunk_num_t option \<times> selector) checked) option" where
  "select_chunk others env nblks application_hint s =
     (case application_hint of
        None \<Rightarrow> Some (Inr (None, s))
      | Some ord \<Rightarrow>
          if \<not> ord < MAX_NUM_VOLUMES then Some (Inr (None, s))
          else (case m_volume_chunks s ord of
            None \<Rightarrow> Some (Inr (None, s))
          | Some volc \<Rightarrow>
              select_loop others env 0 nblks (vol_total_blks (m_all_chunks s) volc)
                (vol_available_blks (m_all_chunks s) volc) ord s))"

section \<open>Evaluation\<close>

text \<open>The definitions that evaluate on a concrete selector.\<close>

lemmas selector_eval [sel_defs] =
  MAX_NUM_VOLUMES_def num_chunks_per_vol_init_def num_chunks_per_resize_def INVALID_VOL_ORDINAL_def
  VolumeChunkSelector_def hb_chunk_def chunk_obj_def pool_of_def pool_emplace_def emplace_def set_vol_ordinal_def
  add_chunk_def chunks_for_def allocate_init_chunks_from_pdev_def register_init_chunks_def allocate_init_chunks_def
  release_target_def release_chunks_def recover_chunks_def get_chunks_def num_free_chunks_def foreach_chunks_def
  f32_of_u64_def f32_exp.simps usage_lt_half_def usage_gt_half_def vol_total_blks_def vol_available_blks_def
  resize_volume_num_chunks_def allocate_resize_chunks_from_pdev_def target_volc_def store_volc_def resize_task_def run_pending_resize_def
  select_round_def select_chunk_def Let_def

end
