(* ===== verification/Chunk_Ledger.thy ===== *)
theory Chunk_Ledger
  imports Chunk_Selector
begin

text \<open>
  What the chunk selector promises: a ledger that says for every chunk whether it is free on its
  device, owned by one volume, or lost to a resize task that ran after its volume was released. Every operation of the
  selector is a move in that ledger; none gives a chunk to two volumes.
\<close>

section \<open>The ledger\<close>

datatype place = Free pdev_id_t | Owned nat | Lost

type_synonym ledger = "chunk_num_t \<Rightarrow> place option"

definition move :: "chunk_num_t set \<Rightarrow> place \<Rightarrow> ledger \<Rightarrow> ledger" where
  "move S pl L = (\<lambda>cid. if cid \<in> S then Some pl else L cid)"

definition vol_ids :: "selector \<Rightarrow> nat \<Rightarrow> chunk_num_t list" where
  "vol_ids s ord = (case m_volume_chunks s ord of None \<Rightarrow> [] | Some v \<Rightarrow> somes (m_chunks v))"

definition volc_wf :: "volume_chunks_info \<Rightarrow> bool" where
  "volc_wf v \<longleftrightarrow>
     m_chunks v = map Some (somes (m_chunks v)) @ replicate (max_num_chunks v - num_active_chunks v) None \<and>
     length (somes (m_chunks v)) = num_active_chunks v \<and>
     0 < num_active_chunks v \<and> num_active_chunks v \<le> max_num_chunks v \<and> max_num_chunks v < 2 ^ 64 \<and>
     distinct (somes (m_chunks v))"

fun chunk_at :: "chunk_num_t \<Rightarrow> place \<Rightarrow> hbchunk \<Rightarrow> bool" where
  "chunk_at cid (Free p) c \<longleftrightarrow>
     get_chunk_id c = cid \<and> chunk_bytes c \<noteq> 0 \<and> get_pdev_id c = p \<and> m_vol_ordinal c = INVALID_VOL_ORDINAL"
| "chunk_at cid (Owned _) c \<longleftrightarrow> get_chunk_id c = cid \<and> chunk_bytes c \<noteq> 0"
| "chunk_at cid Lost c \<longleftrightarrow> get_chunk_id c = cid \<and> chunk_bytes c \<noteq> 0"

definition objs_ok :: "chunk_pool \<Rightarrow> ledger \<Rightarrow> bool" where
  "objs_ok all L \<longleftrightarrow>
     distinct (map fst all) \<and> (\<forall>cid. map_of all cid \<noteq> Some None) \<and>
     (\<forall>cid. rel_option (chunk_at cid) (L cid) (chunk_obj all cid))"

definition pools_ok :: "dev_pools \<Rightarrow> ledger \<Rightarrow> bool" where
  "pools_ok pd L \<longleftrightarrow>
     distinct (map fst pd) \<and> (\<forall>p. distinct (pool_of pd p)) \<and>
     (\<forall>p cid. cid \<in> set (pool_of pd p) \<longleftrightarrow> L cid = Some (Free p))"

definition vols_ok :: "selector \<Rightarrow> ledger \<Rightarrow> bool" where
  "vols_ok s L \<longleftrightarrow>
     (\<forall>ord cid. cid \<in> set (vol_ids s ord) \<longleftrightarrow> L cid = Some (Owned ord)) \<and>
     (\<forall>ord v. m_volume_chunks s ord = Some v \<longrightarrow>
        ord < MAX_NUM_VOLUMES \<and> vc_ordinal v = ord \<and> volc_wf v \<and>
        (\<forall>cid c. cid \<in> set (somes (m_chunks v)) \<longrightarrow> chunk_obj (m_all_chunks s) cid = Some c \<longrightarrow>
           get_pdev_id c = vc_pdev v))"

definition sel_rel :: "selector \<Rightarrow> ledger \<Rightarrow> bool" where
  "sel_rel s L \<longleftrightarrow> objs_ok (m_all_chunks s) L \<and> pools_ok (m_per_dev_chunks s) L \<and> vols_ok s L"

definition set_ordinals :: "chunk_num_t list \<Rightarrow> nat \<Rightarrow> chunk_pool \<Rightarrow> chunk_pool" where
  "set_ordinals cids ord all = fold (\<lambda>cid. set_vol_ordinal cid ord) cids all"

section \<open>Containers\<close>

lemma map_of_set_vol_ordinal:
  "map_of (set_vol_ordinal cid ord all) k =
     (if k = cid then map_option (map_option (\<lambda>c. c\<lparr>m_vol_ordinal := ord\<rparr>)) (map_of all k) else map_of all k)"
  by (induction all) (auto simp: set_vol_ordinal_def)

lemma fst_set_vol_ordinal [simp]: "map fst (set_vol_ordinal cid ord all) = map fst all"
  by (induction all) (auto simp: set_vol_ordinal_def)

lemma map_of_set_ordinals:
  "map_of (set_ordinals cids ord all) k =
     (if k \<in> set cids then map_option (map_option (\<lambda>c. c\<lparr>m_vol_ordinal := ord\<rparr>)) (map_of all k) else map_of all k)"
  unfolding set_ordinals_def
  by (induction cids arbitrary: all) (auto simp: map_of_set_vol_ordinal option.map_comp comp_def)

lemma fst_set_ordinals [simp]: "map fst (set_ordinals cids ord all) = map fst all"
  unfolding set_ordinals_def by (induction cids arbitrary: all) auto

lemma set_ordinals_Cons [simp]:
  "set_ordinals (cid # cids) ord all = set_ordinals cids ord (set_vol_ordinal cid ord all)"
  "set_ordinals [] ord all = all"
  by (simp_all add: set_ordinals_def)

lemma chunk_obj_Some: "chunk_obj all cid = Some c \<longleftrightarrow> map_of all cid = Some (Some c)"
  by (auto simp: chunk_obj_def split: option.splits)

lemma chunk_obj_set_ordinals:
  "chunk_obj (set_ordinals cids ord all) k =
     (if k \<in> set cids then map_option (\<lambda>c. c\<lparr>m_vol_ordinal := ord\<rparr>) (chunk_obj all k) else chunk_obj all k)"
  by (auto simp: chunk_obj_def map_of_set_ordinals split: option.splits)

lemma chunk_obj_set_vol_ordinal:
  "chunk_obj (set_vol_ordinal cid ord all) k =
     (if k = cid then map_option (\<lambda>c. c\<lparr>m_vol_ordinal := ord\<rparr>) (chunk_obj all k) else chunk_obj all k)"
  using chunk_obj_set_ordinals [of "[cid]" ord all k] by simp

lemma pool_of_update [simp]: "pool_of (AList.update p l pd) q = (if q = p then l else pool_of pd q)"
  by (simp add: pool_of_def update_conv')

lemma pool_of_emplace:
  "pool_of (pool_emplace p cid pd) q =
     (if q = p \<and> cid \<notin> set (pool_of pd p) then pool_of pd p @ [cid] else pool_of pd q)"
  by (simp add: pool_emplace_def)

lemma chunks_for_bounds: "0 < chunks_for a b" "chunks_for a b < 2 ^ 64"
proof -
  have "(1 :: u64) \<le> max 1 ((a + b - 1) div b)" by simp
  then have "unat (1 :: u64) \<le> unat (max 1 ((a + b - 1) div b))" by (simp add: word_le_nat_alt)
  then show "0 < chunks_for a b" by (simp add: chunks_for_def)
  show "chunks_for a b < 2 ^ 64"
    using unsigned_less [of "max 1 ((a + b - 1) div b)"] by (simp add: chunks_for_def)
qed

section \<open>Ledger facts\<close>

lemma chunk_at_id: "chunk_at cid pl c \<Longrightarrow> get_chunk_id c = cid \<and> chunk_bytes c \<noteq> 0"
  by (cases pl) auto

lemma objs_ok_bytes:
  assumes "objs_ok all L" "chunk_obj all cid = Some c"
  shows "chunk_bytes c \<noteq> 0"
proof -
  have "rel_option (chunk_at cid) (L cid) (Some c)" using assms by (metis objs_ok_def)
  then show ?thesis by (auto simp: option_rel_Some2 dest: chunk_at_id)
qed

lemma objs_ok_head: "objs_ok ((k, Some c) # rest) L \<Longrightarrow> chunk_bytes c \<noteq> 0"
  using objs_ok_bytes [of "(k, Some c) # rest" L k c] by (simp add: chunk_obj_def)

lemma objs_okD:
  assumes "objs_ok all L" "L cid = Some pl"
  shows "\<exists>c. chunk_obj all cid = Some c \<and> chunk_at cid pl c"
proof -
  from assms have "rel_option (chunk_at cid) (Some pl) (chunk_obj all cid)" by (metis objs_ok_def)
  then show ?thesis by (auto simp: option_rel_Some1)
qed

text \<open>Moving known chunks into a volume, or out of it to their own device, keeps the objects consistent.\<close>

lemma objs_ok_set_ordinals:
  assumes ok: "objs_ok all L"
    and known: "\<And>cid. cid \<in> set cids \<Longrightarrow> \<exists>c. chunk_obj all cid = Some c \<and> chunk_at cid pl (c\<lparr>m_vol_ordinal := ord\<rparr>)"
  shows "objs_ok (set_ordinals cids ord all) (move (set cids) pl L)"
  unfolding objs_ok_def
proof (intro conjI allI)
  show "distinct (map fst (set_ordinals cids ord all))" using ok by (simp add: objs_ok_def)
next
  fix cid
  show "map_of (set_ordinals cids ord all) cid \<noteq> Some None"
    using ok by (auto simp: objs_ok_def map_of_set_ordinals)
  show "rel_option (chunk_at cid) (move (set cids) pl L cid) (chunk_obj (set_ordinals cids ord all) cid)"
    using ok known by (force simp: objs_ok_def move_def chunk_obj_set_ordinals)
qed

lemma objs_ok_move:
  assumes ok: "objs_ok all L"
    and known: "\<And>cid. cid \<in> S \<Longrightarrow> \<exists>c. chunk_obj all cid = Some c \<and> chunk_at cid pl c"
  shows "objs_ok all (move S pl L)"
  using ok known by (force simp: objs_ok_def move_def)

lemma pools_okD: "pools_ok pd L \<Longrightarrow> cid \<in> set (pool_of pd p) \<longleftrightarrow> L cid = Some (Free p)"
  by (simp add: pools_ok_def)

lemma pools_ok_take:
  assumes ok: "pools_ok pd L" and l: "pool_of pd p = l"
    and pl: "\<And>q. pl \<noteq> Free q"
  shows "pools_ok (AList.update p (drop n l) pd) (move (set (take n l)) pl L)"
proof -
  have d: "distinct l" using ok l by (auto simp: pools_ok_def)
  then have disj: "set (take n l) \<inter> set (drop n l) = {}" by (simp add: set_take_disj_set_drop_if_distinct)
  have un: "cid \<in> set l \<longleftrightarrow> cid \<in> set (take n l) \<or> cid \<in> set (drop n l)" for cid
    by (metis Un_iff append_take_drop_id set_append)
  have mem: "cid \<in> set (pool_of pd q) \<longleftrightarrow> L cid = Some (Free q)" for q cid
    using ok by (rule pools_okD)
  have "cid \<in> set (pool_of (AList.update p (drop n l) pd) q) \<longleftrightarrow>
      move (set (take n l)) pl L cid = Some (Free q)" for q cid
    using mem [of cid q] mem [of cid p] un [of cid] disj l pl by (auto simp: move_def)
  then show ?thesis
    using ok d by (simp add: pools_ok_def distinct_update)
qed

section \<open>What the loops compute\<close>

lemma list_fill_step:
  "idx < length v \<Longrightarrow>
     take (Suc idx) (v[idx := x]) @ ys @ drop (Suc idx + n) (v[idx := x]) =
     take idx v @ (x # ys) @ drop (idx + Suc n) v"
  by (simp add: take_Suc_conv_app_nth)

lemma assign_chunks_eq:
  assumes "distinct cids" "idx + length cids \<le> length v"
    and "\<And>cid. cid \<in> set cids \<Longrightarrow> \<exists>c. chunk_obj all cid = Some c \<and> m_vol_ordinal c = INVALID_VOL_ORDINAL"
  shows "assign_chunks ord idx cids v all =
    Inr (take idx v @ map Some cids @ drop (idx + length cids) v, set_ordinals cids ord all)"
  using assms
proof (induction cids arbitrary: idx v all)
  case Nil
  then show ?case by simp
next
  case (Cons cid cids)
  obtain c where c: "chunk_obj all cid = Some c" "m_vol_ordinal c = INVALID_VOL_ORDINAL"
    using Cons.prems(3) by auto
  have "assign_chunks ord (Suc idx) cids (v[idx := Some cid]) (set_vol_ordinal cid ord all) =
      Inr (take (Suc idx) (v[idx := Some cid]) @ map Some cids @ drop (Suc idx + length cids) (v[idx := Some cid]),
           set_ordinals cids ord (set_vol_ordinal cid ord all))"
    using Cons.prems by (intro Cons.IH) (auto simp: chunk_obj_set_vol_ordinal)
  with c Cons.prems list_fill_step [of idx v "Some cid" "map Some cids" "length cids"] show ?case by simp
qed

lemma place_chunks_eq:
  "idx + length cids \<le> length v \<Longrightarrow>
     place_chunks idx cids v = Inr (take idx v @ map Some cids @ drop (idx + length cids) v)"
proof (induction cids arbitrary: idx v)
  case (Cons cid cids)
  then show ?case
    using list_fill_step [of idx v "Some cid" "map Some cids" "length cids"] by simp
qed simp

lemma release_loop_eq:
  assumes "\<And>cid. cid \<in> set (somes v) \<Longrightarrow> \<exists>c. chunk_obj all cid = Some c \<and> get_pdev_id c = p"
  shows "release_loop v all pd =
    Inr (set_ordinals (somes v) INVALID_VOL_ORDINAL all, fold (pool_emplace p) (somes v) pd)"
  using assms
proof (induction v all pd rule: release_loop.induct)
  case (3 cid v all pd)
  obtain c where c: "chunk_obj all cid = Some c" "get_pdev_id c = p" using "3.prems" by auto
  have "release_loop v (set_vol_ordinal cid INVALID_VOL_ORDINAL all) (pool_emplace (get_pdev_id c) cid pd) =
     Inr (set_ordinals (somes v) INVALID_VOL_ORDINAL (set_vol_ordinal cid INVALID_VOL_ORDINAL all),
          fold (pool_emplace p) (somes v) (pool_emplace (get_pdev_id c) cid pd))"
    using c "3.prems" by (intro "3.IH") (auto simp: chunk_obj_set_vol_ordinal)
  then show ?case using c by simp
qed auto

definition unpool :: "pdev_id_t \<Rightarrow> chunk_num_t \<Rightarrow> dev_pools \<Rightarrow> dev_pools" where
  "unpool p cid pd = AList.update p (remove1 cid (pool_of pd p)) pd"

lemma emplace_present: "chunk_obj all cid = Some c \<Longrightarrow> emplace cid None all = all"
  by (simp add: emplace_def chunk_obj_Some)

lemma recover_loop_eq:
  assumes "distinct cids" "idx + length cids \<le> length v"
    and "\<And>cid. cid \<in> set cids \<Longrightarrow> cid \<in> set (pool_of pd p) \<and>
      (\<exists>c. chunk_obj all cid = Some c \<and> m_vol_ordinal c = INVALID_VOL_ORDINAL \<and> get_pdev_id c = p)"
  shows "recover_loop ord p idx cids v all pd =
    Inr (True, take idx v @ map Some cids @ drop (idx + length cids) v, set_ordinals cids ord all,
         fold (unpool p) cids pd)"
  using assms
proof (induction cids arbitrary: idx v all pd)
  case Nil
  then show ?case by simp
next
  case (Cons cid cids)
  obtain c where c: "chunk_obj all cid = Some c" "m_vol_ordinal c = INVALID_VOL_ORDINAL" "get_pdev_id c = p"
    and mem: "cid \<in> set (pool_of pd p)"
    using Cons.prems(3) by auto
  have "recover_loop ord p (Suc idx) cids (v[idx := Some cid]) (set_vol_ordinal cid ord all) (unpool p cid pd) =
     Inr (True, take (Suc idx) (v[idx := Some cid]) @ map Some cids @ drop (Suc idx + length cids) (v[idx := Some cid]),
          set_ordinals cids ord (set_vol_ordinal cid ord all), fold (unpool p) cids (unpool p cid pd))"
    using Cons.prems
    by (intro Cons.IH) (auto simp: chunk_obj_set_vol_ordinal unpool_def)
  with c mem Cons.prems list_fill_step [of idx v "Some cid" "map Some cids" "length cids"] show ?case
    by (simp add: emplace_present flip: unpool_def)
qed

section \<open>Moves on the device pools\<close>

lemma move_move: "move S pl (move T pl L) = move (S \<union> T) pl L"
  by (auto simp: move_def fun_eq_iff)

lemma pools_ok_emplace:
  assumes "pools_ok pd L" "\<And>q. L cid \<noteq> Some (Free q)"
  shows "pools_ok (pool_emplace p cid pd) (move {cid} (Free p) L)"
proof -
  have out: "cid \<notin> set (pool_of pd q)" for q using assms by (simp add: pools_okD)
  have "distinct (map fst (pool_emplace p cid pd))"
    using assms by (simp add: pools_ok_def pool_emplace_def distinct_update)
  moreover have "distinct (pool_of (pool_emplace p cid pd) q)" for q
    using assms out [of p] by (simp add: pools_ok_def pool_of_emplace)
  moreover have "x \<in> set (pool_of (pool_emplace p cid pd) q) \<longleftrightarrow> move {cid} (Free p) L x = Some (Free q)" for x q
    using pools_okD [OF assms(1), of x q] pools_okD [OF assms(1), of x p] out [of q] out [of p]
    by (auto simp: pool_of_emplace move_def)
  ultimately show ?thesis by (simp add: pools_ok_def)
qed

lemma pools_ok_fold_emplace:
  assumes "pools_ok pd L" "distinct cids" "\<And>cid q. cid \<in> set cids \<Longrightarrow> L cid \<noteq> Some (Free q)"
  shows "pools_ok (fold (pool_emplace p) cids pd) (move (set cids) (Free p) L)"
  using assms
proof (induction cids arbitrary: pd L)
  case Nil
  then show ?case by (simp add: move_def)
next
  case (Cons cid cids)
  have "pools_ok (pool_emplace p cid pd) (move {cid} (Free p) L)"
    using Cons.prems by (intro pools_ok_emplace) auto
  then have "pools_ok (fold (pool_emplace p) cids (pool_emplace p cid pd)) (move (set cids) (Free p) (move {cid} (Free p) L))"
    using Cons.prems by (intro Cons.IH) (auto simp: move_def)
  then show ?case by (simp add: move_move Un_commute)
qed

lemma pools_ok_unpool:
  assumes "pools_ok pd L" "L cid = Some (Free p)"
  shows "pools_ok (unpool p cid pd) (move {cid} (Owned ord) L)"
proof -
  have d: "distinct (pool_of pd q)" for q using assms by (simp add: pools_ok_def)
  have "x \<in> set (pool_of (unpool p cid pd) q) \<longleftrightarrow> move {cid} (Owned ord) L x = Some (Free q)" for x q
    using pools_okD [OF assms(1), of x q] d [of p] assms(2) by (auto simp: unpool_def move_def)
  then show ?thesis
    using assms d by (simp add: pools_ok_def unpool_def distinct_update)
qed

lemma pools_ok_fold_unpool:
  assumes "pools_ok pd L" "distinct cids" "\<And>cid. cid \<in> set cids \<Longrightarrow> L cid = Some (Free p)"
  shows "pools_ok (fold (unpool p) cids pd) (move (set cids) (Owned ord) L)"
  using assms
proof (induction cids arbitrary: pd L)
  case Nil
  then show ?case by (simp add: move_def)
next
  case (Cons cid cids)
  have "pools_ok (unpool p cid pd) (move {cid} (Owned ord) L)"
    using Cons.prems by (intro pools_ok_unpool) auto
  then have "pools_ok (fold (unpool p) cids (unpool p cid pd)) (move (set cids) (Owned ord) (move {cid} (Owned ord) L))"
    using Cons.prems by (intro Cons.IH) (auto simp: move_def)
  then show ?case by (simp add: move_move Un_commute)
qed

section \<open>Operations as moves in the ledger\<close>

lemma volc_wf_fill:
  assumes "distinct cids" "cids \<noteq> []" "length cids \<le> n" "n < 2 ^ 64"
  shows "volc_wf \<lparr>m_chunks = map Some cids @ replicate (n - length cids) None, max_num_chunks = n,
    num_active_chunks = length cids, m_next_chunk_index = i, vc_ordinal = ord, vc_pdev = p\<rparr>"
  using assms by (simp add: volc_wf_def)

lemma vols_okD: "vols_ok s L \<Longrightarrow> cid \<in> set (vol_ids s ord) \<longleftrightarrow> L cid = Some (Owned ord)"
  unfolding vols_ok_def by blast

text \<open>A volume, new or existing, gets further chunks.\<close>

lemma vols_ok_extend:
  assumes ok: "vols_ok s L" and ord: "ord < MAX_NUM_VOLUMES"
    and v: "volc_wf v" "vc_ordinal v = ord" "set (somes (m_chunks v)) = set (vol_ids s ord) \<union> set cids"
    and free: "\<And>cid. cid \<in> set cids \<Longrightarrow> L cid = Some (Free p)"
    and pdev: "\<And>cid c. cid \<in> set (somes (m_chunks v)) \<Longrightarrow> chunk_obj all cid = Some c \<Longrightarrow> get_pdev_id c = vc_pdev v"
    and same: "\<And>cid. map_option get_pdev_id (chunk_obj all cid) = map_option get_pdev_id (chunk_obj (m_all_chunks s) cid)"
    and s': "m_all_chunks s' = all" "m_volume_chunks s' = (m_volume_chunks s)(ord \<mapsto> v)"
  shows "vols_ok s' (move (set cids) (Owned ord) L)"
proof -
  have ids: "vol_ids s' o' = (if o' = ord then somes (m_chunks v) else vol_ids s o')" for o'
    using s' by (simp add: vol_ids_def)
  have mem: "cid \<in> set (vol_ids s' o') \<longleftrightarrow> move (set cids) (Owned ord) L cid = Some (Owned o')" for o' cid
    using vols_okD [OF ok, of cid o'] vols_okD [OF ok, of cid ord] free [of cid] v(3)
    by (auto simp: ids move_def)
  have "get_pdev_id c = vc_pdev w"
    if "m_volume_chunks s o' = Some w" "cid \<in> set (somes (m_chunks w))" "chunk_obj all cid = Some c" for o' w cid c
  proof -
    note w = that
    obtain c' where "chunk_obj (m_all_chunks s) cid = Some c'" "get_pdev_id c' = get_pdev_id c"
      using same [of cid] w(3) by (cases "chunk_obj (m_all_chunks s) cid") auto
    then show ?thesis using ok w unfolding vols_ok_def by metis
  qed
  then show ?thesis
    using ok mem ord v pdev s' unfolding vols_ok_def by (auto split: if_splits)
qed

lemma pdev_set_ordinals:
  "map_option get_pdev_id (chunk_obj (set_ordinals cids ord all) cid) = map_option get_pdev_id (chunk_obj all cid)"
  by (auto simp: chunk_obj_set_ordinals option.map_comp comp_def)

text \<open>The common core of allocation and recovery: chunks free on one device become a new volume's chunks.\<close>

lemma sel_rel_register:
  assumes rel: "sel_rel s L" and new: "m_volume_chunks s ord = None" "ord < MAX_NUM_VOLUMES"
    and cids: "distinct cids" "cids \<noteq> []" "length cids \<le> n" "n < 2 ^ 64"
    and free: "\<And>cid. cid \<in> set cids \<Longrightarrow> L cid = Some (Free p)"
    and pools: "pools_ok pd (move (set cids) (Owned ord) L)"
  shows "sel_rel (s\<lparr>m_all_chunks := set_ordinals cids ord (m_all_chunks s), m_per_dev_chunks := pd,
     m_volume_chunks := (m_volume_chunks s)(ord \<mapsto>
       \<lparr>m_chunks = map Some cids @ replicate (n - length cids) None, max_num_chunks = n,
        num_active_chunks = length cids, m_next_chunk_index = 0, vc_ordinal = ord, vc_pdev = p\<rparr>)\<rparr>)
    (move (set cids) (Owned ord) L)"
proof -
  have objs: "objs_ok (m_all_chunks s) L" and vols: "vols_ok s L" using rel by (simp_all add: sel_rel_def)
  have obj: "\<exists>c. chunk_obj (m_all_chunks s) cid = Some c \<and> get_chunk_id c = cid \<and> get_pdev_id c = p \<and> chunk_bytes c \<noteq> 0"
    if "cid \<in> set cids" for cid
    using objs_okD [OF objs free [OF that]] by auto
  have "objs_ok (set_ordinals cids ord (m_all_chunks s)) (move (set cids) (Owned ord) L)"
    using objs obj by (intro objs_ok_set_ordinals) fastforce+
  moreover have "get_pdev_id c = p"
    if "cid \<in> set cids" "chunk_obj (set_ordinals cids ord (m_all_chunks s)) cid = Some c" for cid c
    using obj [OF that(1)] that by (auto simp: chunk_obj_set_ordinals)
  moreover note pools
  moreover have "vols_ok (s\<lparr>m_all_chunks := set_ordinals cids ord (m_all_chunks s), m_per_dev_chunks := pd,
     m_volume_chunks := (m_volume_chunks s)(ord \<mapsto>
       \<lparr>m_chunks = map Some cids @ replicate (n - length cids) None, max_num_chunks = n,
        num_active_chunks = length cids, m_next_chunk_index = 0, vc_ordinal = ord, vc_pdev = p\<rparr>)\<rparr>)
    (move (set cids) (Owned ord) L)"
    using new free calculation(2) volc_wf_fill [OF cids]
    by (intro vols_ok_extend [OF vols, where all = "set_ordinals cids ord (m_all_chunks s)"])
      (auto simp: vol_ids_def pdev_set_ordinals)
  ultimately show ?thesis by (simp add: sel_rel_def)
qed

lemma find_pool:
  assumes "pools_ok pd L" "List.find (\<lambda>(p, l). n \<le> length l) pd = Some (p, l)"
  shows "pool_of pd p = l" "n \<le> length l"
  using find_SomeD [OF assms(2)] assms(1) by (auto simp: pool_of_def pools_ok_def)

lemma allocate_init_chunks_refines:
  assumes rel: "sel_rel s L" and new: "m_volume_chunks s ord = None" "ord < MAX_NUM_VOLUMES"
  shows "\<exists>cids pdev s'. allocate_init_chunks ord volume_size pdev_id lazy_alloc s = Inr (cids, pdev, s') \<and>
    (if cids = [] then s' = s \<and> pdev = pdev_id
     else distinct cids \<and> (\<forall>cid\<in>set cids. L cid = Some (Free pdev)) \<and>
       sel_rel s' (move (set cids) (Owned ord) L) \<and> vol_ids s' ord = cids \<and>
       (\<exists>v. m_volume_chunks s' ord = Some v \<and> vc_pdev v = pdev))"
proof (cases "m_all_chunks s")
  case Nil
  then show ?thesis using new by (simp add: allocate_init_chunks_def)
next
  case (Cons e rest)
  have objs: "objs_ok (m_all_chunks s) L" and pools: "pools_ok (m_per_dev_chunks s) L"
    using rel by (simp_all add: sel_rel_def)
  obtain k x where e: "e = (k, x)" by (cases e)
  have "map_of (m_all_chunks s) k \<noteq> Some None" using objs by (simp add: objs_ok_def)
  then obtain c0 where x: "x = Some c0" using Cons e by auto
  define maxc where "maxc = chunks_for volume_size (chunk_bytes c0)"
  define active where "active = (if lazy_alloc then min maxc num_chunks_per_vol_init else maxc)"
  have b: "0 < active" "active \<le> maxc" "maxc < 2 ^ 64"
    using chunks_for_bounds [of volume_size "chunk_bytes c0"]
    by (auto simp: active_def maxc_def num_chunks_per_vol_init_def)
  have eq: "allocate_init_chunks ord volume_size pdev_id lazy_alloc s =
      bind_sum (allocate_init_chunks_from_pdev active maxc s) (\<lambda>(cids, s1).
        register_init_chunks ord maxc active pdev_id cids s1)"
    using Cons e x new objs_ok_head [of k c0 rest L] objs by (simp add: allocate_init_chunks_def Let_def active_def maxc_def)
  show ?thesis
  proof (cases "List.find (\<lambda>(p, l). maxc \<le> length l) (m_per_dev_chunks s)")
    case None
    then show ?thesis using eq b
      by (simp add: allocate_init_chunks_from_pdev_def register_init_chunks_def)
  next
    case (Some pl)
    obtain p l where pl: "pl = (p, l)" by (cases pl)
    define cids where "cids = take active l"
    have l: "pool_of (m_per_dev_chunks s) p = l" "maxc \<le> length l"
      using find_pool [OF pools] Some pl by auto
    have "distinct l" using pools l by (auto simp: pools_ok_def)
    then have cids: "distinct cids" "length cids = active" "cids \<noteq> []"
      using b l by (auto simp: cids_def)
    have free: "L cid = Some (Free p)" if "cid \<in> set cids" for cid
      using that pools_okD [OF pools, of cid p] l by (auto simp: cids_def dest: in_set_takeD)
    obtain cid tl where hd: "cids = cid # tl" using cids by (cases cids) auto
    obtain c where c: "chunk_obj (m_all_chunks s) cid = Some c" "get_pdev_id c = p"
      using objs_okD [OF objs free, of cid] hd by auto
    have asg: "assign_chunks ord 0 cids (replicate maxc None) (m_all_chunks s) =
        Inr (map Some cids @ replicate (maxc - length cids) None, set_ordinals cids ord (m_all_chunks s))"
      using assign_chunks_eq [of cids 0 "replicate maxc None" "m_all_chunks s" ord] cids b
        objs_okD [OF objs free] by fastforce
    have "sel_rel (s\<lparr>m_all_chunks := set_ordinals cids ord (m_all_chunks s),
        m_per_dev_chunks := AList.update p (drop active l) (m_per_dev_chunks s),
        m_volume_chunks := (m_volume_chunks s)(ord \<mapsto>
          \<lparr>m_chunks = map Some cids @ replicate (maxc - length cids) None, max_num_chunks = maxc,
           num_active_chunks = length cids, m_next_chunk_index = 0, vc_ordinal = ord, vc_pdev = p\<rparr>)\<rparr>)
        (move (set cids) (Owned ord) L)"
      using cids b free pools_ok_take [OF pools l(1), of "Owned ord" active]
      by (intro sel_rel_register [OF rel new]) (auto simp: cids_def)
    moreover have "allocate_init_chunks ord volume_size pdev_id lazy_alloc s = Inr (cids, p,
       s\<lparr>m_all_chunks := set_ordinals cids ord (m_all_chunks s),
        m_per_dev_chunks := AList.update p (drop active l) (m_per_dev_chunks s),
        m_volume_chunks := (m_volume_chunks s)(ord \<mapsto>
          \<lparr>m_chunks = map Some cids @ replicate (maxc - length cids) None, max_num_chunks = maxc,
           num_active_chunks = length cids, m_next_chunk_index = 0, vc_ordinal = ord, vc_pdev = p\<rparr>)\<rparr>)"
      unfolding eq using b Some pl c cids asg
      by (simp add: allocate_init_chunks_from_pdev_def register_init_chunks_def hd flip: cids_def)
    ultimately show ?thesis using cids free by (auto simp: vol_ids_def)
  qed
qed

lemma vol_pdev:
  assumes "sel_rel s L" "m_volume_chunks s ord = Some v" "cid \<in> set (somes (m_chunks v))"
  shows "\<exists>c. chunk_obj (m_all_chunks s) cid = Some c \<and> get_chunk_id c = cid \<and> get_pdev_id c = vc_pdev v \<and> chunk_bytes c \<noteq> 0"
proof -
  have ok: "objs_ok (m_all_chunks s) L" "vols_ok s L" using assms by (simp_all add: sel_rel_def)
  have "L cid = Some (Owned ord)" using vols_okD [OF ok(2), of cid ord] assms by (simp add: vol_ids_def)
  from objs_okD [OF ok(1) this] obtain c where c: "chunk_obj (m_all_chunks s) cid = Some c" "get_chunk_id c = cid" "chunk_bytes c \<noteq> 0"
    by auto
  with ok(2) assms show ?thesis unfolding vols_ok_def by blast
qed

lemma release_chunks_refines:
  assumes rel: "sel_rel s L" and v: "m_volume_chunks s ord = Some v"
  shows "\<exists>s'. release_chunks ord s = Inr s' \<and> m_volume_chunks s' = (m_volume_chunks s)(ord := None) \<and>
    pending_resizes s' = map (release_target ord v) (pending_resizes s) \<and>
    sel_rel s' (move (set (vol_ids s ord)) (Free (vc_pdev v)) L)"
proof -
  have objs: "objs_ok (m_all_chunks s) L" and pools: "pools_ok (m_per_dev_chunks s) L" and vols: "vols_ok s L"
    using rel by (simp_all add: sel_rel_def)
  let ?cids = "somes (m_chunks v)"
  let ?L = "move (set ?cids) (Free (vc_pdev v)) L"
  let ?all = "set_ordinals ?cids INVALID_VOL_ORDINAL (m_all_chunks s)"
  let ?pd = "fold (pool_emplace (vc_pdev v)) ?cids (m_per_dev_chunks s)"
  have wf: "volc_wf v" "ord < MAX_NUM_VOLUMES" using vols v by (auto simp: vols_ok_def)
  have ids: "vol_ids s ord = ?cids" using v by (simp add: vol_ids_def)
  have own: "cid \<in> set ?cids \<longleftrightarrow> L cid = Some (Owned ord)" for cid
    using vols_okD [OF vols, of cid ord] ids by simp
  have obj: "\<exists>c. chunk_obj (m_all_chunks s) cid = Some c \<and> get_chunk_id c = cid \<and> get_pdev_id c = vc_pdev v \<and> chunk_bytes c \<noteq> 0"
    if "cid \<in> set ?cids" for cid using vol_pdev [OF rel v that] .
  then have "release_loop (m_chunks v) (m_all_chunks s) (m_per_dev_chunks s) = Inr (?all, ?pd)"
    by (intro release_loop_eq) blast
  then have eq: "release_chunks ord s = Inr (s\<lparr>m_all_chunks := ?all, m_per_dev_chunks := ?pd,
      m_volume_chunks := (m_volume_chunks s)(ord := None), pending_resizes := map (release_target ord v) (pending_resizes s)\<rparr>)"
    using v wf by (simp add: release_chunks_def)
  have o: "objs_ok ?all ?L" using objs obj by (intro objs_ok_set_ordinals) fastforce+
  have p: "pools_ok ?pd ?L"
    using wf own by (intro pools_ok_fold_emplace [OF pools]) (auto simp: volc_wf_def)
  have "vols_ok (s\<lparr>m_all_chunks := ?all, m_per_dev_chunks := ?pd,
      m_volume_chunks := (m_volume_chunks s)(ord := None), pending_resizes := map (release_target ord v) (pending_resizes s)\<rparr>) ?L" (is "vols_ok ?s ?L")
  proof -
    have mem: "cid \<in> set (vol_ids ?s o') \<longleftrightarrow> ?L cid = Some (Owned o')" for o' cid
      using vols_okD [OF vols, of cid o'] own [of cid] by (auto simp: vol_ids_def move_def)
    have "get_pdev_id c = vc_pdev w"
      if "m_volume_chunks s o' = Some w" "cid \<in> set (somes (m_chunks w))" "chunk_obj ?all cid = Some c" for o' w cid c
      using vol_pdev [OF rel that(1,2)] that(3) pdev_set_ordinals [of ?cids INVALID_VOL_ORDINAL "m_all_chunks s" cid]
      by auto
    then show ?thesis using vols mem unfolding vols_ok_def by (auto split: if_splits)
  qed
  with eq o p show ?thesis by (simp add: sel_rel_def ids)
qed

lemma recover_chunks_refines:
  assumes rel: "sel_rel s L" and new: "m_volume_chunks s ord = None" "ord < MAX_NUM_VOLUMES"
    and some: "m_all_chunks s = (k, Some c0) # rest"
    and cids: "distinct cids" "cids \<noteq> []" "length cids \<le> chunks_for volume_size (chunk_bytes c0)"
    and free: "\<And>cid. cid \<in> set cids \<Longrightarrow> L cid = Some (Free pdev)"
  shows "\<exists>s'. recover_chunks ord pdev volume_size cids s = Inr (True, s') \<and>
    sel_rel s' (move (set cids) (Owned ord) L) \<and> vol_ids s' ord = cids"
proof -
  let ?n = "chunks_for volume_size (chunk_bytes c0)"
  have objs: "objs_ok (m_all_chunks s) L" and pools: "pools_ok (m_per_dev_chunks s) L"
    using rel by (simp_all add: sel_rel_def)
  have "recover_loop ord pdev 0 cids (replicate ?n None) (m_all_chunks s) (m_per_dev_chunks s) =
      Inr (True, map Some cids @ replicate (?n - length cids) None, set_ordinals cids ord (m_all_chunks s),
        fold (unpool pdev) cids (m_per_dev_chunks s))"
    using recover_loop_eq [of cids 0 "replicate ?n None" "m_per_dev_chunks s" pdev "m_all_chunks s" ord] cids free
      objs_okD [OF objs free] pools_okD [OF pools] by fastforce
  moreover have "sel_rel (s\<lparr>m_all_chunks := set_ordinals cids ord (m_all_chunks s),
      m_per_dev_chunks := fold (unpool pdev) cids (m_per_dev_chunks s),
      m_volume_chunks := (m_volume_chunks s)(ord \<mapsto>
       \<lparr>m_chunks = map Some cids @ replicate (?n - length cids) None, max_num_chunks = ?n,
        num_active_chunks = length cids, m_next_chunk_index = 0, vc_ordinal = ord, vc_pdev = pdev\<rparr>)\<rparr>)
      (move (set cids) (Owned ord) L)"
    using cids free chunks_for_bounds by (intro sel_rel_register [OF rel new]) (auto intro: pools_ok_fold_unpool [OF pools])
  moreover have "chunk_bytes c0 \<noteq> 0" using objs some objs_ok_head by simp
  ultimately show ?thesis using new some by (simp add: recover_chunks_def vol_ids_def Let_def)
qed

lemma add_chunk_refines:
  assumes rel: "sel_rel s L" and fresh: "L (get_chunk_id c) = None" and bytes: "chunk_bytes c \<noteq> 0"
  shows "sel_rel (add_chunk c s) (move {get_chunk_id c} (Free (get_pdev_id c)) L)"
proof -
  let ?cid = "get_chunk_id c" and ?p = "get_pdev_id c"
  have objs: "objs_ok (m_all_chunks s) L" and pools: "pools_ok (m_per_dev_chunks s) L" and vols: "vols_ok s L"
    using rel by (simp_all add: sel_rel_def)
  have r: "rel_option (chunk_at cid) (L cid) (chunk_obj (m_all_chunks s) cid)" for cid
    using objs by (simp add: objs_ok_def)
  then have "chunk_obj (m_all_chunks s) ?cid = None" using fresh r [of ?cid] by (metis option.rel_distinct(1) option.exhaust)
  then have none: "map_of (m_all_chunks s) ?cid = None"
    using objs by (auto simp: chunk_obj_def objs_ok_def split: option.splits)
  have obj: "chunk_obj (m_all_chunks (add_chunk c s)) cid = (if cid = ?cid then Some (hb_chunk c) else chunk_obj (m_all_chunks s) cid)" for cid
    using none by (simp add: add_chunk_def chunk_obj_def map_of_emplace)
  have "objs_ok (m_all_chunks (add_chunk c s)) (move {?cid} (Free ?p) L)"
    unfolding objs_ok_def
  proof (intro conjI allI)
    show "distinct (map fst (m_all_chunks (add_chunk c s)))"
      using objs by (simp add: add_chunk_def distinct_emplace objs_ok_def)
    fix cid
    have "map_of (m_all_chunks s) cid \<noteq> Some None" using objs by (simp add: objs_ok_def)
    then show "map_of (m_all_chunks (add_chunk c s)) cid \<noteq> Some None"
      using none by (simp add: add_chunk_def map_of_emplace)
    show "rel_option (chunk_at cid) (move {?cid} (Free ?p) L cid) (chunk_obj (m_all_chunks (add_chunk c s)) cid)"
      using r [of cid] bytes by (simp add: obj move_def hb_chunk_def)
  qed
  moreover have "pools_ok (m_per_dev_chunks (add_chunk c s)) (move {?cid} (Free ?p) L)"
    using pools_ok_emplace [OF pools, of ?cid ?p] fresh by (simp add: add_chunk_def)
  moreover have "vols_ok (add_chunk c s) (move {?cid} (Free ?p) L)"
  proof -
    have ids: "vol_ids (add_chunk c s) o' = vol_ids s o'" for o' by (simp add: vol_ids_def add_chunk_def)
    have "cid \<in> set (vol_ids s o') \<longleftrightarrow> move {?cid} (Free ?p) L cid = Some (Owned o')" for o' cid
      using vols_okD [OF vols, of cid o'] fresh by (auto simp: move_def)
    moreover have "get_pdev_id c' = vc_pdev w"
      if "m_volume_chunks s o' = Some w" "cid \<in> set (somes (m_chunks w))" "chunk_obj (m_all_chunks (add_chunk c s)) cid = Some c'"
      for o' w cid c'
      using vol_pdev [OF rel that(1,2)] that(3) \<open>chunk_obj (m_all_chunks s) ?cid = None\<close> by (auto simp: obj split: if_splits)
    ultimately show ?thesis using vols unfolding vols_ok_def ids by (auto simp: add_chunk_def)
  qed
  ultimately show ?thesis by (simp add: sel_rel_def)
qed

end
