(* ===== verification/Chunk_Steps.thy ===== *)
theory Chunk_Steps
  imports Chunk_Ledger
begin

text \<open>
  Growing a volume, selecting a chunk, and the selector as a state machine: every sequence of
  operations, background tasks and changes of the free block counts keeps the ledger.
\<close>

section \<open>Growing a volume\<close>

lemma resize_task_refines:
  assumes rel: "sel_rel s L" and v: "m_volume_chunks s ord = Some v"
    and room: "num_active_chunks v < max_num_chunks v"
    and n: "n = min num_chunks_per_resize (max_num_chunks v - num_active_chunks v)"
    and enough: "n \<le> length (pool_of (m_per_dev_chunks s) (vc_pdev v))"
    and cids: "cids = take n (pool_of (m_per_dev_chunks s) (vc_pdev v))"
  shows "\<exists>s'. resize_task (Live ord) s = Inr s' \<and> sel_rel s' (move (set cids) (Owned ord) L) \<and>
    vol_ids s' ord = vol_ids s ord @ cids \<and> sb_updates s' = sb_updates s @ [(ord, vol_ids s ord @ cids)] \<and>
    resize_op s' = Idle \<and> pending_resizes s' = pending_resizes s \<and> m_all_chunks s' = m_all_chunks s \<and>
    (\<exists>w. m_volume_chunks s' ord = Some w \<and> num_active_chunks w = num_active_chunks v + length cids \<and>
       m_next_chunk_index w = m_next_chunk_index v)"
proof -
  have objs: "objs_ok (m_all_chunks s) L" and pools: "pools_ok (m_per_dev_chunks s) L" and vols: "vols_ok s L"
    using rel by (simp_all add: sel_rel_def)
  let ?pool = "pool_of (m_per_dev_chunks s) (vc_pdev v)" and ?ids = "somes (m_chunks v)"
  have wf: "volc_wf v" "ord < MAX_NUM_VOLUMES" "vc_ordinal v = ord" using vols v by (auto simp: vols_ok_def)
  have ids: "vol_ids s ord = ?ids" using v by (simp add: vol_ids_def)
  have len: "length ?ids = num_active_chunks v" "max_num_chunks v < 2 ^ 64" using wf by (auto simp: volc_wf_def)
  have shape: "m_chunks v = map Some ?ids @ replicate (max_num_chunks v - num_active_chunks v) None"
    using wf by (simp add: volc_wf_def)
  have n0: "0 < n" "n \<le> max_num_chunks v - num_active_chunks v"
    using n room by (auto simp: num_chunks_per_resize_def)
  have lenc: "length cids = n" using enough cids by simp
  then have ne: "cids \<noteq> []" using n0 by auto
  have dist: "distinct ?pool" using pools by (simp add: pools_ok_def)
  have free: "L cid = Some (Free (vc_pdev v))" if "cid \<in> set cids" for cid
    using that pools_okD [OF pools, of cid "vc_pdev v"] cids by (auto dest: in_set_takeD)
  have own: "L cid = Some (Owned ord)" if "cid \<in> set ?ids" for cid
    using that vols_okD [OF vols, of cid ord] ids by simp
  define w where "w = map Some (?ids @ cids) @ replicate (max_num_chunks v - num_active_chunks v - n) None"
  define v' where "v' = v\<lparr>m_chunks := w, num_active_chunks := num_active_chunks v + length cids\<rparr>"
  have fits: "num_active_chunks v + length cids \<le> length (m_chunks v)"
    using len lenc n0 room by (subst shape) simp
  have pre: "take (num_active_chunks v) (m_chunks v) = map Some ?ids"
    using len by (subst shape) simp
  have post: "drop (num_active_chunks v + n) (m_chunks v) = replicate (max_num_chunks v - num_active_chunks v - n) None"
    using len by (subst shape) simp
  have place: "place_chunks (num_active_chunks v) cids (m_chunks v) = Inr w"
    using place_chunks_eq [OF fits] pre post lenc by (simp add: w_def)
  have sw: "somes w = ?ids @ cids" by (simp add: w_def flip: map_append)
  have "distinct cids" using dist cids by simp
  moreover have "set ?ids \<inter> set cids = {}" using free own by fastforce
  ultimately have "distinct (?ids @ cids)" using wf by (auto simp: volc_wf_def)
  then have wf': "volc_wf v'"
    using len lenc n0 room sw by (auto simp: volc_wf_def v'_def) (simp add: w_def)
  have "(max_num_chunks v + 2 ^ 64 - num_active_chunks v) mod 2 ^ 64 = max_num_chunks v - num_active_chunks v"
    using len room by (simp add: mod_if)
  then have eq: "resize_task (Live ord) s = Inr (s\<lparr>m_per_dev_chunks := AList.update (vc_pdev v) (drop n ?pool) (m_per_dev_chunks s),
      sb_updates := sb_updates s @ [(ord, ?ids @ cids)], m_volume_chunks := (m_volume_chunks s)(ord \<mapsto> v'),
      resize_op := Idle\<rparr>)" (is "_ = Inr ?s'")
    using v enough place ne sw wf
    by (simp add: resize_task_def target_volc_def store_volc_def allocate_resize_chunks_from_pdev_def Let_def v'_def flip: n cids)
  have "objs_ok (m_all_chunks s) (move (set cids) (Owned ord) L)"
    using objs_okD [OF objs free] by (intro objs_ok_move [OF objs]) fastforce
  moreover have "pools_ok (AList.update (vc_pdev v) (drop n ?pool) (m_per_dev_chunks s)) (move (set cids) (Owned ord) L)"
    using pools_ok_take [OF pools refl, of "Owned ord" "vc_pdev v" n] cids by simp
  moreover have "vols_ok ?s' (move (set cids) (Owned ord) L)"
  proof (rule vols_ok_extend [OF vols wf(2) wf'])
    show "get_pdev_id c = vc_pdev v'" if "cid \<in> set (somes (m_chunks v'))" "chunk_obj (m_all_chunks s) cid = Some c" for cid c
      using that vol_pdev [OF rel v, of cid] objs_okD [OF objs free, of cid] sw by (fastforce simp: v'_def)
  qed (use wf sw ids free in \<open>auto simp: v'_def\<close>)
  ultimately show ?thesis using eq sw ids by (simp add: sel_rel_def vol_ids_def v'_def)
qed

lemma resize_task_exhausted:
  assumes "m_volume_chunks s ord = Some v" "num_active_chunks v \<le> max_num_chunks v" "max_num_chunks v < 2 ^ 64"
    and "length (pool_of (m_per_dev_chunks s) (vc_pdev v)) < min num_chunks_per_resize (max_num_chunks v - num_active_chunks v)"
  shows "resize_task (Live ord) s = Inl ReleaseAssert"
proof -
  have "(max_num_chunks v + 2 ^ 64 - num_active_chunks v) mod 2 ^ 64 = max_num_chunks v - num_active_chunks v"
    using assms by (simp add: mod_if)
  moreover have "\<not> min num_chunks_per_resize (max_num_chunks v - num_active_chunks v)
      \<le> length (pool_of (m_per_dev_chunks s) (vc_pdev v))" using assms(4) by linarith
  ultimately show ?thesis using assms(1)
    by (simp only: resize_task_def target_volc_def resize_target.case allocate_resize_chunks_from_pdev_def Let_def option.case if_True not_not
        if_not_P bind_sum_simps simp_thms)
qed

text \<open>A task whose volume has been released takes free chunks that no volume gets.\<close>

lemma resize_task_stale:
  assumes rel: "sel_rel s L" and run: "resize_task (Released v) s = Inr s'"
  shows "\<exists>cids w. cids \<noteq> [] \<and> distinct cids \<and> (\<forall>cid\<in>set cids. L cid = Some (Free (vc_pdev v))) \<and> sel_rel s' (move (set cids) Lost L) \<and>
    place_chunks (num_active_chunks v) cids (m_chunks v) = Inr w \<and> sb_updates s' = sb_updates s @ [(vc_ordinal v, somes w)] \<and>
    m_volume_chunks s' = m_volume_chunks s \<and> m_all_chunks s' = m_all_chunks s \<and> pending_resizes s' = pending_resizes s \<and> resize_op s' = Idle"
proof -
  have objs: "objs_ok (m_all_chunks s) L" and pools: "pools_ok (m_per_dev_chunks s) L" and vols: "vols_ok s L"
    using rel by (simp_all add: sel_rel_def)
  let ?pool = "pool_of (m_per_dev_chunks s) (vc_pdev v)"
  define n where "n = min num_chunks_per_resize ((max_num_chunks v + 2 ^ 64 - num_active_chunks v) mod 2 ^ 64)"
  define cids where "cids = take n ?pool"
  obtain w where w: "place_chunks (num_active_chunks v) cids (m_chunks v) = Inr w" and ne: "cids \<noteq> []"
    and s': "s' = s\<lparr>m_per_dev_chunks := AList.update (vc_pdev v) (drop n ?pool) (m_per_dev_chunks s),
      sb_updates := sb_updates s @ [(vc_ordinal v, somes w)], resize_op := Idle\<rparr>"
    using run unfolding resize_task_def target_volc_def store_volc_def allocate_resize_chunks_from_pdev_def Let_def
      resize_target.case option.case n_def [symmetric] cids_def [symmetric]
    by (auto simp: bind_sum_eq_Inr cids_def split: if_splits)
  have free: "L cid = Some (Free (vc_pdev v))" if "cid \<in> set cids" for cid
    using that pools_okD [OF pools, of cid "vc_pdev v"] by (auto simp: cids_def dest: in_set_takeD)
  have "distinct cids" using pools by (simp add: pools_ok_def cids_def)
  moreover have "objs_ok (m_all_chunks s) (move (set cids) Lost L)"
    using objs_okD [OF objs free] by (intro objs_ok_move [OF objs]) fastforce
  moreover have "pools_ok (m_per_dev_chunks s') (move (set cids) Lost L)"
    using pools_ok_take [OF pools refl, of Lost "vc_pdev v" n] by (simp add: s' cids_def)
  moreover have "move (set cids) Lost L cid = Some (Owned ord) \<longleftrightarrow> L cid = Some (Owned ord)" for cid ord
    using free [of cid] by (simp add: move_def)
  then have "vols_ok s' (move (set cids) Lost L)" using vols by (simp add: vols_ok_def vol_ids_def s')
  ultimately show ?thesis using ne free w by (intro exI [of _ cids] exI [of _ w]) (simp add: s' sel_rel_def)
qed

section \<open>Selecting a chunk\<close>

lemma volc_wf_nth:
  "volc_wf v \<Longrightarrow> i < num_active_chunks v \<Longrightarrow>
     i < length (m_chunks v) \<and> m_chunks v ! i = Some (somes (m_chunks v) ! i)"
proof -
  assume wf: "volc_wf v" and i: "i < num_active_chunks v"
  then have shape: "m_chunks v = map Some (somes (m_chunks v)) @ replicate (max_num_chunks v - num_active_chunks v) None"
    and len: "length (somes (m_chunks v)) = num_active_chunks v" by (auto simp: volc_wf_def)
  have "i < length (map Some (somes (m_chunks v)))" using i len by simp
  then show ?thesis by (metis shape length_append trans_less_add1 nth_append nth_map length_map)
qed

definition avail_at :: "chunk_pool \<Rightarrow> volume_chunks_info \<Rightarrow> nat \<Rightarrow> nat" where
  "avail_at all v i = (case chunk_obj all (somes (m_chunks v) ! i) of None \<Rightarrow> 0 | Some c \<Rightarrow> available_blks c)"

definition cursor_slot :: "volume_chunks_info \<Rightarrow> u32 \<Rightarrow> nat" where
  "cursor_slot v d = unat (m_next_chunk_index v + d) mod num_active_chunks v"

text \<open>
  Where, relative to the cursor at the start, the \<open>i\<close>-th of \<open>k\<close> draws falls: the earlier draws of this thread and those of the others.
\<close>

fun drawn :: "(nat \<Rightarrow> u32) \<Rightarrow> nat \<Rightarrow> nat \<Rightarrow> u32" where
  "drawn others k 0 = others (k - 1)"
| "drawn others k (Suc i) = others (k - 1) + 1 + drawn others (k - 1) i"

lemma drawn_alone: "(\<And>i. others i = 0) \<Longrightarrow> drawn others k i = of_nat i"
  by (induction others k i rule: drawn.induct) auto

text \<open>
  The outcome of \<open>k\<close> draws of the cursor: after \<open>j\<close> of them either a chunk with free blocks was found at
  the last draw, or all \<open>k\<close> slots were full. The cursor has moved by \<open>d\<close>.
\<close>

definition scan_result ::
  "chunk_pool \<Rightarrow> (nat \<Rightarrow> u32) \<Rightarrow> volume_chunks_info \<Rightarrow> nat \<Rightarrow> nat \<Rightarrow> u32 \<Rightarrow> chunk_num_t option \<Rightarrow> bool" where
  "scan_result all others v k j d r \<longleftrightarrow> j \<le> k \<and> d = (if j = 0 then 0 else drawn others k (j - 1) + 1) \<and>
     (case r of
        None \<Rightarrow> j = k \<and> (\<forall>i < k. avail_at all v (cursor_slot v (drawn others k i)) = 0)
      | Some cid \<Rightarrow> 0 < j \<and> cid = somes (m_chunks v) ! cursor_slot v (drawn others k (j - 1)) \<and>
          0 < avail_at all v (cursor_slot v (drawn others k (j - 1))) \<and>
          (\<forall>i < j - 1. avail_at all v (cursor_slot v (drawn others k i)) = 0))"

definition advance :: "u32 \<Rightarrow> volume_chunks_info \<Rightarrow> volume_chunks_info" where
  "advance d v = v\<lparr>m_next_chunk_index := m_next_chunk_index v + d\<rparr>"

lemma advance_simps [simp]:
  "avail_at all (advance j v) = avail_at all v" "cursor_slot (advance j v) i = cursor_slot v (j + i)"
  "m_chunks (advance j v) = m_chunks v" "num_active_chunks (advance j v) = num_active_chunks v"
  "max_num_chunks (advance j v) = max_num_chunks v" "vc_ordinal (advance j v) = vc_ordinal v"
  "vc_pdev (advance j v) = vc_pdev v" "volc_wf (advance j v) = volc_wf v"
  "advance i (advance j v) = advance (j + i) v" "advance 0 v = v"
  by (simp_all add: advance_def avail_at_def cursor_slot_def fun_eq_iff volc_wf_def add.assoc)

lemma all_less_shift: "P 0 \<Longrightarrow> \<forall>i < j - Suc 0. P (Suc i) \<Longrightarrow> i < j \<Longrightarrow> P i"
  by (cases i) auto

lemma scan_result_Suc:
  assumes full: "avail_at all v (cursor_slot v (others k)) = 0" and rest: "scan_result all others (advance (others k + 1) v) k j d r"
  shows "scan_result all others v (Suc k) (Suc j) (others k + 1 + d) r"
proof -
  have sh: "drawn others (Suc k) (Suc i) = others k + 1 + drawn others k i" "drawn others (Suc k) 0 = others k" for i by simp_all
  have j: "drawn others (Suc k) j = others k + 1 + drawn others k (j - 1)" if "0 < j" using that by (cases j) auto
  have "\<forall>i < j'. avail_at all v (cursor_slot v (drawn others (Suc k) i)) = 0"
    if "\<forall>i < j' - Suc 0. avail_at all v (cursor_slot v (others k + 1 + drawn others k i)) = 0" for j'
    using that full by (auto simp: all_less_shift [where P = "\<lambda>i. avail_at all v (cursor_slot v (drawn others (Suc k) i)) = 0"])
  from this [of "Suc k"] this [of j] show ?thesis
    using rest j sh(2) by (cases r) (auto simp: scan_result_def add.assoc simp del: drawn.simps)
qed

lemma scan_active_spec:
  assumes "volc_wf v" and "\<And>cid. cid \<in> set (somes (m_chunks v)) \<Longrightarrow> \<exists>c. chunk_obj all cid = Some c"
  shows "\<exists>j d r. scan_active all others (num_active_chunks v) k v = Inr (r, advance d v) \<and> scan_result all others v k j d r"
  using assms
proof (induction k arbitrary: v)
  case 0
  then show ?case by (intro exI [of _ 0] exI [of _ None]) (simp add: scan_result_def)
next
  case (Suc k)
  let ?n = "num_active_chunks v" and ?i = "cursor_slot v (others k)" and ?d = "others k + 1"
  have pos: "0 < ?n" using Suc.prems by (simp add: volc_wf_def)
  then have i: "?i < ?n" by (simp add: cursor_slot_def)
  note nth = volc_wf_nth [OF Suc.prems(1) i]
  have "length (somes (m_chunks v)) = ?n" using Suc.prems by (simp add: volc_wf_def)
  then obtain c where c: "chunk_obj all (somes (m_chunks v) ! ?i) = Some c"
    using Suc.prems(2) i nth_mem by metis
  have av: "avail_at all v ?i = available_blks c" using c by (simp add: avail_at_def)
  have step: "scan_active all others ?n (Suc k) v =
      (if 0 < available_blks c then Inr (Some (somes (m_chunks v) ! ?i), advance ?d v) else scan_active all others ?n k (advance ?d v))"
    using nth c by (simp add: cursor_slot_def advance_def Let_def add.assoc)
  show ?case
  proof (cases "0 < available_blks c")
    case True
    then show ?thesis using step av
      by (intro exI [of _ 1] exI [of _ ?d] exI [of _ "Some (somes (m_chunks v) ! ?i)"]) (simp add: scan_result_def)
  next
    case False
    obtain j d r where "scan_active all others ?n k (advance ?d v) = Inr (r, advance d (advance ?d v))"
      "scan_result all others (advance ?d v) k j d r"
      using Suc.IH [of "advance ?d v"] Suc.prems by auto
    then show ?thesis using step False av scan_result_Suc [of all v others k j d r]
      by (intro exI [of _ "Suc j"] exI [of _ "?d + d"] exI [of _ r]) simp
  qed
qed

text \<open>As long as the 32-bit cursor does not wrap within a round, the round looks at every active chunk.\<close>

lemma cursor_slot_covers:
  assumes "t < num_active_chunks v" "unat (m_next_chunk_index v) + num_active_chunks v \<le> 2 ^ 32"
  shows "\<exists>i < num_active_chunks v. cursor_slot v (of_nat i) = t"
proof -
  let ?n = "num_active_chunks v" and ?c = "unat (m_next_chunk_index v)"
  define i where "i = (t + (?n - ?c mod ?n)) mod ?n"
  have pos: "0 < ?n" using assms by simp
  have i: "i < ?n" using pos by (simp add: i_def)
  have "unat (of_nat i :: u32) = i" using assms(2) i by (simp add: unat_of_nat)
  then have "unat (m_next_chunk_index v + of_nat i) = ?c + i"
    using assms(2) i by (subst unat_add_lem [THEN iffD1]) auto
  moreover have "(?c + i) mod ?n = t"
  proof -
    have "(?c + i) mod ?n = (?c mod ?n + (t + (?n - ?c mod ?n))) mod ?n"
      by (simp add: i_def mod_add_eq mod_add_left_eq mod_add_right_eq)
    also have "?c mod ?n + (t + (?n - ?c mod ?n)) = t + ?n" using pos
      by (metis add.assoc add.commute le_add_diff_inverse less_imp_le mod_less_divisor)
    finally show ?thesis using assms(1) by simp
  qed
  ultimately show ?thesis using i by (auto simp: cursor_slot_def)
qed

lemma sel_rel_cong:
  "m_all_chunks s' = m_all_chunks s \<Longrightarrow> m_per_dev_chunks s' = m_per_dev_chunks s \<Longrightarrow>
   m_volume_chunks s' = m_volume_chunks s \<Longrightarrow> sel_rel s' L \<longleftrightarrow> sel_rel s L"
  by (simp add: sel_rel_def vols_ok_def vol_ids_def)

lemma sel_rel_advance:
  assumes "sel_rel s L" "m_volume_chunks s ord = Some v"
  shows "sel_rel (s\<lparr>m_volume_chunks := (m_volume_chunks s)(ord \<mapsto> advance j v)\<rparr>) L"
proof -
  have "vol_ids (s\<lparr>m_volume_chunks := (m_volume_chunks s)(ord \<mapsto> advance j v)\<rparr>) o' = vol_ids s o'" for o'
    using assms(2) by (simp add: vol_ids_def)
  then show ?thesis using assms by (auto simp: sel_rel_def vols_ok_def)
qed

lemma resize_volume_num_chunks_frame:
  assumes "resize_volume_num_chunks nblks ord s = Inr s'"
  shows "m_all_chunks s' = m_all_chunks s" "m_per_dev_chunks s' = m_per_dev_chunks s"
    "m_volume_chunks s' = m_volume_chunks s" "sb_updates s' = sb_updates s"
  using assms by (auto simp: resize_volume_num_chunks_def Let_def split: option.splits if_splits)

lemma resize_volume_num_chunks_Inr:
  "m_volume_chunks s ord = Some v \<Longrightarrow> \<exists>s'. resize_volume_num_chunks nblks ord s = Inr s'"
  by (simp add: resize_volume_num_chunks_def Let_def)

lemma select_round_spec:
  assumes rel: "sel_rel s L" and v: "m_volume_chunks s ord = Some v"
  shows "\<exists>j d r s'. select_round others nblks t a ord s = Inr (r, s') \<and> sel_rel s' L \<and>
    m_all_chunks s' = m_all_chunks s \<and> m_volume_chunks s' = (m_volume_chunks s)(ord \<mapsto> advance d v) \<and>
    scan_result (m_all_chunks s) others v (num_active_chunks v) j d r"
proof -
  have wf: "volc_wf v" using rel v by (auto simp: sel_rel_def vols_ok_def)
  obtain s1 where s1: "(if (a < nblks \<or> usage_lt_half a t) \<and> num_active_chunks v < max_num_chunks v
      then resize_volume_num_chunks nblks ord s else Inr s) = Inr s1"
    and fr: "m_all_chunks s1 = m_all_chunks s" "m_per_dev_chunks s1 = m_per_dev_chunks s" "m_volume_chunks s1 = m_volume_chunks s"
    using resize_volume_num_chunks_Inr [OF v, of nblks] resize_volume_num_chunks_frame [of nblks ord s]
    by (metis (full_types))
  obtain j d r where "scan_active (m_all_chunks s) others (num_active_chunks v) (num_active_chunks v) v = Inr (r, advance d v)"
    and res: "scan_result (m_all_chunks s) others v (num_active_chunks v) j d r"
    using scan_active_spec [OF wf, of "m_all_chunks s" others "num_active_chunks v"] vol_pdev [OF rel v] by blast
  then have "select_round others nblks t a ord s = Inr (r, s1\<lparr>m_volume_chunks := (m_volume_chunks s1)(ord \<mapsto> advance d v)\<rparr>)"
    using v s1 fr by (simp only: select_round_def option.case bind_sum_simps) simp
  moreover have "sel_rel (s1\<lparr>m_volume_chunks := (m_volume_chunks s1)(ord \<mapsto> advance d v)\<rparr>) L"
    using sel_rel_advance [of s1 L ord v d] rel v fr by (simp add: sel_rel_cong [of s1 s])
  ultimately show ?thesis using res fr by auto
qed

section \<open>The selector as a state machine\<close>

text \<open>
  The storage layer allocates and frees blocks of a chunk between any two operations:
  \<open>available_blks\<close> of a chunk may change to any value.
\<close>

definition set_available :: "chunk_num_t \<Rightarrow> nat \<Rightarrow> chunk_pool \<Rightarrow> chunk_pool" where
  "set_available cid n all =
     map (\<lambda>(k, v). (k, if k = cid then map_option (\<lambda>c. c\<lparr>available_blks := n\<rparr>) v else v)) all"

text \<open>
  The steps. A chunk that is added has an id of its own and is not empty. A recovery is one that finds all chunks of its list, which is not empty:
  a failed one returns false with a null entry in \<open>m_all_chunks\<close> (\<open>recover_unknown_leaves_null\<close>) and is outside these runs.
  Every other operation is a step whenever it returns; a release may overtake a resize task of its volume.
\<close>

inductive sel_step :: "selector \<Rightarrow> selector \<Rightarrow> bool" where
  add: "map_of (m_all_chunks s) (get_chunk_id c) = None \<Longrightarrow> chunk_bytes c \<noteq> 0 \<Longrightarrow> sel_step s (add_chunk c s)"
| alloc: "allocate_init_chunks ord volume_size pdev lazy_alloc s = Inr (cids, pdev', s') \<Longrightarrow> sel_step s s'"
| release: "release_chunks ord s = Inr s' \<Longrightarrow> sel_step s s'"
| recover: "recover_chunks ord pdev volume_size cids s = Inr (True, s') \<Longrightarrow> cids \<noteq> [] \<Longrightarrow> sel_step s s'"
| select: "select_round others nblks t a ord s = Inr (r, s') \<Longrightarrow> sel_step s s'"
| request: "resize_volume_num_chunks nblks ord s = Inr s' \<Longrightarrow> sel_step s s'"
| task: "run_pending_resize s = Inr s' \<Longrightarrow> sel_step s s'"
| blks: "sel_step s (s\<lparr>m_all_chunks := set_available cid n (m_all_chunks s)\<rparr>)"

inductive sel_reachable :: "selector \<Rightarrow> bool" where
  start: "sel_reachable VolumeChunkSelector"
| step: "sel_reachable s \<Longrightarrow> sel_step s s' \<Longrightarrow> sel_reachable s'"

text \<open>
  The same runs with a count of the chunks that resize tasks have taken from the pools after the release of their volume.
\<close>

definition stale_chunks :: "selector \<Rightarrow> selector \<Rightarrow> nat" where
  "stale_chunks s s' =
     (case pending_resizes s of
        Released _ # rest \<Rightarrow> if pending_resizes s' = rest then num_free_chunks s - num_free_chunks s' else 0
      | _ \<Rightarrow> 0)"

inductive sel_run :: "selector \<Rightarrow> nat \<Rightarrow> bool" where
  start: "sel_run VolumeChunkSelector 0"
| step: "sel_run s k \<Longrightarrow> sel_step s s' \<Longrightarrow> sel_run s' (k + stale_chunks s s')"

lemma map_of_set_available:
  "map_of (set_available cid n all) k =
     (if k = cid then map_option (map_option (\<lambda>c. c\<lparr>available_blks := n\<rparr>)) (map_of all k) else map_of all k)"
  by (induction all) (auto simp: set_available_def)

lemma chunk_obj_set_available:
  "chunk_obj (set_available cid n all) k =
     (if k = cid then map_option (\<lambda>c. c\<lparr>available_blks := n\<rparr>) (chunk_obj all k) else chunk_obj all k)"
  by (auto simp: chunk_obj_def map_of_set_available split: option.splits)

lemma fst_set_available [simp]: "map fst (set_available cid n all) = map fst all"
  by (induction all) (auto simp: set_available_def)

lemma set_available_null: "map_of (set_available cid n all) k = Some None \<longleftrightarrow> map_of all k = Some None"
  by (auto simp: map_of_set_available)

lemma chunk_at_available: "chunk_at cid pl (c\<lparr>available_blks := n\<rparr>) = chunk_at cid pl c"
  by (cases pl) auto

lemma sel_rel_set_available:
  assumes "sel_rel s L"
  shows "sel_rel (s\<lparr>m_all_chunks := set_available cid n (m_all_chunks s)\<rparr>) L"
proof -
  have "rel_option (chunk_at k) (L k) (chunk_obj (set_available cid n (m_all_chunks s)) k)"
    if "rel_option (chunk_at k) (L k) (chunk_obj (m_all_chunks s) k)" for k
    using that by (auto simp: chunk_obj_set_available option.rel_map chunk_at_available)
  moreover have "get_pdev_id c = vc_pdev v"
    if "m_volume_chunks s ord = Some v" "k \<in> set (somes (m_chunks v))"
      "chunk_obj (set_available cid n (m_all_chunks s)) k = Some c" for ord v k c
    using vol_pdev [OF assms that(1,2)] that(3) by (auto simp: chunk_obj_set_available split: if_splits)
  ultimately show ?thesis
    using assms by (auto simp: sel_rel_def objs_ok_def vols_ok_def vol_ids_def set_available_null)
qed

lemma recover_loop_TrueD:
  assumes "recover_loop ord p idx cids v all pd = Inr (True, v', all', pd')" "ord \<noteq> INVALID_VOL_ORDINAL"
  shows "distinct cids \<and> (cids \<noteq> [] \<longrightarrow> idx + length cids \<le> length v) \<and>
    (\<forall>cid\<in>set cids. cid \<in> set (pool_of pd p) \<and>
      (\<exists>c. chunk_obj all cid = Some c \<and> m_vol_ordinal c = INVALID_VOL_ORDINAL \<and> get_pdev_id c = p))"
  using assms
proof (induction cids arbitrary: idx v all pd)
  case (Cons cid cids)
  let ?all = "emplace cid None all"
  obtain c where c: "chunk_obj ?all cid = Some c" "m_vol_ordinal c = INVALID_VOL_ORDINAL" "get_pdev_id c = p"
      "\<not> length v \<le> idx" "cid \<in> set (pool_of pd p)"
    and rec: "recover_loop ord p (Suc idx) cids (v[idx := Some cid]) (set_vol_ordinal cid ord ?all)
       (AList.update p (remove1 cid (pool_of pd p)) pd) = Inr (True, v', all', pd')"
    using Cons.prems(1) by (auto simp: Let_def split: option.splits if_splits)
  from c(1) have "map_of ?all cid = Some (Some c)" by (simp add: chunk_obj_Some)
  then have all: "?all = all" by (auto simp: emplace_def split: if_splits)
  note IH = Cons.IH [OF rec Cons.prems(2)]
  have obj: "chunk_obj all x = Some c' \<and> x \<noteq> cid"
    if "chunk_obj (set_vol_ordinal cid ord all) x = Some c'" "m_vol_ordinal c' = INVALID_VOL_ORDINAL" for x c'
    using that Cons.prems(2) by (auto simp: chunk_obj_set_vol_ordinal split: if_splits)
  have notin: "cid \<notin> set cids" using IH obj all by metis
  have "Suc idx + length cids \<le> length v" using IH c(4) by (cases "cids = []") auto
  moreover have "x \<in> set (pool_of pd p) \<and>
      (\<exists>c. chunk_obj all x = Some c \<and> m_vol_ordinal c = INVALID_VOL_ORDINAL \<and> get_pdev_id c = p)"
    if "x \<in> set cids" for x
  proof -
    have "x \<in> set (remove1 cid (pool_of pd p))" using IH that by simp
    then have "x \<in> set (pool_of pd p)" by (meson notin_set_remove1)
    then show ?thesis using IH obj all that by metis
  qed
  ultimately show ?case using c all notin IH by auto
qed simp

section \<open>Every step keeps the ledger\<close>

lemma sel_rel_init: "sel_rel VolumeChunkSelector (\<lambda>_. None)"
  by (simp add: sel_rel_def objs_ok_def pools_ok_def vols_ok_def VolumeChunkSelector_def vol_ids_def
      chunk_obj_def pool_of_def)

lemma sel_rel_known: "sel_rel s L \<Longrightarrow> map_of (m_all_chunks s) cid = None \<longleftrightarrow> L cid = None"
  unfolding sel_rel_def objs_ok_def chunk_obj_def
  by (metis (no_types, lifting) option.case_eq_if option.collapse option.rel_distinct option.rel_sel)

lemma sel_rel_head:
  assumes "sel_rel s L" "m_all_chunks s = (k, x) # rest"
  shows "\<exists>c. x = Some c"
proof -
  have "map_of (m_all_chunks s) k \<noteq> Some None" using assms(1) by (simp add: sel_rel_def objs_ok_def)
  then show ?thesis using assms(2) by auto
qed

lemma resize_task_InrD:
  assumes "resize_task (Live ord) s = Inr s'" "sel_rel s L"
  shows "\<exists>v. m_volume_chunks s ord = Some v \<and> num_active_chunks v < max_num_chunks v \<and>
    min num_chunks_per_resize (max_num_chunks v - num_active_chunks v) \<le> length (pool_of (m_per_dev_chunks s) (vc_pdev v))"
proof -
  obtain v where v: "m_volume_chunks s ord = Some v" using assms(1) by (auto simp: resize_task_def target_volc_def split: option.splits)
  have wf: "volc_wf v" using assms(2) v by (auto simp: sel_rel_def vols_ok_def)
  then have le: "num_active_chunks v \<le> max_num_chunks v" "max_num_chunks v < 2 ^ 64" by (auto simp: volc_wf_def)
  have enough: "min num_chunks_per_resize (max_num_chunks v - num_active_chunks v) \<le> length (pool_of (m_per_dev_chunks s) (vc_pdev v))"
    using resize_task_exhausted [OF v le] assms(1) by (metis not_le sum.distinct(1))
  have "num_active_chunks v \<noteq> max_num_chunks v"
  proof
    assume "num_active_chunks v = max_num_chunks v"
    then have "resize_task (Live ord) s = Inl ReleaseAssert"
      using v by (simp add: resize_task_def target_volc_def allocate_resize_chunks_from_pdev_def)
    then show False using assms(1) by simp
  qed
  then show ?thesis using v le enough by auto
qed

lemma recover_chunks_TrueD:
  assumes rel: "sel_rel s L" and eq: "recover_chunks ord pdev volume_size cids s = Inr (True, s')" and ne: "cids \<noteq> []"
  shows "sel_rel s' (move (set cids) (Owned ord) L) \<and> (\<forall>cid\<in>set cids. L cid = Some (Free pdev))"
proof -
  have new: "ord < MAX_NUM_VOLUMES" "m_volume_chunks s ord = None"
    using eq by (auto simp: recover_chunks_def split: if_splits)
  obtain k c0 rest where all: "m_all_chunks s = (k, Some c0) # rest"
    using eq new by (auto simp: recover_chunks_def split: list.splits option.splits prod.splits)
  let ?n = "chunks_for volume_size (chunk_bytes c0)"
  have "ord \<noteq> INVALID_VOL_ORDINAL" using new by (simp add: MAX_NUM_VOLUMES_def INVALID_VOL_ORDINAL_def)
  moreover obtain v al pd where "recover_loop ord pdev 0 cids (replicate ?n None) (m_all_chunks s) (m_per_dev_chunks s)
      = Inr (True, v, al, pd)"
    using eq new all by (auto simp: recover_chunks_def Let_def bind_sum_eq_Inr split: if_splits)
  ultimately have d: "distinct cids" "length cids \<le> ?n" "\<forall>cid\<in>set cids. cid \<in> set (pool_of (m_per_dev_chunks s) pdev)"
    using recover_loop_TrueD [of ord pdev 0 cids "replicate ?n None" "m_all_chunks s" "m_per_dev_chunks s" v al pd] ne
    by simp_all
  moreover have free: "L cid = Some (Free pdev)" if "cid \<in> set cids" for cid
    using that d(3) rel by (auto simp: sel_rel_def pools_ok_def)
  ultimately obtain s'' where "recover_chunks ord pdev volume_size cids s = Inr (True, s'')" "sel_rel s'' (move (set cids) (Owned ord) L)"
    using recover_chunks_refines [OF rel new(2,1) all, of cids volume_size pdev] ne by blast
  then show ?thesis using eq free by simp
qed

section \<open>Counting\<close>

lemma pools_total:
  assumes "distinct (map fst pd)"
  shows "sum_list (map (\<lambda>(p, l). length l) pd) = (\<Sum>p\<in>set (map fst pd). length (pool_of pd p))"
  using assms
proof (induction pd)
  case (Cons e pd)
  obtain p l where e: "e = (p, l)" by (cases e)
  have "(\<Sum>q\<in>set (map fst pd). length (pool_of (e # pd) q)) = (\<Sum>q\<in>set (map fst pd). length (pool_of pd q))"
    using Cons.prems e by (intro sum.cong) (auto simp: pool_of_def)
  moreover have "length (pool_of (e # pd) p) = length l" using e by (simp add: pool_of_def)
  ultimately show ?case using Cons e by simp
qed simp

lemma num_free_chunks_card:
  assumes "sel_rel s L"
  shows "num_free_chunks s = card {cid. \<exists>p. L cid = Some (Free p)}"
proof -
  let ?pd = "m_per_dev_chunks s"
  have ok: "pools_ok ?pd L" using assms by (simp add: sel_rel_def)
  then have d: "distinct (map fst ?pd)" "\<And>p. distinct (pool_of ?pd p)"
    and mem: "\<And>p cid. cid \<in> set (pool_of ?pd p) \<longleftrightarrow> L cid = Some (Free p)" by (auto simp: pools_ok_def)
  have "p \<in> set (map fst ?pd)" if "L cid = Some (Free p)" for p cid
    using that mem [of cid p] by (auto simp: pool_of_def split: option.splits dest: map_of_SomeD) (metis map_of_SomeD fst_conv image_eqI)
  then have un: "{cid. \<exists>p. L cid = Some (Free p)} = (\<Union>p\<in>set (map fst ?pd). set (pool_of ?pd p))"
    using mem by (auto simp: image_iff)
  have "card (\<Union>p\<in>set (map fst ?pd). set (pool_of ?pd p)) = (\<Sum>p\<in>set (map fst ?pd). card (set (pool_of ?pd p)))"
    using mem by (intro card_UN_disjoint) auto
  then show ?thesis using pools_total [OF d(1)] d(2) un by (simp add: num_free_chunks_def distinct_card)
qed

lemma sel_rel_dom:
  assumes "sel_rel s L"
  shows "dom L = set (map fst (m_all_chunks s))" "distinct (map fst (m_all_chunks s))"
proof -
  have "cid \<in> dom L \<longleftrightarrow> cid \<in> fst ` set (m_all_chunks s)" for cid
    using sel_rel_known [OF assms, of cid] by (metis domIff map_of_eq_None_iff)
  then show "dom L = set (map fst (m_all_chunks s))" by auto
  show "distinct (map fst (m_all_chunks s))" using assms by (simp add: sel_rel_def objs_ok_def)
qed

lemma owned_card:
  assumes "sel_rel s L"
  shows "(\<Sum>ord<MAX_NUM_VOLUMES. length (vol_ids s ord)) = card {cid. \<exists>ord. L cid = Some (Owned ord)}"
proof -
  have vols: "vols_ok s L" using assms by (simp add: sel_rel_def)
  have mem: "cid \<in> set (vol_ids s ord) \<longleftrightarrow> L cid = Some (Owned ord)" for cid ord using vols by (simp add: vols_ok_def)
  have d: "distinct (vol_ids s ord)" for ord
    using vols by (auto simp: vols_ok_def vol_ids_def volc_wf_def split: option.splits)
  have "ord < MAX_NUM_VOLUMES" if "L cid = Some (Owned ord)" for cid ord
  proof -
    have "m_volume_chunks s ord \<noteq> None" using that mem [of cid ord] by (cases "m_volume_chunks s ord") (simp_all add: vol_ids_def)
    then show ?thesis using vols by (auto simp: vols_ok_def)
  qed
  then have "{cid. \<exists>ord. L cid = Some (Owned ord)} = (\<Union>ord\<in>{..<MAX_NUM_VOLUMES}. set (vol_ids s ord))"
    using mem by auto
  moreover have "card (\<Union>ord\<in>{..<MAX_NUM_VOLUMES}. set (vol_ids s ord)) = (\<Sum>ord\<in>{..<MAX_NUM_VOLUMES}. card (set (vol_ids s ord)))"
    using mem by (intro card_UN_disjoint) auto
  ultimately show ?thesis using d by (simp add: distinct_card)
qed

section \<open>Lost chunks\<close>

definition lost :: "ledger \<Rightarrow> nat" where
  "lost L = card {cid. L cid = Some Lost}"

lemma lost_move: "(\<And>cid. cid \<in> S \<Longrightarrow> L cid \<noteq> Some Lost) \<Longrightarrow> pl \<noteq> Lost \<Longrightarrow> lost (move S pl L) = lost L"
  unfolding lost_def by (rule arg_cong [where f = card]) (auto simp: move_def)

lemma lost_taken:
  assumes "finite (dom L)" "distinct cids" "\<And>cid. cid \<in> set cids \<Longrightarrow> L cid = Some (Free p)"
  shows "lost (move (set cids) Lost L) = lost L + length cids"
proof -
  have "{cid. move (set cids) Lost L cid = Some Lost} = {cid. L cid = Some Lost} \<union> set cids" by (auto simp: move_def)
  moreover have "finite {cid. L cid = Some Lost}" using assms(1) by (auto elim!: finite_subset [rotated])
  moreover have "{cid. L cid = Some Lost} \<inter> set cids = {}" using assms(3) by fastforce
  ultimately show ?thesis using assms(2) by (simp add: lost_def card_Un_disjoint distinct_card)
qed

lemma free_after_move:
  assumes "sel_rel s L" "sel_rel s' (move (set cids) pl L)" "\<And>q. pl \<noteq> Free q"
    and "distinct cids" "\<And>cid. cid \<in> set cids \<Longrightarrow> \<exists>p. L cid = Some (Free p)"
  shows "num_free_chunks s' + length cids = num_free_chunks s"
proof -
  let ?F = "{cid. \<exists>p. L cid = Some (Free p)}"
  have "finite (dom L)" using sel_rel_dom [OF assms(1)] by simp
  then have fin: "finite ?F" by (auto elim!: finite_subset [rotated])
  have "{cid. \<exists>p. move (set cids) pl L cid = Some (Free p)} = ?F - set cids"
    using assms(3) by (auto simp: move_def split: if_splits)
  moreover have "card (?F - set cids) + card (set cids) = card ?F"
    using assms(5) fin by (subst card_Diff_subset) (auto intro!: le_add_diff_inverse2 card_mono)
  ultimately show ?thesis
    using num_free_chunks_card [OF assms(1)] num_free_chunks_card [OF assms(2)] assms(4) by (simp add: distinct_card)
qed

section \<open>What the operations leave alone\<close>

lemma alloc_frame:
  assumes "allocate_init_chunks ord volume_size pdev lazy_alloc s = Inr (cids, pdev', s')"
  shows "resize_op s' = resize_op s" "pending_resizes s' = pending_resizes s" "sb_updates s' = sb_updates s"
  using assms
  by (auto simp: allocate_init_chunks_def allocate_init_chunks_from_pdev_def register_init_chunks_def Let_def bind_sum_eq_Inr
      split: if_splits option.splits list.splits prod.splits)

lemma release_frame:
  assumes "release_chunks ord s = Inr s'"
  shows "resize_op s' = resize_op s" "sb_updates s' = sb_updates s" "\<exists>v. m_volume_chunks s ord = Some v \<and> pending_resizes s' = map (release_target ord v) (pending_resizes s)"
  using assms by (auto simp: release_chunks_def bind_sum_eq_Inr split: if_splits option.splits)

lemma recover_frame:
  assumes "recover_chunks ord pdev volume_size cids s = Inr (ok, s')"
  shows "resize_op s' = resize_op s" "pending_resizes s' = pending_resizes s" "sb_updates s' = sb_updates s"
  using assms
  by (auto simp: recover_chunks_def Let_def bind_sum_eq_Inr split: if_splits option.splits list.splits prod.splits)

lemma request_pending:
  assumes "resize_volume_num_chunks nblks ord s = Inr s'"
  shows "s' = s \<or> resize_op s = Idle \<and> resize_op s' = InProgress \<and> m_volume_chunks s ord \<noteq> None \<and>
    (pending_resizes s' = pending_resizes s \<or> pending_resizes s' = pending_resizes s @ [Live ord])"
  using assms by (auto simp: resize_volume_num_chunks_def Let_def split: option.splits if_splits)

lemma select_request:
  assumes "select_round others nblks t a ord s = Inr (r, s')"
  shows "\<exists>s1 v. (s1 = s \<or> resize_volume_num_chunks nblks ord s = Inr s1) \<and> m_volume_chunks s ord \<noteq> None \<and>
    s' = s1\<lparr>m_volume_chunks := (m_volume_chunks s1)(ord \<mapsto> v)\<rparr>"
  using assms by (auto simp: select_round_def bind_sum_eq_Inr split: option.splits if_splits)

lemma step_pending_length:
  assumes "sel_step s s'" "length (pending_resizes s') < length (pending_resizes s)"
  shows "run_pending_resize s = Inr s'"
  using assms
proof (cases rule: sel_step.cases)
  case (release ord)
  then show ?thesis using assms(2) release_frame(3) [OF release] by auto
next
  case (select others nblks t a ord r)
  then show ?thesis using assms(2) select_request [OF select] request_pending by fastforce
next
  case (request nblks ord)
  then show ?thesis using assms(2) request_pending [OF request] by auto
qed (use assms(2) in \<open>auto simp: alloc_frame recover_frame add_chunk_def\<close>)

section \<open>Every step keeps the ledger\<close>

lemma allocate_init_chunks_InrD:
  assumes rel: "sel_rel s L" and eq: "allocate_init_chunks ord volume_size pdev lazy_alloc s = Inr (cids, pdev', s')"
  shows "\<exists>L'. sel_rel s' L' \<and> lost L' = lost L"
proof -
  have ord: "ord < MAX_NUM_VOLUMES" using eq by (auto simp: allocate_init_chunks_def split: if_splits)
  show ?thesis
  proof (cases "m_volume_chunks s ord")
    case None
    show ?thesis
    proof (cases "cids = []")
      case True
      then have "s' = s" using allocate_init_chunks_refines [OF rel None ord, of volume_size pdev lazy_alloc] eq by auto
      then show ?thesis using rel by blast
    next
      case False
      then have "\<forall>cid\<in>set cids. L cid = Some (Free pdev')" "sel_rel s' (move (set cids) (Owned ord) L)"
        using allocate_init_chunks_refines [OF rel None ord, of volume_size pdev lazy_alloc] eq by auto
      then show ?thesis using lost_move [of "set cids" L "Owned ord"] by fastforce
    qed
  next
    case (Some v)
    then show ?thesis using eq ord rel by (auto simp: allocate_init_chunks_def)
  qed
qed

text \<open>Only a task that finds its volume released adds to the lost chunks.\<close>

lemma task_keeps_ledger:
  assumes run: "run_pending_resize s = Inr s'" and rel: "sel_rel s L"
  shows "\<exists>L'. sel_rel s' L' \<and> lost L' = lost L + stale_chunks s s'"
proof (cases "pending_resizes s")
  case Nil
  then show ?thesis using run rel by (auto simp: run_pending_resize_def stale_chunks_def)
next
  case (Cons t rest)
  let ?s = "s\<lparr>pending_resizes := rest\<rparr>"
  have rel': "sel_rel ?s L" using sel_rel_cong [of ?s s L] rel by simp
  have eq: "resize_task t ?s = Inr s'" using run Cons by (simp add: run_pending_resize_def)
  show ?thesis
  proof (cases t)
    case (Live ord)
    obtain v where v: "m_volume_chunks ?s ord = Some v" "num_active_chunks v < max_num_chunks v"
      "min num_chunks_per_resize (max_num_chunks v - num_active_chunks v) \<le> length (pool_of (m_per_dev_chunks ?s) (vc_pdev v))"
      using resize_task_InrD [OF eq [unfolded Live] rel'] by blast
    let ?cids = "take (min num_chunks_per_resize (max_num_chunks v - num_active_chunks v)) (pool_of (m_per_dev_chunks ?s) (vc_pdev v))"
    have r: "sel_rel s' (move (set ?cids) (Owned ord) L)" using resize_task_refines [OF rel' v(1,2) refl v(3) refl] eq Live by auto
    have "L cid = Some (Free (vc_pdev v))" if "cid \<in> set ?cids" for cid
      using in_set_takeD [OF that] rel' by (simp add: sel_rel_def pools_ok_def)
    then have "lost (move (set ?cids) (Owned ord) L) = lost L" by (intro lost_move) auto
    then show ?thesis using r Cons Live by (auto simp: stale_chunks_def)
  next
    case (Released v)
    obtain cids where c: "distinct cids" "\<forall>cid\<in>set cids. L cid = Some (Free (vc_pdev v))" "sel_rel s' (move (set cids) Lost L)" "pending_resizes s' = rest"
      using resize_task_stale [OF rel' eq [unfolded Released]] by auto
    have "num_free_chunks s' + length cids = num_free_chunks s"
      using free_after_move [OF rel c(3) _ c(1)] c(2) by blast
    moreover have "lost (move (set cids) Lost L) = lost L + length cids"
      using lost_taken [of L cids "vc_pdev v"] sel_rel_dom [OF rel] c(1,2) by simp
    ultimately show ?thesis using c(3,4) Cons Released by (auto simp: stale_chunks_def)
  qed
qed

lemma sel_step_keeps_ledger:
  assumes step: "sel_step s s'" and rel: "sel_rel s L"
  shows "\<exists>L'. sel_rel s' L' \<and> lost L' = lost L + stale_chunks s s'"
proof (cases "run_pending_resize s = Inr s'")
  case True
  then show ?thesis using task_keeps_ledger rel by blast
next
  case False
  then have "\<not> length (pending_resizes s') < length (pending_resizes s)" using step_pending_length step by blast
  then have "stale_chunks s s' = 0" by (auto simp: stale_chunks_def split: list.splits resize_target.splits)
  moreover have "\<exists>L'. sel_rel s' L' \<and> lost L' = lost L"
    using step
  proof (cases rule: sel_step.cases)
    case (add c)
    then have new: "L (get_chunk_id c) = None" using sel_rel_known [OF rel] by blast
    then show ?thesis using add_chunk_refines [OF rel new] add lost_move [of "{get_chunk_id c}" L "Free (get_pdev_id c)"] by auto
  next
    case (alloc ord volume_size pdev lazy_alloc cids pdev')
    then show ?thesis using allocate_init_chunks_InrD rel by blast
  next
    case (release ord)
    then obtain v where v: "m_volume_chunks s ord = Some v" using release_frame(3) by blast
    have "\<forall>cid\<in>set (vol_ids s ord). L cid = Some (Owned ord)" using rel by (simp add: sel_rel_def vols_ok_def)
    then show ?thesis using release_chunks_refines [OF rel v] release lost_move [of "set (vol_ids s ord)" L "Free (vc_pdev v)"] by auto
  next
    case (recover ord pdev volume_size cids)
    then show ?thesis using recover_chunks_TrueD [OF rel] lost_move [of "set cids" L "Owned ord"] by fastforce
  next
    case (select others nblks t a ord r)
    then obtain v where "m_volume_chunks s ord = Some v" by (auto simp: select_round_def split: option.splits)
    then show ?thesis using select_round_spec [OF rel, of ord v others nblks t a] select by auto
  next
    case (request nblks ord)
    then show ?thesis using resize_volume_num_chunks_frame sel_rel_cong rel by metis
  next
    case task
    then show ?thesis using False by blast
  next
    case (blks cid n)
    then show ?thesis using sel_rel_set_available [OF rel] by blast
  qed
  ultimately show ?thesis by simp
qed

lemma sel_reachable_ledger: "sel_reachable s \<Longrightarrow> \<exists>L. sel_rel s L"
  by (induction rule: sel_reachable.induct) (blast intro: sel_rel_init dest: sel_step_keeps_ledger)+

lemma sel_run_ledger: "sel_run s k \<Longrightarrow> \<exists>L. sel_rel s L \<and> lost L = k"
proof (induction rule: sel_run.induct)
  case start
  have "lost (\<lambda>_. None) = 0" by (simp add: lost_def)
  then show ?case using sel_rel_init by blast
next
  case (step s k s')
  then show ?case using sel_step_keeps_ledger by blast
qed

lemma sel_run_reachable: "sel_run s k \<Longrightarrow> sel_reachable s"
  by (induction rule: sel_run.induct) (auto intro: sel_reachable.intros)

lemma ledger_total:
  assumes "sel_rel s L"
  shows "num_free_chunks s + (\<Sum>ord<MAX_NUM_VOLUMES. length (vol_ids s ord)) + lost L = length (m_all_chunks s)"
proof -
  let ?F = "{cid. \<exists>p. L cid = Some (Free p)}" and ?O = "{cid. \<exists>ord. L cid = Some (Owned ord)}" and ?X = "{cid. L cid = Some Lost}"
  have un: "?F \<union> ?O \<union> ?X = dom L" by (auto) (metis place.exhaust)
  have "finite (dom L)" using sel_rel_dom [OF assms] by simp
  then have fin: "finite ?F" "finite ?O" "finite ?X" by (auto elim!: finite_subset [rotated])
  have "card (?F \<union> ?O \<union> ?X) = card (?F \<union> ?O) + card ?X" using fin by (intro card_Un_disjoint) auto
  moreover have "card (?F \<union> ?O) = card ?F + card ?O" using fin by (intro card_Un_disjoint) auto
  moreover have "card (dom L) = length (m_all_chunks s)"
    using sel_rel_dom [OF assms] by (metis distinct_card length_map)
  ultimately show ?thesis using num_free_chunks_card [OF assms] owned_card [OF assms] unfolding un lost_def by linarith
qed

section \<open>The queue of tasks\<close>

text \<open>At most one resize task is queued, and unless its volume has been released that volume is there: a task never runs without its chunk list.\<close>

definition queue_ok :: "selector \<Rightarrow> bool" where
  "queue_ok s \<longleftrightarrow> length (pending_resizes s) \<le> 1 \<and> (pending_resizes s \<noteq> [] \<longrightarrow> resize_op s = InProgress) \<and>
     (\<forall>n. Live n \<in> set (pending_resizes s) \<longrightarrow> m_volume_chunks s n \<noteq> None)"

lemma queue_ok_cong:
  "queue_ok s \<Longrightarrow> pending_resizes s' = pending_resizes s \<Longrightarrow> resize_op s' = resize_op s \<Longrightarrow>
   (\<And>n. m_volume_chunks s n \<noteq> None \<Longrightarrow> m_volume_chunks s' n \<noteq> None) \<Longrightarrow> queue_ok s'"
  by (auto simp: queue_ok_def)

lemma queue_ok_task:
  assumes "queue_ok s" "run_pending_resize s = Inr s'"
  shows "queue_ok s'"
proof (cases "pending_resizes s")
  case Nil
  then show ?thesis using assms by (simp add: run_pending_resize_def)
next
  case (Cons t rest)
  then have "rest = []" using assms(1) by (simp add: queue_ok_def)
  moreover have "pending_resizes s' = rest" using assms(2) Cons
    by (cases t) (auto simp: run_pending_resize_def resize_task_def store_volc_def allocate_resize_chunks_from_pdev_def Let_def bind_sum_eq_Inr
        split: option.splits if_splits)
  ultimately show ?thesis by (simp add: queue_ok_def)
qed

lemma alloc_keeps_volumes:
  "allocate_init_chunks ord volume_size pdev lazy_alloc s = Inr (cids, pdev', s') \<Longrightarrow> m_volume_chunks s n \<noteq> None \<Longrightarrow> m_volume_chunks s' n \<noteq> None"
  by (auto simp: allocate_init_chunks_def allocate_init_chunks_from_pdev_def register_init_chunks_def Let_def bind_sum_eq_Inr
      split: if_splits option.splits list.splits prod.splits)

lemma recover_keeps_volumes:
  "recover_chunks ord pdev volume_size cids s = Inr (ok, s') \<Longrightarrow> m_volume_chunks s n \<noteq> None \<Longrightarrow> m_volume_chunks s' n \<noteq> None"
  by (auto simp: recover_chunks_def Let_def bind_sum_eq_Inr split: if_splits option.splits list.splits prod.splits)

lemma queue_ok_request:
  assumes "queue_ok s" "resize_volume_num_chunks nblks ord s = Inr s'"
  shows "queue_ok s'"
  using assms request_pending [OF assms(2)] resize_volume_num_chunks_frame(3) [OF assms(2)]
  by (cases "pending_resizes s") (auto simp: queue_ok_def)

lemma queue_ok_step:
  assumes ok: "queue_ok s" and step: "sel_step s s'"
  shows "queue_ok s'"
  using step
proof (cases rule: sel_step.cases)
  case (alloc ord volume_size pdev lazy_alloc cids pdev')
  then show ?thesis by (intro queue_ok_cong [OF ok]) (simp_all add: alloc_frame [OF alloc] alloc_keeps_volumes [OF alloc] del: not_None_eq)
next
  case (release ord)
  obtain v where v: "m_volume_chunks s ord = Some v" "pending_resizes s' = map (release_target ord v) (pending_resizes s)" using release_frame(3) [OF release] by blast
  moreover have "m_volume_chunks s' = (m_volume_chunks s)(ord := None)"
    using release v(1) by (auto simp: release_chunks_def bind_sum_eq_Inr split: if_splits)
  ultimately show ?thesis using ok release_frame(1) [OF release] by (auto simp: queue_ok_def release_target_def split: if_splits)
next
  case (recover ord pdev volume_size cids)
  then show ?thesis by (intro queue_ok_cong [OF ok]) (simp_all add: recover_frame [OF recover(1)] recover_keeps_volumes [OF recover(1)] del: not_None_eq)
next
  case (select others nblks t a ord r)
  obtain s1 v where s1: "s1 = s \<or> resize_volume_num_chunks nblks ord s = Inr s1" "s' = s1\<lparr>m_volume_chunks := (m_volume_chunks s1)(ord \<mapsto> v)\<rparr>"
    using select_request [OF select] by blast
  then have "queue_ok s1" using queue_ok_request ok by blast
  then show ?thesis by (rule queue_ok_cong) (simp_all add: s1(2))
next
  case (request nblks ord)
  then show ?thesis using queue_ok_request ok by blast
next
  case task
  then show ?thesis using queue_ok_task ok by blast
qed (use ok in \<open>auto simp: queue_ok_def add_chunk_def\<close>)

lemma sel_reachable_queue: "sel_reachable s \<Longrightarrow> queue_ok s"
  by (induction rule: sel_reachable.induct) (simp add: queue_ok_def VolumeChunkSelector_def, rule queue_ok_step)

end
