(* ===== verification/Manager_Volume.thy ===== *)
theory Manager_Volume
  imports Chunk_Steps Volume_Write
begin

text \<open>
  A volume as an object (src/lib/volume/volume.hpp and volume.cpp): its superblock, its construction for a new and for a recovered volume, its state, its
  request counter and its destruction. The services of the storage layer a volume calls are a state of their own: the two chunk selectors, the replication
  devices, the index tables and the metadata blocks that hold the superblocks of the volumes.
\<close>

section \<open>Volume descriptions and superblocks\<close>

record volume_info =
  vi_id :: volume_id_t
  vi_size_bytes :: u64
  vi_page_size :: u64
  vi_name :: string
  vi_ordinal :: nat
  vi_repl_mode :: replication_mode

definition VOL_SB_MAGIC :: u64 where "VOL_SB_MAGIC = 0xc01fadeb"
definition VOL_SB_VER :: u32 where "VOL_SB_VER = 3"
definition VOL_NAME_SIZE :: nat where "VOL_NAME_SIZE = 100"

record vol_sb_t =
  sb_magic :: u64
  sb_version :: u32
  sb_num_streams :: u32
  sb_page_size :: u32
  sb_size :: u64
  sb_id :: volume_id_t
  sb_name :: string
  sb_state :: volume_state
  sb_ordinal :: nat
  sb_pdev_id :: pdev_id_t
  sb_num_chunks :: u32
  sb_chunk_ids :: "chunk_num_t list"

text \<open>A C string ends at its first NUL; \<^verbatim>\<open>strncpy\<close> pads with NULs.\<close>

definition c_str :: "string \<Rightarrow> string" where
  "c_str s = takeWhile (\<lambda>c. c \<noteq> CHR 0x00) s"

definition name_field :: "string \<Rightarrow> string" where
  "name_field name_str = take (VOL_NAME_SIZE - 1) (c_str name_str @ replicate (VOL_NAME_SIZE - 1) (CHR 0x00)) @ [CHR 0x00]"

definition vol_sb_init ::
  "u32 \<Rightarrow> u64 \<Rightarrow> volume_id_t \<Rightarrow> string \<Rightarrow> nat \<Rightarrow> pdev_id_t \<Rightarrow> chunk_num_t list \<Rightarrow> vol_sb_t \<Rightarrow> vol_sb_t" where
  "vol_sb_init page_sz sz_bytes vid name_str ord pdev chunk_ids sb =
     sb\<lparr>sb_magic := VOL_SB_MAGIC, sb_version := VOL_SB_VER, sb_page_size := page_sz, sb_size := sz_bytes, sb_id := vid, sb_ordinal := ord,
        sb_name := name_field name_str, sb_pdev_id := pdev, sb_num_chunks := of_nat (length chunk_ids), sb_chunk_ids := chunk_ids\<rparr>"

text \<open>What \<^verbatim>\<open>vol_info_\<close> and the current chunk ids make of a superblock.\<close>

definition sb_of_info :: "volume_info \<Rightarrow> pdev_id_t \<Rightarrow> chunk_num_t list \<Rightarrow> vol_sb_t \<Rightarrow> vol_sb_t" where
  "sb_of_info info pdev chunk_ids =
     vol_sb_init (ucast (vi_page_size info)) (vi_size_bytes info) (vi_id info) (vi_name info) (vi_ordinal info) pdev chunk_ids"

section \<open>The storage layer\<close>

text \<open>
  The superblock handler of the storage layer: \<open>sb_created\<close> is the object a \<^verbatim>\<open>create\<close> leaves before anything is stored in it, \<open>sb_resized\<close> the
  object after a \<^verbatim>\<open>resize\<close>.
\<close>

record sb_api =
  sb_created :: vol_sb_t
  sb_resized :: "vol_sb_t \<Rightarrow> vol_sb_t"

definition sb_api_ok :: "sb_api \<Rightarrow> bool" where
  "sb_api_ok sa \<longleftrightarrow> sb_state (sb_created sa) = VS_INIT \<and> (\<forall>sb. sb_state (sb_resized sa sb) = sb_state sb)"

text \<open>The superblock of an index table, with what a volume stores in it.\<close>

record index_sb =
  ix_parent_uuid :: volume_id_t
  ix_ordinal :: nat
  ix_pdev_id :: pdev_id_t
  ix_max_size_bytes :: u64
  ix_chunk_ids :: "chunk_num_t list"

text \<open>Metadata blocks are named by the volume object that wrote or loaded them.\<close>

type_synonym handle = nat

record storage =
  volume_chunk_selector :: selector
  index_chunk_selector :: selector
  repl_devs :: "volume_id_t list"
  index_tables :: "index_sb list"
  vol_meta :: "handle \<Rightarrow> vol_sb_t option"

text \<open>
  What a creation does not decide itself: the value of the uninitialised \<^verbatim>\<open>pdev_id\<close> variables and whether the storage layer can create a
  replication device.
\<close>

record create_env =
  ce_pdev :: pdev_id_t
  ce_repl_ok :: bool

section \<open>Volume objects\<close>

record volume =
  vol_info :: volume_info
  vol_rd :: "volume_id_t option"
  indx_tbl :: "index_sb option"
  vol_sb :: "vol_sb_t option"
  vol_outstanding :: nat
  destroy_started :: bool
  m_state :: volume_state

definition volume_of_info :: "volume_info \<Rightarrow> volume" where
  "volume_of_info info =
     \<lparr>vol_info = \<lparr>vi_id = vi_id info, vi_size_bytes = vi_size_bytes info, vi_page_size = vi_page_size info, vi_name = vi_name info,
        vi_ordinal = vi_ordinal info, vi_repl_mode = REPL_DISABLED\<rparr>,
      vol_rd = None, indx_tbl = None, vol_sb = None, vol_outstanding = 0, destroy_started = False, m_state = VS_INIT\<rparr>"

definition volume_of_sb :: "vol_sb_t \<Rightarrow> volume" where
  "volume_of_sb sb =
     \<lparr>vol_info = \<lparr>vi_id = sb_id sb, vi_size_bytes = sb_size sb, vi_page_size = ucast (sb_page_size sb), vi_name = c_str (sb_name sb),
        vi_ordinal = sb_ordinal sb, vi_repl_mode = REPL_DISABLED\<rparr>,
      vol_rd = None, indx_tbl = None, vol_sb = Some sb, vol_outstanding = 0, destroy_started = False, m_state = sb_state sb\<rparr>"

definition is_online :: "volume \<Rightarrow> bool" where "is_online v \<longleftrightarrow> m_state v = ONLINE"
definition is_destroying :: "volume \<Rightarrow> bool" where "is_destroying v \<longleftrightarrow> m_state v = DESTROYING"
definition is_offline :: "volume \<Rightarrow> bool" where "is_offline v \<longleftrightarrow> m_state v = VS_OFFLINE"

definition can_remove :: "volume \<Rightarrow> bool" where
  "can_remove v \<longleftrightarrow> \<not> destroy_started v \<and> vol_outstanding v = 0"

definition vol_inc_ref :: "volume \<Rightarrow> volume" where
  "vol_inc_ref v = v\<lparr>vol_outstanding := vol_outstanding v + 1\<rparr>"

definition vol_dec_ref :: "volume \<Rightarrow> volume" where
  "vol_dec_ref v = v\<lparr>vol_outstanding := vol_outstanding v - 1\<rparr>"

definition sb_write :: "handle \<Rightarrow> vol_sb_t \<Rightarrow> storage \<Rightarrow> storage" where
  "sb_write h sb hs = hs\<lparr>vol_meta := (vol_meta hs)(h \<mapsto> sb)\<rparr>"

definition state_change :: "handle \<Rightarrow> volume_state \<Rightarrow> volume \<times> storage \<Rightarrow> (volume \<times> storage) checked" where
  "state_change h s w =
     (let (v, hs) = w in
      (case vol_sb v of
         None \<Rightarrow> Inl NullDeref
       | Some sb \<Rightarrow>
           if sb_state sb \<noteq> s
           then (let sb' = sb\<lparr>sb_state := s\<rparr> in Inr (v\<lparr>vol_sb := Some sb', m_state := s\<rparr>, sb_write h sb' hs))
           else Inr (v, hs)))"

section \<open>Creating a volume\<close>

text \<open>Unsigned 64-bit arithmetic; the division traps when the page size is zero.\<close>

definition get_index_size :: "volume_info \<Rightarrow> u64 checked" where
  "get_index_size info =
     (if vi_page_size info = 0 then Inl DivideByZero else Inr ((vi_size_bytes info div vi_page_size info) * 32 * 3))"

definition init_index_table_new :: "create_env \<Rightarrow> volume \<times> storage \<Rightarrow> (bool \<times> volume \<times> storage) checked" where
  "init_index_table_new env w =
     (let (v, hs) = w; info = vol_info v in
      bind_sum (get_index_size info) (\<lambda>index_size.
      bind_sum (allocate_init_chunks (vi_ordinal info) index_size (ce_pdev env) False (index_chunk_selector hs)) (\<lambda>(chunk_ids, pdev_id, sel).
      (let hs1 = hs\<lparr>index_chunk_selector := sel\<rparr> in
       if chunk_ids = [] then Inr (False, v, hs1)
       else
         (let tbl = \<lparr>ix_parent_uuid = vi_id info, ix_ordinal = vi_ordinal info, ix_pdev_id = pdev_id, ix_max_size_bytes = index_size, ix_chunk_ids = chunk_ids\<rparr>
          in Inr (True, v\<lparr>indx_tbl := Some tbl\<rparr>, hs1\<lparr>index_tables := index_tables hs @ [tbl]\<rparr>))))))"

text \<open>
  \<^verbatim>\<open>init(false)\<close>. What was allocated before a failure stays allocated: the object is dropped without a \<^verbatim>\<open>destroy\<close>.
\<close>

definition volume_init_new :: "sb_api \<Rightarrow> create_env \<Rightarrow> handle \<Rightarrow> volume \<times> storage \<Rightarrow> (bool \<times> volume \<times> storage) checked" where
  "volume_init_new sa env h w =
     (let (v, hs) = w; info = vol_info v in
      bind_sum (allocate_init_chunks (vi_ordinal info) (vi_size_bytes info) (ce_pdev env) True (volume_chunk_selector hs)) (\<lambda>(chunk_ids, pdev_id, sel).
      (let hs1 = hs\<lparr>volume_chunk_selector := sel\<rparr> in
       if chunk_ids = [] then Inr (False, v, hs1)
       else
         (let v1 = v\<lparr>vol_sb := Some (sb_of_info info pdev_id chunk_ids (sb_created sa))\<rparr> in
          if \<not> ce_repl_ok env then Inr (False, v1, hs1)
          else
            (let v2 = v1\<lparr>vol_rd := Some (vi_id info)\<rparr>; hs2 = hs1\<lparr>repl_devs := repl_devs hs1 @ [vi_id info]\<rparr> in
             bind_sum (init_index_table_new env (v2, hs2)) (\<lambda>(ok, v3, hs3).
             if \<not> ok then Inr (False, v3, hs3)
             else
               bind_sum (state_change h ONLINE (v3, hs3)) (\<lambda>(v4, hs4).
               (case vol_sb v4 of
                  None \<Rightarrow> Inl NullDeref
                | Some sb \<Rightarrow> Inr (True, v4\<lparr>m_state := sb_state sb\<rparr>, hs4)))))))))"

section \<open>Recovering a volume\<close>

text \<open>\<^verbatim>\<open>init(true)\<close>: the superblock has been loaded; the index table arrives afterwards.\<close>

definition volume_init_recovery :: "volume \<times> storage \<Rightarrow> (bool \<times> volume \<times> storage) checked" where
  "volume_init_recovery w =
     (let (v, hs) = w; info = vol_info v in
      (case vol_sb v of
         None \<Rightarrow> Inl NullDeref
       | Some sb \<Rightarrow>
           (let v1 = v\<lparr>vol_rd := (if vi_id info \<in> set (repl_devs hs) then Some (vi_id info) else None)\<rparr> in
            bind_sum (recover_chunks (vi_ordinal info) (sb_pdev_id sb) (vi_size_bytes info) (take (unat (sb_num_chunks sb)) (sb_chunk_ids sb))
                (volume_chunk_selector hs)) (\<lambda>(success, sel).
            (let hs1 = hs\<lparr>volume_chunk_selector := sel\<rparr> in
             if \<not> success then Inr (False, v1, hs1) else Inr (True, v1\<lparr>m_state := sb_state sb\<rparr>, hs1))))))"

definition init_index_table_recovery :: "index_sb \<Rightarrow> volume \<Rightarrow> volume" where
  "init_index_table_recovery tbl v = v\<lparr>indx_tbl := Some tbl\<rparr>"

section \<open>Growing and destroying\<close>

text \<open>The superblock takes the new list of chunk ids.\<close>

definition vol_update_vol_sb_cb :: "sb_api \<Rightarrow> handle \<Rightarrow> chunk_num_t list \<Rightarrow> volume \<times> storage \<Rightarrow> (volume \<times> storage) checked" where
  "vol_update_vol_sb_cb sa h chunk_ids w =
     (let (v, hs) = w in
      (case vol_sb v of
         None \<Rightarrow> Inl NullDeref
       | Some sb \<Rightarrow>
           (let sb' = sb_of_info (vol_info v) (sb_pdev_id sb) chunk_ids (sb_resized sa sb)
            in Inr (v\<lparr>vol_sb := Some sb'\<rparr>, sb_write h sb' hs))))"

text \<open>
  The coroutine \<^verbatim>\<open>destroy\<close> runs in three stretches, between which it waits for the storage layer: it starts, goes on when the replication device
  is gone, and ends when the index table is gone. Stretches with nothing to wait for run together. The result of the removal of the
  replication device is ignored: \<open>gone\<close> says whether it worked.
\<close>

definition destroy_start :: "volume \<Rightarrow> volume" where
  "destroy_start v = v\<lparr>destroy_started := True\<rparr>"

definition destroy_repl_dev :: "bool \<Rightarrow> volume \<times> storage \<Rightarrow> volume \<times> storage" where
  "destroy_repl_dev gone w =
     (let (v, hs) = w in
      (case vol_rd v of None \<Rightarrow> (v, hs) | Some rid \<Rightarrow> (v\<lparr>vol_rd := None\<rparr>, if gone then hs\<lparr>repl_devs := removeAll (vi_id (vol_info v)) (repl_devs hs)\<rparr> else hs)))"

definition destroy_index :: "volume \<times> storage \<Rightarrow> (volume \<times> storage) checked" where
  "destroy_index w =
     (let (v, hs) = w in
      (case indx_tbl v of
         None \<Rightarrow> Inr (v, hs)
       | Some tbl \<Rightarrow>
           (let hs1 = hs\<lparr>index_tables := removeAll tbl (index_tables hs)\<rparr> in
            bind_sum (release_chunks (vi_ordinal (vol_info v)) (index_chunk_selector hs1)) (\<lambda>sel.
            Inr (v\<lparr>indx_tbl := None\<rparr>, hs1\<lparr>index_chunk_selector := sel\<rparr>)))))"

definition destroy_finish :: "handle \<Rightarrow> volume \<times> storage \<Rightarrow> (volume \<times> storage) checked" where
  "destroy_finish h w =
     (let (v, hs) = w; hs1 = hs\<lparr>vol_meta := (vol_meta hs)(h := None)\<rparr> in
      bind_sum (release_chunks (vi_ordinal (vol_info v)) (volume_chunk_selector hs1)) (\<lambda>sel.
      Inr (v\<lparr>vol_sb := None\<rparr>, hs1\<lparr>volume_chunk_selector := sel\<rparr>)))"

text \<open>The whole coroutine, when nothing else happens while it waits.\<close>

definition volume_destroy :: "bool \<Rightarrow> handle \<Rightarrow> volume \<times> storage \<Rightarrow> (volume \<times> storage) checked" where
  "volume_destroy gone h w =
     (let (v, hs) = w in bind_sum (destroy_index (destroy_repl_dev gone (destroy_start v, hs))) (destroy_finish h))"

end
