(* ===== verification/Manager_Ops.thy ===== *)
theory Manager_Ops
  imports Manager_Volume
begin

text \<open>
  The manager of the volumes, \<^verbatim>\<open>HomeBlocksImpl\<close> (src/lib/volume_mgr.cpp and homeblks_impl.cpp): creation, removal and recovery of volumes, the
  garbage collector, shutdown, fault containment and the checks in front of every I/O. Volume objects live in a store and are shared by handle, as
  \<^verbatim>\<open>shared_ptr\<close>s are; the coroutines handed to worker reactors are a list of suspended removals.
\<close>

section \<open>State\<close>

type_synonym peer_id_t = "128 word"

definition HB_SB_MAGIC :: u64 where "HB_SB_MAGIC = 0xCEEDDEEB"
definition HB_SB_VER :: u32 where "HB_SB_VER = 1"
definition SB_FLAGS_GRACEFUL_SHUTDOWN :: u32 where "SB_FLAGS_GRACEFUL_SHUTDOWN = 1"
definition SB_FLAGS_RESTRICTED :: u32 where "SB_FLAGS_RESTRICTED = 2"

record homeblks_sb_t =
  hsb_magic :: u64
  hsb_version :: u32
  hsb_flag :: u32
  hsb_boot_cnt :: u64
  hsb_svc_id :: peer_id_t

definition set_flag :: "u32 \<Rightarrow> homeblks_sb_t \<Rightarrow> homeblks_sb_t" where
  "set_flag b sb = sb\<lparr>hsb_flag := hsb_flag sb OR b\<rparr>"

definition clear_flag :: "u32 \<Rightarrow> homeblks_sb_t \<Rightarrow> homeblks_sb_t" where
  "clear_flag b sb = sb\<lparr>hsb_flag := hsb_flag sb AND NOT b\<rparr>"

definition test_flag :: "u32 \<Rightarrow> homeblks_sb_t \<Rightarrow> bool" where
  "test_flag b sb \<longleftrightarrow> hsb_flag sb AND b \<noteq> 0"

text \<open>
  \<^verbatim>\<open>sisl::IDReserver\<close>: it hands out a number that is not reserved, reserves a given one and takes numbers back. \<open>rs_ids\<close> is for statements only.
\<close>

record 'r reserver =
  rs_reserve :: "'r \<Rightarrow> nat \<times> 'r"
  rs_reserve_id :: "nat \<Rightarrow> 'r \<Rightarrow> 'r"
  rs_unreserve :: "nat \<Rightarrow> 'r \<Rightarrow> 'r"
  rs_ids :: "'r \<Rightarrow> nat set"

definition reserver_ok :: "'r reserver \<Rightarrow> bool" where
  "reserver_ok rs \<longleftrightarrow>
     (\<forall>r n r'. rs_reserve rs r = (n, r') \<longrightarrow> n \<notin> rs_ids rs r \<and> rs_ids rs r' = insert n (rs_ids rs r)) \<and>
     (\<forall>r n. rs_ids rs (rs_reserve_id rs n r) = insert n (rs_ids rs r)) \<and>
     (\<forall>r n. rs_ids rs (rs_unreserve rs n r) = rs_ids rs r - {n})"

text \<open>A removal is queued, waits for the replication device, or waits for the index table.\<close>

datatype removal = DoRemove volume_id_t | ReplDevGone handle | IndexGone handle

record 'r homeblks =
  hs :: storage
  objs :: "handle \<Rightarrow> volume option"
  next_obj :: handle
  vol_map :: "(volume_id_t \<times> handle) list"
  idx_tbl_map :: "(volume_id_t \<times> index_sb) list"
  hb_sb :: "homeblks_sb_t option"
  hb_meta :: "homeblks_sb_t option"
  gracefully_shutdown :: bool
  our_uuid :: peer_id_t
  ordinal_reserver :: 'r
  outstanding_reqs :: nat
  shutdown_started :: bool
  is_restricted :: bool
  shutdown_promise :: bool
  removals :: "removal list"

text \<open>\<^verbatim>\<open>std::map\<close> keeps its entries in the order of the keys.\<close>

definition map_emplace :: "volume_id_t \<Rightarrow> 'v \<Rightarrow> (volume_id_t \<times> 'v) list \<Rightarrow> (volume_id_t \<times> 'v) list" where
  "map_emplace k v m = (if map_of m k = None then insort_key fst (k, v) m else m)"

definition map_erase :: "'k \<Rightarrow> ('k \<times> 'v) list \<Rightarrow> ('k \<times> 'v) list" where
  "map_erase k m = filter (\<lambda>e. fst e \<noteq> k) m"

definition inc_ref :: "'r homeblks \<Rightarrow> 'r homeblks" where
  "inc_ref hb = hb\<lparr>outstanding_reqs := outstanding_reqs hb + 1\<rparr>"

definition dec_ref :: "'r homeblks \<Rightarrow> 'r homeblks" where
  "dec_ref hb = hb\<lparr>outstanding_reqs := outstanding_reqs hb - 1\<rparr>"

definition set_vol :: "handle \<Rightarrow> volume \<times> storage \<Rightarrow> 'r homeblks \<Rightarrow> 'r homeblks" where
  "set_vol h w hb = hb\<lparr>objs := (objs hb)(h \<mapsto> fst w), hs := snd w\<rparr>"

definition with_vol :: "handle \<Rightarrow> (volume \<times> storage \<Rightarrow> (volume \<times> storage) checked) \<Rightarrow> 'r homeblks \<Rightarrow> 'r homeblks checked" where
  "with_vol h f hb =
     (case objs hb h of None \<Rightarrow> Inl NullDeref | Some v \<Rightarrow> bind_sum (f (v, hs hb)) (\<lambda>w. Inr (set_vol h w hb)))"

section \<open>Looking up\<close>

definition get_volume :: "volume_id_t \<Rightarrow> 'r homeblks \<Rightarrow> handle res" where
  "get_volume i hb = (case map_of (vol_map hb) i of None \<Rightarrow> Inl (VolErr UNKNOWN_VOLUME) | Some h \<Rightarrow> Inr h)"

definition volume_ids :: "'r homeblks \<Rightarrow> volume_id_t list" where
  "volume_ids hb = map fst (vol_map hb)"

record volume_stats =
  vs_id :: volume_id_t
  vs_state :: volume_state

definition vol_get_stats :: "volume \<Rightarrow> volume_stats checked" where
  "vol_get_stats v = (case vol_sb v of None \<Rightarrow> Inl NullDeref | Some sb \<Rightarrow> Inr \<lparr>vs_id = vi_id (vol_info v), vs_state = sb_state sb\<rparr>)"

definition get_stats :: "volume_id_t \<Rightarrow> 'r homeblks \<Rightarrow> volume_stats res checked" where
  "get_stats i hb =
     (case map_of (vol_map hb) i of
        None \<Rightarrow> Inr (Inl (VolErr UNKNOWN_VOLUME))
      | Some h \<Rightarrow>
          (case objs hb h of None \<Rightarrow> Inl NullDeref | Some v \<Rightarrow> bind_sum (vol_get_stats v) (\<lambda>st. Inr (Inr st))))"

section \<open>Creating\<close>

text \<open>\<^verbatim>\<open>make_volume\<close> and the registration of the new volume; the object of a failed creation is dropped.\<close>

definition create_make :: "sb_api \<Rightarrow> create_env \<Rightarrow> volume_info \<Rightarrow> 'r homeblks \<Rightarrow> (handle res \<times> 'r homeblks) checked" where
  "create_make sa env info hb =
     (let h = next_obj hb in
      bind_sum (volume_init_new sa env h (volume_of_info info, hs hb)) (\<lambda>(ok, v, hs').
      if ok
      then Inr (Inr h, dec_ref (hb\<lparr>hs := hs', objs := (objs hb)(h \<mapsto> v), next_obj := h + 1, vol_map := map_emplace (vi_id info) h (vol_map hb)\<rparr>))
      else Inr (Inl (VolErr INTERNAL_ERROR), dec_ref (hb\<lparr>hs := hs'\<rparr>))))"

text \<open>The return for an ordinal that is too large leaves the reference taken.\<close>

definition create_volume ::
  "'r reserver \<Rightarrow> sb_api \<Rightarrow> create_env \<Rightarrow> volume_info \<Rightarrow> 'r homeblks \<Rightarrow> (handle res \<times> 'r homeblks) checked" where
  "create_volume rs sa env info hb =
     (if is_restricted hb then Inr (Inl (Errc operation_not_supported), hb)
      else
        (let (ord, r') = rs_reserve rs (ordinal_reserver hb); hb1 = (inc_ref hb)\<lparr>ordinal_reserver := r'\<rparr> in
         if MAX_NUM_VOLUMES \<le> ord then Inr (Inl (VolErr INTERNAL_ERROR), hb1)
         else if map_of (vol_map hb) (vi_id info) \<noteq> None then Inr (Inl (Errc invalid_argument), dec_ref hb1)
         else create_make sa env (info\<lparr>vi_ordinal := ord\<rparr>) hb1))"

section \<open>Removing\<close>

definition remove_volume :: "volume_id_t \<Rightarrow> 'r homeblks \<Rightarrow> (unit res \<times> 'r homeblks) checked" where
  "remove_volume i hb =
     (if is_restricted hb then Inr (Inl (Errc operation_not_supported), hb)
      else (case get_volume i hb of
        Inl _ \<Rightarrow> Inr (Inl (Errc invalid_argument), hb)
      | Inr h \<Rightarrow>
          (case objs hb h of
             None \<Rightarrow> Inl NullDeref
           | Some v \<Rightarrow>
               if is_offline v then Inr (Inl (VolErr VE_OFFLINE), hb)
               else Inr (Inr (), hb\<lparr>removals := removals hb @ [DoRemove i]\<rparr>))))"

text \<open>The end of \<^verbatim>\<open>do_remove_volume\<close>: the last stretch of the destruction, then the volume leaves the map and its ordinal is free again.\<close>

definition remove_finish :: "'r reserver \<Rightarrow> handle \<Rightarrow> 'r homeblks \<Rightarrow> 'r homeblks checked" where
  "remove_finish rs h hb =
     bind_sum (with_vol h (\<lambda>w. bind_sum (destroy_index w) (destroy_finish h)) hb) (\<lambda>hb1.
     (case objs hb1 h of
        None \<Rightarrow> Inl NullDeref
      | Some v \<Rightarrow>
          Inr (hb1\<lparr>vol_map := map_erase (vi_id (vol_info v)) (vol_map hb1),
                   ordinal_reserver := rs_unreserve rs (vi_ordinal (vol_info v)) (ordinal_reserver hb1)\<rparr>)))"

text \<open>The middle: the replication device has been asked to go; \<open>gone\<close> says whether it did.\<close>

definition remove_resume :: "'r reserver \<Rightarrow> bool \<Rightarrow> handle \<Rightarrow> 'r homeblks \<Rightarrow> 'r homeblks checked" where
  "remove_resume rs gone h hb =
     bind_sum (with_vol h (\<lambda>w. Inr (destroy_repl_dev gone w)) hb) (\<lambda>hb1.
     (case objs hb1 h of
        None \<Rightarrow> Inl NullDeref
      | Some v \<Rightarrow>
          if indx_tbl v = None then remove_finish rs h hb1 else Inr (hb1\<lparr>removals := removals hb1 @ [IndexGone h]\<rparr>)))"

definition do_remove_volume :: "'r reserver \<Rightarrow> volume_id_t \<Rightarrow> 'r homeblks \<Rightarrow> 'r homeblks checked" where
  "do_remove_volume rs i hb =
     (case map_of (vol_map hb) i of
        None \<Rightarrow> Inr hb
      | Some h \<Rightarrow>
          bind_sum (with_vol h (state_change h DESTROYING) hb) (\<lambda>hb1.
          (case objs hb1 h of
             None \<Rightarrow> Inl NullDeref
           | Some v \<Rightarrow>
               if \<not> can_remove v then Inr hb1
               else
                 (let hb2 = hb1\<lparr>objs := (objs hb1)(h \<mapsto> destroy_start v)\<rparr> in
                  if vol_rd v = None then remove_resume rs True h hb2
                  else Inr (hb2\<lparr>removals := removals hb2 @ [ReplDevGone h]\<rparr>)))))"

text \<open>A worker reactor runs one of the suspended coroutines to its next suspension.\<close>

definition run_removal :: "'r reserver \<Rightarrow> bool \<Rightarrow> removal \<Rightarrow> 'r homeblks \<Rightarrow> 'r homeblks checked" where
  "run_removal rs gone c hb =
     (let hb1 = hb\<lparr>removals := remove1 c (removals hb)\<rparr> in
      (case c of
         DoRemove i \<Rightarrow> do_remove_volume rs i hb1
       | ReplDevGone h \<Rightarrow> remove_resume rs gone h hb1
       | IndexGone h \<Rightarrow> remove_finish rs h hb1))"

section \<open>Recovering\<close>

text \<open>A failure to recover the chunks is only logged.\<close>

definition recover_index_table :: "index_sb \<Rightarrow> 'r homeblks \<Rightarrow> 'r homeblks checked" where
  "recover_index_table sb hb =
     bind_sum (recover_chunks (ix_ordinal sb) (ix_pdev_id sb) (ix_max_size_bytes sb) (ix_chunk_ids sb) (index_chunk_selector (hs hb))) (\<lambda>(_, sel).
     Inr (hb\<lparr>hs := (hs hb)\<lparr>index_chunk_selector := sel, index_tables := index_tables (hs hb) @ [sb]\<rparr>,
             idx_tbl_map := emplace (ix_parent_uuid sb) sb (idx_tbl_map hb)\<rparr>))"

text \<open>
  The volume pointer is used without a look at whether the recovery worked, and so is the position of the index table in the map.
\<close>

definition on_vol_meta_blk_found :: "'r reserver \<Rightarrow> vol_sb_t \<Rightarrow> 'r homeblks \<Rightarrow> 'r homeblks checked" where
  "on_vol_meta_blk_found rs sb hb =
     (let h = next_obj hb in
      bind_sum (volume_init_recovery (volume_of_sb sb, (hs hb)\<lparr>vol_meta := (vol_meta (hs hb))(h \<mapsto> sb)\<rparr>)) (\<lambda>(ok, v, hs').
      if \<not> ok then Inl NullDeref
      else
        (let i = vi_id (vol_info v) in
         (case map_of (idx_tbl_map hb) i of
            None \<Rightarrow> Inl OutOfBounds
          | Some tbl \<Rightarrow>
              (let v' = init_index_table_recovery tbl v;
                   hb1 = hb\<lparr>hs := hs', objs := (objs hb)(h \<mapsto> v'), next_obj := h + 1, idx_tbl_map := map_erase i (idx_tbl_map hb),
                            vol_map := map_emplace i h (vol_map hb),
                            ordinal_reserver := rs_reserve_id rs (vi_ordinal (vol_info v')) (ordinal_reserver hb)\<rparr>
               in if is_destroying v' then bind_sum (remove_volume i hb1) (\<lambda>(_, hb2). Inr hb2) else Inr hb1)))))"

section \<open>Superblock updates\<close>

text \<open>The callback of the chunk selector of the volumes.\<close>

definition update_vol_sb_cb :: "sb_api \<Rightarrow> nat \<Rightarrow> chunk_num_t list \<Rightarrow> 'r homeblks \<Rightarrow> 'r homeblks checked" where
  "update_vol_sb_cb sa ord chunk_ids hb =
     (case List.find (\<lambda>(_, h). case objs hb h of None \<Rightarrow> False | Some v \<Rightarrow> vi_ordinal (vol_info v) = ord) (vol_map hb) of
        None \<Rightarrow> Inl ReleaseAssert
      | Some (_, h) \<Rightarrow> with_vol h (vol_update_vol_sb_cb sa h chunk_ids) hb)"

text \<open>A resize task of that selector, with the callback it makes.\<close>

definition run_volume_resize :: "sb_api \<Rightarrow> 'r homeblks \<Rightarrow> 'r homeblks checked" where
  "run_volume_resize sa hb =
     (let sel = volume_chunk_selector (hs hb) in
      bind_sum (run_pending_resize sel) (\<lambda>sel'.
      foldl (\<lambda>r (ord, ids). bind_sum r (update_vol_sb_cb sa ord ids)) (Inr (hb\<lparr>hs := (hs hb)\<lparr>volume_chunk_selector := sel'\<rparr>\<rparr>))
        (drop (length (sb_updates sel)) (sb_updates sel'))))"

end
