(* ===== verification/Manager_System.thy ===== *)
theory Manager_System
  imports Manager_Ops
begin

text \<open>
  The rest of \<^verbatim>\<open>HomeBlocksImpl\<close>: the garbage collector, shutdown, fault containment, the superblock of the instance, the choice of devices and
  sizes at start-up, and the I/O entry points (src/lib/homeblks_impl.cpp, homeblks_impl.hpp, volume_mgr.cpp).
\<close>

section \<open>Garbage collection\<close>

definition gc_candidate :: "'r homeblks \<Rightarrow> volume_id_t \<times> handle \<Rightarrow> bool" where
  "gc_candidate hb e = (case objs hb (snd e) of None \<Rightarrow> False | Some v \<Rightarrow> is_destroying v \<and> can_remove v)"

definition vol_gc :: "'r homeblks \<Rightarrow> 'r homeblks checked" where
  "vol_gc hb =
     foldl (\<lambda>r e. bind_sum r (\<lambda>hb'. bind_sum (remove_volume (fst e) hb') (\<lambda>(_, hb''). Inr hb''))) (Inr hb)
       (filter (gc_candidate hb) (vol_map hb))"

section \<open>Shutdown\<close>

definition no_outstanding_vols :: "'r homeblks \<Rightarrow> bool" where
  "no_outstanding_vols hb =
     list_all (\<lambda>e. case objs hb (snd e) of None \<Rightarrow> True | Some v \<Rightarrow> \<not> is_destroying v \<and> vol_outstanding v = 0) (vol_map hb)"

definition can_shutdown :: "'r homeblks \<Rightarrow> bool" where
  "can_shutdown hb \<longleftrightarrow> shutdown_started hb \<and> no_outstanding_vols hb \<and> outstanding_reqs hb = 0"

definition shutdown_start :: "'r homeblks \<Rightarrow> 'r homeblks" where
  "shutdown_start hb = hb\<lparr>shutdown_started := True\<rparr>"

text \<open>The body of the recurring timer. A promise that already has its value throws.\<close>

definition do_shutdown :: "'r homeblks \<Rightarrow> 'r homeblks checked" where
  "do_shutdown hb =
     (if can_shutdown hb then (if shutdown_promise hb then Inl UncaughtException else Inr (hb\<lparr>shutdown_promise := True\<rparr>)) else Inr hb)"

text \<open>What \<^verbatim>\<open>shutdown\<close> does once the promise is fulfilled, before it stops the storage layer.\<close>

definition shutdown_finish :: "'r homeblks \<Rightarrow> 'r homeblks checked" where
  "shutdown_finish hb =
     (case hb_sb hb of
        None \<Rightarrow> Inl NullDeref
      | Some sb \<Rightarrow> (let sb' = set_flag SB_FLAGS_GRACEFUL_SHUTDOWN sb in Inr (hb\<lparr>hb_sb := Some sb', hb_meta := Some sb'\<rparr>)))"

section \<open>The superblock of the instance\<close>

definition superblk_init :: "'r homeblks \<Rightarrow> 'r homeblks" where
  "superblk_init hb =
     (let sb = \<lparr>hsb_magic = HB_SB_MAGIC, hsb_version = HB_SB_VER, hsb_flag = 0, hsb_boot_cnt = 0, hsb_svc_id = our_uuid hb\<rparr>
      in hb\<lparr>hb_sb := Some sb, hb_meta := Some sb\<rparr>)"

definition on_hb_meta_blk_found :: "homeblks_sb_t \<Rightarrow> 'r homeblks \<Rightarrow> 'r homeblks checked" where
  "on_hb_meta_blk_found sb hb =
     (if hsb_version sb \<noteq> HB_SB_VER then Inl ReleaseAssert
      else if hsb_magic sb \<noteq> HB_SB_MAGIC then Inl ReleaseAssert
      else
        (let (sb1, hb1) =
               (if test_flag SB_FLAGS_GRACEFUL_SHUTDOWN sb then (clear_flag SB_FLAGS_GRACEFUL_SHUTDOWN sb, hb\<lparr>gracefully_shutdown := True\<rparr>)
                else if test_flag SB_FLAGS_RESTRICTED sb then (sb, hb\<lparr>is_restricted := True\<rparr>)
                else (sb, hb));
             sb2 = sb1\<lparr>hsb_boot_cnt := hsb_boot_cnt sb1 + 1\<rparr>
         in Inr (hb1\<lparr>hb_sb := Some sb2, our_uuid := hsb_svc_id sb2\<rparr>)))"

section \<open>Fault containment\<close>

definition exit_fc :: "handle \<Rightarrow> 'r homeblks \<Rightarrow> 'r homeblks checked" where
  "exit_fc h hb = with_vol h (state_change h ONLINE) hb"

definition fault_containment :: "handle option \<Rightarrow> 'r homeblks \<Rightarrow> 'r homeblks checked" where
  "fault_containment vol hb =
     (case vol of
        None \<Rightarrow>
          (case hb_sb hb of
             None \<Rightarrow> Inl NullDeref
           | Some sb \<Rightarrow>
               (let sb' = set_flag SB_FLAGS_RESTRICTED sb in Inr (hb\<lparr>hb_sb := Some sb', hb_meta := Some sb', is_restricted := True\<rparr>)))
      | Some h \<Rightarrow> with_vol h (state_change h VS_OFFLINE) hb)"

datatype fc_event = FC_ENTER | FC_EXIT | FC_ENTER_GLOBAL

definition on_fault_containment :: "fc_event \<Rightarrow> volume_id_t option \<Rightarrow> 'r homeblks \<Rightarrow> 'r homeblks checked" where
  "on_fault_containment event cookie hb =
     (if event = FC_ENTER_GLOBAL then fault_containment None hb
      else (case cookie of
        None \<Rightarrow> Inr hb
      | Some vol_id \<Rightarrow>
          (case get_volume vol_id hb of
             Inl _ \<Rightarrow> Inr hb
           | Inr h \<Rightarrow> (if event = FC_ENTER then fault_containment (Some h) hb else if event = FC_EXIT then exit_fc h hb else Inr hb))))"

section \<open>Devices and sizes\<close>

datatype drive_type = file_on_nvme | file_on_hdd | block_nvme | block_hdd | drive_unknown
datatype dev_type = AUTO_DETECT | HDD | NVME | UNSUPPORTED
datatype hs_dev_type = HSData | HSFast

definition get_device_type :: "(string \<Rightarrow> drive_type) \<Rightarrow> string \<Rightarrow> dev_type" where
  "get_device_type type_of devname =
     (let dtype = type_of devname in
      if dtype = block_hdd \<or> dtype = file_on_hdd then HDD
      else if dtype = file_on_nvme \<or> dtype = block_nvme then NVME
      else UNSUPPORTED)"

fun get_dev_info :: "(string \<Rightarrow> drive_type) \<Rightarrow> (string \<Rightarrow> string) \<Rightarrow> (string \<times> dev_type) list \<Rightarrow> (string \<times> hs_dev_type) list \<times> bool \<times> bool" where
  "get_dev_info type_of canonical [] = ([], False, False)"
| "get_dev_info type_of canonical ((path, input_dev_type) # devs) =
     (let detected_type = get_device_type type_of path;
          final_type = (if input_dev_type = AUTO_DETECT then detected_type else input_dev_type);
          (infos, has_data_dev, has_fast_dev) = get_dev_info type_of canonical devs
      in if final_type = UNSUPPORTED then (infos, has_data_dev, has_fast_dev)
         else
           (let hs_type = (if final_type = HDD then HSData else HSFast)
            in ((canonical path, hs_type) # infos, has_data_dev \<or> hs_type = HSData, has_fast_dev \<or> hs_type = HSFast)))"

text \<open>
  A size given on the command line is multiplied in 32 bits; one from the settings in 64 bits, by \<^verbatim>\<open>Mi\<close>. An option that is not given is \<^term>\<open>None\<close>.
\<close>

definition chunk_size_of :: "u32 option \<Rightarrow> u32 \<Rightarrow> u64" where
  "chunk_size_of opt config = (case opt of Some n \<Rightarrow> ucast (n * 1024 * 1024) | None \<Rightarrow> ucast config * (1024 * 1024))"

definition get_chunk_size :: "u32 option \<Rightarrow> u32 option \<Rightarrow> u32 \<Rightarrow> u32 \<Rightarrow> u64 \<times> u64" where
  "get_chunk_size index_opt data_opt index_config data_config = (chunk_size_of index_opt index_config, chunk_size_of data_opt data_config)"

text \<open>
  The first start formats the devices: which service lives on which type of device, with which share of it. A size that is not given is \<^term>\<open>None\<close>.
\<close>

datatype hs_service = SVC_META | SVC_LOG | SVC_INDEX | SVC_REPLICATION

record hs_format_params =
  fp_dev_type :: hs_dev_type
  fp_size_pct :: nat
  fp_chunk_size :: "u64 option"
  fp_block_size :: "u32 option"
  fp_custom_selector :: bool

definition DATA_BLK_SIZE :: u32 where "DATA_BLK_SIZE = 4096"

definition format_params :: "bool \<Rightarrow> bool \<Rightarrow> u64 \<times> u64 \<Rightarrow> (hs_service \<times> hs_format_params) list" where
  "format_params has_data_dev has_fast_dev chunk_sz =
     (let (index_sz, data_sz) = chunk_sz in
      if has_data_dev \<and> has_fast_dev
      then [(SVC_META, \<lparr>fp_dev_type = HSFast, fp_size_pct = 9, fp_chunk_size = None, fp_block_size = None, fp_custom_selector = False\<rparr>),
            (SVC_LOG, \<lparr>fp_dev_type = HSFast, fp_size_pct = 45, fp_chunk_size = Some (32 * 1024 * 1024), fp_block_size = None, fp_custom_selector = False\<rparr>),
            (SVC_INDEX, \<lparr>fp_dev_type = HSFast, fp_size_pct = 45, fp_chunk_size = Some index_sz, fp_block_size = None, fp_custom_selector = True\<rparr>),
            (SVC_REPLICATION, \<lparr>fp_dev_type = HSData, fp_size_pct = 95, fp_chunk_size = Some data_sz, fp_block_size = Some DATA_BLK_SIZE, fp_custom_selector = True\<rparr>)]
      else
        (let run_on_type = (if has_fast_dev then HSFast else HSData) in
         [(SVC_META, \<lparr>fp_dev_type = run_on_type, fp_size_pct = 5, fp_chunk_size = None, fp_block_size = None, fp_custom_selector = False\<rparr>),
          (SVC_LOG, \<lparr>fp_dev_type = run_on_type, fp_size_pct = 10, fp_chunk_size = Some (32 * 1024 * 1024), fp_block_size = None, fp_custom_selector = False\<rparr>),
          (SVC_INDEX, \<lparr>fp_dev_type = run_on_type, fp_size_pct = 5, fp_chunk_size = Some index_sz, fp_block_size = None, fp_custom_selector = True\<rparr>),
          (SVC_REPLICATION, \<lparr>fp_dev_type = run_on_type, fp_size_pct = 75, fp_chunk_size = Some data_sz, fp_block_size = Some DATA_BLK_SIZE, fp_custom_selector = True\<rparr>)]))"

definition init_format ::
  "(string \<Rightarrow> drive_type) \<Rightarrow> (string \<Rightarrow> string) \<Rightarrow> (string \<times> dev_type) list \<Rightarrow> u64 \<times> u64 \<Rightarrow> (hs_service \<times> hs_format_params) list checked" where
  "init_format type_of canonical devices chunk_sz =
     (let (device_info, has_data_dev, has_fast_dev) = get_dev_info type_of canonical devices in
      if device_info = [] then Inl ReleaseAssert else Inr (format_params has_data_dev has_fast_dev chunk_sz))"

text \<open>The flags say which types of device are there, so that no service is put on a type that is not, and no type is given away more than once.\<close>

lemma get_dev_info_flags:
  "get_dev_info type_of canonical devs = (infos, has_d, has_f) \<Longrightarrow> (has_d \<longleftrightarrow> HSData \<in> snd ` set infos) \<and> (has_f \<longleftrightarrow> HSFast \<in> snd ` set infos)"
proof (induction devs arbitrary: infos has_d has_f)
  case Nil
  then show ?case by simp
next
  case (Cons dev devs)
  obtain path ty where dev: "dev = (path, ty)" by (cases dev)
  obtain infos' d' f' where rest: "get_dev_info type_of canonical devs = (infos', d', f')" by (cases "get_dev_info type_of canonical devs") auto
  show ?case using Cons.prems Cons.IH [OF rest] by (auto simp: dev rest Let_def split: if_splits)
qed

lemma init_format_sound:
  assumes "init_format type_of canonical devs chunk_sz = Inr ps" "get_dev_info type_of canonical devs = (infos, has_d, has_f)"
  shows "(\<forall>p\<in>set ps. fp_dev_type (snd p) \<in> snd ` set infos) \<and> (\<forall>dt. sum_list (map (\<lambda>p. fp_size_pct (snd p)) (filter (\<lambda>p. fp_dev_type (snd p) = dt) ps)) \<le> 100)"
proof -
  have ne: "infos \<noteq> []" and ps: "ps = format_params has_d has_f chunk_sz" using assms by (auto simp: init_format_def split: if_splits)
  obtain x where x: "x \<in> set infos" using ne by (cases infos) auto
  have "\<forall>p\<in>set ps. fp_dev_type (snd p) \<in> snd ` set infos"
    using x get_dev_info_flags [OF assms(2)] unfolding ps format_params_def
    by (cases "snd x") (auto simp: Let_def split: prod.splits intro: rev_image_eqI)
  moreover have "sum_list (map (\<lambda>p. fp_size_pct (snd p)) (filter (\<lambda>p. fp_dev_type (snd p) = dt) ps)) \<le> 100" for dt
    unfolding ps format_params_def by (cases dt) (simp_all add: Let_def split: prod.split)
  ultimately show ?thesis by blast
qed

section \<open>I/O\<close>

definition io_precheck :: "'d repl_dev \<Rightarrow> 'r homeblks \<Rightarrow> volume \<Rightarrow> u64 \<Rightarrow> u64 \<Rightarrow> u32 res checked" where
  "io_precheck rd hb vol addr len =
     (if is_restricted hb then Inr (Inl (Errc operation_not_supported))
      else if is_offline vol then Inr (Inl (VolErr VE_OFFLINE))
      else if is_destroying vol \<or> shutdown_started hb then Inr (Inl (Errc operation_not_supported))
      else if vol_rd vol = None then Inl NullDeref
      else
        (let blk_size = get_blk_size rd in
         if blk_size = 0 then Inl DivideByZero
         else if addr mod ucast blk_size \<noteq> 0 \<or> len mod ucast blk_size \<noteq> 0 then Inr (Inl (Errc invalid_argument))
         else Inr (Inr blk_size)))"

definition io_req_of :: "u64 \<Rightarrow> sg_list \<Rightarrow> u32 \<Rightarrow> io_req" where
  "io_req_of addr sgs blk_size =
     \<lparr>req_buffer = Some (iovs sgs ! 0), req_lba = addr div ucast blk_size, req_nlbas = ucast (sg_size sgs div ucast blk_size)\<rparr>"

text \<open>The free function \<^verbatim>\<open>async_write\<close>. The guard counts the request on the volume while it runs.\<close>

definition vol_async_write ::
  "blk_api \<Rightarrow> blk_codec \<Rightarrow> 't index_ops \<Rightarrow> 'd repl_dev \<Rightarrow> (u16 \<Rightarrow> u8 list \<Rightarrow> csum_t) \<Rightarrow> 'r homeblks \<Rightarrow> volume \<Rightarrow> u64 \<Rightarrow> sg_list \<Rightarrow> 't \<times> 'd \<Rightarrow>
   (u64 res \<times> volume \<times> 't \<times> 'd) checked" where
  "vol_async_write api codec ix rd crc hb vol addr sgs w =
     bind_sum (io_precheck rd hb vol addr (sg_size sgs)) (\<lambda>r.
     (case r of
        Inl e \<Rightarrow> Inr (Inl e, vol, w)
      | Inr blk_size \<Rightarrow>
          if length (iovs sgs) \<noteq> 1 then Inr (Inl (Errc invalid_argument), vol, w)
          else
            (let guarded = vol_inc_ref vol in
             bind_sum (volume_write api codec ix rd crc (vi_id (vol_info vol)) (of_nat (vi_ordinal (vol_info vol))) (io_req_of addr sgs blk_size) w) (\<lambda>(st, w').
             Inr (case st of Inl e \<Rightarrow> Inl e | Inr _ \<Rightarrow> Inr (sg_size sgs), vol_dec_ref guarded, w')))))"

text \<open>
  The free function \<^verbatim>\<open>async_read\<close>. The buffer of the caller is returned with what the read stored in it; a buffer that is not there takes the
  volume out of service, which cannot happen to a buffer that is a list.
\<close>

definition vol_async_read ::
  "'t index_ops \<Rightarrow> 'd repl_dev \<Rightarrow> (u16 \<Rightarrow> u8 list \<Rightarrow> csum_t) \<Rightarrow> bool \<Rightarrow> 'r homeblks \<Rightarrow> volume \<Rightarrow> u64 \<Rightarrow> sg_list \<Rightarrow> 't \<times> 'd \<Rightarrow>
   (u64 res \<times> u8 list list \<times> volume \<times> 't \<times> 'd) checked" where
  "vol_async_read ix rd crc fc hb vol addr sgs w =
     bind_sum (io_precheck rd hb vol addr (sg_size sgs)) (\<lambda>r.
     (case r of
        Inl e \<Rightarrow> Inr (Inl e, iovs sgs, vol, w)
      | Inr blk_size \<Rightarrow>
          if length (iovs sgs) \<noteq> 1 then Inr (Inl (Errc invalid_argument), iovs sgs, vol, w)
          else
            (let guarded = vol_inc_ref vol in
             bind_sum (volume_read ix rd crc fc (io_req_of addr sgs blk_size) w) (\<lambda>(res, w').
             Inr (case rr_status res of Inl e \<Rightarrow> Inl e | Inr _ \<Rightarrow> Inr (sg_size sgs),
                  (case rr_mem res of None \<Rightarrow> iovs sgs | Some b \<Rightarrow> [b]), vol_dec_ref guarded, w')))))"

definition vol_async_unmap :: "'d repl_dev \<Rightarrow> 'r homeblks \<Rightarrow> volume \<Rightarrow> u64 \<Rightarrow> u64 \<Rightarrow> unit res checked" where
  "vol_async_unmap rd hb vol addr len =
     bind_sum (io_precheck rd hb vol addr len) (\<lambda>r. (case r of Inl e \<Rightarrow> Inr (Inl e) | Inr _ \<Rightarrow> Inr (Inr ())))"

end
