(* ===== verification/Manager_Inv.thy ===== *)
theory Manager_Inv
  imports Manager_System
begin

text \<open>
  What the manager relies on in a chunk selector, as the locale \<open>chunk_owner\<close>, and the invariant of the manager: every volume of the map has its chunks,
  its index table and its persisted superblock, all under an ordinal of its own, and its request counter counts the requests in flight.
\<close>

section \<open>Chunk selectors as seen by the manager\<close>

locale chunk_owner =
  fixes ok :: "'s \<Rightarrow> bool" and has :: "'s \<Rightarrow> nat \<Rightarrow> bool" and ids :: "'s \<Rightarrow> nat \<Rightarrow> chunk_num_t list"
    and alloc :: "nat \<Rightarrow> u64 \<Rightarrow> pdev_id_t \<Rightarrow> bool \<Rightarrow> 's \<Rightarrow> (chunk_num_t list \<times> pdev_id_t \<times> 's) checked"
    and release :: "nat \<Rightarrow> 's \<Rightarrow> 's checked"
  assumes alloc_new: "ok s \<Longrightarrow> \<not> has s n \<Longrightarrow> n < MAX_NUM_VOLUMES \<Longrightarrow>
      \<exists>cids p' s'. alloc n sz p lz s = Inr (cids, p', s') \<and> ok s' \<and>
        (if cids = [] then s' = s else ids s' n = cids \<and> has s' n \<and> (\<forall>m. m \<noteq> n \<longrightarrow> has s' m = has s m \<and> ids s' m = ids s m))"
    and release_owned: "ok s \<Longrightarrow> has s n \<Longrightarrow>
      \<exists>s'. release n s = Inr s' \<and> ok s' \<and> \<not> has s' n \<and> (\<forall>m. m \<noteq> n \<longrightarrow> has s' m = has s m \<and> ids s' m = ids s m)"
begin

lemma alloc_cases:
  assumes "ok s" "\<not> has s n" "n < MAX_NUM_VOLUMES"
  obtains p' where "alloc n sz p lz s = Inr ([], p', s)"
  | cids p' s' where "alloc n sz p lz s = Inr (cids, p', s')" "cids \<noteq> []" "ok s'" "ids s' n = cids" "has s' n"
      "\<And>m. m \<noteq> n \<Longrightarrow> has s' m = has s m \<and> ids s' m = ids s m"
  using alloc_new [OF assms, of sz p lz] by (metis (full_types))

lemma alloc_release:
  assumes "ok s" "\<not> has s n" "n < MAX_NUM_VOLUMES" "alloc n sz p lz s = Inr (cids, p', s')" "cids \<noteq> []"
  shows "\<exists>s''. release n s' = Inr s'' \<and> ok s'' \<and> (\<forall>m. has s'' m = has s m) \<and> (\<forall>m. m \<noteq> n \<longrightarrow> ids s'' m = ids s m)"
proof -
  have s': "ok s'" "has s' n" "\<And>m. m \<noteq> n \<Longrightarrow> has s' m = has s m \<and> ids s' m = ids s m"
    using alloc_new [OF assms(1-3), of sz p lz] assms(4,5) by auto
  then obtain s'' where "release n s' = Inr s''" "ok s''" "\<not> has s'' n" "\<forall>m. m \<noteq> n \<longrightarrow> has s'' m = has s' m \<and> ids s'' m = ids s' m"
    using release_owned by blast
  then show ?thesis using s' assms(2) by metis
qed

end

definition sel_ok :: "selector \<Rightarrow> bool" where
  "sel_ok s \<longleftrightarrow> (\<exists>L. sel_rel s L)"

definition has_chunks :: "selector \<Rightarrow> nat \<Rightarrow> bool" where
  "has_chunks s n \<longleftrightarrow> m_volume_chunks s n \<noteq> None"

lemma alloc_other_volumes:
  assumes "allocate_init_chunks n sz p lz s = Inr (cids, p', s')" "m \<noteq> n"
  shows "m_volume_chunks s' m = m_volume_chunks s m"
  using assms by (auto simp: allocate_init_chunks_def allocate_init_chunks_from_pdev_def register_init_chunks_def bind_sum_eq_Inr Let_def
      split: if_splits option.splits list.splits prod.splits)

interpretation sel: chunk_owner sel_ok has_chunks vol_ids allocate_init_chunks release_chunks
proof
  fix s n sz p lz assume a: "sel_ok s" "\<not> has_chunks s n" "n < MAX_NUM_VOLUMES"
  obtain L where L: "sel_rel s L" using a(1) by (auto simp: sel_ok_def)
  have new: "m_volume_chunks s n = None" using a(2) by (simp add: has_chunks_def)
  obtain cids p' s' where e: "allocate_init_chunks n sz p lz s = Inr (cids, p', s')"
    and r: "if cids = [] then s' = s \<and> p' = p else distinct cids \<and> (\<forall>cid\<in>set cids. L cid = Some (Free p')) \<and>
       sel_rel s' (move (set cids) (Owned n) L) \<and> vol_ids s' n = cids \<and> (\<exists>v. m_volume_chunks s' n = Some v \<and> vc_pdev v = p')"
    using allocate_init_chunks_refines [OF L new a(3)] by blast
  have oth: "has_chunks s' m = has_chunks s m \<and> vol_ids s' m = vol_ids s m" if "m \<noteq> n" for m
    using alloc_other_volumes [OF e that] by (simp add: has_chunks_def vol_ids_def)
  have "sel_ok s'" using r L by (auto simp: sel_ok_def split: if_splits)
  moreover have "if cids = [] then s' = s else vol_ids s' n = cids \<and> has_chunks s' n \<and> (\<forall>m. m \<noteq> n \<longrightarrow> has_chunks s' m = has_chunks s m \<and> vol_ids s' m = vol_ids s m)"
    using r oth by (auto simp: has_chunks_def split: if_splits)
  ultimately show "\<exists>cids p' s'. allocate_init_chunks n sz p lz s = Inr (cids, p', s') \<and> sel_ok s' \<and>
      (if cids = [] then s' = s else vol_ids s' n = cids \<and> has_chunks s' n \<and> (\<forall>m. m \<noteq> n \<longrightarrow> has_chunks s' m = has_chunks s m \<and> vol_ids s' m = vol_ids s m))"
    using e by blast
next
  fix s n assume a: "sel_ok s" "has_chunks s n"
  then obtain L v where "sel_rel s L" "m_volume_chunks s n = Some v" by (auto simp: sel_ok_def has_chunks_def)
  then show "\<exists>s'. release_chunks n s = Inr s' \<and> sel_ok s' \<and> \<not> has_chunks s' n \<and> (\<forall>m. m \<noteq> n \<longrightarrow> has_chunks s' m = has_chunks s m \<and> vol_ids s' m = vol_ids s m)"
    using release_chunks_refines [of s L n v] by (auto simp: sel_ok_def has_chunks_def vol_ids_def)
qed

section \<open>The invariant\<close>

definition waits :: "removal list \<Rightarrow> handle \<Rightarrow> nat" where
  "waits wk h = count_list wk (ReplDevGone h) + count_list wk (IndexGone h)"

lemma waits_simps [simp]:
  "waits [] h = 0"
  "waits (wk @ [DoRemove i]) h = waits wk h"
  "waits (wk @ [ReplDevGone k]) h = waits wk h + (if k = h then 1 else 0)"
  "waits (wk @ [IndexGone k]) h = waits wk h + (if k = h then 1 else 0)"
  by (simp_all add: waits_def count_list_append)

lemma count_list_remove1: "count_list (remove1 x xs) y = count_list xs y - (if x = y then 1 else 0)"
  by (induction xs) auto

lemma waits_remove1:
  "waits (remove1 (DoRemove i) wk) h = waits wk h"
  "c \<in> set wk \<Longrightarrow> c = ReplDevGone k \<or> c = IndexGone k \<Longrightarrow> waits (remove1 c wk) h = waits wk h - (if k = h then 1 else 0)"
proof -
  assume "c \<in> set wk" "c = ReplDevGone k \<or> c = IndexGone k"
  moreover from this have "0 < count_list wk c" using count_list_0_iff [of wk c] by auto
  ultimately show "waits (remove1 c wk) h = waits wk h - (if k = h then 1 else 0)"
    by (auto simp: waits_def count_list_remove1)
qed (simp add: waits_def count_list_remove1)

text \<open>The superblock says what the volume and the selector say.\<close>

definition sb_matches :: "volume_info \<Rightarrow> volume_state \<Rightarrow> chunk_num_t list \<Rightarrow> vol_sb_t \<Rightarrow> bool" where
  "sb_matches info st cids sb \<longleftrightarrow> sb = sb_of_info info (sb_pdev_id sb) cids sb \<and> sb_state sb = st"

definition vol_ok :: "nat set \<Rightarrow> storage \<Rightarrow> removal list \<Rightarrow> handle list \<Rightarrow> volume_id_t \<Rightarrow> handle \<Rightarrow> volume \<Rightarrow> bool" where
  "vol_ok R st wk fl i h v \<longleftrightarrow>
     (let n = vi_ordinal (vol_info v) in
      vi_id (vol_info v) = i \<and> n < MAX_NUM_VOLUMES \<and> n \<in> R \<and> vol_outstanding v = count_list fl h \<and>
      (destroy_started v \<longrightarrow> m_state v = DESTROYING \<and> h \<notin> set fl) \<and> (m_state v \<noteq> DESTROYING \<or> h \<in> set fl \<longrightarrow> vol_rd v \<noteq> None) \<and>
      waits wk h = (if destroy_started v then 1 else 0) \<and>
      has_chunks (volume_chunk_selector st) n \<and> has_chunks (index_chunk_selector st) n \<and>
      (\<exists>sb. vol_sb v = Some sb \<and> vol_meta st h = Some sb \<and> sb_matches (vol_info v) (m_state v) (vol_ids (volume_chunk_selector st) n) sb) \<and>
      (\<exists>tbl. indx_tbl v = Some tbl \<and> tbl \<in> set (index_tables st) \<and> ix_parent_uuid tbl = i \<and> ix_ordinal tbl = n \<and>
         ix_chunk_ids tbl = vol_ids (index_chunk_selector st) n))"

definition mgr_inv :: "'r reserver \<Rightarrow> 'r homeblks \<times> handle list \<Rightarrow> bool" where
  "mgr_inv rs s \<longleftrightarrow>
     (let (hb, fl) = s; R = rs_ids rs (ordinal_reserver hb); st = hs hb in
      sel_ok (volume_chunk_selector st) \<and> sel_ok (index_chunk_selector st) \<and> distinct (map fst (vol_map hb)) \<and>
      (\<forall>n. has_chunks (volume_chunk_selector st) n \<or> has_chunks (index_chunk_selector st) n \<longrightarrow> n \<in> R) \<and>
      (\<forall>h\<ge>next_obj hb. objs hb h = None) \<and>
      (\<forall>i h. (i, h) \<in> set (vol_map hb) \<longrightarrow> (\<exists>v. objs hb h = Some v \<and> vol_ok R st (removals hb) fl i h v)) \<and>
      (\<forall>i h j k v w. (i, h) \<in> set (vol_map hb) \<longrightarrow> (j, k) \<in> set (vol_map hb) \<longrightarrow> objs hb h = Some v \<longrightarrow> objs hb k = Some w \<longrightarrow>
         vi_ordinal (vol_info v) = vi_ordinal (vol_info w) \<longrightarrow> i = j) \<and>
      (\<forall>h v. objs hb h = Some v \<longrightarrow> h \<notin> snd ` set (vol_map hb) \<longrightarrow> m_state v = DESTROYING) \<and>
      (\<forall>h\<in>set fl. h \<in> snd ` set (vol_map hb)) \<and>
      (\<forall>h. waits (removals hb) h \<noteq> 0 \<longrightarrow> h \<in> snd ` set (vol_map hb)))"

lemma sb_of_info_idem [simp]:
  "sb_of_info info p cids (sb\<lparr>sb_state := s\<rparr>) = (sb_of_info info p cids sb)\<lparr>sb_state := s\<rparr>"
  "sb_of_info info p cids (sb_of_info info q ds sb) = sb_of_info info p cids sb"
  "sb_pdev_id (sb_of_info info p cids sb) = p" "sb_state (sb_of_info info p cids sb) = sb_state sb"
  by (simp_all add: sb_of_info_def vol_sb_init_def)

lemma sb_matches_state: "sb_matches info st cids sb \<Longrightarrow> sb_matches info s cids (sb\<lparr>sb_state := s\<rparr>)"
  unfolding sb_matches_def by (metis sb_of_info_idem(1) vol_sb_t.select_convs(8) vol_sb_t.simps(10) vol_sb_t.surjective vol_sb_t.update_convs(8))

text \<open>What happens elsewhere does not concern a volume.\<close>

lemma vol_ok_frame:
  assumes "vol_ok R st wk fl i h v" "vi_ordinal (vol_info v) \<in> R'" "vol_meta st' h = vol_meta st h"
    and "\<And>n. n = vi_ordinal (vol_info v) \<Longrightarrow>
      has_chunks (volume_chunk_selector st') n = has_chunks (volume_chunk_selector st) n \<and> vol_ids (volume_chunk_selector st') n = vol_ids (volume_chunk_selector st) n \<and>
      has_chunks (index_chunk_selector st') n = has_chunks (index_chunk_selector st) n \<and> vol_ids (index_chunk_selector st') n = vol_ids (index_chunk_selector st) n \<and>
      (\<forall>tbl. ix_ordinal tbl = n \<longrightarrow> tbl \<in> set (index_tables st) \<longrightarrow> tbl \<in> set (index_tables st'))"
    and "waits wk' h = waits wk h" "count_list fl' h = count_list fl h"
  shows "vol_ok R' st' wk' fl' i h v"
proof -
  have "h \<in> set fl' \<longleftrightarrow> h \<in> set fl" using assms(6) count_list_0_iff [of fl' h] count_list_0_iff [of fl h] by simp
  then show ?thesis using assms(1-3) assms(4) [OF refl] assms(5,6) unfolding vol_ok_def Let_def by metis
qed

end
