(* ===== verification/Manager_Steps.thy ===== *)
theory Manager_Steps
  imports Manager_Inv
begin

text \<open>
  The invariant of the manager under a change of one part of the state. The second component of a state lists, for the statements only, the volumes that have an I/O in flight, once for
  every I/O.
\<close>

section \<open>Changing one part of the state\<close>

definition same_for :: "storage \<Rightarrow> storage \<Rightarrow> nat \<Rightarrow> bool" where
  "same_for st st' n \<longleftrightarrow>
     has_chunks (volume_chunk_selector st') n = has_chunks (volume_chunk_selector st) n \<and> vol_ids (volume_chunk_selector st') n = vol_ids (volume_chunk_selector st) n \<and>
     has_chunks (index_chunk_selector st') n = has_chunks (index_chunk_selector st) n \<and> vol_ids (index_chunk_selector st') n = vol_ids (index_chunk_selector st) n \<and>
     (\<forall>tbl. ix_ordinal tbl = n \<longrightarrow> tbl \<in> set (index_tables st) \<longrightarrow> tbl \<in> set (index_tables st'))"

lemma same_for_refl [simp]: "same_for st st n"
  by (simp add: same_for_def)

lemma same_for_meta [simp]: "same_for st (st'\<lparr>vol_meta := f\<rparr>) n = same_for st st' n" "same_for st (st'\<lparr>repl_devs := l\<rparr>) n = same_for st st' n"
  by (simp_all add: same_for_def)

lemma vol_ok_same:
  assumes "vol_ok R st wk fl i h v" "vi_ordinal (vol_info v) \<in> R'" "vol_meta st' h = vol_meta st h" "same_for st st' (vi_ordinal (vol_info v))"
    "waits wk' h = waits wk h" "count_list fl' h = count_list fl h"
  shows "vol_ok R' st' wk' fl' i h v"
  using assms(4) unfolding same_for_def by (intro vol_ok_frame [OF assms(1-3) _ assms(5,6)]) simp

lemma mgr_invD:
  assumes "mgr_inv rs (hb, fl)"
  shows "sel_ok (volume_chunk_selector (hs hb))" "sel_ok (index_chunk_selector (hs hb))" "distinct (map fst (vol_map hb))"
    "has_chunks (volume_chunk_selector (hs hb)) n \<or> has_chunks (index_chunk_selector (hs hb)) n \<Longrightarrow> n \<in> rs_ids rs (ordinal_reserver hb)"
    "next_obj hb \<le> h \<Longrightarrow> objs hb h = None"
    "(i, h) \<in> set (vol_map hb) \<Longrightarrow> \<exists>v. objs hb h = Some v \<and> vol_ok (rs_ids rs (ordinal_reserver hb)) (hs hb) (removals hb) fl i h v"
    "(i, h) \<in> set (vol_map hb) \<Longrightarrow> (j, k) \<in> set (vol_map hb) \<Longrightarrow> objs hb h = Some v \<Longrightarrow> objs hb k = Some w \<Longrightarrow>
       vi_ordinal (vol_info v) = vi_ordinal (vol_info w) \<Longrightarrow> i = j"
    "objs hb h = Some v \<Longrightarrow> h \<notin> snd ` set (vol_map hb) \<Longrightarrow> m_state v = DESTROYING"
    "h \<in> set fl \<Longrightarrow> h \<in> snd ` set (vol_map hb)"
    "waits (removals hb) h \<noteq> 0 \<Longrightarrow> h \<in> snd ` set (vol_map hb)"
  using assms unfolding mgr_inv_def Let_def prod.case by (elim conjE; blast)+

lemma mgr_invI:
  assumes "sel_ok (volume_chunk_selector (hs hb))" "sel_ok (index_chunk_selector (hs hb))" "distinct (map fst (vol_map hb))"
    "\<And>n. has_chunks (volume_chunk_selector (hs hb)) n \<or> has_chunks (index_chunk_selector (hs hb)) n \<Longrightarrow> n \<in> rs_ids rs (ordinal_reserver hb)"
    "\<And>h. next_obj hb \<le> h \<Longrightarrow> objs hb h = None"
    "\<And>i h. (i, h) \<in> set (vol_map hb) \<Longrightarrow> \<exists>v. objs hb h = Some v \<and> vol_ok (rs_ids rs (ordinal_reserver hb)) (hs hb) (removals hb) fl i h v"
    "\<And>i h j k v w. (i, h) \<in> set (vol_map hb) \<Longrightarrow> (j, k) \<in> set (vol_map hb) \<Longrightarrow> objs hb h = Some v \<Longrightarrow> objs hb k = Some w \<Longrightarrow>
       vi_ordinal (vol_info v) = vi_ordinal (vol_info w) \<Longrightarrow> i = j"
    "\<And>h v. objs hb h = Some v \<Longrightarrow> h \<notin> snd ` set (vol_map hb) \<Longrightarrow> m_state v = DESTROYING"
    "\<And>h. h \<in> set fl \<Longrightarrow> h \<in> snd ` set (vol_map hb)"
    "\<And>h. waits (removals hb) h \<noteq> 0 \<Longrightarrow> h \<in> snd ` set (vol_map hb)"
  shows "mgr_inv rs (hb, fl)"
  using assms unfolding mgr_inv_def Let_def prod.case by blast

text \<open>One object has one name.\<close>

lemma mgr_inv_inj:
  assumes "mgr_inv rs (hb, fl)" "(i, h) \<in> set (vol_map hb)" "(j, h) \<in> set (vol_map hb)"
  shows "i = j"
  using mgr_invD(6) [OF assms(1,2)] mgr_invD(7) [OF assms] by auto

text \<open>One volume of the map changes, and what belongs to its ordinal.\<close>

lemma mgr_inv_change:
  assumes inv: "mgr_inv rs (hb, fl)" and e: "(i, h) \<in> set (vol_map hb)" "objs hb h = Some v"
    and hb': "objs hb' = (objs hb)(h \<mapsto> v')" "vol_map hb' = vol_map hb" "next_obj hb' = next_obj hb"
      "rs_ids rs (ordinal_reserver hb') = rs_ids rs (ordinal_reserver hb)" "vol_info v' = vol_info v"
    and sel: "sel_ok (volume_chunk_selector (hs hb'))" "sel_ok (index_chunk_selector (hs hb'))"
    and oth: "\<And>n. n \<noteq> vi_ordinal (vol_info v) \<Longrightarrow> same_for (hs hb) (hs hb') n" "\<And>k. k \<noteq> h \<Longrightarrow> vol_meta (hs hb') k = vol_meta (hs hb) k"
      "\<And>k. k \<noteq> h \<Longrightarrow> waits (removals hb') k = waits (removals hb) k" "\<And>k. k \<noteq> h \<Longrightarrow> count_list fl' k = count_list fl k"
    and vok: "vol_ok (rs_ids rs (ordinal_reserver hb)) (hs hb') (removals hb') fl' i h v'"
  shows "mgr_inv rs (hb', fl')"
proof (rule mgr_invI)
  note D = mgr_invD [OF inv]
  have names: "snd ` set (vol_map hb') = snd ` set (vol_map hb)" using hb'(2) by simp
  have hin: "h \<in> snd ` set (vol_map hb)" using e(1) by force
  have R: "vi_ordinal (vol_info v) \<in> rs_ids rs (ordinal_reserver hb)" using vok hb'(5) by (simp add: vol_ok_def Let_def)
  have "h < next_obj hb" using D(5) e(2) by (metis not_le option.distinct(1))
  show "n \<in> rs_ids rs (ordinal_reserver hb')" if "has_chunks (volume_chunk_selector (hs hb')) n \<or> has_chunks (index_chunk_selector (hs hb')) n" for n
    using that oth(1) [of n] D(4) [of n] R hb'(4) by (cases "n = vi_ordinal (vol_info v)") (auto simp: same_for_def)
  show "objs hb' k = None" if "next_obj hb' \<le> k" for k using that hb'(1,3) D(5) [of k] \<open>h < next_obj hb\<close> by auto
  show "\<exists>w. objs hb' k = Some w \<and> vol_ok (rs_ids rs (ordinal_reserver hb')) (hs hb') (removals hb') fl' j k w" if "(j, k) \<in> set (vol_map hb')" for j k
  proof (cases "k = h")
    case True
    then have "j = i" using mgr_inv_inj [OF inv e(1)] that hb'(2) by simp
    then show ?thesis using True vok hb'(1,4) by simp
  next
    case False
    have jk: "(j, k) \<in> set (vol_map hb)" using that hb'(2) by simp
    obtain w where w: "objs hb k = Some w" "vol_ok (rs_ids rs (ordinal_reserver hb)) (hs hb) (removals hb) fl j k w" using D(6) [OF jk] by blast
    have "vi_ordinal (vol_info w) \<noteq> vi_ordinal (vol_info v)" (is "?n \<noteq> _")
    proof
      assume eq: "?n = vi_ordinal (vol_info v)"
      then have "j = i" using D(7) [OF jk e(1) w(1) e(2)] by simp
      then have "k = h" using D(3) jk e(1) by (metis eq_key_imp_eq_value)
      then show False using False by simp
    qed
    moreover have "?n \<in> rs_ids rs (ordinal_reserver hb)" using w(2) by (simp add: vol_ok_def Let_def)
    ultimately show ?thesis using vol_ok_same [OF w(2)] w(1) False oth hb'(1,4) by simp
  qed
  show "j = j'" if "(j, k) \<in> set (vol_map hb')" "(j', k') \<in> set (vol_map hb')" "objs hb' k = Some w" "objs hb' k' = Some w'"
    "vi_ordinal (vol_info w) = vi_ordinal (vol_info w')" for j k j' k' w w'
  proof -
    have "\<exists>u. objs hb k = Some u \<and> vol_info u = vol_info w" "\<exists>u. objs hb k' = Some u \<and> vol_info u = vol_info w'"
      using that(3,4) hb'(1,5) e(2) by (auto split: if_splits)
    then show ?thesis using D(7) [of j k j' k'] that(1,2,5) hb'(2) by fastforce
  qed
  show "m_state w = DESTROYING" if "objs hb' k = Some w" "k \<notin> snd ` set (vol_map hb')" for k w
    using that D(8) hb'(1) names hin by (auto split: if_splits)
  show "k \<in> snd ` set (vol_map hb')" if "k \<in> set fl'" for k
    using that oth(4) [of k] D(9) [of k] hin names count_list_0_iff [of fl' k] count_list_0_iff [of fl k] by (cases "k = h") auto
  show "k \<in> snd ` set (vol_map hb')" if "waits (removals hb') k \<noteq> 0" for k
    using that oth(3) [of k] D(10) [of k] hin names by (cases "k = h") auto
qed (use sel mgr_invD(3) [OF inv] hb'(2) in simp_all)

text \<open>Only the storage and the reserved ordinals change, and nothing that belongs to a volume.\<close>

lemma mgr_inv_storage:
  assumes inv: "mgr_inv rs (hb, fl)"
    and hb': "objs hb' = objs hb" "vol_map hb' = vol_map hb" "next_obj hb' = next_obj hb" "\<And>k. waits (removals hb') k = waits (removals hb) k"
    and R: "rs_ids rs (ordinal_reserver hb) \<subseteq> rs_ids rs (ordinal_reserver hb')"
    and sel: "sel_ok (volume_chunk_selector (hs hb'))" "sel_ok (index_chunk_selector (hs hb'))"
    and has: "\<And>n. has_chunks (volume_chunk_selector (hs hb')) n \<or> has_chunks (index_chunk_selector (hs hb')) n \<Longrightarrow> n \<in> rs_ids rs (ordinal_reserver hb')"
    and oth: "\<And>n. n \<in> rs_ids rs (ordinal_reserver hb) \<Longrightarrow> same_for (hs hb) (hs hb') n" "\<And>k. k < next_obj hb \<Longrightarrow> vol_meta (hs hb') k = vol_meta (hs hb) k"
  shows "mgr_inv rs (hb', fl)"
proof (rule mgr_invI)
  note D = mgr_invD [OF inv]
  show "\<exists>w. objs hb' k = Some w \<and> vol_ok (rs_ids rs (ordinal_reserver hb')) (hs hb') (removals hb') fl j k w" if "(j, k) \<in> set (vol_map hb')" for j k
  proof -
    have jk: "(j, k) \<in> set (vol_map hb)" using that hb'(2) by simp
    obtain w where w: "objs hb k = Some w" "vol_ok (rs_ids rs (ordinal_reserver hb)) (hs hb) (removals hb) fl j k w" using D(6) [OF jk] by blast
    have "vi_ordinal (vol_info w) \<in> rs_ids rs (ordinal_reserver hb)" using w(2) by (simp add: vol_ok_def Let_def)
    moreover have "k < next_obj hb" using D(5) w(1) by (metis not_le option.distinct(1))
    ultimately show ?thesis using vol_ok_same [OF w(2)] w(1) oth hb' R by auto
  qed
qed (use mgr_invD [OF inv] sel has hb' in simp_all)

section \<open>States of volumes\<close>

text \<open>Changing the state of a volume of the map, unless that would take a volume back that is being destroyed.\<close>

lemma state_change_ok:
  assumes "vol_ok R st wk fl i h v" "s = DESTROYING \<or> (\<not> destroy_started v \<and> vol_rd v \<noteq> None)"
  shows "\<exists>v' st'. state_change h s (v, st) = Inr (v', st') \<and> vol_ok R st' wk fl i h v' \<and> m_state v' = s \<and> vol_info v' = vol_info v \<and> destroy_started v' = destroy_started v \<and>
    vol_outstanding v' = vol_outstanding v \<and> vol_rd v' = vol_rd v \<and> indx_tbl v' = indx_tbl v \<and>
    (\<exists>f. st' = st\<lparr>vol_meta := f\<rparr> \<and> (\<forall>k. k \<noteq> h \<longrightarrow> f k = vol_meta st k))"
proof -
  obtain sb where sb: "vol_sb v = Some sb" "vol_meta st h = Some sb" "sb_matches (vol_info v) (m_state v) (vol_ids (volume_chunk_selector st) (vi_ordinal (vol_info v))) sb"
    using assms(1) by (auto simp: vol_ok_def Let_def)
  then have st: "sb_state sb = m_state v" by (simp add: sb_matches_def)
  show ?thesis
  proof (cases "m_state v = s")
    case True
    then show ?thesis using assms(1) sb(1) st by (auto simp: state_change_def intro!: exI [of _ "vol_meta st"])
  next
    case False
    let ?sb = "sb\<lparr>sb_state := s\<rparr>"
    have "vol_ok R (sb_write h ?sb st) wk fl i h (v\<lparr>vol_sb := Some ?sb, m_state := s\<rparr>)"
      using assms sb_matches_state [OF sb(3)] by (auto simp: vol_ok_def Let_def sb_write_def)
    then show ?thesis using False sb(1) st by (auto simp: state_change_def Let_def sb_write_def)
  qed
qed

lemma with_vol_state_change:
  assumes inv: "mgr_inv rs (hb, fl)" and e: "(i, h) \<in> set (vol_map hb)" "objs hb h = Some v" and s: "s = DESTROYING \<or> (\<not> destroy_started v \<and> vol_rd v \<noteq> None)"
  shows "\<exists>v' hb'. with_vol h (state_change h s) hb = Inr hb' \<and> mgr_inv rs (hb', fl) \<and> objs hb' = (objs hb)(h \<mapsto> v') \<and> m_state v' = s \<and> vol_info v' = vol_info v \<and>
    destroy_started v' = destroy_started v \<and> vol_outstanding v' = vol_outstanding v \<and> vol_rd v' = vol_rd v \<and> indx_tbl v' = indx_tbl v \<and>
    (\<exists>f. hb' = hb\<lparr>objs := (objs hb)(h \<mapsto> v'), hs := (hs hb)\<lparr>vol_meta := f\<rparr>\<rparr> \<and> (\<forall>k. k \<noteq> h \<longrightarrow> f k = vol_meta (hs hb) k))"
proof -
  have vok: "vol_ok (rs_ids rs (ordinal_reserver hb)) (hs hb) (removals hb) fl i h v" using mgr_invD(6) [OF inv e(1)] e(2) by auto
  obtain v' f where sc: "state_change h s (v, hs hb) = Inr (v', (hs hb)\<lparr>vol_meta := f\<rparr>)" "vol_ok (rs_ids rs (ordinal_reserver hb)) ((hs hb)\<lparr>vol_meta := f\<rparr>) (removals hb) fl i h v'"
    "m_state v' = s" "vol_info v' = vol_info v" "destroy_started v' = destroy_started v" "vol_outstanding v' = vol_outstanding v" "vol_rd v' = vol_rd v" "indx_tbl v' = indx_tbl v"
    "\<forall>k. k \<noteq> h \<longrightarrow> f k = vol_meta (hs hb) k"
    using state_change_ok [OF vok s] by blast
  let ?hb = "hb\<lparr>objs := (objs hb)(h \<mapsto> v'), hs := (hs hb)\<lparr>vol_meta := f\<rparr>\<rparr>"
  have "mgr_inv rs (?hb, fl)"
    by (rule mgr_inv_change [OF inv e]) (use sc mgr_invD(1,2) [OF inv] in simp_all)
  moreover have "with_vol h (state_change h s) hb = Inr ?hb" using sc(1) e(2) by (simp add: with_vol_def set_vol_def)
  ultimately show ?thesis using sc by auto
qed

end
