(* ===== verification/Manager_Keep.thy ===== *)
theory Manager_Keep
  imports Manager_Steps
begin

text \<open>
  Every operation of the manager keeps the invariant. Removals are followed through their three stretches; a removal that is about to go on counts as
  waiting, so that the statements about the stretches fit together.
\<close>

section \<open>Queueing removals\<close>

lemma mgr_inv_worker:
  assumes "mgr_inv rs (hb, fl)" "\<And>k. waits wk k = waits (removals hb) k"
  shows "mgr_inv rs (hb\<lparr>removals := wk\<rparr>, fl)"
  by (rule mgr_inv_storage [OF assms(1)]) (use assms(2) mgr_invD(1,2,4) [OF assms(1)] in auto)

lemma remove_volume_keeps:
  assumes "mgr_inv rs (hb, fl)" "remove_volume i hb = Inr (r, hb')"
  shows "mgr_inv rs (hb', fl) \<and> vol_map hb' = vol_map hb \<and> objs hb' = objs hb"
proof -
  have "hb' = hb \<or> hb' = hb\<lparr>removals := removals hb @ [DoRemove i]\<rparr>"
    using assms(2) by (auto simp: remove_volume_def split: if_splits sum.splits option.splits)
  then show ?thesis using assms(1) mgr_inv_worker [OF assms(1), of "removals hb @ [DoRemove i]"] by auto
qed

lemma foldl_Inl: "foldl (\<lambda>r e. bind_sum r (f e)) (Inl x) xs = Inl x"
  by (induction xs) auto

lemma foldl_checked_keeps:
  assumes "foldl (\<lambda>r e. bind_sum r (f e)) (Inr s) xs = Inr s'" "P s" "\<And>e s s'. e \<in> set xs \<Longrightarrow> P s \<Longrightarrow> f e s = Inr s' \<Longrightarrow> P s'"
  shows "P s'"
  using assms
proof (induction xs arbitrary: s)
  case (Cons e xs)
  then obtain s1 where "f e s = Inr s1" by (cases "f e s") (auto simp: foldl_Inl)
  then show ?case using Cons.IH [of s1] Cons.prems by auto
qed simp

lemma vol_gc_keeps:
  assumes "mgr_inv rs (hb, fl)" "vol_gc hb = Inr hb'"
  shows "mgr_inv rs (hb', fl)"
proof (rule foldl_checked_keeps [where P = "\<lambda>hb. mgr_inv rs (hb, fl)", OF assms(2) [unfolded vol_gc_def] assms(1)])
  fix e s s' assume "mgr_inv rs (s, fl)" "bind_sum (remove_volume (fst e) s) (\<lambda>(_, hb''). Inr hb'') = Inr s'"
  then show "mgr_inv rs (s', fl)" using remove_volume_keeps by (fastforce simp: bind_sum_eq_Inr)
qed

section \<open>The stretches of a removal\<close>

definition waiting :: "handle \<Rightarrow> 'r homeblks \<Rightarrow> 'r homeblks" where
  "waiting h hb = hb\<lparr>removals := removals hb @ [ReplDevGone h]\<rparr>"

lemma waiting_inv: "mgr_inv rs (hb\<lparr>removals := wk\<rparr>, fl) \<Longrightarrow> (\<And>k. waits wk k = waits (removals hb) k + (if k = h then 1 else 0)) \<Longrightarrow> mgr_inv rs (waiting h hb, fl)"
  using mgr_inv_worker [of rs "hb\<lparr>removals := wk\<rparr>" fl "removals hb @ [ReplDevGone h]"] by (auto simp: waiting_def)

lemma map_erase_set: "(j, k) \<in> set (map_erase i m) \<longleftrightarrow> (j, k) \<in> set m \<and> j \<noteq> i"
  by (auto simp: map_erase_def)

lemma remove_finish_keeps:
  assumes rok: "reserver_ok rs" and inv: "mgr_inv rs (waiting h hb, fl)" and e: "(i, h) \<in> set (vol_map hb)" "objs hb h = Some v" and ds: "destroy_started v"
  shows "\<exists>hb'. remove_finish rs h hb = Inr hb' \<and> mgr_inv rs (hb', fl) \<and> vol_map hb' = map_erase i (vol_map hb) \<and> removals hb' = removals hb \<and>
    vol_meta (hs hb') h = None \<and> \<not> has_chunks (volume_chunk_selector (hs hb')) (vi_ordinal (vol_info v)) \<and>
    \<not> has_chunks (index_chunk_selector (hs hb')) (vi_ordinal (vol_info v)) \<and> (\<forall>tbl. indx_tbl v = Some tbl \<longrightarrow> tbl \<notin> set (index_tables (hs hb'))) \<and>
    repl_devs (hs hb') = repl_devs (hs hb) \<and> rs_ids rs (ordinal_reserver hb') = rs_ids rs (ordinal_reserver hb) - {vi_ordinal (vol_info v)} \<and>
    release_chunks (vi_ordinal (vol_info v)) (volume_chunk_selector (hs hb)) = Inr (volume_chunk_selector (hs hb')) \<and>
    release_chunks (vi_ordinal (vol_info v)) (index_chunk_selector (hs hb)) = Inr (index_chunk_selector (hs hb'))"
proof -
  let ?hb = "waiting h hb" and ?n = "vi_ordinal (vol_info v)"
  note D = mgr_invD [OF inv, unfolded waiting_def, simplified]
  have vok: "vol_ok (rs_ids rs (ordinal_reserver hb)) (hs hb) (removals hb @ [ReplDevGone h]) fl i h v" using D(6) [OF e(1)] e(2) by auto
  obtain tbl where V: "vi_id (vol_info v) = i" "has_chunks (volume_chunk_selector (hs hb)) ?n" "has_chunks (index_chunk_selector (hs hb)) ?n"
    "m_state v = DESTROYING" "h \<notin> set fl" "waits (removals hb) h = 0" "indx_tbl v = Some tbl" "ix_ordinal tbl = ?n" "?n \<in> rs_ids rs (ordinal_reserver hb)"
    using vok ds by (auto simp: vol_ok_def Let_def)
  obtain is' where I: "release_chunks ?n (index_chunk_selector (hs hb)) = Inr is'" "sel_ok is'" "\<not> has_chunks is' ?n"
    "\<And>m. m \<noteq> ?n \<Longrightarrow> has_chunks is' m = has_chunks (index_chunk_selector (hs hb)) m \<and> vol_ids is' m = vol_ids (index_chunk_selector (hs hb)) m"
    using sel.release_owned [OF D(2) V(3)] by blast
  obtain vs' where S: "release_chunks ?n (volume_chunk_selector (hs hb)) = Inr vs'" "sel_ok vs'" "\<not> has_chunks vs' ?n"
    "\<And>m. m \<noteq> ?n \<Longrightarrow> has_chunks vs' m = has_chunks (volume_chunk_selector (hs hb)) m \<and> vol_ids vs' m = vol_ids (volume_chunk_selector (hs hb)) m"
    using sel.release_owned [OF D(1) V(2)] by blast
  let ?v = "v\<lparr>indx_tbl := None, vol_sb := None\<rparr>"
  let ?st = "(hs hb)\<lparr>index_tables := removeAll tbl (index_tables (hs hb)), index_chunk_selector := is', vol_meta := (vol_meta (hs hb))(h := None), volume_chunk_selector := vs'\<rparr>"
  let ?hb' = "hb\<lparr>objs := (objs hb)(h \<mapsto> ?v), hs := ?st, vol_map := map_erase i (vol_map hb), ordinal_reserver := rs_unreserve rs ?n (ordinal_reserver hb)\<rparr>"
  have run: "remove_finish rs h hb = Inr ?hb'"
    using e(2) V(1,7) I(1) S(1) by (simp add: remove_finish_def with_vol_def destroy_index_def destroy_finish_def set_vol_def Let_def)
  have ids: "rs_ids rs (rs_unreserve rs ?n (ordinal_reserver hb)) = rs_ids rs (ordinal_reserver hb) - {?n}" using rok by (simp add: reserver_ok_def)
  have hin: "h \<in> snd ` set (vol_map hb)" using e(1) by force
  have other: "w \<noteq> h" "(j, w) \<in> set (vol_map hb)" if "(j, w) \<in> set (map_erase i (vol_map hb))" for j w
    using that mgr_inv_inj [OF inv, of i h j] e(1) by (auto simp: map_erase_set waiting_def)
  have keep: "k \<in> snd ` set (map_erase i (vol_map hb))" if "k \<in> snd ` set (vol_map hb)" "k \<noteq> h" for k
    using that e(1) D(3) by (force simp: map_erase_def dest: eq_key_imp_eq_value)
  have "mgr_inv rs (?hb', fl)"
  proof (rule mgr_invI)
    show "n \<in> rs_ids rs (ordinal_reserver ?hb')" if "has_chunks (volume_chunk_selector (hs ?hb')) n \<or> has_chunks (index_chunk_selector (hs ?hb')) n" for n
      using that D(4) [of n] I(3,4) S(3,4) ids by (cases "n = ?n") auto
    show "\<exists>w. objs ?hb' k = Some w \<and> vol_ok (rs_ids rs (ordinal_reserver ?hb')) (hs ?hb') (removals ?hb') fl j k w" if jk: "(j, k) \<in> set (vol_map ?hb')" for j k
    proof -
      have k: "k \<noteq> h" "(j, k) \<in> set (vol_map hb)" "j \<noteq> i" using jk other [of j k] by (auto simp: map_erase_set)
      obtain w where w: "objs hb k = Some w" "vol_ok (rs_ids rs (ordinal_reserver hb)) (hs hb) (removals hb @ [ReplDevGone h]) fl j k w" using D(6) [OF k(2)] by blast
      have n: "vi_ordinal (vol_info w) \<noteq> ?n" using D(7) [OF k(2) e(1) w(1) e(2)] k(3) by blast
      have "vi_ordinal (vol_info w) \<in> rs_ids rs (ordinal_reserver ?hb')" using w(2) n ids by (simp add: vol_ok_def Let_def)
      moreover have "same_for (hs hb) ?st (vi_ordinal (vol_info w))" using n I(4) S(4) V(8) by (auto simp: same_for_def)
      ultimately have "vol_ok (rs_ids rs (ordinal_reserver ?hb')) ?st (removals hb) fl j k w" using k(1) by (intro vol_ok_same [OF w(2)]) auto
      then show ?thesis using w(1) k(1) by simp
    qed
    show "j = j'" if "(j, k) \<in> set (vol_map ?hb')" "(j', k') \<in> set (vol_map ?hb')" "objs ?hb' k = Some w" "objs ?hb' k' = Some w'"
      "vi_ordinal (vol_info w) = vi_ordinal (vol_info w')" for j k j' k' w w'
      using that other [of j k] other [of j' k'] D(7) [of j k j' k' w w'] by auto
    show "m_state w = DESTROYING" if "objs ?hb' k = Some w" "k \<notin> snd ` set (vol_map ?hb')" for k w
      using that V(4) D(8) [of k w] keep [of k] by (auto split: if_splits)
    show "k \<in> snd ` set (vol_map ?hb')" if "k \<in> set fl" for k using that V(5) D(9) [of k] keep [of k] by auto
    show "k \<in> snd ` set (vol_map ?hb')" if "waits (removals ?hb') k \<noteq> 0" for k using that V(6) D(10) [of k] keep [of k] by (cases "k = h") auto
    show "objs ?hb' k = None" if "next_obj ?hb' \<le> k" for k using that D(5) [of k] D(5) [of h] e(2) by (cases "k = h") auto
  qed (use I(2) S(2) D(3) in \<open>simp_all add: map_erase_def distinct_map_filter\<close>)
  then show ?thesis using run I(1,3) S(1,3) V(7) ids by auto
qed

lemma remove_resume_keeps:
  assumes inv: "mgr_inv rs (waiting h hb, fl)" and e: "(i, h) \<in> set (vol_map hb)" "objs hb h = Some v" and ds: "destroy_started v"
  shows "\<exists>st'. remove_resume rs gone h hb = Inr (hb\<lparr>objs := (objs hb)(h \<mapsto> v\<lparr>vol_rd := None\<rparr>), hs := st', removals := removals hb @ [IndexGone h]\<rparr>) \<and>
    st' = snd (destroy_repl_dev gone (v, hs hb)) \<and>
    mgr_inv rs (hb\<lparr>objs := (objs hb)(h \<mapsto> v\<lparr>vol_rd := None\<rparr>), hs := st', removals := removals hb @ [IndexGone h]\<rparr>, fl)"
proof -
  note D = mgr_invD [OF inv, unfolded waiting_def, simplified]
  have vok: "vol_ok (rs_ids rs (ordinal_reserver hb)) (hs hb) (removals hb @ [ReplDevGone h]) fl i h v" using D(6) [OF e(1)] e(2) by auto
  obtain tbl where tbl: "indx_tbl v = Some tbl" "m_state v = DESTROYING" using vok ds by (auto simp: vol_ok_def Let_def)
  obtain l where l: "destroy_repl_dev gone (v, hs hb) = (v\<lparr>vol_rd := None\<rparr>, (hs hb)\<lparr>repl_devs := l\<rparr>)"
  proof (cases "vol_rd v")
    case None
    then have "destroy_repl_dev gone (v, hs hb) = (v\<lparr>vol_rd := None\<rparr>, (hs hb)\<lparr>repl_devs := repl_devs (hs hb)\<rparr>)" by (simp add: destroy_repl_dev_def)
    then show thesis by (rule that)
  next
    case (Some r)
    then have "destroy_repl_dev gone (v, hs hb) =
        (v\<lparr>vol_rd := None\<rparr>, (hs hb)\<lparr>repl_devs := if gone then removeAll (vi_id (vol_info v)) (repl_devs (hs hb)) else repl_devs (hs hb)\<rparr>)"
      by (simp add: destroy_repl_dev_def)
    then show thesis by (rule that)
  qed
  let ?hb = "hb\<lparr>objs := (objs hb)(h \<mapsto> v\<lparr>vol_rd := None\<rparr>), hs := (hs hb)\<lparr>repl_devs := l\<rparr>, removals := removals hb @ [IndexGone h]\<rparr>"
  have "vol_ok (rs_ids rs (ordinal_reserver hb)) ((hs hb)\<lparr>repl_devs := l\<rparr>) (removals hb @ [IndexGone h]) fl i h (v\<lparr>vol_rd := None\<rparr>)"
    using vok ds by (auto simp: vol_ok_def Let_def)
  then have "mgr_inv rs (?hb, fl)"
    by (intro mgr_inv_change [OF inv, of i h v]) (use e D(1,2) in \<open>simp_all add: waiting_def\<close>)
  moreover have "remove_resume rs gone h hb = Inr ?hb"
    using e(2) l tbl(1) by (simp add: remove_resume_def with_vol_def set_vol_def)
  ultimately show ?thesis using l by simp
qed

text \<open>The first stretch ends where the volume is busy, or starts the destruction.\<close>

lemma do_remove_volume_absent: "map_of (vol_map hb) i = None \<Longrightarrow> do_remove_volume rs i hb = Inr hb"
  by (simp add: do_remove_volume_def)

lemma do_remove_volume_keeps:
  assumes inv: "mgr_inv rs (hb, fl)" and e: "map_of (vol_map hb) i = Some h" "objs hb h = Some v"
  shows "\<exists>hb' v'. do_remove_volume rs i hb = Inr hb' \<and> mgr_inv rs (hb', fl) \<and> vol_map hb' = vol_map hb \<and> objs hb' = (objs hb)(h \<mapsto> v') \<and> vol_info v' = vol_info v \<and>
    m_state v' = DESTROYING \<and> indx_tbl v' = indx_tbl v \<and> ordinal_reserver hb' = ordinal_reserver hb \<and>
    volume_chunk_selector (hs hb') = volume_chunk_selector (hs hb) \<and> index_chunk_selector (hs hb') = index_chunk_selector (hs hb) \<and> repl_devs (hs hb') = repl_devs (hs hb) \<and>
    (vol_rd v \<noteq> None \<longrightarrow> vol_rd v' = vol_rd v) \<and>
    (if can_remove v then destroy_started v' \<and> removals hb' = removals hb @ [if vol_rd v = None then IndexGone h else ReplDevGone h]
     else destroy_started v' = destroy_started v \<and> removals hb' = removals hb)"
proof -
  have ih: "(i, h) \<in> set (vol_map hb)" using e(1) by (rule map_of_SomeD)
  obtain v1 f where sc: "with_vol h (state_change h DESTROYING) hb = Inr (hb\<lparr>objs := (objs hb)(h \<mapsto> v1), hs := (hs hb)\<lparr>vol_meta := f\<rparr>\<rparr>)"
    "mgr_inv rs (hb\<lparr>objs := (objs hb)(h \<mapsto> v1), hs := (hs hb)\<lparr>vol_meta := f\<rparr>\<rparr>, fl)"
    "m_state v1 = DESTROYING" "vol_info v1 = vol_info v" "destroy_started v1 = destroy_started v" "vol_outstanding v1 = vol_outstanding v" "vol_rd v1 = vol_rd v"
    "indx_tbl v1 = indx_tbl v"
    using with_vol_state_change [OF inv ih e(2), of DESTROYING] by blast
  let ?hb1 = "hb\<lparr>objs := (objs hb)(h \<mapsto> v1), hs := (hs hb)\<lparr>vol_meta := f\<rparr>\<rparr>"
  have can: "can_remove v1 = can_remove v" using sc(5,6) by (simp add: can_remove_def)
  show ?thesis
  proof (cases "can_remove v")
    case False
    then have "do_remove_volume rs i hb = Inr ?hb1" using e(1) sc(1) can by (simp add: do_remove_volume_def)
    then show ?thesis using sc False by auto
  next
    case True
    note D = mgr_invD [OF sc(2), simplified]
    have vok: "vol_ok (rs_ids rs (ordinal_reserver hb)) ((hs hb)\<lparr>vol_meta := f\<rparr>) (removals hb) fl i h v1" using D(6) [OF ih] by auto
    let ?v = "destroy_start v1"
    let ?hb2 = "?hb1\<lparr>objs := (objs hb)(h \<mapsto> ?v)\<rparr>"
    have "count_list fl h = 0" "\<not> destroy_started v1" using True can vok by (auto simp: can_remove_def vol_ok_def Let_def)
    then have "vol_ok (rs_ids rs (ordinal_reserver hb)) ((hs hb)\<lparr>vol_meta := f\<rparr>) (removals hb @ [ReplDevGone h]) fl i h ?v"
      using vok sc(3) by (auto simp: vol_ok_def Let_def destroy_start_def count_list_0_iff)
    then have w: "mgr_inv rs (waiting h ?hb2, fl)"
      by (intro mgr_inv_change [OF sc(2), of i h v1]) (use ih D(1,2) in \<open>simp_all add: waiting_def destroy_start_def\<close>)
    show ?thesis
    proof (cases "vol_rd v")
      case (Some r)
      then have "do_remove_volume rs i hb = Inr (waiting h ?hb2)" using e(1) sc(1,7) can True by (simp add: do_remove_volume_def Let_def waiting_def)
      then show ?thesis using w sc True Some by (auto simp: waiting_def destroy_start_def)
    next
      case None
      have h2: "(i, h) \<in> set (vol_map ?hb2)" "objs ?hb2 h = Some ?v" "destroy_started ?v" using ih by (simp_all add: destroy_start_def)
      obtain st' where r: "remove_resume rs True h ?hb2 = Inr (?hb2\<lparr>objs := (objs ?hb2)(h \<mapsto> ?v\<lparr>vol_rd := None\<rparr>), hs := st', removals := removals ?hb2 @ [IndexGone h]\<rparr>)"
        "mgr_inv rs (?hb2\<lparr>objs := (objs ?hb2)(h \<mapsto> ?v\<lparr>vol_rd := None\<rparr>), hs := st', removals := removals ?hb2 @ [IndexGone h]\<rparr>, fl)"
        "st' = snd (destroy_repl_dev True (?v, hs ?hb2))"
        using remove_resume_keeps [OF w h2, of True] by blast
      have "destroy_repl_dev True (?v, hs ?hb2) = (?v, hs ?hb2)" using None sc(7) by (simp add: destroy_repl_dev_def destroy_start_def)
      then have st: "st' = hs ?hb2" using r(3) by simp
      have "do_remove_volume rs i hb = remove_resume rs True h ?hb2" using e(1) sc(1,7) can True None by (simp add: do_remove_volume_def Let_def)
      then show ?thesis using r(1,2) st sc True None by (auto simp: destroy_start_def)
    qed
  qed
qed

text \<open>A suspended destruction belongs to a volume of the map.\<close>

lemma suspended_removal:
  assumes inv: "mgr_inv rs (hb, fl)" and c: "c \<in> set (removals hb)" "c = ReplDevGone h \<or> c = IndexGone h"
  obtains i v where "mgr_inv rs (waiting h (hb\<lparr>removals := remove1 c (removals hb)\<rparr>), fl)" "(i, h) \<in> set (vol_map hb)" "objs hb h = Some v" "destroy_started v"
proof -
  let ?hb = "hb\<lparr>removals := remove1 c (removals hb)\<rparr>"
  have "0 < count_list (removals hb) c" using c(1) count_list_0_iff [of "removals hb" c] by auto
  then have p: "waits (removals hb) h \<noteq> 0" using c(2) by (auto simp: waits_def)
  then obtain i v where v: "(i, h) \<in> set (vol_map hb)" "objs hb h = Some v" "vol_ok (rs_ids rs (ordinal_reserver hb)) (hs hb) (removals hb) fl i h v"
    using mgr_invD(6,10) [OF inv] by fastforce
  have "mgr_inv rs (waiting h ?hb, fl)"
  proof (rule waiting_inv [where wk = "removals hb"])
    show "waits (removals hb) k = waits (removals ?hb) k + (if k = h then 1 else 0)" for k
      using p waits_remove1(2) [OF c, of k] by (cases "k = h") auto
  qed (use inv in simp)
  moreover have "destroy_started v" using p v(3) by (auto simp: vol_ok_def Let_def split: if_splits)
  ultimately show thesis using that v by blast
qed

lemma run_removal_keeps:
  assumes rok: "reserver_ok rs" and inv: "mgr_inv rs (hb, fl)" and c: "c \<in> set (removals hb)" and run: "run_removal rs gone c hb = Inr hb'"
  shows "mgr_inv rs (hb', fl)"
proof (cases c)
  case (DoRemove i)
  let ?hb = "hb\<lparr>removals := remove1 c (removals hb)\<rparr>"
  have i1: "mgr_inv rs (?hb, fl)" using DoRemove by (intro mgr_inv_worker [OF inv]) (simp add: waits_remove1)
  have r: "do_remove_volume rs i ?hb = Inr hb'" using run DoRemove by (simp add: run_removal_def)
  show ?thesis
  proof (cases "map_of (vol_map ?hb) i")
    case None
    then show ?thesis using do_remove_volume_absent [OF None] r i1 by simp
  next
    case (Some h)
    then obtain v where "objs ?hb h = Some v" using mgr_invD(6) [OF i1 map_of_SomeD] by blast
    then show ?thesis using do_remove_volume_keeps [OF i1 Some] r by auto
  qed
next
  case (ReplDevGone h)
  then obtain i v where "mgr_inv rs (waiting h (hb\<lparr>removals := remove1 c (removals hb)\<rparr>), fl)" "(i, h) \<in> set (vol_map hb)" "objs hb h = Some v" "destroy_started v"
    using suspended_removal [OF inv c] by blast
  then show ?thesis using remove_resume_keeps [of rs h "hb\<lparr>removals := remove1 c (removals hb)\<rparr>" fl i v gone] run ReplDevGone by (auto simp: run_removal_def)
next
  case (IndexGone h)
  then obtain i v where "mgr_inv rs (waiting h (hb\<lparr>removals := remove1 c (removals hb)\<rparr>), fl)" "(i, h) \<in> set (vol_map hb)" "objs hb h = Some v" "destroy_started v"
    using suspended_removal [OF inv c] by blast
  then show ?thesis using remove_finish_keeps [OF rok, of h "hb\<lparr>removals := remove1 c (removals hb)\<rparr>" fl i v] run IndexGone by (auto simp: run_removal_def)
qed

section \<open>Creating\<close>

lemma init_index_table_new_cases:
  assumes "init_index_table_new env (v, st) = Inr (ok, v', st')" "sel_ok (index_chunk_selector st)"
    "\<not> has_chunks (index_chunk_selector st) (vi_ordinal (vol_info v))" "vi_ordinal (vol_info v) < MAX_NUM_VOLUMES"
  obtains (fails) "\<not> ok" "v' = v" "st' = st"
  | (works) tbl isel where "ok" "v' = v\<lparr>indx_tbl := Some tbl\<rparr>" "st' = st\<lparr>index_chunk_selector := isel, index_tables := index_tables st @ [tbl]\<rparr>"
      "ix_parent_uuid tbl = vi_id (vol_info v)" "ix_ordinal tbl = vi_ordinal (vol_info v)" "ix_chunk_ids tbl = vol_ids isel (vi_ordinal (vol_info v))"
      "sel_ok isel" "has_chunks isel (vi_ordinal (vol_info v))"
      "\<And>m. m \<noteq> vi_ordinal (vol_info v) \<Longrightarrow> has_chunks isel m = has_chunks (index_chunk_selector st) m \<and> vol_ids isel m = vol_ids (index_chunk_selector st) m"
proof -
  let ?n = "vi_ordinal (vol_info v)"
  obtain sz where sz: "get_index_size (vol_info v) = Inr sz" using assms(1) by (auto simp: init_index_table_new_def Let_def bind_sum_eq_Inr)
  show thesis
  proof (rule sel.alloc_cases [OF assms(2-4), of sz "ce_pdev env" False])
    fix p' assume "allocate_init_chunks ?n sz (ce_pdev env) False (index_chunk_selector st) = Inr ([], p', index_chunk_selector st)"
    then show thesis using assms(1) sz fails by (simp add: init_index_table_new_def)
  next
    fix cids p' s' assume a: "allocate_init_chunks ?n sz (ce_pdev env) False (index_chunk_selector st) = Inr (cids, p', s')" "cids \<noteq> []" "sel_ok s'" "vol_ids s' ?n = cids"
      "has_chunks s' ?n" "\<And>m. m \<noteq> ?n \<Longrightarrow> has_chunks s' m = has_chunks (index_chunk_selector st) m \<and> vol_ids s' m = vol_ids (index_chunk_selector st) m"
    then show thesis
      using assms(1) sz works [of "\<lparr>ix_parent_uuid = vi_id (vol_info v), ix_ordinal = ?n, ix_pdev_id = p', ix_max_size_bytes = sz, ix_chunk_ids = cids\<rparr>" s']
      by (simp add: init_index_table_new_def Let_def)
  qed
qed

text \<open>A creation touches nothing but what belongs to the new ordinal, whether it works or not.\<close>

lemma volume_init_new_spec:
  assumes sa: "sb_api_ok sa" and run: "volume_init_new sa env h (volume_of_info info, st) = Inr (ok, v', st')"
    and sel: "sel_ok (volume_chunk_selector st)" "sel_ok (index_chunk_selector st)"
    and new: "\<not> has_chunks (volume_chunk_selector st) (vi_ordinal info)" "\<not> has_chunks (index_chunk_selector st) (vi_ordinal info)" "vi_ordinal info < MAX_NUM_VOLUMES"
  shows "sel_ok (volume_chunk_selector st') \<and> sel_ok (index_chunk_selector st') \<and> (\<forall>m. m \<noteq> vi_ordinal info \<longrightarrow> same_for st st' m) \<and>
    (\<forall>k. k \<noteq> h \<longrightarrow> vol_meta st' k = vol_meta st k) \<and>
    (ok \<longrightarrow> vol_info v' = info\<lparr>vi_repl_mode := REPL_DISABLED\<rparr> \<and> \<not> destroy_started v' \<and> m_state v' = ONLINE \<and> vol_rd v' = Some (vi_id info) \<and>
       vi_id info \<in> set (repl_devs st') \<and> (waits wk h = 0 \<longrightarrow> count_list fl h = 0 \<longrightarrow> vi_ordinal info \<in> R \<longrightarrow> vol_ok R st' wk fl (vi_id info) h v'))"
proof -
  let ?n = "vi_ordinal info" and ?v = "volume_of_info info"
  have vi: "vol_info ?v = info\<lparr>vi_repl_mode := REPL_DISABLED\<rparr>" by (simp add: volume_of_info_def)
  show ?thesis
  proof (rule sel.alloc_cases [OF sel(1) new(1,3), of "vi_size_bytes info" "ce_pdev env" True])
    fix p' assume "allocate_init_chunks ?n (vi_size_bytes info) (ce_pdev env) True (volume_chunk_selector st) = Inr ([], p', volume_chunk_selector st)"
    then have "\<not> ok" "st' = st" using run vi by (simp_all add: volume_init_new_def)
    then show ?thesis using sel by simp
  next
    fix cids p' s' assume a: "allocate_init_chunks ?n (vi_size_bytes info) (ce_pdev env) True (volume_chunk_selector st) = Inr (cids, p', s')" "cids \<noteq> []" "sel_ok s'" "vol_ids s' ?n = cids"
      "has_chunks s' ?n" "\<And>m. m \<noteq> ?n \<Longrightarrow> has_chunks s' m = has_chunks (volume_chunk_selector st) m \<and> vol_ids s' m = vol_ids (volume_chunk_selector st) m"
    let ?sb = "sb_of_info (vol_info ?v) p' cids (sb_created sa)"
    let ?v1 = "?v\<lparr>vol_sb := Some ?sb\<rparr>" and ?st1 = "st\<lparr>volume_chunk_selector := s'\<rparr>"
    let ?v2 = "?v1\<lparr>vol_rd := Some (vi_id info)\<rparr>" and ?st2 = "?st1\<lparr>repl_devs := repl_devs st @ [vi_id info]\<rparr>"
    show ?thesis
    proof (cases "ce_repl_ok env")
      case False
      then have "\<not> ok" "st' = ?st1" using run vi a by (simp_all add: volume_init_new_def Let_def)
      then show ?thesis using sel a by (simp add: same_for_def)
    next
      case True
      obtain okx v3 st3 where ix: "init_index_table_new env (?v2, ?st2) = Inr (okx, v3, st3)"
        using run vi a True by (auto simp: volume_init_new_def Let_def bind_sum_eq_Inr)
      have n2: "vi_ordinal (vol_info ?v2) = ?n" "index_chunk_selector ?st2 = index_chunk_selector st" by (simp_all add: vi)
      show ?thesis
      proof (rule init_index_table_new_cases [OF ix], unfold n2)
        assume f: "\<not> okx" "v3 = ?v2" "st3 = ?st2"
        then have "\<not> ok" "st' = ?st2" using run vi a True ix by (simp_all add: volume_init_new_def Let_def)
        then show ?thesis using sel a by (simp add: same_for_def)
      next
        fix tbl isel assume w: "okx" "v3 = ?v2\<lparr>indx_tbl := Some tbl\<rparr>" "st3 = ?st2\<lparr>index_chunk_selector := isel, index_tables := index_tables ?st2 @ [tbl]\<rparr>"
          "ix_parent_uuid tbl = vi_id (vol_info ?v2)" "ix_ordinal tbl = ?n" "ix_chunk_ids tbl = vol_ids isel ?n"
          "sel_ok isel" "has_chunks isel ?n" "\<And>m. m \<noteq> ?n \<Longrightarrow> has_chunks isel m = has_chunks (index_chunk_selector st) m \<and> vol_ids isel m = vol_ids (index_chunk_selector st) m"
        have init: "sb_state ?sb = VS_INIT" using sa by (simp add: sb_api_ok_def)
        let ?sb' = "?sb\<lparr>sb_state := ONLINE\<rparr>"
        have sc: "state_change h ONLINE (v3, st3) = Inr (v3\<lparr>vol_sb := Some ?sb', m_state := ONLINE\<rparr>, sb_write h ?sb' st3)"
          using w(2) init by (simp add: state_change_def Let_def)
        then have ok: "ok" "v' = v3\<lparr>vol_sb := Some ?sb', m_state := ONLINE\<rparr>" "st' = sb_write h ?sb' st3"
          using run vi a True ix w(1) by (simp_all add: volume_init_new_def Let_def)
        have "sb_matches (vol_info ?v) ONLINE cids ?sb'" by (simp add: sb_matches_def)
        then have "vol_ok R st' wk fl (vi_id info) h v'" if "waits wk h = 0" "count_list fl h = 0" "?n \<in> R"
          using that ok(2,3) w new(3) a(4,5) vi by (simp add: vol_ok_def Let_def sb_write_def volume_of_info_def)
        then show ?thesis using ok w a vi by (simp add: same_for_def sb_write_def volume_of_info_def)
      qed (use sel new in simp_all)
    qed
  qed
qed

lemma map_emplace_set: "map_of m k = None \<Longrightarrow> (j, x) \<in> set (map_emplace k v m) \<longleftrightarrow> (j, x) = (k, v) \<or> (j, x) \<in> set m"
  by (auto simp: map_emplace_def set_insort_key)

lemma distinct_map_emplace: "distinct (map fst m) \<Longrightarrow> distinct (map fst (map_emplace k v m))"
proof (cases "map_of m k")
  case None
  assume "distinct (map fst m)"
  moreover have "k \<notin> fst ` set m" using None by (simp add: map_of_eq_None_iff)
  moreover have "distinct (map fst m) \<Longrightarrow> k \<notin> fst ` set m \<Longrightarrow> distinct (map fst (insort_key fst (k, v) m))"
    by (induction m) (auto simp: set_insort_key)
  ultimately show ?thesis using None by (simp add: map_emplace_def)
qed (simp add: map_emplace_def)

lemma create_make_keeps:
  assumes sa: "sb_api_ok sa" and inv: "mgr_inv rs (hb, fl)"
    and r: "rs_ids rs (ordinal_reserver hb1) = insert n (rs_ids rs (ordinal_reserver hb))" "n \<notin> rs_ids rs (ordinal_reserver hb)" "n < MAX_NUM_VOLUMES"
    and hb1: "objs hb1 = objs hb" "hs hb1 = hs hb" "vol_map hb1 = vol_map hb" "next_obj hb1 = next_obj hb" "removals hb1 = removals hb"
    and info: "vi_ordinal info = n" "map_of (vol_map hb) (vi_id info) = None"
    and run: "create_make sa env info hb1 = Inr (res, hb')"
  shows "mgr_inv rs (hb', fl)"
proof -
  note D = mgr_invD [OF inv]
  let ?h = "next_obj hb"
  obtain ok v' st' where i: "volume_init_new sa env ?h (volume_of_info info, hs hb) = Inr (ok, v', st')"
    using run hb1 by (auto simp: create_make_def Let_def bind_sum_eq_Inr)
  have fresh: "\<not> has_chunks (volume_chunk_selector (hs hb)) n" "\<not> has_chunks (index_chunk_selector (hs hb)) n" using D(4) [of n] r(2) by blast+
  have nowait: "waits (removals hb) ?h = 0" "?h \<notin> set fl" "?h \<notin> snd ` set (vol_map hb)"
  proof -
    show "?h \<notin> snd ` set (vol_map hb)" using D(5) [of ?h] D(6) [of _ ?h] by auto
    then show "waits (removals hb) ?h = 0" "?h \<notin> set fl" using D(9,10) by blast+
  qed
  have spec: "sel_ok (volume_chunk_selector st')" "sel_ok (index_chunk_selector st')" "\<And>m. m \<noteq> n \<Longrightarrow> same_for (hs hb) st' m" "\<And>k. k \<noteq> ?h \<Longrightarrow> vol_meta st' k = vol_meta (hs hb) k"
    "ok \<Longrightarrow> vol_info v' = info\<lparr>vi_repl_mode := REPL_DISABLED\<rparr> \<and> vol_ok (insert n (rs_ids rs (ordinal_reserver hb))) st' (removals hb) fl (vi_id info) ?h v'"
    using volume_init_new_spec [OF sa i D(1,2), of "removals hb" fl "insert n (rs_ids rs (ordinal_reserver hb))"] fresh r(3) info(1) nowait
    by (auto simp: count_list_0_iff)
  have has: "m \<in> insert n (rs_ids rs (ordinal_reserver hb))" if "has_chunks (volume_chunk_selector st') m \<or> has_chunks (index_chunk_selector st') m" for m
    using that spec(3) [of m] D(4) [of m] by (cases "m = n") (auto simp: same_for_def)
  show ?thesis
  proof (cases ok)
    case False
    then have hb': "hb' = dec_ref (hb1\<lparr>hs := st'\<rparr>)" using run i hb1 by (simp add: create_make_def Let_def)
    have "same_for (hs hb) st' m" if "m \<in> rs_ids rs (ordinal_reserver hb)" for m using that r(2) by (intro spec(3)) auto
    then show ?thesis
      by (intro mgr_inv_storage [OF inv]) (use hb' hb1 r spec(1,2,4) has in \<open>auto simp: dec_ref_def\<close>)
  next
    case True
    then have hb': "hb' = dec_ref (hb1\<lparr>hs := st', objs := (objs hb)(?h \<mapsto> v'), next_obj := ?h + 1, vol_map := map_emplace (vi_id info) ?h (vol_map hb)\<rparr>)"
      using run i hb1 by (simp add: create_make_def Let_def)
    have eqs: "hs hb' = st'" "objs hb' = (objs hb)(?h \<mapsto> v')" "next_obj hb' = ?h + 1" "vol_map hb' = map_emplace (vi_id info) ?h (vol_map hb)" "removals hb' = removals hb"
      "rs_ids rs (ordinal_reserver hb') = insert n (rs_ids rs (ordinal_reserver hb))" using hb' hb1 r(1) by (simp_all add: dec_ref_def)
    have entry: "(j, k) \<in> set (vol_map hb') \<longleftrightarrow> (j, k) = (vi_id info, ?h) \<or> (j, k) \<in> set (vol_map hb)" for j k
      unfolding eqs(4) by (rule map_emplace_set [OF info(2)])
    have names: "snd ` set (vol_map hb') = insert ?h (snd ` set (vol_map hb))" using entry by (force simp: image_iff)
    have ord: "vi_ordinal (vol_info w) \<noteq> n" if "(j, k) \<in> set (vol_map hb)" "objs hb k = Some w" for j k w
      using D(6) [OF that(1)] that(2) r(2) by (auto simp: vol_ok_def Let_def)
    have old: "k \<noteq> ?h" if "(j, k) \<in> set (vol_map hb)" for j k using that nowait(3) by force
    show ?thesis
    proof (rule mgr_invI)
      show "\<exists>w. objs hb' k = Some w \<and> vol_ok (rs_ids rs (ordinal_reserver hb')) (hs hb') (removals hb') fl j k w" if jk: "(j, k) \<in> set (vol_map hb')" for j k
      proof (cases "k = ?h")
        case k: True
        then have "j = vi_id info" using jk entry [of j k] old [of j k] by auto
        then show ?thesis using k spec(5) [OF True] eqs by simp
      next
        case False
        then have jk': "(j, k) \<in> set (vol_map hb)" using jk entry by auto
        obtain w where w: "objs hb k = Some w" "vol_ok (rs_ids rs (ordinal_reserver hb)) (hs hb) (removals hb) fl j k w" using D(6) [OF jk'] by blast
        have "vi_ordinal (vol_info w) \<in> rs_ids rs (ordinal_reserver hb')" using w(2) eqs(6) by (simp add: vol_ok_def Let_def)
        then have "vol_ok (rs_ids rs (ordinal_reserver hb')) (hs hb') (removals hb') fl j k w"
          using spec(3) [OF ord [OF jk' w(1)]] spec(4) [OF False] eqs by (intro vol_ok_same [OF w(2)]) simp_all
        then show ?thesis using w(1) eqs(2) False by simp
      qed
      show "j = j'" if "(j, k) \<in> set (vol_map hb')" "(j', k') \<in> set (vol_map hb')" "objs hb' k = Some w" "objs hb' k' = Some w'"
        "vi_ordinal (vol_info w) = vi_ordinal (vol_info w')" for j k j' k' w w'
      proof -
        have n: "vi_ordinal (vol_info v') = n" using spec(5) [OF True] info(1) by simp
        show ?thesis using that entry [of j k] entry [of j' k'] old [of j k] old [of j' k'] ord [of j k w] ord [of j' k' w'] D(7) [of j k j' k' w w'] n eqs(2) by auto
      qed
      show "m_state w = DESTROYING" if "objs hb' k = Some w" "k \<notin> snd ` set (vol_map hb')" for k w
        using that D(8) [of k w] names eqs(2) by (auto split: if_splits)
      show "m \<in> rs_ids rs (ordinal_reserver hb')" if "has_chunks (volume_chunk_selector (hs hb')) m \<or> has_chunks (index_chunk_selector (hs hb')) m" for m
        using has [of m] that eqs by simp
      show "distinct (map fst (vol_map hb'))" unfolding eqs(4) by (rule distinct_map_emplace [OF D(3)])
      show "k \<in> snd ` set (vol_map hb')" if "k \<in> set fl" for k using that D(9) names by simp
      show "k \<in> snd ` set (vol_map hb')" if "waits (removals hb') k \<noteq> 0" for k using that D(10) names eqs by simp
      show "objs hb' k = None" if "next_obj hb' \<le> k" for k using that D(5) [of k] eqs by simp
    qed (use spec(1,2) eqs in simp_all)
  qed
qed

lemma create_volume_keeps:
  assumes rok: "reserver_ok rs" and sa: "sb_api_ok sa" and inv: "mgr_inv rs (hb, fl)" and run: "create_volume rs sa env info hb = Inr (res, hb')"
  shows "mgr_inv rs (hb', fl)"
proof -
  obtain n r' where n: "rs_reserve rs (ordinal_reserver hb) = (n, r')" by (cases "rs_reserve rs (ordinal_reserver hb)")
  then have ids: "n \<notin> rs_ids rs (ordinal_reserver hb)" "rs_ids rs r' = insert n (rs_ids rs (ordinal_reserver hb))" using rok by (auto simp: reserver_ok_def)
  let ?hb1 = "(inc_ref hb)\<lparr>ordinal_reserver := r'\<rparr>"
  have stay: "mgr_inv rs (?hb1\<lparr>outstanding_reqs := x\<rparr>, fl)" for x
    by (rule mgr_inv_storage [OF inv]) (use ids mgr_invD(1,2,4) [OF inv] in \<open>auto simp: inc_ref_def\<close>)
  consider "hb' = hb" | x where "hb' = ?hb1\<lparr>outstanding_reqs := x\<rparr>"
    | "n < MAX_NUM_VOLUMES" "map_of (vol_map hb) (vi_id info) = None" "create_make sa env (info\<lparr>vi_ordinal := n\<rparr>) ?hb1 = Inr (res, hb')"
  proof (cases "is_restricted hb \<or> MAX_NUM_VOLUMES \<le> n \<or> map_of (vol_map hb) (vi_id info) \<noteq> None")
    case True
    then have "hb' = hb \<or> hb' = ?hb1 \<or> hb' = dec_ref ?hb1" using run n by (auto simp: create_volume_def Let_def split: if_splits)
    moreover have "?hb1 = ?hb1\<lparr>outstanding_reqs := outstanding_reqs ?hb1\<rparr>" by simp
    ultimately show thesis using that unfolding dec_ref_def by metis
  next
    case False
    then show thesis using run n that(3) by (simp add: create_volume_def Let_def)
  qed
  then show ?thesis
  proof cases
    case 3
    then show ?thesis
      by (intro create_make_keeps [OF sa inv, of ?hb1 n "info\<lparr>vi_ordinal := n\<rparr>" env res]) (use ids in \<open>simp_all add: inc_ref_def\<close>)
  qed (use inv stay in simp_all)
qed

end
