(* ===== verification/Manager_Grow.thy ===== *)
theory Manager_Grow
  imports Manager_Keep
begin

text \<open>
  I/O, growth and fault containment keep the invariant.
\<close>

section \<open>I/O\<close>

lemma io_precheck_served:
  assumes "io_precheck rd hb v addr len = Inr (Inr b)"
  shows "\<not> is_restricted hb" "\<not> is_offline v" "\<not> is_destroying v" "\<not> shutdown_started hb" "vol_rd v \<noteq> None" "b = get_blk_size rd" "b \<noteq> 0"
    "addr mod ucast b = 0" "len mod ucast b = 0"
  using assms by (auto simp: io_precheck_def Let_def split: if_splits)

lemma live_in_map:
  assumes "mgr_inv rs (hb, fl)" "objs hb h = Some v" "\<not> is_destroying v"
  obtains i where "(i, h) \<in> set (vol_map hb)" "vol_ok (rs_ids rs (ordinal_reserver hb)) (hs hb) (removals hb) fl i h v"
proof -
  obtain i where "(i, h) \<in> set (vol_map hb)" using mgr_invD(8) [OF assms(1,2)] assms(3) by (fastforce simp: is_destroying_def image_iff)
  then show thesis using that mgr_invD(6) [OF assms(1), of i h] assms(2) by auto
qed

lemma io_start_keeps:
  assumes inv: "mgr_inv rs (hb, fl)" and v: "objs hb h = Some v" "\<not> is_destroying v"
  shows "mgr_inv rs (hb\<lparr>objs := (objs hb)(h \<mapsto> vol_inc_ref v)\<rparr>, h # fl)"
proof -
  obtain i where i: "(i, h) \<in> set (vol_map hb)" and vok: "vol_ok (rs_ids rs (ordinal_reserver hb)) (hs hb) (removals hb) fl i h v"
    using live_in_map [OF inv v] .
  have "vol_ok (rs_ids rs (ordinal_reserver hb)) (hs hb) (removals hb) (h # fl) i h (vol_inc_ref v)"
    using vok v(2) by (auto simp: vol_ok_def Let_def vol_inc_ref_def is_destroying_def)
  then show ?thesis
    by (intro mgr_inv_change [OF inv i v(1)]) (use mgr_invD(1,2) [OF inv] in \<open>simp_all add: vol_inc_ref_def\<close>)
qed

lemma io_end_keeps:
  assumes inv: "mgr_inv rs (hb, fl)" and h: "h \<in> set fl" and v: "objs hb h = Some v"
  shows "mgr_inv rs (hb\<lparr>objs := (objs hb)(h \<mapsto> vol_dec_ref v)\<rparr>, remove1 h fl)"
proof -
  obtain i where i: "(i, h) \<in> set (vol_map hb)" using mgr_invD(9) [OF inv h] by auto
  have vok: "vol_ok (rs_ids rs (ordinal_reserver hb)) (hs hb) (removals hb) fl i h v" using mgr_invD(6) [OF inv i] v by auto
  then have "\<not> destroy_started v" using h by (auto simp: vol_ok_def Let_def)
  then have "vol_ok (rs_ids rs (ordinal_reserver hb)) (hs hb) (removals hb) (remove1 h fl) i h (vol_dec_ref v)"
    using vok by (auto simp: vol_ok_def Let_def vol_dec_ref_def count_list_remove1)
  then show ?thesis
    by (intro mgr_inv_change [OF inv i v]) (use mgr_invD(1,2) [OF inv] in \<open>simp_all add: vol_dec_ref_def count_list_remove1\<close>)
qed

section \<open>Chunk selection and growth\<close>

definition same_owners :: "selector \<Rightarrow> selector \<Rightarrow> bool" where
  "same_owners s s' \<longleftrightarrow> (\<forall>n. has_chunks s' n = has_chunks s n \<and> vol_ids s' n = vol_ids s n)"

lemma select_round_owners:
  assumes "sel_ok s" "select_round others nblks t a n s = Inr (r, s')"
  shows "sel_ok s' \<and> same_owners s s'"
proof -
  obtain L v where "sel_rel s L" "m_volume_chunks s n = Some v"
    using assms by (auto simp: sel_ok_def select_round_def split: option.splits)
  then show ?thesis using select_round_spec [of s L n v others nblks t a] assms(2)
    by (auto simp: sel_ok_def same_owners_def has_chunks_def vol_ids_def split: if_splits)
qed

lemma set_available_owners: "sel_ok s \<Longrightarrow> sel_ok (s\<lparr>m_all_chunks := set_available cid k (m_all_chunks s)\<rparr>) \<and> same_owners s (s\<lparr>m_all_chunks := set_available cid k (m_all_chunks s)\<rparr>)"
  using sel_rel_set_available [of s _ cid k] by (auto simp: sel_ok_def same_owners_def has_chunks_def vol_ids_def)

lemma owners_keep:
  assumes inv: "mgr_inv rs (hb, fl)" and vs: "sel_ok vs" "same_owners (volume_chunk_selector (hs hb)) vs" and ixs: "sel_ok is'" "same_owners (index_chunk_selector (hs hb)) is'"
  shows "mgr_inv rs (hb\<lparr>hs := (hs hb)\<lparr>volume_chunk_selector := vs, index_chunk_selector := is'\<rparr>\<rparr>, fl)"
  by (rule mgr_inv_storage [OF inv]) (use vs ixs mgr_invD(4) [OF inv] in \<open>auto simp: same_owners_def same_for_def\<close>)

text \<open>
  A resize task whose volume has not been released changes the chunks of one ordinal and announces them. A task that was queued before its
  volume was removed is another matter: \<open>stale_resize_corrupts_superblock\<close>.
\<close>

definition resize_admissible :: "selector \<Rightarrow> bool" where
  "resize_admissible s \<longleftrightarrow> (\<forall>volc. Released volc \<notin> set (pending_resizes s))"

lemma run_pending_resize_cases:
  assumes "sel_ok s" "resize_admissible s" "run_pending_resize s = Inr s'"
  obtains "s' = s"
  | n cids where "sel_ok s'" "sb_updates s' = sb_updates s @ [(n, vol_ids s' n)]" "has_chunks s n" "has_chunks s' n"
      "\<And>m. m \<noteq> n \<Longrightarrow> has_chunks s' m = has_chunks s m \<and> vol_ids s' m = vol_ids s m"
proof (cases "pending_resizes s")
  case Nil
  then show thesis using assms(3) that(1) by (simp add: run_pending_resize_def)
next
  case (Cons tg rest)
  then obtain n where tg: "tg = Live n" using assms(2) by (cases tg) (auto simp: resize_admissible_def)
  let ?s = "s\<lparr>pending_resizes := rest\<rparr>"
  obtain L where "sel_rel s L" using assms(1) by (auto simp: sel_ok_def)
  then have rel: "sel_rel ?s L" using sel_rel_cong [of ?s s L] by simp
  have eq: "resize_task (Live n) ?s = Inr s'" using assms(3) Cons tg by (simp add: run_pending_resize_def)
  obtain v where v: "m_volume_chunks ?s n = Some v" "num_active_chunks v < max_num_chunks v"
    "min num_chunks_per_resize (max_num_chunks v - num_active_chunks v) \<le> length (pool_of (m_per_dev_chunks ?s) (vc_pdev v))"
    using resize_task_InrD [OF eq rel] by blast
  let ?cids = "take (min num_chunks_per_resize (max_num_chunks v - num_active_chunks v)) (pool_of (m_per_dev_chunks ?s) (vc_pdev v))"
  have r: "sel_rel s' (move (set ?cids) (Owned n) L)" "vol_ids s' n = vol_ids ?s n @ ?cids" "sb_updates s' = sb_updates ?s @ [(n, vol_ids ?s n @ ?cids)]" "\<exists>w. m_volume_chunks s' n = Some w"
    using resize_task_refines [OF rel v(1,2) refl v(3) refl] eq by auto
  have "m_volume_chunks s' m = m_volume_chunks s m" if "m \<noteq> n" for m
    using eq that v(1) by (auto simp: resize_task_def target_volc_def store_volc_def allocate_resize_chunks_from_pdev_def Let_def bind_sum_eq_Inr split: if_splits option.splits)
  then have "has_chunks s' m = has_chunks s m \<and> vol_ids s' m = vol_ids s m" if "m \<noteq> n" for m
    using that by (simp add: has_chunks_def vol_ids_def)
  moreover have "sel_ok s'" "sb_updates s' = sb_updates s @ [(n, vol_ids s' n)]" "has_chunks s n" "has_chunks s' n"
    using r v(1) by (auto simp: sel_ok_def has_chunks_def)
  ultimately show thesis using that(2) by blast
qed

lemma find_ordinal:
  assumes "List.find (\<lambda>(_, h). case objs hb h of None \<Rightarrow> False | Some v \<Rightarrow> vi_ordinal (vol_info v) = n) (vol_map hb) = Some (i, h)"
  obtains v where "(i, h) \<in> set (vol_map hb)" "objs hb h = Some v" "vi_ordinal (vol_info v) = n"
  using find_SomeD [OF assms] that by (auto split: option.splits)

lemma run_volume_resize_keeps:
  assumes sa: "sb_api_ok sa" and inv: "mgr_inv rs (hb, fl)" and adm: "resize_admissible (volume_chunk_selector (hs hb))" and run: "run_volume_resize sa hb = Inr hb'"
  shows "mgr_inv rs (hb', fl)"
proof -
  let ?s = "volume_chunk_selector (hs hb)"
  note D = mgr_invD [OF inv]
  obtain s' where s': "run_pending_resize ?s = Inr s'" using run by (auto simp: run_volume_resize_def Let_def bind_sum_eq_Inr)
  let ?hb1 = "hb\<lparr>hs := (hs hb)\<lparr>volume_chunk_selector := s'\<rparr>\<rparr>"
  show ?thesis
  proof (rule run_pending_resize_cases [OF D(1) adm s'])
    assume "s' = ?s"
    then show ?thesis using run s' inv by (simp add: run_volume_resize_def)
  next
    fix n assume t: "sel_ok s'" "sb_updates s' = sb_updates ?s @ [(n, vol_ids s' n)]" "has_chunks ?s n" "has_chunks s' n"
      "\<And>m. m \<noteq> n \<Longrightarrow> has_chunks s' m = has_chunks ?s m \<and> vol_ids s' m = vol_ids ?s m"
    have cb: "update_vol_sb_cb sa n (vol_ids s' n) ?hb1 = Inr hb'" using run s' t(2) by (simp add: run_volume_resize_def)
    then obtain i h where f: "List.find (\<lambda>(_, h). case objs hb h of None \<Rightarrow> False | Some v \<Rightarrow> vi_ordinal (vol_info v) = n) (vol_map hb) = Some (i, h)"
      by (auto simp: update_vol_sb_cb_def split: option.splits)
    obtain v where v: "(i, h) \<in> set (vol_map hb)" "objs hb h = Some v" "vi_ordinal (vol_info v) = n" using find_ordinal [OF f] .
    have vok: "vol_ok (rs_ids rs (ordinal_reserver hb)) (hs hb) (removals hb) fl i h v" using D(6) [OF v(1)] v(2) by auto
    obtain sb where sb: "vol_sb v = Some sb" "sb_state sb = m_state v" using vok by (auto simp: vol_ok_def Let_def sb_matches_def)
    let ?sb = "sb_of_info (vol_info v) (sb_pdev_id sb) (vol_ids s' n) (sb_resized sa sb)"
    have hb': "hb' = set_vol h (v\<lparr>vol_sb := Some ?sb\<rparr>, sb_write h ?sb ((hs hb)\<lparr>volume_chunk_selector := s'\<rparr>)) ?hb1"
      using cb f v(2) sb(1) by (simp add: update_vol_sb_cb_def with_vol_def vol_update_vol_sb_cb_def Let_def)
    have "sb_matches (vol_info v) (m_state v) (vol_ids s' n) ?sb" using sa sb(2) by (simp add: sb_matches_def sb_api_ok_def)
    then have "vol_ok (rs_ids rs (ordinal_reserver hb)) (sb_write h ?sb ((hs hb)\<lparr>volume_chunk_selector := s'\<rparr>)) (removals hb) fl i h (v\<lparr>vol_sb := Some ?sb\<rparr>)"
      using vok t(4) v(3) by (simp add: vol_ok_def Let_def sb_write_def)
    then show ?thesis
      unfolding hb' by (intro mgr_inv_change [OF inv v(1,2)]) (use t(1,5) D(2) v(3) in \<open>simp_all add: set_vol_def sb_write_def same_for_def\<close>)
  qed
qed

section \<open>Fault containment\<close>

text \<open>
  Events for a volume that is being removed are left out: they would put it back into service.
\<close>

definition fc_admissible :: "volume_id_t option \<Rightarrow> 'r homeblks \<Rightarrow> bool" where
  "fc_admissible cookie hb =
     (case cookie of None \<Rightarrow> True | Some i \<Rightarrow>
        (case map_of (vol_map hb) i of None \<Rightarrow> True | Some h \<Rightarrow> (case objs hb h of None \<Rightarrow> True | Some v \<Rightarrow> \<not> is_destroying v)))"

lemma mgr_inv_flags: "mgr_inv rs (hb\<lparr>hb_sb := a, hb_meta := b, is_restricted := c\<rparr>, fl) = mgr_inv rs (hb, fl)"
  "mgr_inv rs (hb\<lparr>shutdown_started := d\<rparr>, fl) = mgr_inv rs (hb, fl)" "mgr_inv rs (hb\<lparr>shutdown_promise := d\<rparr>, fl) = mgr_inv rs (hb, fl)"
  by (simp_all add: mgr_inv_def)

lemma fc_state_change_keeps:
  assumes inv: "mgr_inv rs (hb, fl)" and h: "map_of (vol_map hb) i = Some h" "fc_admissible (Some i) hb" and run: "with_vol h (state_change h s) hb = Inr hb'"
  shows "mgr_inv rs (hb', fl)"
proof -
  have e: "(i, h) \<in> set (vol_map hb)" using h(1) by (rule map_of_SomeD)
  obtain v where v: "objs hb h = Some v" "vol_ok (rs_ids rs (ordinal_reserver hb)) (hs hb) (removals hb) fl i h v" using mgr_invD(6) [OF inv e] by blast
  have "\<not> is_destroying v" using h v(1) by (simp add: fc_admissible_def)
  then have "\<not> destroy_started v \<and> vol_rd v \<noteq> None" using v(2) by (auto simp: vol_ok_def Let_def is_destroying_def)
  then show ?thesis using with_vol_state_change [OF inv e v(1), of s] run by auto
qed

lemma on_fault_containment_keeps:
  assumes inv: "mgr_inv rs (hb, fl)" and fc: "fc_admissible cookie hb" and run: "on_fault_containment ev cookie hb = Inr hb'"
  shows "mgr_inv rs (hb', fl)"
proof (cases "ev = FC_ENTER_GLOBAL")
  case True
  then show ?thesis using run inv by (auto simp: on_fault_containment_def fault_containment_def Let_def mgr_inv_flags split: option.splits)
next
  case False
  show ?thesis
  proof (cases "\<exists>i h. cookie = Some i \<and> map_of (vol_map hb) i = Some h")
    case True
    then obtain i h where c: "cookie = Some i" "map_of (vol_map hb) i = Some h" by blast
    then obtain s where "with_vol h (state_change h s) hb = Inr hb'"
      using run False by (auto simp: on_fault_containment_def get_volume_def fault_containment_def exit_fc_def split: if_splits) (metis fc_event.exhaust)
    then show ?thesis using fc_state_change_keeps [OF inv c(2)] fc c(1) by simp
  next
    case none: False
    have "hb' = hb" using run False none by (auto simp: on_fault_containment_def get_volume_def split: option.splits)
    then show ?thesis using inv by simp
  qed
qed

end
