(* ===== verification/Manager_Start.thy ===== *)
theory Manager_Start
  imports Manager_System
begin

text \<open>
  Bringing an instance up and down (src/lib/homeblks_impl.cpp: \<^verbatim>\<open>init_homeblocks\<close>, \<^verbatim>\<open>init_homestore\<close>, the callbacks it registers with the storage layer, and
  \<^verbatim>\<open>shutdown\<close>). What the storage layer finds on the devices when it starts is the record \<open>disk\<close>; it hands the superblock of the instance, the index tables and the superblocks
  of the volumes to the callbacks, in this order.
\<close>

section \<open>Configuration and environment\<close>

record home_blocks_config =
  cfg_devices :: "(string \<times> dev_type) list"
  cfg_threads :: u32
  cfg_app_mem_size_mb :: u64
  cfg_on_svc_id :: "peer_id_t res option"

text \<open>What the devices hold. The order of the lists is the order in which the storage layer finds the blocks.\<close>

record disk =
  dk_hb :: "homeblks_sb_t option"
  dk_repl_devs :: "volume_id_t list"
  dk_index_tables :: "index_sb list"
  dk_vol_sbs :: "vol_sb_t list"

text \<open>
  What the libraries answer during a start: the types and the names of the devices, a random identifier, the chunks of the two services with a chunk selector of their own once the
  storage layer is up, and what the devices hold, \<^term>\<open>None\<close> when they have to be formatted.
\<close>

record start_env =
  bt_type_of :: "string \<Rightarrow> drive_type"
  bt_canonical :: "string \<Rightarrow> string"
  bt_random_uuid :: peer_id_t
  bt_vol_chunks :: "chunk list"
  bt_index_chunks :: "chunk list"
  bt_disk :: "disk option"

definition app_mem_size :: "home_blocks_config \<Rightarrow> u64" where
  "app_mem_size cfg = cfg_app_mem_size_mb cfg * 1024 * 1024"

section \<open>Starting\<close>

text \<open>The constructor. The two selectors, which \<^verbatim>\<open>init_homestore\<close> creates first, are there from the beginning.\<close>

definition HomeBlocksImpl :: "'r \<Rightarrow> 'r homeblks" where
  "HomeBlocksImpl reserver =
     \<lparr>hs = \<lparr>volume_chunk_selector = VolumeChunkSelector, index_chunk_selector = VolumeChunkSelector, repl_devs = [], index_tables = [], vol_meta = (\<lambda>_. None)\<rparr>,
      objs = (\<lambda>_. None), next_obj = 0, vol_map = [], idx_tbl_map = [], hb_sb = None, hb_meta = None, gracefully_shutdown = False, our_uuid = 0,
      ordinal_reserver = reserver, outstanding_reqs = 0, shutdown_started = False, is_restricted = False, shutdown_promise = False, removals = []\<rparr>"

definition register_metablk_cb :: "homeblks_sb_t option \<Rightarrow> 'r homeblks \<Rightarrow> 'r homeblks checked" where
  "register_metablk_cb found hb = (case found of None \<Rightarrow> Inr hb | Some sb \<Rightarrow> on_hb_meta_blk_found sb hb)"

definition on_index_table_found :: "index_sb \<Rightarrow> 'r homeblks \<Rightarrow> 'r homeblks checked" where
  "on_index_table_found sb hb = recover_index_table sb hb"

definition on_init_complete :: "'r reserver \<Rightarrow> vol_sb_t list \<Rightarrow> 'r homeblks \<Rightarrow> 'r homeblks checked" where
  "on_init_complete rs found hb = foldl (\<lambda>r sb. bind_sum r (on_vol_meta_blk_found rs sb)) (Inr hb) found"

definition on_repl_devs_init_completed :: "'r reserver \<Rightarrow> vol_sb_t list \<Rightarrow> 'r homeblks \<Rightarrow> 'r homeblks checked" where
  "on_repl_devs_init_completed rs found hb = on_init_complete rs found hb"

text \<open>\<^verbatim>\<open>start\<close> of the storage layer with the callbacks the instance gives it; the result says whether the devices have to be formatted.\<close>

definition hs_start :: "'r reserver \<Rightarrow> start_env \<Rightarrow> 'r homeblks \<Rightarrow> (bool \<times> 'r homeblks) checked" where
  "hs_start rs env hb =
     (let st = (hs hb)\<lparr>volume_chunk_selector := fold add_chunk (bt_vol_chunks env) (volume_chunk_selector (hs hb)),
                       index_chunk_selector := fold add_chunk (bt_index_chunks env) (index_chunk_selector (hs hb))\<rparr>
      in (case bt_disk env of
            None \<Rightarrow> Inr (True, hb\<lparr>hs := st\<rparr>)
          | Some d \<Rightarrow>
              bind_sum (register_metablk_cb (dk_hb d) (hb\<lparr>hs := st\<lparr>repl_devs := dk_repl_devs d\<rparr>, hb_meta := dk_hb d\<rparr>)) (\<lambda>hb1.
              bind_sum (foldl (\<lambda>r sb. bind_sum r (on_index_table_found sb)) (Inr hb1) (dk_index_tables d)) (\<lambda>hb2.
              bind_sum (on_repl_devs_init_completed rs (dk_vol_sbs d) hb2) (\<lambda>hb3. Inr (False, hb3))))))"

definition cold_boot_id :: "home_blocks_config \<Rightarrow> start_env \<Rightarrow> peer_id_t checked" where
  "cold_boot_id cfg env =
     (case cfg_on_svc_id cfg of
        None \<Rightarrow> Inr (bt_random_uuid env)
      | Some ret \<Rightarrow> (case ret of Inl _ \<Rightarrow> Inl ReleaseAssert | Inr uuid \<Rightarrow> Inr uuid))"

text \<open>The result has the format of the devices when they are formatted.\<close>

definition init_homestore ::
  "'r reserver \<Rightarrow> home_blocks_config \<Rightarrow> u64 \<times> u64 \<Rightarrow> start_env \<Rightarrow> 'r homeblks \<Rightarrow> ((hs_service \<times> hs_format_params) list option \<times> 'r homeblks) checked" where
  "init_homestore rs cfg chunk_sz env hb =
     bind_sum (init_format (bt_type_of env) (bt_canonical env) (cfg_devices cfg) chunk_sz) (\<lambda>fmt.
     bind_sum (hs_start rs env hb) (\<lambda>(need_format, hb1).
     if need_format
     then bind_sum (cold_boot_id cfg env) (\<lambda>uuid. Inr (Some fmt, superblk_init (hb1\<lparr>our_uuid := uuid\<rparr>)))
     else Inr (None, hb1)))"

text \<open>Intervals of the timers: an option overrides the setting; both are seconds.\<close>

definition timer_nsecs :: "u32 option \<Rightarrow> u64 \<Rightarrow> u64" where
  "timer_nsecs opt config = (case opt of Some n \<Rightarrow> ucast n | None \<Rightarrow> config)"

definition gc_timer_nsecs :: "u32 option \<Rightarrow> u64 \<Rightarrow> u64" where
  "gc_timer_nsecs opt reaper_thread_timer_secs = timer_nsecs opt reaper_thread_timer_secs"

definition shutdown_timer_nsecs :: "u32 option \<Rightarrow> u64 \<Rightarrow> u64" where
  "shutdown_timer_nsecs opt shutdown_thread_timer_secs = timer_nsecs opt shutdown_thread_timer_secs"

definition start_reaper_thread :: "u32 option \<Rightarrow> u64 \<Rightarrow> u64" where
  "start_reaper_thread opt config = gc_timer_nsecs opt config * 1000 * 1000 * 1000"

text \<open>The instance, published in \<^verbatim>\<open>s_instance_\<close>, and the interval of its garbage collector.\<close>

definition init_homeblocks ::
  "'r reserver \<Rightarrow> home_blocks_config \<Rightarrow> u64 \<times> u64 \<Rightarrow> start_env \<Rightarrow> u32 option \<Rightarrow> u64 \<Rightarrow> 'r \<Rightarrow> ('r homeblks option \<times> u64) checked" where
  "init_homeblocks rs cfg chunk_sz env gc_opt gc_config reserver =
     bind_sum (init_homestore rs cfg chunk_sz env (HomeBlocksImpl reserver)) (\<lambda>(_, inst). Inr (Some inst, start_reaper_thread gc_opt gc_config))"

section \<open>Observing\<close>

definition data_drive_type :: "hs_dev_type option \<Rightarrow> drive_type" where
  "data_drive_type dtype = (case dtype of Some HSData \<Rightarrow> block_hdd | Some HSFast \<Rightarrow> block_nvme | None \<Rightarrow> drive_unknown)"

record home_blocks_stats =
  total_capacity_bytes :: u64
  used_capacity_bytes :: u64

definition hb_get_stats :: "u64 \<times> u64 \<Rightarrow> home_blocks_stats" where
  "hb_get_stats cap = (let (total_capacity, used_capacity) = cap in \<lparr>total_capacity_bytes = total_capacity, used_capacity_bytes = used_capacity\<rparr>)"

definition max_vol_io_size :: u64 where
  "max_vol_io_size = 1024 * 1024"

section \<open>Shutting down\<close>

text \<open>
  The wait for the promise: between two ticks of the timer the other threads run, \<open>others k\<close> before the \<open>k\<close>-th tick. A shutdown that waits for ever is \<^term>\<open>None\<close>.
\<close>

partial_function (option) shutdown_wait :: "(nat \<Rightarrow> 'r homeblks \<Rightarrow> 'r homeblks) \<Rightarrow> nat \<Rightarrow> 'r homeblks \<Rightarrow> 'r homeblks checked option" where
  "shutdown_wait others k hb =
     (if shutdown_promise hb then Some (Inr hb)
      else (case do_shutdown (others k hb) of
              Inl f \<Rightarrow> Some (Inl f)
            | Inr hb' \<Rightarrow> shutdown_wait others (Suc k) hb'))"

text \<open>
  The timer is recurring and is stopped only after the thread that waits has woken up: \<open>late_tick\<close> tells whether it ticks once more before that. The second component of the result is \<^verbatim>\<open>s_instance_\<close>.
\<close>

definition shutdown :: "(nat \<Rightarrow> 'r homeblks \<Rightarrow> 'r homeblks) \<Rightarrow> bool \<Rightarrow> 'r homeblks \<Rightarrow> ('r homeblks \<times> 'r homeblks option) checked option" where
  "shutdown others late_tick hb =
     (case shutdown_wait others 0 (shutdown_start hb) of
        None \<Rightarrow> None
      | Some r \<Rightarrow> Some (bind_sum r (\<lambda>hb0. bind_sum (if late_tick then do_shutdown hb0 else Inr hb0) (\<lambda>hb1.
          bind_sum (shutdown_finish hb1) (\<lambda>hb2. Inr (hb2, None))))))"

end
