(* ===== verification/Chunk_Shape.thy ===== *)
theory Chunk_Shape
  imports Chunk_Steps
begin

text \<open>
  What no operation of a chunk selector changes after the chunks have been added: the inventory of the devices and, for a volume, its device and the number of chunks it may grow to.
  A selector that has been filled anew from the same devices can therefore take back every volume of the old one.
\<close>

section \<open>Inventory and shape\<close>

definition inventory :: "selector \<Rightarrow> chunk_num_t \<Rightarrow> (pdev_id_t \<times> u64) option" where
  "inventory s cid = map_option (\<lambda>c. (get_pdev_id c, chunk_bytes c)) (chunk_obj (m_all_chunks s) cid)"

definition shape :: "selector \<Rightarrow> nat \<Rightarrow> (pdev_id_t \<times> nat) option" where
  "shape s n = map_option (\<lambda>v. (vc_pdev v, max_num_chunks v)) (m_volume_chunks s n)"

definition sized :: "u64 \<Rightarrow> selector \<Rightarrow> bool" where
  "sized B s \<longleftrightarrow> (\<forall>cid p b. inventory s cid = Some (p, b) \<longrightarrow> b = B)"

lemma sized_cong: "inventory s' = inventory s \<Longrightarrow> sized B s' = sized B s"
  by (simp add: sized_def)

lemma inventory_set_ordinals: "map_option (\<lambda>c. (get_pdev_id c, chunk_bytes c)) (chunk_obj (set_ordinals cids n all) cid) =
    map_option (\<lambda>c. (get_pdev_id c, chunk_bytes c)) (chunk_obj all cid)"
  by (simp add: chunk_obj_set_ordinals option.map_comp comp_def)

lemma set_ordinals_single: "set_vol_ordinal cid n all = set_ordinals [cid] n all"
  by simp

lemma assign_chunks_inventory:
  "assign_chunks n idx cids v all = Inr (v', all') \<Longrightarrow> \<exists>ds. all' = set_ordinals ds n all"
proof (induction cids arbitrary: idx v all)
  case Nil
  then have "all' = set_ordinals [] n all" by simp
  then show ?case by blast
next
  case (Cons cid cids)
  have "assign_chunks n (Suc idx) cids (v[idx := Some cid]) (set_vol_ordinal cid n all) = Inr (v', all')"
    using Cons.prems by (auto split: option.splits if_splits)
  then obtain ds where "all' = set_ordinals ds n (set_vol_ordinal cid n all)" using Cons.IH by blast
  then have "all' = set_ordinals (cid # ds) n all" by simp
  then show ?case by blast
qed

lemma release_loop_inventory:
  "release_loop v all pd = Inr (all', pd') \<Longrightarrow> \<exists>ds. all' = set_ordinals ds INVALID_VOL_ORDINAL all"
proof (induction v all pd rule: release_loop.induct)
  case (1 all pd)
  then have "all' = set_ordinals [] INVALID_VOL_ORDINAL all" by simp
  then show ?case by blast
next
  case (3 cid v all pd)
  obtain c where c: "chunk_obj all cid = Some c" using "3.prems" by (auto split: option.splits)
  then obtain ds where "all' = set_ordinals ds INVALID_VOL_ORDINAL (set_vol_ordinal cid INVALID_VOL_ORDINAL all)" using "3.IH" [OF c] "3.prems" by auto
  then have "all' = set_ordinals (cid # ds) INVALID_VOL_ORDINAL all" by simp
  then show ?case by blast
qed simp

section \<open>The operations\<close>

lemma head_sized:
  assumes "sized B s" "m_all_chunks s = (k, Some c0) # rest"
  shows "chunk_bytes c0 = B"
proof -
  have "inventory s k = Some (get_pdev_id c0, chunk_bytes c0)" using assms(2) by (simp add: inventory_def chunk_obj_def)
  then show ?thesis using assms(1) by (simp add: sized_def)
qed

lemma register_ids: "register_init_chunks n mx act p ds s = Inr (cids, p', s') \<Longrightarrow> ds = cids"
  by (auto simp: register_init_chunks_def bind_sum_eq_Inr split: list.splits option.splits)

lemma alloc_shape:
  assumes rel: "sel_rel s L" and run: "allocate_init_chunks n sz p lz s = Inr (cids, p', s')" and B: "sized B s" and new: "m_volume_chunks s n = None"
  shows "inventory s' = inventory s \<and> (\<forall>m. m \<noteq> n \<longrightarrow> shape s' m = shape s m) \<and> (cids \<noteq> [] \<longrightarrow> shape s' n = Some (p', chunks_for sz B)) \<and> (cids = [] \<longrightarrow> s' = s)"
proof (cases "cids = []")
  case True
  have "n < MAX_NUM_VOLUMES" using run by (auto simp: allocate_init_chunks_def split: if_splits)
  then have "s' = s" using allocate_init_chunks_refines [OF rel new, of sz p lz] run True by auto
  then show ?thesis using True by simp
next
  case False
  obtain k c0 rest where all: "m_all_chunks s = (k, Some c0) # rest"
    using run new False by (auto simp: allocate_init_chunks_def split: if_splits list.splits option.splits prod.splits)
  let ?max = "chunks_for sz (chunk_bytes c0)"
  let ?act = "if lz then min ?max num_chunks_per_vol_init else ?max"
  obtain ds s1 where ds: "allocate_init_chunks_from_pdev ?act ?max s = Inr (ds, s1)" "register_init_chunks n ?max ?act p ds s1 = Inr (cids, p', s')"
    using run new all by (auto simp: allocate_init_chunks_def Let_def bind_sum_eq_Inr split: if_splits)
  then have s1: "allocate_init_chunks_from_pdev ?act ?max s = Inr (cids, s1)" and reg: "register_init_chunks n ?max ?act p cids s1 = Inr (cids, p', s')"
    using register_ids [OF ds(2)] by simp_all
  have f: "m_all_chunks s1 = m_all_chunks s" "m_volume_chunks s1 = m_volume_chunks s"
    using s1 by (auto simp: allocate_init_chunks_from_pdev_def split: if_splits option.splits prod.splits)
  have "\<exists>v al. assign_chunks n 0 cids (replicate ?max None) (m_all_chunks s) = Inr (v, al) \<and>
      s' = s1\<lparr>m_all_chunks := al, m_volume_chunks := (m_volume_chunks s)(n \<mapsto> \<lparr>m_chunks = v, max_num_chunks = ?max, num_active_chunks = ?act,
        m_next_chunk_index = 0, vc_ordinal = n, vc_pdev = p'\<rparr>)\<rparr>"
    using reg False f by (auto simp: register_init_chunks_def bind_sum_eq_Inr simp del: assign_chunks.simps split: list.splits option.splits)
  then obtain v al where a: "assign_chunks n 0 cids (replicate ?max None) (m_all_chunks s) = Inr (v, al)"
    and s': "s' = s1\<lparr>m_all_chunks := al, m_volume_chunks := (m_volume_chunks s)(n \<mapsto> \<lparr>m_chunks = v, max_num_chunks = ?max, num_active_chunks = ?act,
      m_next_chunk_index = 0, vc_ordinal = n, vc_pdev = p'\<rparr>)\<rparr>" by blast
  obtain ds where "al = set_ordinals ds n (m_all_chunks s)" using assign_chunks_inventory [OF a] by blast
  then have "inventory s' = inventory s" using s' by (simp add: inventory_def fun_eq_iff inventory_set_ordinals)
  then show ?thesis using s' False head_sized [OF B all] by (simp add: shape_def)
qed

lemma release_shape:
  assumes "release_chunks n s = Inr s'"
  shows "inventory s' = inventory s \<and> (\<forall>m. m \<noteq> n \<longrightarrow> shape s' m = shape s m)"
proof -
  obtain v where v: "m_volume_chunks s n = Some v" "n < MAX_NUM_VOLUMES" using assms by (auto simp: release_chunks_def split: if_splits option.splits)
  then obtain al pd where r: "release_loop (m_chunks v) (m_all_chunks s) (m_per_dev_chunks s) = Inr (al, pd)"
    and s': "s' = s\<lparr>m_all_chunks := al, m_per_dev_chunks := pd, m_volume_chunks := (m_volume_chunks s)(n := None),
      pending_resizes := map (release_target n v) (pending_resizes s)\<rparr>"
    using assms by (auto simp: release_chunks_def bind_sum_eq_Inr)
  obtain ds where "al = set_ordinals ds INVALID_VOL_ORDINAL (m_all_chunks s)" using release_loop_inventory [OF r] by blast
  then show ?thesis using s' by (simp add: inventory_def fun_eq_iff inventory_set_ordinals shape_def)
qed

lemma resize_task_shape:
  assumes "resize_task tg s = Inr s'"
  shows "inventory s' = inventory s \<and> shape s' = shape s"
proof -
  obtain v where v: "target_volc tg s = Some v" using assms by (auto simp: resize_task_def split: option.splits)
  let ?k = "min num_chunks_per_resize ((max_num_chunks v + 2 ^ 64 - num_active_chunks v) mod 2 ^ 64)"
  obtain cids s1 where s1: "allocate_resize_chunks_from_pdev (vc_pdev v) ?k s = Inr (cids, s1)"
    using assms v by (auto simp: resize_task_def Let_def bind_sum_eq_Inr)
  obtain w where s': "s' = store_volc tg (v\<lparr>m_chunks := w, num_active_chunks := num_active_chunks v + length cids\<rparr>)
      (s1\<lparr>sb_updates := sb_updates s1 @ [(vc_ordinal v, somes w)], resize_op := Idle\<rparr>)"
    using assms v s1 by (auto simp: resize_task_def Let_def bind_sum_eq_Inr split: if_splits)
  have "m_all_chunks s1 = m_all_chunks s" "m_volume_chunks s1 = m_volume_chunks s" using s1 by (auto simp: allocate_resize_chunks_from_pdev_def Let_def split: if_splits)
  then show ?thesis using s' v by (cases tg) (simp_all add: inventory_def shape_def fun_eq_iff store_volc_def target_volc_def)
qed

lemma resize_shape: "run_pending_resize s = Inr s' \<Longrightarrow> inventory s' = inventory s \<and> shape s' = shape s"
  by (cases "pending_resizes s") (auto simp: run_pending_resize_def inventory_def shape_def fun_eq_iff dest!: resize_task_shape)

lemma select_shape:
  assumes "sel_rel s L" "select_round others nblks t a n s = Inr (r, s')"
  shows "inventory s' = inventory s \<and> shape s' = shape s"
proof -
  obtain v where v: "m_volume_chunks s n = Some v" using assms(2) by (auto simp: select_round_def split: option.splits)
  show ?thesis using select_round_spec [OF assms(1) v, of others nblks t a] assms(2) v by (auto simp: inventory_def shape_def fun_eq_iff advance_def)
qed

lemma available_shape:
  "inventory (s\<lparr>m_all_chunks := set_available cid k (m_all_chunks s)\<rparr>) = inventory s"
  "shape (s\<lparr>m_all_chunks := set_available cid k (m_all_chunks s)\<rparr>) = shape s"
  by (simp_all add: inventory_def shape_def fun_eq_iff chunk_obj_set_available option.map_comp comp_def)

section \<open>Taking a volume back\<close>

text \<open>Chunks of one device that are in nobody's list are given to an ordinal that has none.\<close>

definition none_lost :: "selector \<Rightarrow> bool" where
  "none_lost s \<longleftrightarrow> (\<exists>L. sel_rel s L \<and> (\<forall>cid. L cid \<noteq> Some Lost))"

lemma sel_run_none_lost: "sel_run s 0 \<Longrightarrow> none_lost s"
proof -
  assume "sel_run s 0"
  then obtain L where L: "sel_rel s L" "lost L = 0" using sel_run_ledger by blast
  have "finite {cid. L cid = Some Lost}" using sel_rel_dom [OF L(1)] by (auto elim!: finite_subset [rotated, of "dom L"])
  then show ?thesis using L by (auto simp: none_lost_def lost_def)
qed

lemma recover_next:
  assumes nl: "none_lost s" and B: "sized B s" and new: "m_volume_chunks s n = None" "n < MAX_NUM_VOLUMES"
    and cids: "distinct cids" "cids \<noteq> []" "length cids \<le> chunks_for sz B"
    and known: "\<And>cid. cid \<in> set cids \<Longrightarrow> inventory s cid = Some (pdev, B)" and disj: "\<And>cid m. cid \<in> set cids \<Longrightarrow> cid \<notin> set (vol_ids s m)"
  shows "\<exists>s'. recover_chunks n pdev sz cids s = Inr (True, s') \<and> none_lost s' \<and> inventory s' = inventory s \<and> vol_ids s' n = cids \<and>
    shape s' n = Some (pdev, chunks_for sz B) \<and> (\<forall>m. m \<noteq> n \<longrightarrow> m_volume_chunks s' m = m_volume_chunks s m)"
proof -
  obtain L where rel: "sel_rel s L" and there: "\<And>cid. L cid \<noteq> Some Lost" using nl by (auto simp: none_lost_def)
  have objs: "objs_ok (m_all_chunks s) L" and vols: "vols_ok s L" and pools: "pools_ok (m_per_dev_chunks s) L" using rel by (simp_all add: sel_rel_def)
  have free: "L cid = Some (Free pdev)" if c: "cid \<in> set cids" for cid
  proof -
    obtain c where c0: "chunk_obj (m_all_chunks s) cid = Some c" "get_pdev_id c = pdev" using known [OF c] by (auto simp: inventory_def)
    then have "L cid \<noteq> None" using objs unfolding objs_ok_def by (metis option.rel_distinct(1))
    then obtain pl where pl: "L cid = Some pl" by blast
    have "pl \<noteq> Owned m" for m using vols_okD [OF vols, of cid m] disj [OF c, of m] pl by auto
    then obtain q where "pl = Free q" using there [of cid] pl by (cases pl) auto
    then show ?thesis using objs_okD [OF objs pl] c0 pl by auto
  qed
  obtain k c0 rest where all: "m_all_chunks s = (k, Some c0) # rest"
  proof -
    obtain cid where "cid \<in> set cids" using cids(2) by (cases cids) auto
    then have "chunk_obj (m_all_chunks s) cid \<noteq> None" using known by (fastforce simp: inventory_def)
    then obtain k x rest where "m_all_chunks s = (k, x) # rest" by (cases "m_all_chunks s") (auto simp: chunk_obj_def)
    then show thesis using sel_rel_head [OF rel] that by blast
  qed
  have len: "length cids \<le> chunks_for sz (chunk_bytes c0)" using cids(3) head_sized [OF B all] by simp
  obtain s' where s': "recover_chunks n pdev sz cids s = Inr (True, s')" "sel_rel s' (move (set cids) (Owned n) L)" "vol_ids s' n = cids"
    using recover_chunks_refines [OF rel new all cids(1,2) len free] by blast
  have loop: "recover_loop n pdev 0 cids (replicate (chunks_for sz B) None) (m_all_chunks s) (m_per_dev_chunks s) =
      Inr (True, map Some cids @ replicate (chunks_for sz B - length cids) None, set_ordinals cids n (m_all_chunks s), fold (unpool pdev) cids (m_per_dev_chunks s))"
    using recover_loop_eq [of cids 0 "replicate (chunks_for sz B) None" "m_per_dev_chunks s" pdev "m_all_chunks s" n] cids free
      objs_okD [OF objs free] pools_okD [OF pools] by fastforce
  have eq: "s' = s\<lparr>m_all_chunks := set_ordinals cids n (m_all_chunks s), m_per_dev_chunks := fold (unpool pdev) cids (m_per_dev_chunks s),
      m_volume_chunks := (m_volume_chunks s)(n \<mapsto> \<lparr>m_chunks = map Some cids @ replicate (chunks_for sz B - length cids) None, max_num_chunks = chunks_for sz B,
        num_active_chunks = length cids, m_next_chunk_index = 0, vc_ordinal = n, vc_pdev = pdev\<rparr>)\<rparr>"
    using s'(1) new all loop head_sized [OF B all] objs objs_ok_head [of k c0 rest L] by (simp add: recover_chunks_def Let_def)
  moreover have "none_lost s'" using s'(2) there unfolding none_lost_def by (auto simp: move_def split: if_splits)
  ultimately have "none_lost s'" "inventory s' = inventory s" "shape s' n = Some (pdev, chunks_for sz B)" "\<forall>m. m \<noteq> n \<longrightarrow> m_volume_chunks s' m = m_volume_chunks s m"
    by (simp_all add: inventory_def fun_eq_iff inventory_set_ordinals shape_def)
  then show ?thesis using s' by blast
qed

section \<open>Taking many volumes back\<close>

text \<open>What is on record for one volume: its ordinal, its device, its size and its chunks.\<close>

type_synonym claim = "nat \<times> pdev_id_t \<times> u64 \<times> chunk_num_t list"

definition claim_chunks :: "claim \<Rightarrow> chunk_num_t list" where
  "claim_chunks c = snd (snd (snd c))"

fun claim_ok :: "u64 \<Rightarrow> (chunk_num_t \<Rightarrow> (pdev_id_t \<times> u64) option) \<Rightarrow> claim \<Rightarrow> bool" where
  "claim_ok B ivt (n, p, sz, cids) \<longleftrightarrow>
     n < MAX_NUM_VOLUMES \<and> distinct cids \<and> cids \<noteq> [] \<and> length cids \<le> chunks_for sz B \<and> (\<forall>cid\<in>set cids. ivt cid = Some (p, B))"

definition recoverable :: "u64 \<Rightarrow> (chunk_num_t \<Rightarrow> (pdev_id_t \<times> u64) option) \<Rightarrow> claim list \<Rightarrow> bool" where
  "recoverable B ivt cl \<longleftrightarrow> distinct (map fst cl) \<and> (\<forall>c\<in>set cl. claim_ok B ivt c) \<and>
     (\<forall>c\<in>set cl. \<forall>c'\<in>set cl. fst c \<noteq> fst c' \<longrightarrow> set (claim_chunks c) \<inter> set (claim_chunks c') = {})"

definition taken :: "u64 \<Rightarrow> (chunk_num_t \<Rightarrow> (pdev_id_t \<times> u64) option) \<Rightarrow> claim list \<Rightarrow> selector \<Rightarrow> bool" where
  "taken B ivt cl s \<longleftrightarrow> none_lost s \<and> inventory s = ivt \<and> (\<forall>n. m_volume_chunks s n \<noteq> None \<longleftrightarrow> n \<in> fst ` set cl) \<and>
     (\<forall>(n, p, sz, cids)\<in>set cl. vol_ids s n = cids \<and> shape s n = Some (p, chunks_for sz B))"

lemma recover_one:
  assumes rc: "recoverable B ivt (cl @ [(n, p, sz, cids)])" and tk: "taken B ivt cl s" and B: "\<forall>cid p b. ivt cid = Some (p, b) \<longrightarrow> b = B"
  shows "\<exists>s'. recover_chunks n p sz cids s = Inr (True, s') \<and> taken B ivt (cl @ [(n, p, sz, cids)]) s'"
proof -
  have L: "none_lost s" using tk by (simp add: taken_def)
  have ivt: "inventory s = ivt" and vols: "\<And>m. m_volume_chunks s m \<noteq> None \<longleftrightarrow> m \<in> fst ` set cl" using tk by (simp_all add: taken_def)
  have ids: "vol_ids s m = ds \<and> shape s m = Some (q, chunks_for z B)" if "(m, q, z, ds) \<in> set cl" for m q z ds
    using tk that unfolding taken_def by (elim conjE) (drule bspec, assumption, simp)
  have c: "n < MAX_NUM_VOLUMES" "distinct cids" "cids \<noteq> []" "length cids \<le> chunks_for sz B" "\<And>cid. cid \<in> set cids \<Longrightarrow> ivt cid = Some (p, B)"
    using rc by (auto simp: recoverable_def)
  have new: "m_volume_chunks s n = None" "n \<notin> fst ` set cl" using rc vols [of n] by (auto simp: recoverable_def)
  have disj: "cid \<notin> set (vol_ids s m)" if cid: "cid \<in> set cids" for cid m
  proof (cases "m \<in> fst ` set cl")
    case True
    then obtain q z ds where m: "(m, q, z, ds) \<in> set cl" by force
    then have "m \<noteq> n" using new(2) by force
    then have "set ds \<inter> set cids = {}" using rc m unfolding recoverable_def claim_chunks_def by fastforce
    then show ?thesis using ids [OF m] cid by blast
  next
    case False
    then show ?thesis using vols [of m] by (simp add: vol_ids_def)
  qed
  have "sized B s" using B ivt by (simp add: sized_def)
  then obtain s' where s': "recover_chunks n p sz cids s = Inr (True, s')" "none_lost s'" "inventory s' = inventory s" "vol_ids s' n = cids"
    "shape s' n = Some (p, chunks_for sz B)" "\<forall>m. m \<noteq> n \<longrightarrow> m_volume_chunks s' m = m_volume_chunks s m"
    using recover_next [OF L _ new(1) c(1-4)] c(5) ivt disj by metis
  have "m_volume_chunks s' m \<noteq> None \<longleftrightarrow> m \<in> fst ` set (cl @ [(n, p, sz, cids)])" for m
    using s'(5,6) vols [of m] by (cases "m = n") (auto simp: shape_def)
  moreover have "vol_ids s' m = ds \<and> shape s' m = Some (q, chunks_for z B)" if "(m, q, z, ds) \<in> set cl" for m q z ds
    using that ids [OF that] s'(6) new(2) by (force simp: vol_ids_def shape_def)
  ultimately have "taken B ivt (cl @ [(n, p, sz, cids)]) s'" using s' ivt unfolding taken_def by auto
  then show ?thesis using s'(1) by blast
qed

lemma recoverable_prefix: "recoverable B ivt (cl @ ds) \<Longrightarrow> recoverable B ivt cl"
  unfolding recoverable_def by simp

section \<open>What a volume of a selector looks like\<close>

lemma owned_chunks:
  assumes rel: "sel_rel s L" and B: "sized B s" and v: "shape s n = Some (p, mx)"
  shows "distinct (vol_ids s n) \<and> vol_ids s n \<noteq> [] \<and> length (vol_ids s n) \<le> mx \<and> n < MAX_NUM_VOLUMES \<and>
    (\<forall>cid\<in>set (vol_ids s n). inventory s cid = Some (p, B)) \<and> (\<forall>m. m \<noteq> n \<longrightarrow> set (vol_ids s m) \<inter> set (vol_ids s n) = {})"
proof -
  obtain w where w: "m_volume_chunks s n = Some w" "vc_pdev w = p" "max_num_chunks w = mx" using v by (auto simp: shape_def)
  have vols: "vols_ok s L" using rel by (simp add: sel_rel_def)
  then have wf: "volc_wf w" "n < MAX_NUM_VOLUMES" using w(1) by (auto simp: vols_ok_def)
  have ids: "vol_ids s n = somes (m_chunks w)" using w(1) by (simp add: vol_ids_def)
  have "inventory s cid = Some (p, B)" if cid: "cid \<in> set (vol_ids s n)" for cid
  proof -
    obtain c where c: "chunk_obj (m_all_chunks s) cid = Some c" "get_pdev_id c = p" using vol_pdev [OF rel w(1), of cid] cid ids w(2) by auto
    then have "inventory s cid = Some (p, chunk_bytes c)" by (simp add: inventory_def)
    then show ?thesis using B by (auto simp: sized_def)
  qed
  moreover have "set (vol_ids s m) \<inter> set (vol_ids s n) = {}" if "m \<noteq> n" for m
    using vols_okD [OF vols, of _ m] vols_okD [OF vols, of _ n] that by auto
  moreover have "vol_ids s n \<noteq> []" using wf(1) ids by (auto simp: volc_wf_def)
  ultimately show ?thesis using wf ids w(3) by (auto simp: volc_wf_def)
qed

text \<open>Filling a selector with chunks of distinct ids.\<close>

lemma add_chunks_map:
  assumes "distinct (map get_chunk_id cs)"
  shows "(\<forall>n. m_volume_chunks (fold add_chunk cs VolumeChunkSelector) n = None) \<and> pending_resizes (fold add_chunk cs VolumeChunkSelector) = [] \<and>
    map_of (m_all_chunks (fold add_chunk cs VolumeChunkSelector)) = map_of (map (\<lambda>c. (get_chunk_id c, Some (hb_chunk c))) cs)"
  using assms
proof (induction cs rule: rev_induct)
  case Nil
  show ?case by (simp add: VolumeChunkSelector_def)
next
  case (snoc c cs)
  let ?s = "fold add_chunk cs VolumeChunkSelector"
  have IH: "map_of (m_all_chunks ?s) = map_of (map (\<lambda>c. (get_chunk_id c, Some (hb_chunk c))) cs)" using snoc by auto
  then have none: "map_of (m_all_chunks ?s) (get_chunk_id c) = None" using snoc.prems by (simp add: map_of_eq_None_iff image_iff)
  have "map_of (m_all_chunks (add_chunk c ?s)) = map_of (map (\<lambda>c. (get_chunk_id c, Some (hb_chunk c))) (cs @ [c]))"
  proof
    fix k
    show "map_of (m_all_chunks (add_chunk c ?s)) k = map_of (map (\<lambda>c. (get_chunk_id c, Some (hb_chunk c))) (cs @ [c])) k"
      using none IH by (auto simp: add_chunk_def map_of_emplace map_add_def split: option.split)
  qed
  moreover have "m_volume_chunks (add_chunk c ?s) = m_volume_chunks ?s" "pending_resizes (add_chunk c ?s) = pending_resizes ?s"
    by (simp_all add: add_chunk_def)
  ultimately show ?case using snoc by simp
qed

lemma add_chunks_run:
  assumes "distinct (map get_chunk_id cs)" "\<forall>c\<in>set cs. chunk_bytes c \<noteq> 0"
  shows "sel_run (fold add_chunk cs VolumeChunkSelector) 0"
  using assms
proof (induction cs rule: rev_induct)
  case Nil
  then show ?case using sel_run.start by simp
next
  case (snoc c cs)
  let ?s = "fold add_chunk cs VolumeChunkSelector"
  have m: "pending_resizes ?s = []" "map_of (m_all_chunks ?s) (get_chunk_id c) = None"
    using add_chunks_map [of cs] snoc.prems by (auto simp: map_of_eq_None_iff)
  have "sel_run (add_chunk c ?s) (0 + stale_chunks ?s (add_chunk c ?s))"
    using snoc by (intro sel_run.step [OF _ sel_step.add [OF m(2)]]) auto
  then show ?case using m(1) by (simp add: stale_chunks_def)
qed

lemma inventory_add_chunks:
  assumes "distinct (map get_chunk_id cs)"
  shows "inventory (fold add_chunk cs VolumeChunkSelector) = map_of (map (\<lambda>c. (get_chunk_id c, get_pdev_id c, chunk_bytes c)) cs)"
proof
  fix cid
  have "map_of (map (\<lambda>c. (get_chunk_id c, Some (hb_chunk c))) cs) cid = map_option (\<lambda>c. Some (hb_chunk c)) (map_of (map (\<lambda>c. (get_chunk_id c, c)) cs) cid)"
    "map_of (map (\<lambda>c. (get_chunk_id c, get_pdev_id c, chunk_bytes c)) cs) cid = map_option (\<lambda>c. (get_pdev_id c, chunk_bytes c)) (map_of (map (\<lambda>c. (get_chunk_id c, c)) cs) cid)"
    by (induction cs) auto
  then show "inventory (fold add_chunk cs VolumeChunkSelector) cid = map_of (map (\<lambda>c. (get_chunk_id c, get_pdev_id c, chunk_bytes c)) cs) cid"
    using add_chunks_map [OF assms] by (cases "map_of (map (\<lambda>c. (get_chunk_id c, c)) cs) cid") (simp_all add: inventory_def chunk_obj_def hb_chunk_def)
qed

text \<open>The chunks of a device that a selector has been filled from have a size; filled anew they have it again.\<close>

lemma inventory_sized:
  assumes "distinct (map get_chunk_id cs)" "inventory (fold add_chunk cs VolumeChunkSelector) = inventory s" "sel_rel s L" "c \<in> set cs"
  shows "chunk_bytes c \<noteq> 0"
proof -
  have "inventory s (get_chunk_id c) = Some (get_pdev_id c, chunk_bytes c)"
    using inventory_add_chunks [OF assms(1)] assms(1,2,4) by (auto simp: comp_def intro!: map_of_is_SomeI)
  then obtain d where "chunk_obj (m_all_chunks s) (get_chunk_id c) = Some d" "chunk_bytes d = chunk_bytes c" by (auto simp: inventory_def)
  then show ?thesis using objs_ok_bytes assms(3) unfolding sel_rel_def by metis
qed

text \<open>A filled selector without volumes.\<close>

lemma taken_fresh:
  assumes "distinct (map get_chunk_id cs)" "\<forall>c\<in>set cs. chunk_bytes c \<noteq> 0"
  shows "taken B (inventory (fold add_chunk cs VolumeChunkSelector)) [] (fold add_chunk cs VolumeChunkSelector)"
  using add_chunks_map [OF assms(1)] sel_run_none_lost [OF add_chunks_run [OF assms]] by (auto simp: taken_def)

end
