(* ===== verification/Manager_Disk.thy ===== *)
theory Manager_Disk
  imports Manager_Grow Manager_Start Chunk_Shape
begin

text \<open>
  What the manager keeps on the devices: every volume of the map has a superblock and an index table from which it can be taken back, and there is nothing else. A second
  invariant of the manager, beside \<open>mgr_inv\<close>, that a restart relies on. \<open>Bv\<close> and \<open>Bi\<close> are the sizes of the chunks of the data and of the index service.
\<close>

section \<open>The invariant\<close>

definition vol_disk :: "u64 \<Rightarrow> u64 \<Rightarrow> storage \<Rightarrow> volume \<Rightarrow> bool" where
  "vol_disk Bv Bi st v \<longleftrightarrow>
     (\<exists>sb tbl. vol_sb v = Some sb \<and> indx_tbl v = Some tbl \<and> ix_ordinal tbl = vi_ordinal (vol_info v) \<and> ix_parent_uuid tbl = vi_id (vol_info v) \<and>
        shape (volume_chunk_selector st) (vi_ordinal (vol_info v)) = Some (sb_pdev_id sb, chunks_for (vi_size_bytes (vol_info v)) Bv) \<and>
        shape (index_chunk_selector st) (vi_ordinal (vol_info v)) = Some (ix_pdev_id tbl, chunks_for (ix_max_size_bytes tbl) Bi)) \<and>
     (vol_rd v \<noteq> None \<longrightarrow> vi_id (vol_info v) \<in> set (repl_devs st))"

definition good_sb :: "homeblks_sb_t option \<Rightarrow> bool" where
  "good_sb s = (case s of None \<Rightarrow> False | Some sb \<Rightarrow> hsb_version sb = HB_SB_VER \<and> hsb_magic sb = HB_SB_MAGIC)"

definition names_ok :: "'r homeblks \<Rightarrow> bool" where
  "names_ok hb \<longleftrightarrow> distinct (map fst (vol_map hb)) \<and>
     (\<forall>i h. (i, h) \<in> set (vol_map hb) \<longrightarrow> (\<exists>v. objs hb h = Some v \<and> vi_id (vol_info v) = i)) \<and>
     (\<forall>i h j k v w. (i, h) \<in> set (vol_map hb) \<longrightarrow> (j, k) \<in> set (vol_map hb) \<longrightarrow> objs hb h = Some v \<longrightarrow> objs hb k = Some w \<longrightarrow>
        vi_ordinal (vol_info v) = vi_ordinal (vol_info w) \<longrightarrow> i = j)"

definition mgr_disk :: "u64 \<Rightarrow> u64 \<Rightarrow> 'r homeblks \<Rightarrow> bool" where
  "mgr_disk Bv Bi hb \<longleftrightarrow>
     (let st = hs hb in
      sized Bv (volume_chunk_selector st) \<and> sized Bi (index_chunk_selector st) \<and>
      (\<forall>i h v. (i, h) \<in> set (vol_map hb) \<longrightarrow> objs hb h = Some v \<longrightarrow> vol_disk Bv Bi st v) \<and>
      distinct (index_tables st) \<and> (\<forall>tbl\<in>set (index_tables st). \<exists>i h v. (i, h) \<in> set (vol_map hb) \<and> objs hb h = Some v \<and> indx_tbl v = Some tbl) \<and>
      (\<forall>h. vol_meta st h \<noteq> None \<longrightarrow> h \<in> snd ` set (vol_map hb)) \<and> good_sb (hb_sb hb) \<and> good_sb (hb_meta hb))"

lemma mgr_inv_names: "mgr_inv rs (hb, fl) \<Longrightarrow> names_ok hb"
  unfolding names_ok_def using mgr_invD(3,6,7) [of rs hb fl] by (fastforce simp: vol_ok_def Let_def)

lemma names_obj: "names_ok hb \<Longrightarrow> (i, h) \<in> set (vol_map hb) \<Longrightarrow> \<exists>v. objs hb h = Some v \<and> vi_id (vol_info v) = i"
  by (simp add: names_ok_def)

lemma names_okD:
  assumes "names_ok hb" "(i, h) \<in> set (vol_map hb)" "(j, k) \<in> set (vol_map hb)" "objs hb h = Some v" "objs hb k = Some w"
  shows "h = k \<longleftrightarrow> i = j" "vi_ordinal (vol_info v) = vi_ordinal (vol_info w) \<longleftrightarrow> i = j" "vi_id (vol_info v) = i"
proof -
  have ij: "i = j \<Longrightarrow> h = k" using assms(1-3) unfolding names_ok_def by (metis eq_key_imp_eq_value)
  have hk: "h = k \<Longrightarrow> i = j" using assms unfolding names_ok_def by (metis option.inject)
  show "h = k \<longleftrightarrow> i = j" using ij hk by blast
  have "vi_ordinal (vol_info v) = vi_ordinal (vol_info w) \<Longrightarrow> i = j" using assms unfolding names_ok_def by blast
  then show "vi_ordinal (vol_info v) = vi_ordinal (vol_info w) \<longleftrightarrow> i = j" using ij assms(4,5) by auto
  show "vi_id (vol_info v) = i" using assms(1,2,4) unfolding names_ok_def by (metis option.inject)
qed

lemma mgr_diskD:
  assumes "mgr_disk Bv Bi hb"
  shows "sized Bv (volume_chunk_selector (hs hb))" "sized Bi (index_chunk_selector (hs hb))"
    "(i, h) \<in> set (vol_map hb) \<Longrightarrow> objs hb h = Some v \<Longrightarrow> vol_disk Bv Bi (hs hb) v" "distinct (index_tables (hs hb))"
    "tbl \<in> set (index_tables (hs hb)) \<Longrightarrow> \<exists>i h v. (i, h) \<in> set (vol_map hb) \<and> objs hb h = Some v \<and> indx_tbl v = Some tbl"
    "vol_meta (hs hb) h \<noteq> None \<Longrightarrow> h \<in> snd ` set (vol_map hb)" "good_sb (hb_sb hb)" "good_sb (hb_meta hb)"
  using assms unfolding mgr_disk_def Let_def by blast+

lemma mgr_diskI:
  assumes "sized Bv (volume_chunk_selector (hs hb))" "sized Bi (index_chunk_selector (hs hb))"
    "\<And>i h v. (i, h) \<in> set (vol_map hb) \<Longrightarrow> objs hb h = Some v \<Longrightarrow> vol_disk Bv Bi (hs hb) v" "distinct (index_tables (hs hb))"
    "\<And>tbl. tbl \<in> set (index_tables (hs hb)) \<Longrightarrow> \<exists>i h v. (i, h) \<in> set (vol_map hb) \<and> objs hb h = Some v \<and> indx_tbl v = Some tbl"
    "\<And>h. vol_meta (hs hb) h \<noteq> None \<Longrightarrow> h \<in> snd ` set (vol_map hb)" "good_sb (hb_sb hb)" "good_sb (hb_meta hb)"
  shows "mgr_disk Bv Bi hb"
  unfolding mgr_disk_def Let_def using assms by blast

section \<open>Changing one part of the state\<close>

text \<open>The storage is the same for the volume of ordinal \<open>n\<close> and name \<open>i\<close>.\<close>

definition disk_for :: "storage \<Rightarrow> storage \<Rightarrow> nat \<Rightarrow> volume_id_t \<Rightarrow> bool" where
  "disk_for st st' n i \<longleftrightarrow>
     shape (volume_chunk_selector st') n = shape (volume_chunk_selector st) n \<and> shape (index_chunk_selector st') n = shape (index_chunk_selector st) n \<and>
     (i \<in> set (repl_devs st) \<longrightarrow> i \<in> set (repl_devs st'))"

definition same_inventory :: "storage \<Rightarrow> storage \<Rightarrow> bool" where
  "same_inventory st st' \<longleftrightarrow> inventory (volume_chunk_selector st') = inventory (volume_chunk_selector st) \<and>
     inventory (index_chunk_selector st') = inventory (index_chunk_selector st)"

lemma disk_for_refl [simp]: "disk_for st st n i" "same_inventory st st"
  by (simp_all add: disk_for_def same_inventory_def)

lemma same_inventory_sized:
  assumes "same_inventory st st'" "sized Bv (volume_chunk_selector st)" "sized Bi (index_chunk_selector st)"
  shows "sized Bv (volume_chunk_selector st')" "sized Bi (index_chunk_selector st')"
  using assms unfolding same_inventory_def sized_def by simp_all

lemma disk_for_meta [simp]:
  "disk_for st (st'\<lparr>vol_meta := f\<rparr>) n i = disk_for st st' n i" "same_inventory st (st'\<lparr>vol_meta := f\<rparr>) = same_inventory st st'"
  "same_inventory st (st'\<lparr>repl_devs := l\<rparr>) = same_inventory st st'"
  by (simp_all add: disk_for_def same_inventory_def)

lemma vol_disk_same: "vol_disk Bv Bi st v \<Longrightarrow> disk_for st st' (vi_ordinal (vol_info v)) (vi_id (vol_info v)) \<Longrightarrow> vol_disk Bv Bi st' v"
  unfolding vol_disk_def disk_for_def by metis

lemma disk_change:
  assumes names: "names_ok hb" and disk: "mgr_disk Bv Bi hb" and e: "(i, h) \<in> set (vol_map hb)" "objs hb h = Some v"
    and hb': "objs hb' = (objs hb)(h \<mapsto> v')" "vol_map hb' = vol_map hb" "hb_sb hb' = hb_sb hb" "hb_meta hb' = hb_meta hb"
      "vol_info v' = vol_info v" "indx_tbl v' = indx_tbl v"
    and st: "same_inventory (hs hb) (hs hb')" "\<And>n j. n \<noteq> vi_ordinal (vol_info v) \<Longrightarrow> j \<noteq> i \<Longrightarrow> disk_for (hs hb) (hs hb') n j"
      "index_tables (hs hb') = index_tables (hs hb)" "\<And>k. k \<noteq> h \<Longrightarrow> vol_meta (hs hb') k = vol_meta (hs hb) k"
    and vd: "vol_disk Bv Bi (hs hb') v'"
  shows "mgr_disk Bv Bi hb' \<and> names_ok hb'"
proof
  note D = mgr_diskD [OF disk]
  have hin: "h \<in> snd ` set (vol_map hb)" using e(1) by force
  have vols: "vol_disk Bv Bi (hs hb') w" if w: "(j, k) \<in> set (vol_map hb')" "objs hb' k = Some w" for j k w
  proof (cases "k = h")
    case True
    then show ?thesis using w(2) hb'(1) vd by simp
  next
    case False
    then have w': "(j, k) \<in> set (vol_map hb)" "objs hb k = Some w" using w hb'(1,2) by simp_all
    note N = names_okD [OF names w'(1) e(1) w'(2) e(2)]
    show ?thesis using vol_disk_same [OF D(3) [OF w'] st(2)] N False by blast
  qed
  have tables: "\<exists>i h v. (i, h) \<in> set (vol_map hb') \<and> objs hb' h = Some v \<and> indx_tbl v = Some tbl" if t: "tbl \<in> set (index_tables (hs hb'))" for tbl
  proof -
    obtain j k w where w: "(j, k) \<in> set (vol_map hb)" "objs hb k = Some w" "indx_tbl w = Some tbl" using D(5) [of tbl] t st(3) by auto
    then show ?thesis using e(2) hb'(1,2,6) by (cases "k = h") (auto intro!: exI [of _ j] exI [of _ k])
  qed
  have meta: "k \<in> snd ` set (vol_map hb')" if "vol_meta (hs hb') k \<noteq> None" for k
    using that st(4) [of k] D(6) [of k] hin hb'(2) by (cases "k = h") auto
  note S = same_inventory_sized [OF st(1) D(1,2)]
  show "mgr_disk Bv Bi hb'" by (rule mgr_diskI [OF S]) (use D(4,7,8) st(3) hb'(3,4) vols tables meta in simp_all)
  have old: "\<exists>w. objs hb k = Some w \<and> vol_info w = vol_info w'" if "objs hb' k = Some w'" for k w' using that hb'(1,5) e(2) by (auto split: if_splits)
  have new: "\<exists>w'. objs hb' k = Some w' \<and> vol_info w' = vol_info w" if "objs hb k = Some w" for k w using that hb'(1,5) e(2) by auto
  show "names_ok hb'"
    unfolding names_ok_def hb'(2)
  proof (intro conjI allI impI)
    show "distinct (map fst (vol_map hb))" using names by (simp add: names_ok_def)
    show "\<exists>w. objs hb' k = Some w \<and> vi_id (vol_info w) = j" if "(j, k) \<in> set (vol_map hb)" for j k
      using names that new unfolding names_ok_def by metis
    show "j = j'" if "(j, k) \<in> set (vol_map hb)" "(j', k') \<in> set (vol_map hb)" "objs hb' k = Some w" "objs hb' k' = Some w'"
      "vi_ordinal (vol_info w) = vi_ordinal (vol_info w')" for j k j' k' w w'
      using old [OF that(3)] old [OF that(4)] that names_okD(2) [OF names that(1,2)] by metis
  qed
qed

lemma disk_same:
  assumes disk: "mgr_disk Bv Bi hb" and hb': "objs hb' = objs hb" "vol_map hb' = vol_map hb" "good_sb (hb_sb hb')" "good_sb (hb_meta hb')"
    and st: "same_inventory (hs hb) (hs hb')" "index_tables (hs hb') = index_tables (hs hb)" "vol_meta (hs hb') = vol_meta (hs hb)"
      "\<And>i h v. (i, h) \<in> set (vol_map hb) \<Longrightarrow> objs hb h = Some v \<Longrightarrow> disk_for (hs hb) (hs hb') (vi_ordinal (vol_info v)) (vi_id (vol_info v))"
  shows "mgr_disk Bv Bi hb'"
proof -
  note D = mgr_diskD [OF disk]
  have vols: "vol_disk Bv Bi (hs hb') v" if "(i, h) \<in> set (vol_map hb')" "objs hb' h = Some v" for i h v
    using vol_disk_same [OF D(3) st(4)] that hb'(1,2) by metis
  note S = same_inventory_sized [OF st(1) D(1,2)]
  show ?thesis by (rule mgr_diskI [OF S]) (use D(4,5,6) hb' st(2,3) vols in simp_all)
qed

lemma disk_flags:
  "mgr_disk Bv Bi (hb\<lparr>removals := wk\<rparr>) = mgr_disk Bv Bi hb" "mgr_disk Bv Bi (hb\<lparr>shutdown_started := b\<rparr>) = mgr_disk Bv Bi hb"
  "mgr_disk Bv Bi (hb\<lparr>shutdown_promise := b\<rparr>) = mgr_disk Bv Bi hb" "mgr_disk Bv Bi (hb\<lparr>is_restricted := b\<rparr>) = mgr_disk Bv Bi hb"
  "mgr_disk Bv Bi (hb\<lparr>ordinal_reserver := r\<rparr>) = mgr_disk Bv Bi hb" "mgr_disk Bv Bi (hb\<lparr>outstanding_reqs := k\<rparr>) = mgr_disk Bv Bi hb"
  "names_ok (hb\<lparr>removals := wk\<rparr>) = names_ok hb"
  by (simp_all add: mgr_disk_def names_ok_def)

end
