(* ===== verification/Manager_Persist.thy ===== *)
theory Manager_Persist
  imports Manager_Disk
begin

text \<open>
  Every operation of the manager keeps what a restart relies on.
\<close>

section \<open>States and removals\<close>

lemma state_change_disk:
  assumes "vol_disk Bv Bi st v" "state_change h s (v, st) = Inr (v', st')"
  shows "\<exists>f. st' = st\<lparr>vol_meta := f\<rparr> \<and> (\<forall>k. k \<noteq> h \<longrightarrow> f k = vol_meta st k) \<and> vol_disk Bv Bi st' v' \<and> vol_info v' = vol_info v \<and> indx_tbl v' = indx_tbl v"
proof -
  obtain sb where sb: "vol_sb v = Some sb" using assms(1) by (auto simp: vol_disk_def)
  show ?thesis
  proof (cases "sb_state sb = s")
    case True
    then have "v' = v" "st' = st\<lparr>vol_meta := vol_meta st\<rparr>" using assms(2) sb by (simp_all add: state_change_def)
    then show ?thesis using assms(1) by (intro exI [of _ "vol_meta st"]) simp
  next
    case False
    then have "v' = v\<lparr>vol_sb := Some (sb\<lparr>sb_state := s\<rparr>), m_state := s\<rparr>" "st' = st\<lparr>vol_meta := (vol_meta st)(h \<mapsto> sb\<lparr>sb_state := s\<rparr>)\<rparr>"
      using assms(2) sb by (simp_all add: state_change_def Let_def sb_write_def)
    then show ?thesis using assms(1) sb by (intro exI [of _ "(vol_meta st)(h \<mapsto> sb\<lparr>sb_state := s\<rparr>)"]) (simp add: vol_disk_def)
  qed
qed

lemma with_vol_state_change_disk:
  assumes names: "names_ok hb" and disk: "mgr_disk Bv Bi hb" and e: "(i, h) \<in> set (vol_map hb)" and run: "with_vol h (state_change h s) hb = Inr hb'"
  shows "mgr_disk Bv Bi hb' \<and> names_ok hb' \<and> vol_map hb' = vol_map hb"
proof -
  obtain v where v: "objs hb h = Some v" using names_obj [OF names e] by blast
  obtain v' st' where sc: "state_change h s (v, hs hb) = Inr (v', st')" and hb': "hb' = set_vol h (v', st') hb"
    using run v by (auto simp: with_vol_def bind_sum_eq_Inr)
  obtain f where f: "st' = (hs hb)\<lparr>vol_meta := f\<rparr>" "\<forall>k. k \<noteq> h \<longrightarrow> f k = vol_meta (hs hb) k" "vol_disk Bv Bi st' v'" "vol_info v' = vol_info v" "indx_tbl v' = indx_tbl v"
    using state_change_disk [OF mgr_diskD(3) [OF disk e v] sc] by blast
  have "mgr_disk Bv Bi hb' \<and> names_ok hb'"
    by (rule disk_change [OF names disk e v, where v' = v']) (use f hb' in \<open>simp_all add: set_vol_def\<close>)
  then show ?thesis using hb' by (simp add: set_vol_def)
qed

lemma remove_finish_disk:
  assumes names: "names_ok hb" and disk: "mgr_disk Bv Bi hb" and e: "(i, h) \<in> set (vol_map hb)" and run: "remove_finish rs h hb = Inr hb'"
  shows "mgr_disk Bv Bi hb'"
proof -
  note D = mgr_diskD [OF disk]
  obtain v where v: "objs hb h = Some v" "vi_id (vol_info v) = i" using names_obj [OF names e] by blast
  let ?n = "vi_ordinal (vol_info v)"
  obtain tbl where tbl: "indx_tbl v = Some tbl" "ix_ordinal tbl = ?n" using D(3) [OF e v(1)] by (auto simp: vol_disk_def)
  obtain is' vs' where r: "release_chunks ?n (index_chunk_selector (hs hb)) = Inr is'" "release_chunks ?n (volume_chunk_selector (hs hb)) = Inr vs'"
    using run v tbl by (auto simp: remove_finish_def with_vol_def destroy_index_def destroy_finish_def Let_def bind_sum_eq_Inr)
  let ?v = "v\<lparr>indx_tbl := None, vol_sb := None\<rparr>"
  let ?st = "(hs hb)\<lparr>index_tables := removeAll tbl (index_tables (hs hb)), index_chunk_selector := is', vol_meta := (vol_meta (hs hb))(h := None), volume_chunk_selector := vs'\<rparr>"
  have hb': "hb' = hb\<lparr>objs := (objs hb)(h \<mapsto> ?v), hs := ?st, vol_map := map_erase i (vol_map hb), ordinal_reserver := rs_unreserve rs ?n (ordinal_reserver hb)\<rparr>"
    using run v tbl r by (simp add: remove_finish_def with_vol_def destroy_index_def destroy_finish_def set_vol_def Let_def)
  have sh: "same_inventory (hs hb) ?st" "\<And>m j. m \<noteq> ?n \<Longrightarrow> disk_for (hs hb) ?st m j"
    using release_shape [OF r(1)] release_shape [OF r(2)] by (simp_all add: same_inventory_def disk_for_def)
  have other: "(j, k) \<in> set (vol_map hb) \<and> k \<noteq> h \<and> objs hb k = objs hb' k \<and> (\<forall>w. objs hb k = Some w \<longrightarrow> vi_ordinal (vol_info w) \<noteq> ?n)"
    if jk: "(j, k) \<in> set (vol_map hb')" for j k
  proof -
    have jk': "(j, k) \<in> set (vol_map hb)" "j \<noteq> i" using jk hb' by (auto simp: map_erase_set)
    then obtain w where w: "objs hb k = Some w" using names_obj [OF names] by blast
    note N = names_okD [OF names jk'(1) e w v(1)]
    show ?thesis using jk' N w hb' by simp
  qed
  have tables: "\<exists>i h v. (i, h) \<in> set (vol_map hb') \<and> objs hb' h = Some v \<and> indx_tbl v = Some t" if t: "t \<in> set (index_tables (hs hb'))" for t
  proof -
    have t': "t \<in> set (index_tables (hs hb))" "t \<noteq> tbl" using t hb' by auto
    obtain j k w where w: "(j, k) \<in> set (vol_map hb)" "objs hb k = Some w" "indx_tbl w = Some t" using D(5) [OF t'(1)] by blast
    then have "k \<noteq> h" using t'(2) tbl(1) v(1) by auto
    moreover have "j \<noteq> i" using names_okD(1) [OF names w(1) e w(2) v(1)] \<open>k \<noteq> h\<close> by blast
    ultimately show ?thesis using w hb' by (auto simp: map_erase_set intro!: exI [of _ j] exI [of _ k])
  qed
  have meta: "k \<in> snd ` set (vol_map hb')" if k: "vol_meta (hs hb') k \<noteq> None" for k
  proof -
    have k': "k \<noteq> h" "vol_meta (hs hb) k \<noteq> None" using k hb' by (auto split: if_splits)
    then obtain j where j: "(j, k) \<in> set (vol_map hb)" using D(6) by fastforce
    then obtain w where w: "objs hb k = Some w" using names_obj [OF names] by blast
    have "j \<noteq> i" using names_okD(1) [OF names j e w v(1)] k'(1) by blast
    then have "(j, k) \<in> set (vol_map hb')" using j hb' by (simp add: map_erase_set)
    then show ?thesis by force
  qed
  have vd: "vol_disk Bv Bi (hs hb') w" if w: "(j, k) \<in> set (vol_map hb')" "objs hb' k = Some w" for j k w
  proof -
    have o: "(j, k) \<in> set (vol_map hb)" "objs hb k = Some w" "vi_ordinal (vol_info w) \<noteq> ?n" using other [OF w(1)] w(2) by auto
    have "hs hb' = ?st" using hb' by simp
    then show ?thesis using vol_disk_same [OF D(3) [OF o(1,2)] sh(2) [OF o(3)]] by (simp only:)
  qed
  note S = same_inventory_sized [OF sh(1) D(1,2)]
  have "distinct (index_tables (hs hb'))" using D(4) hb' by (simp add: distinct_removeAll)
  then show ?thesis by (intro mgr_diskI vd tables meta) (use S D(7,8) hb' in simp_all)
qed

lemma remove_resume_disk:
  assumes names: "names_ok hb" and disk: "mgr_disk Bv Bi hb" and e: "(i, h) \<in> set (vol_map hb)" and run: "remove_resume rs gone h hb = Inr hb'"
  shows "mgr_disk Bv Bi hb'"
proof -
  obtain v where v: "objs hb h = Some v" "vi_id (vol_info v) = i" using names_obj [OF names e] by blast
  have vd: "vol_disk Bv Bi (hs hb) v" using mgr_diskD(3) [OF disk e v(1)] .
  obtain tbl where tbl: "indx_tbl v = Some tbl" using vd by (auto simp: vol_disk_def)
  obtain v1 st1 where d: "destroy_repl_dev gone (v, hs hb) = (v1, st1)" by (cases "destroy_repl_dev gone (v, hs hb)")
  have "\<exists>l. v1 = v\<lparr>vol_rd := None\<rparr> \<and> st1 = (hs hb)\<lparr>repl_devs := l\<rparr> \<and> (\<forall>j. j \<noteq> i \<longrightarrow> j \<in> set (repl_devs (hs hb)) \<longrightarrow> j \<in> set l)"
  proof (cases "vol_rd v")
    case None
    then show ?thesis using d by (intro exI [of _ "repl_devs (hs hb)"]) (simp add: destroy_repl_dev_def)
  next
    case (Some x)
    then show ?thesis using d v(2)
      by (intro exI [of _ "if gone then removeAll i (repl_devs (hs hb)) else repl_devs (hs hb)"]) (auto simp: destroy_repl_dev_def split: if_splits)
  qed
  then obtain l where l: "v1 = v\<lparr>vol_rd := None\<rparr>" "st1 = (hs hb)\<lparr>repl_devs := l\<rparr>" "\<forall>j. j \<noteq> i \<longrightarrow> j \<in> set (repl_devs (hs hb)) \<longrightarrow> j \<in> set l" by blast
  have hb': "hb' = hb\<lparr>objs := (objs hb)(h \<mapsto> v1), hs := st1, removals := removals hb @ [IndexGone h]\<rparr>"
    using run v(1) d l(1) tbl by (simp add: remove_resume_def with_vol_def set_vol_def)
  have "mgr_disk Bv Bi hb' \<and> names_ok hb'"
    by (rule disk_change [OF names disk e v(1), where v' = v1]) (use l hb' vd in \<open>simp_all add: disk_for_def vol_disk_def\<close>)
  then show ?thesis by blast
qed

lemma do_remove_volume_disk:
  assumes names: "names_ok hb" and disk: "mgr_disk Bv Bi hb" and run: "do_remove_volume rs i hb = Inr hb'"
  shows "mgr_disk Bv Bi hb'"
proof (cases "map_of (vol_map hb) i")
  case None
  then show ?thesis using run disk by (simp add: do_remove_volume_def)
next
  case (Some h)
  then have e: "(i, h) \<in> set (vol_map hb)" by (rule map_of_SomeD)
  obtain hb1 where hb1: "with_vol h (state_change h DESTROYING) hb = Inr hb1" using run Some by (auto simp: do_remove_volume_def bind_sum_eq_Inr)
  have k: "mgr_disk Bv Bi hb1" "names_ok hb1" "(i, h) \<in> set (vol_map hb1)" using with_vol_state_change_disk [OF names disk e hb1] e by auto
  then obtain v where v: "objs hb1 h = Some v" using names_obj by blast
  let ?hb2 = "hb1\<lparr>objs := (objs hb1)(h \<mapsto> destroy_start v)\<rparr>"
  have k2: "mgr_disk Bv Bi ?hb2 \<and> names_ok ?hb2"
    by (rule disk_change [OF k(2,1,3) v, where v' = "destroy_start v"]) (use mgr_diskD(3) [OF k(1,3) v] in \<open>simp_all add: destroy_start_def vol_disk_def\<close>)
  show ?thesis
  proof (cases "can_remove v \<and> vol_rd v = None")
    case True
    then have "remove_resume rs True h ?hb2 = Inr hb'" using run Some hb1 v by (simp add: do_remove_volume_def Let_def)
    then show ?thesis using remove_resume_disk [of ?hb2 Bv Bi i h rs True hb'] k2 k(3) by simp
  next
    case False
    then have "hb' = hb1 \<or> hb' = ?hb2\<lparr>removals := removals hb1 @ [ReplDevGone h]\<rparr>" using run Some hb1 v by (auto simp: do_remove_volume_def Let_def split: if_splits)
    then show ?thesis using k(1) k2 disk_flags(1) by metis
  qed
qed

lemma run_removal_disk:
  assumes inv: "mgr_inv rs (hb, fl)" and disk: "mgr_disk Bv Bi hb" and c: "c \<in> set (removals hb)" and run: "run_removal rs gone c hb = Inr hb'"
  shows "mgr_disk Bv Bi hb'"
proof -
  let ?hb = "hb\<lparr>removals := remove1 c (removals hb)\<rparr>"
  have k: "names_ok ?hb" "mgr_disk Bv Bi ?hb" using mgr_inv_names [OF inv] disk by (simp_all add: disk_flags)
  show ?thesis
  proof (cases c)
    case (DoRemove i)
    then show ?thesis using run do_remove_volume_disk [OF k] by (simp add: run_removal_def)
  next
    case (ReplDevGone h)
    then obtain i where "(i, h) \<in> set (vol_map hb)" using suspended_removal [OF inv c] by blast
    then show ?thesis using run remove_resume_disk [OF k, of i h rs gone] ReplDevGone by (simp add: run_removal_def)
  next
    case (IndexGone h)
    then obtain i where "(i, h) \<in> set (vol_map hb)" using suspended_removal [OF inv c] by blast
    then show ?thesis using run remove_finish_disk [OF k, of i h rs] IndexGone by (simp add: run_removal_def)
  qed
qed

lemma remove_volume_disk: "mgr_disk Bv Bi hb \<Longrightarrow> remove_volume i hb = Inr (r, hb') \<Longrightarrow> mgr_disk Bv Bi hb'"
  by (auto simp: remove_volume_def disk_flags split: if_splits sum.splits option.splits)

lemma vol_gc_disk:
  assumes "mgr_disk Bv Bi hb" "vol_gc hb = Inr hb'"
  shows "mgr_disk Bv Bi hb'"
  by (rule foldl_checked_keeps [where P = "mgr_disk Bv Bi", OF assms(2) [unfolded vol_gc_def] assms(1)]) (auto simp: bind_sum_eq_Inr intro: remove_volume_disk)

section \<open>I/O, growth and fault containment\<close>

lemma objs_disk:
  assumes names: "names_ok hb" and disk: "mgr_disk Bv Bi hb" and e: "(i, h) \<in> set (vol_map hb)" "objs hb h = Some v"
  shows "mgr_disk Bv Bi (hb\<lparr>objs := (objs hb)(h \<mapsto> v\<lparr>vol_outstanding := k\<rparr>)\<rparr>)"
proof -
  have "mgr_disk Bv Bi (hb\<lparr>objs := (objs hb)(h \<mapsto> v\<lparr>vol_outstanding := k\<rparr>)\<rparr>) \<and> names_ok (hb\<lparr>objs := (objs hb)(h \<mapsto> v\<lparr>vol_outstanding := k\<rparr>)\<rparr>)"
    by (rule disk_change [OF names disk e, where v' = "v\<lparr>vol_outstanding := k\<rparr>"]) (use mgr_diskD(3) [OF disk e] in \<open>simp_all add: vol_disk_def\<close>)
  then show ?thesis by blast
qed

lemma selector_disk:
  assumes disk: "mgr_disk Bv Bi hb" and vs: "inventory vs = inventory (volume_chunk_selector (hs hb))" "shape vs = shape (volume_chunk_selector (hs hb))"
    and ixs: "inventory is' = inventory (index_chunk_selector (hs hb))" "shape is' = shape (index_chunk_selector (hs hb))"
  shows "mgr_disk Bv Bi (hb\<lparr>hs := (hs hb)\<lparr>volume_chunk_selector := vs, index_chunk_selector := is'\<rparr>\<rparr>)"
  by (rule disk_same [OF disk]) (use assms mgr_diskD(7,8) [OF disk] in \<open>simp_all add: same_inventory_def disk_for_def\<close>)

lemma run_volume_resize_disk:
  assumes inv: "mgr_inv rs (hb, fl)" and disk: "mgr_disk Bv Bi hb" and run: "run_volume_resize sa hb = Inr hb'"
  shows "mgr_disk Bv Bi hb'"
proof -
  let ?s = "volume_chunk_selector (hs hb)"
  obtain s' where s': "run_pending_resize ?s = Inr s'" using run by (auto simp: run_volume_resize_def Let_def bind_sum_eq_Inr)
  let ?hb1 = "hb\<lparr>hs := (hs hb)\<lparr>volume_chunk_selector := s'\<rparr>\<rparr>"
  have "mgr_disk Bv Bi ?hb1" using selector_disk [OF disk, of s' "index_chunk_selector (hs hb)"] resize_shape [OF s'] by simp
  moreover have "names_ok ?hb1" using mgr_inv_names [OF inv] by (simp add: names_ok_def)
  moreover have fold: "foldl (\<lambda>r e. bind_sum r ((\<lambda>(n, ids). update_vol_sb_cb sa n ids) e)) (Inr ?hb1) (drop (length (sb_updates ?s)) (sb_updates s')) = Inr hb'"
    using run s' by (simp add: run_volume_resize_def case_prod_beta')
  ultimately have "mgr_disk Bv Bi ?hb1 \<and> names_ok ?hb1" by blast
  with fold have "mgr_disk Bv Bi hb' \<and> names_ok hb'"
  proof (rule foldl_checked_keeps [where P = "\<lambda>x. mgr_disk Bv Bi x \<and> names_ok x"])
    fix ev x x' assume x: "mgr_disk Bv Bi x \<and> names_ok x" and "(\<lambda>(n, ids). update_vol_sb_cb sa n ids) ev x = Inr x'"
    then obtain n ids i h where f: "List.find (\<lambda>(_, h). case objs x h of None \<Rightarrow> False | Some v \<Rightarrow> vi_ordinal (vol_info v) = n) (vol_map x) = Some (i, h)"
      and w: "with_vol h (vol_update_vol_sb_cb sa h ids) x = Inr x'" by (auto simp: update_vol_sb_cb_def split: option.splits prod.splits)
    obtain v where v: "(i, h) \<in> set (vol_map x)" "objs x h = Some v" using find_ordinal [OF f] .
    have vd: "vol_disk Bv Bi (hs x) v" using mgr_diskD(3) x v by blast
    then obtain sb where sb: "vol_sb v = Some sb" by (auto simp: vol_disk_def)
    let ?sb = "sb_of_info (vol_info v) (sb_pdev_id sb) ids (sb_resized sa sb)"
    have x': "x' = set_vol h (v\<lparr>vol_sb := Some ?sb\<rparr>, sb_write h ?sb (hs x)) x" using w v(2) sb by (simp add: with_vol_def vol_update_vol_sb_cb_def Let_def)
    show "mgr_disk Bv Bi x' \<and> names_ok x'"
      by (rule disk_change [OF conjunct2 [OF x] conjunct1 [OF x] v, where v' = "v\<lparr>vol_sb := Some ?sb\<rparr>"]) (use x' vd sb in \<open>simp_all add: set_vol_def sb_write_def vol_disk_def\<close>)
  qed
  then show ?thesis by blast
qed

lemma on_fault_containment_disk:
  assumes inv: "mgr_inv rs (hb, fl)" and disk: "mgr_disk Bv Bi hb" and run: "on_fault_containment ev cookie hb = Inr hb'"
  shows "mgr_disk Bv Bi hb'"
proof (cases "ev = FC_ENTER_GLOBAL")
  case True
  obtain sb where sb: "hb_sb hb = Some sb" "hsb_version sb = HB_SB_VER" "hsb_magic sb = HB_SB_MAGIC" using mgr_diskD(7) [OF disk] by (auto simp: good_sb_def split: option.splits)
  let ?sb = "set_flag SB_FLAGS_RESTRICTED sb"
  have hb': "hb' = hb\<lparr>hb_sb := Some ?sb, hb_meta := Some ?sb, is_restricted := True\<rparr>" using run True sb(1) by (simp add: on_fault_containment_def fault_containment_def Let_def)
  show ?thesis by (rule disk_same [OF disk]) (use hb' sb(2,3) in \<open>simp_all add: good_sb_def set_flag_def\<close>)
next
  case False
  show ?thesis
  proof (cases "\<exists>i h. cookie = Some i \<and> map_of (vol_map hb) i = Some h")
    case True
    then obtain i h where c: "cookie = Some i" "map_of (vol_map hb) i = Some h" by blast
    then obtain s where "with_vol h (state_change h s) hb = Inr hb'"
      using run False by (auto simp: on_fault_containment_def get_volume_def fault_containment_def exit_fc_def split: if_splits) (metis fc_event.exhaust)
    then show ?thesis using with_vol_state_change_disk [OF mgr_inv_names [OF inv] disk map_of_SomeD [OF c(2)]] by blast
  next
    case none: False
    have "hb' = hb" using run False none by (auto simp: on_fault_containment_def get_volume_def split: option.splits)
    then show ?thesis using disk by simp
  qed
qed

section \<open>Creating\<close>

lemma init_index_table_new_disk:
  assumes rel: "sel_rel (index_chunk_selector st) L" and B: "sized Bi (index_chunk_selector st)" and new: "m_volume_chunks (index_chunk_selector st) (vi_ordinal (vol_info v)) = None"
    and run: "init_index_table_new env (v, st) = Inr (ok, v', st')"
  shows "\<exists>isel. inventory isel = inventory (index_chunk_selector st) \<and> (\<forall>m. m \<noteq> vi_ordinal (vol_info v) \<longrightarrow> shape isel m = shape (index_chunk_selector st) m) \<and>
    (if ok then \<exists>tbl. v' = v\<lparr>indx_tbl := Some tbl\<rparr> \<and> st' = st\<lparr>index_chunk_selector := isel, index_tables := index_tables st @ [tbl]\<rparr> \<and>
         ix_ordinal tbl = vi_ordinal (vol_info v) \<and> ix_parent_uuid tbl = vi_id (vol_info v) \<and>
         shape isel (vi_ordinal (vol_info v)) = Some (ix_pdev_id tbl, chunks_for (ix_max_size_bytes tbl) Bi)
     else v' = v \<and> st' = st\<lparr>index_chunk_selector := isel\<rparr>)"
proof -
  let ?n = "vi_ordinal (vol_info v)"
  obtain sz where sz: "get_index_size (vol_info v) = Inr sz" using run by (auto simp: init_index_table_new_def Let_def bind_sum_eq_Inr)
  obtain cids p' s' where a: "allocate_init_chunks ?n sz (ce_pdev env) False (index_chunk_selector st) = Inr (cids, p', s')"
    using run sz by (auto simp: init_index_table_new_def Let_def bind_sum_eq_Inr)
  show ?thesis using run sz a alloc_shape [OF rel a B new] by (intro exI [of _ s']) (cases "cids = []"; auto simp: init_index_table_new_def Let_def)
qed

lemma volume_init_new_disk:
  assumes sel: "sel_rel (volume_chunk_selector st) Lv" "sel_rel (index_chunk_selector st) Li" and B: "sized Bv (volume_chunk_selector st)" "sized Bi (index_chunk_selector st)"
    and new: "m_volume_chunks (volume_chunk_selector st) n = None" "m_volume_chunks (index_chunk_selector st) n = None" and n: "vi_ordinal info = n"
    and run: "volume_init_new sa env h (volume_of_info info, st) = Inr (ok, v', st')"
  shows "same_inventory st st' \<and> (\<forall>m j. m \<noteq> n \<longrightarrow> disk_for st st' m j) \<and> (\<not> ok \<longrightarrow> index_tables st' = index_tables st \<and> vol_meta st' = vol_meta st) \<and>
    (ok \<longrightarrow> (\<exists>tbl. indx_tbl v' = Some tbl \<and> index_tables st' = index_tables st @ [tbl] \<and> ix_ordinal tbl = n) \<and> vol_disk Bv Bi st' v' \<and> (\<forall>k. k \<noteq> h \<longrightarrow> vol_meta st' k = vol_meta st k))"
proof -
  let ?v = "volume_of_info info"
  have vi: "vol_info ?v = info\<lparr>vi_repl_mode := REPL_DISABLED\<rparr>" by (simp add: volume_of_info_def)
  obtain cids p' vs where a: "allocate_init_chunks n (vi_size_bytes info) (ce_pdev env) True (volume_chunk_selector st) = Inr (cids, p', vs)"
    using run vi n by (auto simp: volume_init_new_def Let_def bind_sum_eq_Inr)
  have vs: "inventory vs = inventory (volume_chunk_selector st)" "\<And>m. m \<noteq> n \<Longrightarrow> shape vs m = shape (volume_chunk_selector st) m"
    "cids \<noteq> [] \<Longrightarrow> shape vs n = Some (p', chunks_for (vi_size_bytes info) Bv)"
    using alloc_shape [OF sel(1) a B(1) new(1)] by auto
  let ?sb = "sb_of_info (vol_info ?v) p' cids (sb_created sa)"
  let ?v2 = "?v\<lparr>vol_sb := Some ?sb, vol_rd := Some (vi_id info)\<rparr>"
  let ?st2 = "st\<lparr>volume_chunk_selector := vs, repl_devs := repl_devs st @ [vi_id info]\<rparr>"
  show ?thesis
  proof (cases "cids = [] \<or> \<not> ce_repl_ok env")
    case True
    then have "\<not> ok" "st' = st\<lparr>volume_chunk_selector := vs\<rparr>" using run a vi n by (auto simp: volume_init_new_def Let_def split: if_splits)
    then show ?thesis using vs by (simp add: same_inventory_def disk_for_def)
  next
    case False
    obtain okx v3 st3 where ix: "init_index_table_new env (?v2, ?st2) = Inr (okx, v3, st3)"
      using run vi a n False by (auto simp: volume_init_new_def Let_def bind_sum_eq_Inr)
    have n2: "vi_ordinal (vol_info ?v2) = n" "vi_id (vol_info ?v2) = vi_id info" using n vi by simp_all
    have st2: "index_chunk_selector ?st2 = index_chunk_selector st" "index_tables ?st2 = index_tables st" by simp_all
    have "\<exists>isel. inventory isel = inventory (index_chunk_selector st) \<and> (\<forall>m. m \<noteq> n \<longrightarrow> shape isel m = shape (index_chunk_selector st) m) \<and>
       (if okx then \<exists>tbl. v3 = ?v2\<lparr>indx_tbl := Some tbl\<rparr> \<and> st3 = ?st2\<lparr>index_chunk_selector := isel, index_tables := index_tables st @ [tbl]\<rparr> \<and>
          ix_ordinal tbl = n \<and> ix_parent_uuid tbl = vi_id info \<and> shape isel n = Some (ix_pdev_id tbl, chunks_for (ix_max_size_bytes tbl) Bi)
        else v3 = ?v2 \<and> st3 = ?st2\<lparr>index_chunk_selector := isel\<rparr>)"
      by (rule init_index_table_new_disk [of ?st2 Li Bi ?v2 env okx v3 st3, unfolded n2 st2, OF sel(2) B(2) new(2) ix])
    then obtain isel where isel: "inventory isel = inventory (index_chunk_selector st)" "\<forall>m. m \<noteq> n \<longrightarrow> shape isel m = shape (index_chunk_selector st) m"
      and res: "if okx then \<exists>tbl. v3 = ?v2\<lparr>indx_tbl := Some tbl\<rparr> \<and> st3 = ?st2\<lparr>index_chunk_selector := isel, index_tables := index_tables st @ [tbl]\<rparr> \<and>
          ix_ordinal tbl = n \<and> ix_parent_uuid tbl = vi_id info \<and> shape isel n = Some (ix_pdev_id tbl, chunks_for (ix_max_size_bytes tbl) Bi)
        else v3 = ?v2 \<and> st3 = ?st2\<lparr>index_chunk_selector := isel\<rparr>" by blast
    show ?thesis
    proof (cases okx)
      case failed: False
      then have "\<not> ok" "st' = st3" using run vi a n False ix by (auto simp: volume_init_new_def Let_def)
      then show ?thesis using res failed vs isel by (simp add: same_inventory_def disk_for_def)
    next
      case True
      then obtain tbl where t: "v3 = ?v2\<lparr>indx_tbl := Some tbl\<rparr>" "st3 = ?st2\<lparr>index_chunk_selector := isel, index_tables := index_tables st @ [tbl]\<rparr>"
        "ix_ordinal tbl = n" "ix_parent_uuid tbl = vi_id info" "shape isel n = Some (ix_pdev_id tbl, chunks_for (ix_max_size_bytes tbl) Bi)" using res by auto
      have d3: "vol_disk Bv Bi st3 v3" using t vs(3) False n vi by (simp add: vol_disk_def)
      obtain v4 st4 where sc: "state_change h ONLINE (v3, st3) = Inr (v4, st4)" using run vi a n False ix True by (auto simp: volume_init_new_def Let_def bind_sum_eq_Inr)
      obtain f where f: "st4 = st3\<lparr>vol_meta := f\<rparr>" "\<forall>k. k \<noteq> h \<longrightarrow> f k = vol_meta st3 k" "vol_disk Bv Bi st4 v4" "indx_tbl v4 = indx_tbl v3"
        using state_change_disk [OF d3 sc] by blast
      obtain sb4 where sb4: "vol_sb v4 = Some sb4" using f(3) by (auto simp: vol_disk_def)
      have ok: "ok" "st' = st4" "v' = v4\<lparr>m_state := sb_state sb4\<rparr>" using run vi a n False ix True sc sb4 by (simp_all add: volume_init_new_def)
      have "vol_disk Bv Bi st' v'" "indx_tbl v' = Some tbl" using ok(2,3) f(3,4) t(1) by (simp_all add: vol_disk_def)
      moreover have "index_tables st' = index_tables st @ [tbl]" "\<forall>k. k \<noteq> h \<longrightarrow> vol_meta st' k = vol_meta st k" using ok(2) f(1,2) t(2) by simp_all
      moreover have "same_inventory st st'" "\<forall>m j. m \<noteq> n \<longrightarrow> disk_for st st' m j" using ok(2) f(1) t(2) vs(1,2) isel by (simp_all add: same_inventory_def disk_for_def)
      ultimately show ?thesis using ok(1) t(3) by blast
    qed
  qed
qed

lemma create_make_disk:
  assumes inv: "mgr_inv rs (hb, fl)" and disk: "mgr_disk Bv Bi hb" and n: "vi_ordinal info = n" "n \<notin> rs_ids rs (ordinal_reserver hb)"
    and hb1: "objs hb1 = objs hb" "hs hb1 = hs hb" "vol_map hb1 = vol_map hb" "next_obj hb1 = next_obj hb" "hb_sb hb1 = hb_sb hb" "hb_meta hb1 = hb_meta hb"
    and id: "map_of (vol_map hb) (vi_id info) = None" and run: "create_make sa env info hb1 = Inr (res, hb')"
  shows "mgr_disk Bv Bi hb'"
proof -
  note I = mgr_invD [OF inv] and D = mgr_diskD [OF disk]
  let ?h = "next_obj hb"
  obtain ok v' st' where i: "volume_init_new sa env ?h (volume_of_info info, hs hb) = Inr (ok, v', st')"
    using run hb1 by (auto simp: create_make_def Let_def bind_sum_eq_Inr)
  obtain Lv Li where L: "sel_rel (volume_chunk_selector (hs hb)) Lv" "sel_rel (index_chunk_selector (hs hb)) Li" using I(1,2) by (auto simp: sel_ok_def)
  have new: "m_volume_chunks (volume_chunk_selector (hs hb)) n = None" "m_volume_chunks (index_chunk_selector (hs hb)) n = None"
  proof -
    have "\<not> has_chunks (volume_chunk_selector (hs hb)) n" "\<not> has_chunks (index_chunk_selector (hs hb)) n" using I(4) [of n] n(2) by blast+
    then show "m_volume_chunks (volume_chunk_selector (hs hb)) n = None" "m_volume_chunks (index_chunk_selector (hs hb)) n = None" by (simp_all add: has_chunks_def)
  qed
  note spec = volume_init_new_disk [OF L D(1,2) new n(1) i]
  have ord: "vi_ordinal (vol_info w) \<noteq> n" if "(j, k) \<in> set (vol_map hb)" "objs hb k = Some w" for j k w
    using I(6) [OF that(1)] that(2) n(2) by (auto simp: vol_ok_def Let_def)
  have old: "disk_for (hs hb) st' (vi_ordinal (vol_info w)) (vi_id (vol_info w))" if "(j, k) \<in> set (vol_map hb)" "objs hb k = Some w" for j k w
    using spec ord [OF that] by blast
  show ?thesis
  proof (cases ok)
    case False
    then have hb': "hb' = dec_ref (hb1\<lparr>hs := st'\<rparr>)" using run i hb1 by (simp add: create_make_def Let_def)
    show ?thesis by (rule disk_same [OF disk]) (use hb' hb1 spec False old D(7,8) in \<open>auto simp: dec_ref_def\<close>)
  next
    case True
    then have "hb' = dec_ref (hb1\<lparr>hs := st', objs := (objs hb)(?h \<mapsto> v'), next_obj := ?h + 1, vol_map := map_emplace (vi_id info) ?h (vol_map hb)\<rparr>)"
      using run i hb1 by (simp add: create_make_def Let_def)
    then have eqs: "hs hb' = st'" "objs hb' = (objs hb)(?h \<mapsto> v')" "vol_map hb' = map_emplace (vi_id info) ?h (vol_map hb)" "hb_sb hb' = hb_sb hb" "hb_meta hb' = hb_meta hb"
      using hb1 by (simp_all add: dec_ref_def)
    obtain tbl where t: "indx_tbl v' = Some tbl" "index_tables st' = index_tables (hs hb) @ [tbl]" "ix_ordinal tbl = n" using spec True by blast
    have entry: "(j, k) \<in> set (vol_map hb') \<longleftrightarrow> (j, k) = (vi_id info, ?h) \<or> (j, k) \<in> set (vol_map hb)" for j k unfolding eqs(3) by (rule map_emplace_set [OF id])
    have fresh: "k \<noteq> ?h" if "(j, k) \<in> set (vol_map hb)" for j k using I(5) [of ?h] I(6) [OF that] by auto
    have "tbl \<notin> set (index_tables (hs hb))"
    proof
      assume "tbl \<in> set (index_tables (hs hb))"
      then obtain j k w where w: "(j, k) \<in> set (vol_map hb)" "objs hb k = Some w" "indx_tbl w = Some tbl" using D(5) by blast
      then show False using D(3) [OF w(1,2)] ord [OF w(1,2)] t(3) by (auto simp: vol_disk_def)
    qed
    then have dist: "distinct (index_tables (hs hb'))" using D(4) eqs(1) t(2) by simp
    have vd: "vol_disk Bv Bi (hs hb') w" if w: "(j, k) \<in> set (vol_map hb')" "objs hb' k = Some w" for j k w
    proof (cases "k = ?h")
      case k: True
      then show ?thesis using w(2) eqs(1,2) spec True by simp
    next
      case False
      then have w': "(j, k) \<in> set (vol_map hb)" "objs hb k = Some w" using w entry eqs(2) by auto
      then show ?thesis using vol_disk_same [OF D(3) [OF w'] old [OF w']] eqs(1) by simp
    qed
    have tables: "\<exists>i h v. (i, h) \<in> set (vol_map hb') \<and> objs hb' h = Some v \<and> indx_tbl v = Some x" if x: "x \<in> set (index_tables (hs hb'))" for x
    proof (cases "x = tbl")
      case True
      then show ?thesis using entry eqs(2) t(1) by fastforce
    next
      case False
      then obtain j k w where w: "(j, k) \<in> set (vol_map hb)" "objs hb k = Some w" "indx_tbl w = Some x" using D(5) [of x] x eqs(1) t(2) by auto
      then show ?thesis using entry eqs(2) fresh [OF w(1)] by (intro exI [of _ j] exI [of _ k] exI [of _ w]) simp
    qed
    have meta: "k \<in> snd ` set (vol_map hb')" if k: "vol_meta (hs hb') k \<noteq> None" for k
    proof (cases "k = ?h")
      case True
      then show ?thesis using entry by force
    next
      case False
      then have "vol_meta (hs hb) k \<noteq> None" using k eqs(1) spec True by auto
      then obtain j where "(j, k) \<in> set (vol_map hb)" using D(6) by fastforce
      then show ?thesis using entry by force
    qed
    have "same_inventory (hs hb) (hs hb')" using spec eqs(1) by simp
    note S = same_inventory_sized [OF this D(1,2)]
    show ?thesis by (intro mgr_diskI S vd dist tables meta) (use D(7,8) eqs in simp_all)
  qed
qed

lemma create_volume_disk:
  assumes rok: "reserver_ok rs" and inv: "mgr_inv rs (hb, fl)" and disk: "mgr_disk Bv Bi hb" and run: "create_volume rs sa env info hb = Inr (res, hb')"
  shows "mgr_disk Bv Bi hb'"
proof -
  obtain n r' where n: "rs_reserve rs (ordinal_reserver hb) = (n, r')" by (cases "rs_reserve rs (ordinal_reserver hb)")
  then have fresh: "n \<notin> rs_ids rs (ordinal_reserver hb)" using rok by (auto simp: reserver_ok_def)
  let ?hb1 = "(inc_ref hb)\<lparr>ordinal_reserver := r'\<rparr>"
  show ?thesis
  proof (cases "is_restricted hb \<or> MAX_NUM_VOLUMES \<le> n \<or> map_of (vol_map hb) (vi_id info) \<noteq> None")
    case True
    then have "hb' = hb \<or> hb' = ?hb1 \<or> hb' = dec_ref ?hb1" using run n by (auto simp: create_volume_def Let_def split: if_splits)
    then show ?thesis using disk by (auto simp: inc_ref_def dec_ref_def disk_flags)
  next
    case False
    then have "create_make sa env (info\<lparr>vi_ordinal := n\<rparr>) ?hb1 = Inr (res, hb')" using run n by (simp add: create_volume_def Let_def)
    then show ?thesis using create_make_disk [OF inv disk, of "info\<lparr>vi_ordinal := n\<rparr>" n ?hb1 sa env res hb'] fresh False by (simp add: inc_ref_def)
  qed
qed

end
