(* ===== verification/Manager_Restart.thy ===== *)
theory Manager_Restart
  imports Manager_Persist
begin

text \<open>
  Restarting an instance from what the devices hold. The restart recovers the index tables first and then the volumes, one callback each; the proofs follow the two loops.
\<close>

section \<open>What the devices hold\<close>

text \<open>The contents of the devices when the process stops: the order in which the next start finds them is open.\<close>

definition on_disk :: "'r homeblks \<Rightarrow> disk \<Rightarrow> bool" where
  "on_disk hb d \<longleftrightarrow> dk_hb d = hb_meta hb \<and> set (dk_repl_devs d) = set (repl_devs (hs hb)) \<and>
     distinct (dk_index_tables d) \<and> set (dk_index_tables d) = set (index_tables (hs hb)) \<and> distinct (dk_vol_sbs d) \<and> set (dk_vol_sbs d) = ran (vol_meta (hs hb))"

definition entry :: "'r homeblks \<Rightarrow> volume_id_t \<Rightarrow> handle \<Rightarrow> volume \<Rightarrow> vol_sb_t \<Rightarrow> index_sb \<Rightarrow> bool" where
  "entry hb i h v sb tbl \<longleftrightarrow> (i, h) \<in> set (vol_map hb) \<and> objs hb h = Some v \<and> vol_sb v = Some sb \<and> vol_meta (hs hb) h = Some sb \<and>
     indx_tbl v = Some tbl \<and> tbl \<in> set (index_tables (hs hb))"

lemma entry_ex:
  assumes "mgr_inv rs (hb, fl)" "(i, h) \<in> set (vol_map hb)"
  shows "\<exists>v sb tbl. entry hb i h v sb tbl"
  using mgr_invD(6) [OF assms] assms(2) by (auto simp: entry_def vol_ok_def Let_def)

definition vclaim :: "vol_sb_t \<Rightarrow> claim" where
  "vclaim sb = (sb_ordinal sb, sb_pdev_id sb, sb_size sb, take (unat (sb_num_chunks sb)) (sb_chunk_ids sb))"

definition iclaim :: "index_sb \<Rightarrow> claim" where
  "iclaim t = (ix_ordinal t, ix_pdev_id t, ix_max_size_bytes t, ix_chunk_ids t)"

lemma few_chunks: "distinct (cids :: chunk_num_t list) \<Longrightarrow> length cids < 2 ^ 32"
proof -
  assume "distinct cids"
  then have "length cids \<le> card (UNIV :: chunk_num_t set)" by (metis card_mono distinct_card finite subset_UNIV)
  then show ?thesis by (simp add: card_word)
qed

lemma entry_facts:
  assumes inv: "mgr_inv rs (hb, fl)" and disk: "mgr_disk Bv Bi hb" and e: "entry hb i h v sb tbl"
  shows "vi_id (vol_info v) = i" "sb_id sb = i" "ix_parent_uuid tbl = i" "sb_ordinal sb = vi_ordinal (vol_info v)" "ix_ordinal tbl = vi_ordinal (vol_info v)"
    "sb = sb_of_info (vol_info v) (sb_pdev_id sb) (vol_ids (volume_chunk_selector (hs hb)) (vi_ordinal (vol_info v))) sb" "sb_state sb = m_state v"
    "vclaim sb = (vi_ordinal (vol_info v), sb_pdev_id sb, vi_size_bytes (vol_info v), vol_ids (volume_chunk_selector (hs hb)) (vi_ordinal (vol_info v)))"
    "iclaim tbl = (vi_ordinal (vol_info v), ix_pdev_id tbl, ix_max_size_bytes tbl, vol_ids (index_chunk_selector (hs hb)) (vi_ordinal (vol_info v)))"
    "shape (volume_chunk_selector (hs hb)) (vi_ordinal (vol_info v)) = Some (sb_pdev_id sb, chunks_for (vi_size_bytes (vol_info v)) Bv)"
    "shape (index_chunk_selector (hs hb)) (vi_ordinal (vol_info v)) = Some (ix_pdev_id tbl, chunks_for (ix_max_size_bytes tbl) Bi)"
    "m_state v \<noteq> DESTROYING \<Longrightarrow> i \<in> set (repl_devs (hs hb))"
proof -
  let ?n = "vi_ordinal (vol_info v)"
  have m: "(i, h) \<in> set (vol_map hb)" "objs hb h = Some v" "vol_sb v = Some sb" "indx_tbl v = Some tbl" using e by (simp_all add: entry_def)
  have vok: "vol_ok (rs_ids rs (ordinal_reserver hb)) (hs hb) (removals hb) fl i h v" using mgr_invD(6) [OF inv m(1)] m(2) by auto
  have vd: "vol_disk Bv Bi (hs hb) v" using mgr_diskD(3) [OF disk m(1,2)] .
  show i: "vi_id (vol_info v) = i" using vok by (simp add: vol_ok_def Let_def)
  have sb: "sb_matches (vol_info v) (m_state v) (vol_ids (volume_chunk_selector (hs hb)) ?n) sb" using vok m(3) by (auto simp: vol_ok_def Let_def)
  then show eq: "sb = sb_of_info (vol_info v) (sb_pdev_id sb) (vol_ids (volume_chunk_selector (hs hb)) ?n) sb" and "sb_state sb = m_state v" by (simp_all add: sb_matches_def)
  have f: "sb_id sb = vi_id (vol_info v)" "sb_ordinal sb = ?n" "sb_size sb = vi_size_bytes (vol_info v)"
    "sb_num_chunks sb = of_nat (length (vol_ids (volume_chunk_selector (hs hb)) ?n))" "sb_chunk_ids sb = vol_ids (volume_chunk_selector (hs hb)) ?n"
    by (subst eq, simp add: sb_of_info_def vol_sb_init_def)+
  then show "sb_id sb = i" "sb_ordinal sb = ?n" using i by simp_all
  show sh: "shape (volume_chunk_selector (hs hb)) ?n = Some (sb_pdev_id sb, chunks_for (vi_size_bytes (vol_info v)) Bv)"
    "shape (index_chunk_selector (hs hb)) ?n = Some (ix_pdev_id tbl, chunks_for (ix_max_size_bytes tbl) Bi)" and "ix_parent_uuid tbl = i"
    and t: "ix_ordinal tbl = ?n" using vd m(3,4) i by (auto simp: vol_disk_def)
  obtain L where "sel_rel (volume_chunk_selector (hs hb)) L" using mgr_invD(1) [OF inv] by (auto simp: sel_ok_def)
  then have "distinct (vol_ids (volume_chunk_selector (hs hb)) ?n)" using owned_chunks [OF _ mgr_diskD(1) [OF disk] sh(1)] by blast
  then show "vclaim sb = (?n, sb_pdev_id sb, vi_size_bytes (vol_info v), vol_ids (volume_chunk_selector (hs hb)) ?n)"
    using f few_chunks by (simp add: vclaim_def unat_of_nat)
  have "ix_chunk_ids tbl = vol_ids (index_chunk_selector (hs hb)) ?n" using vok m(4) by (auto simp: vol_ok_def Let_def)
  then show "iclaim tbl = (?n, ix_pdev_id tbl, ix_max_size_bytes tbl, vol_ids (index_chunk_selector (hs hb)) ?n)" using t by (simp add: iclaim_def)
  show "i \<in> set (repl_devs (hs hb))" if "m_state v \<noteq> DESTROYING"
    using that vok vd i by (auto simp: vol_ok_def vol_disk_def Let_def)
qed

text \<open>A name, an ordinal, a superblock or a table belongs to one volume.\<close>

lemma entry_inj:
  assumes inv: "mgr_inv rs (hb, fl)" and disk: "mgr_disk Bv Bi hb" and e: "entry hb i h v sb tbl" "entry hb j k w sb' tbl'"
    and eq: "i = j \<or> h = k \<or> vi_ordinal (vol_info v) = vi_ordinal (vol_info w) \<or> sb = sb' \<or> tbl = tbl'"
  shows "i = j \<and> h = k \<and> v = w \<and> sb = sb' \<and> tbl = tbl'"
proof -
  have m: "(i, h) \<in> set (vol_map hb)" "objs hb h = Some v" "(j, k) \<in> set (vol_map hb)" "objs hb k = Some w" using e by (simp_all add: entry_def)
  note N = names_okD [OF mgr_inv_names [OF inv] m(1,3,2,4)]
  note F = entry_facts [OF inv disk e(1)] and G = entry_facts [OF inv disk e(2)]
  have "i = j" using eq N F(2,3) G(2,3) by auto
  then show ?thesis using N(1) m(2,4) e by (simp add: entry_def)
qed

lemma sb_entry: "mgr_inv rs (hb, fl) \<Longrightarrow> mgr_disk Bv Bi hb \<Longrightarrow> sb \<in> ran (vol_meta (hs hb)) \<Longrightarrow> \<exists>i h v tbl. entry hb i h v sb tbl"
proof -
  assume a: "mgr_inv rs (hb, fl)" "mgr_disk Bv Bi hb" "sb \<in> ran (vol_meta (hs hb))"
  obtain h where h: "vol_meta (hs hb) h = Some sb" using a(3) by (auto simp: ran_def)
  then obtain i where "(i, h) \<in> set (vol_map hb)" using mgr_diskD(6) [OF a(2), of h] by auto
  then show ?thesis using entry_ex [OF a(1)] h unfolding entry_def by (metis option.inject)
qed

lemma table_entry: "mgr_inv rs (hb, fl) \<Longrightarrow> mgr_disk Bv Bi hb \<Longrightarrow> tbl \<in> set (index_tables (hs hb)) \<Longrightarrow> \<exists>i h v sb. entry hb i h v sb tbl"
  using mgr_diskD(5) entry_ex unfolding entry_def by (metis option.inject)

lemma on_disk_recoverable:
  assumes inv: "mgr_inv rs (hb, fl)" and disk: "mgr_disk Bv Bi hb" and d: "on_disk hb d"
  shows "recoverable Bv (inventory (volume_chunk_selector (hs hb))) (map vclaim (dk_vol_sbs d))"
    "recoverable Bi (inventory (index_chunk_selector (hs hb))) (map iclaim (dk_index_tables d))"
    "distinct (map sb_id (dk_vol_sbs d))" "distinct (map ix_parent_uuid (dk_index_tables d))"
proof -
  obtain Lv Li where L: "sel_rel (volume_chunk_selector (hs hb)) Lv" "sel_rel (index_chunk_selector (hs hb)) Li"
    using mgr_invD(1,2) [OF inv] by (auto simp: sel_ok_def)
  note S = mgr_diskD(1,2) [OF disk]
  have sbs: "\<exists>i h v tbl. entry hb i h v sb tbl" if "sb \<in> set (dk_vol_sbs d)" for sb
    using that d sb_entry [OF inv disk] by (auto simp: on_disk_def)
  have tbls: "\<exists>i h v sb. entry hb i h v sb tbl" if "tbl \<in> set (dk_index_tables d)" for tbl
    using that d table_entry [OF inv disk] by (auto simp: on_disk_def)
  have inj_sb: "sb = sb'" if s: "sb \<in> set (dk_vol_sbs d)" "sb' \<in> set (dk_vol_sbs d)" "sb_id sb = sb_id sb' \<or> sb_ordinal sb = sb_ordinal sb'" for sb sb'
  proof -
    obtain i h v tbl j k w tbl' where e: "entry hb i h v sb tbl" "entry hb j k w sb' tbl'" using sbs [OF s(1)] sbs [OF s(2)] by blast
    have "i = j \<or> vi_ordinal (vol_info v) = vi_ordinal (vol_info w)"
      using entry_facts(2,4) [OF inv disk e(1)] entry_facts(2,4) [OF inv disk e(2)] s(3) by (simp only:)
    then show ?thesis using entry_inj [OF inv disk e] by blast
  qed
  have inj_t: "t = t'" if s: "t \<in> set (dk_index_tables d)" "t' \<in> set (dk_index_tables d)" "ix_parent_uuid t = ix_parent_uuid t' \<or> ix_ordinal t = ix_ordinal t'" for t t'
  proof -
    obtain i h v sb j k w sb' where e: "entry hb i h v sb t" "entry hb j k w sb' t'" using tbls [OF s(1)] tbls [OF s(2)] by blast
    have "i = j \<or> vi_ordinal (vol_info v) = vi_ordinal (vol_info w)"
      using entry_facts(3,5) [OF inv disk e(1)] entry_facts(3,5) [OF inv disk e(2)] s(3) by (simp only:)
    then show ?thesis using entry_inj [OF inv disk e] by blast
  qed
  show "distinct (map sb_id (dk_vol_sbs d))" "distinct (map ix_parent_uuid (dk_index_tables d))"
    using d inj_sb inj_t by (auto simp: on_disk_def distinct_map inj_on_def)
  have cv: "claim_ok Bv (inventory (volume_chunk_selector (hs hb))) (vclaim sb) \<and> set (claim_chunks (vclaim sb)) = set (vol_ids (volume_chunk_selector (hs hb)) (fst (vclaim sb)))"
    if s: "sb \<in> set (dk_vol_sbs d)" for sb
  proof -
    obtain i h v tbl where e: "entry hb i h v sb tbl" using sbs [OF s] by blast
    show ?thesis using owned_chunks [OF L(1) S(1) entry_facts(10) [OF inv disk e]] entry_facts(8) [OF inv disk e] by (simp add: claim_chunks_def)
  qed
  have ci: "claim_ok Bi (inventory (index_chunk_selector (hs hb))) (iclaim t) \<and> set (claim_chunks (iclaim t)) = set (vol_ids (index_chunk_selector (hs hb)) (fst (iclaim t)))"
    if s: "t \<in> set (dk_index_tables d)" for t
  proof -
    obtain i h v sb where e: "entry hb i h v sb t" using tbls [OF s] by blast
    show ?thesis using owned_chunks [OF L(2) S(2) entry_facts(11) [OF inv disk e]] entry_facts(9) [OF inv disk e] by (simp add: claim_chunks_def)
  qed
  have dv: "distinct (map fst (map vclaim (dk_vol_sbs d)))" and di: "distinct (map fst (map iclaim (dk_index_tables d)))"
    using d inj_sb inj_t by (auto simp: on_disk_def distinct_map inj_on_def vclaim_def iclaim_def)
  have disj: "set (vol_ids s m) \<inter> set (vol_ids s n) = {}" if "sel_rel s L" "m \<noteq> n" for s L and m n :: nat
    using that by (auto simp: sel_rel_def vols_ok_def)
  show "recoverable Bv (inventory (volume_chunk_selector (hs hb))) (map vclaim (dk_vol_sbs d))"
    unfolding recoverable_def using dv cv disj [OF L(1)] by auto
  show "recoverable Bi (inventory (index_chunk_selector (hs hb))) (map iclaim (dk_index_tables d))"
    unfolding recoverable_def using di ci disj [OF L(2)] by auto
qed

end
