(* ===== verification/Manager_Rebuild.thy ===== *)
theory Manager_Rebuild
  imports Manager_Restart
begin

text \<open>
  The two loops of a restart, over the index tables and over the superblocks of the volumes, and the state they end in.
\<close>

section \<open>The index tables\<close>

lemma recover_tables:
  assumes "recoverable Bi ivt (map iclaim ts)" "\<forall>cid p b. ivt cid = Some (p, b) \<longrightarrow> b = Bi" "distinct (map ix_parent_uuid ts)"
    and "taken Bi ivt [] (index_chunk_selector (hs hb1))" "index_tables (hs hb1) = []" "idx_tbl_map hb1 = []"
  shows "\<exists>s. foldl (\<lambda>r sb. bind_sum r (on_index_table_found sb)) (Inr hb1) ts =
      Inr (hb1\<lparr>hs := (hs hb1)\<lparr>index_chunk_selector := s, index_tables := ts\<rparr>, idx_tbl_map := map (\<lambda>t. (ix_parent_uuid t, t)) ts\<rparr>) \<and> taken Bi ivt (map iclaim ts) s"
  using assms(1,3)
proof (induction ts rule: rev_induct)
  case Nil
  have "hb1 = hb1\<lparr>hs := (hs hb1)\<lparr>index_chunk_selector := index_chunk_selector (hs hb1), index_tables := []\<rparr>, idx_tbl_map := []\<rparr>" using assms(5,6) by simp
  then show ?case using assms(4) by (intro exI [of _ "index_chunk_selector (hs hb1)"]) simp
next
  case (snoc t ts)
  have "recoverable Bi ivt (map iclaim ts @ [iclaim t])" using snoc.prems(1) by simp
  note rc = this [unfolded iclaim_def [of t]]
  obtain s where s: "foldl (\<lambda>r sb. bind_sum r (on_index_table_found sb)) (Inr hb1) ts =
      Inr (hb1\<lparr>hs := (hs hb1)\<lparr>index_chunk_selector := s, index_tables := ts\<rparr>, idx_tbl_map := map (\<lambda>t. (ix_parent_uuid t, t)) ts\<rparr>)" "taken Bi ivt (map iclaim ts) s"
    using snoc.IH recoverable_prefix [OF rc] snoc.prems(2) by auto
  obtain s' where s': "recover_chunks (ix_ordinal t) (ix_pdev_id t) (ix_max_size_bytes t) (ix_chunk_ids t) s = Inr (True, s')" "taken Bi ivt (map iclaim ts @ [iclaim t]) s'"
    using recover_one [OF rc s(2) assms(2)] unfolding iclaim_def [of t] by blast
  have "map_of (map (\<lambda>t. (ix_parent_uuid t, t)) ts) (ix_parent_uuid t) = None" using snoc.prems(2) by (auto simp: map_of_eq_None_iff)
  then have "emplace (ix_parent_uuid t) t (map (\<lambda>t. (ix_parent_uuid t, t)) ts) = map (\<lambda>t. (ix_parent_uuid t, t)) (ts @ [t])" by (simp add: emplace_def)
  then have step: "on_index_table_found t (hb1\<lparr>hs := (hs hb1)\<lparr>index_chunk_selector := s, index_tables := ts\<rparr>, idx_tbl_map := map (\<lambda>t. (ix_parent_uuid t, t)) ts\<rparr>) =
      Inr (hb1\<lparr>hs := (hs hb1)\<lparr>index_chunk_selector := s', index_tables := ts @ [t]\<rparr>, idx_tbl_map := map (\<lambda>t. (ix_parent_uuid t, t)) (ts @ [t])\<rparr>)"
    using s'(1) by (simp add: on_index_table_found_def recover_index_table_def)
  show ?case by (intro exI [of _ s'] conjI) (use s(1) step s'(2) in simp_all)
qed

section \<open>The volumes\<close>

definition recovered :: "volume_id_t set \<Rightarrow> (volume_id_t \<Rightarrow> index_sb option) \<Rightarrow> vol_sb_t \<Rightarrow> volume" where
  "recovered rds tbl_of sb = (volume_of_sb sb)\<lparr>vol_rd := (if sb_id sb \<in> rds then Some (sb_id sb) else None), indx_tbl := tbl_of (sb_id sb)\<rparr>"

text \<open>The state after the superblocks \<open>ps\<close>, with \<open>hb2\<close> the state before the first.\<close>

definition rebuilt :: "'r reserver \<Rightarrow> u64 \<Rightarrow> (chunk_num_t \<Rightarrow> (pdev_id_t \<times> u64) option) \<Rightarrow> 'r homeblks \<Rightarrow> vol_sb_t list \<Rightarrow> 'r homeblks \<Rightarrow> bool" where
  "rebuilt rs Bv ivt hb2 ps x \<longleftrightarrow>
     taken Bv ivt (map vclaim ps) (volume_chunk_selector (hs x)) \<and>
     (\<exists>vs m vm r. x = hb2\<lparr>hs := (hs hb2)\<lparr>volume_chunk_selector := vs, vol_meta := (\<lambda>k. if k < length ps then Some (ps ! k) else None)\<rparr>,
        objs := (\<lambda>k. if k < length ps then Some (recovered (set (repl_devs (hs hb2))) (map_of (idx_tbl_map hb2)) (ps ! k)) else None),
        next_obj := length ps, idx_tbl_map := m, vol_map := vm, ordinal_reserver := r,
        removals := (if is_restricted hb2 then [] else map (\<lambda>sb. DoRemove (sb_id sb)) (filter (\<lambda>sb. sb_state sb = DESTROYING) ps))\<rparr>) \<and>
     (\<forall>i. map_of (idx_tbl_map x) i = (if i \<in> sb_id ` set ps then None else map_of (idx_tbl_map hb2) i)) \<and>
     distinct (map fst (vol_map x)) \<and> (\<forall>i k. (i, k) \<in> set (vol_map x) \<longleftrightarrow> k < length ps \<and> i = sb_id (ps ! k)) \<and>
     rs_ids rs (ordinal_reserver x) = rs_ids rs (ordinal_reserver hb2) \<union> sb_ordinal ` set ps"

lemma map_of_erase: "map_of (map_erase k m) i = (if i = k then None else map_of m i)"
  by (induction m) (auto simp: map_erase_def)

lemma nth_extend: "(\<lambda>k. if k < length (ps @ [p]) then Some (f ((ps @ [p]) ! k)) else None) = (\<lambda>k. if k < length ps then Some (f (ps ! k)) else None)(length ps \<mapsto> f p)"
  by (auto simp: fun_eq_iff nth_append less_Suc_eq)

lemma rebuild_one:
  assumes rok: "reserver_ok rs" and rc: "recoverable Bv ivt (map vclaim (ps @ [sb]))" and B: "\<forall>cid p b. ivt cid = Some (p, b) \<longrightarrow> b = Bv"
    and ids: "distinct (map sb_id (ps @ [sb]))" and tbl: "map_of (idx_tbl_map hb2) (sb_id sb) = Some tbl" and x: "rebuilt rs Bv ivt hb2 ps x"
  shows "\<exists>x'. on_vol_meta_blk_found rs sb x = Inr x' \<and> rebuilt rs Bv ivt hb2 (ps @ [sb]) x'"
proof -
  let ?i = "sb_id sb" and ?h = "length ps" and ?rm = "\<lambda>l. if is_restricted hb2 then [] else map (\<lambda>sb. DoRemove (sb_id sb)) (filter (\<lambda>sb. sb_state sb = DESTROYING) l)"
  let ?meta = "\<lambda>l k. if k < length l then Some (l ! k) else None" and ?rec = "recovered (set (repl_devs (hs hb2))) (map_of (idx_tbl_map hb2))"
  let ?objs = "\<lambda>l k. if k < length l then Some (?rec (l ! k)) else None"
  obtain vs m vm r where xe: "x = hb2\<lparr>hs := (hs hb2)\<lparr>volume_chunk_selector := vs, vol_meta := ?meta ps\<rparr>, objs := ?objs ps,
      next_obj := ?h, idx_tbl_map := m, vol_map := vm, ordinal_reserver := r, removals := ?rm ps\<rparr>"
    using x unfolding rebuilt_def by blast
  have tk: "taken Bv ivt (map vclaim ps) vs" and m: "\<And>i. map_of m i = (if i \<in> sb_id ` set ps then None else map_of (idx_tbl_map hb2) i)"
    and vm: "distinct (map fst vm)" "\<And>i k. (i, k) \<in> set vm \<longleftrightarrow> k < ?h \<and> i = sb_id (ps ! k)" and r: "rs_ids rs r = rs_ids rs (ordinal_reserver hb2) \<union> sb_ordinal ` set ps"
    using x xe by (simp_all add: rebuilt_def)
  have new: "?i \<notin> sb_id ` set ps" using ids by auto
  have "?i \<notin> fst ` set vm"
  proof
    assume "?i \<in> fst ` set vm"
    then obtain k where "k < ?h" "?i = sb_id (ps ! k)" using vm(2) by auto
    then show False using new nth_mem by fastforce
  qed
  then have none: "map_of vm ?i = None" by (simp add: map_of_eq_None_iff)
  have "recoverable Bv ivt (map vclaim ps @ [vclaim sb])" using rc by simp
  note rc' = this [unfolded vclaim_def [of sb]]
  obtain vs' where vs': "recover_chunks (sb_ordinal sb) (sb_pdev_id sb) (sb_size sb) (take (unat (sb_num_chunks sb)) (sb_chunk_ids sb)) vs = Inr (True, vs')"
    "taken Bv ivt (map vclaim ps @ [vclaim sb]) vs'" using recover_one [OF rc' tk B] unfolding vclaim_def [of sb] by blast
  let ?x1 = "hb2\<lparr>hs := (hs hb2)\<lparr>volume_chunk_selector := vs', vol_meta := ?meta (ps @ [sb])\<rparr>, objs := ?objs (ps @ [sb]), next_obj := length (ps @ [sb]),
      idx_tbl_map := map_erase ?i m, vol_map := map_emplace ?i ?h vm, ordinal_reserver := rs_reserve_id rs (sb_ordinal sb) r, removals := ?rm ps\<rparr>"
  have found: "(map_of (map_emplace ?i ?h vm)) ?i = Some ?h" using none vm(1) distinct_map_emplace [OF vm(1)] map_emplace_set [OF none, of ?i ?h ?h] by (intro map_of_is_SomeI) auto
  have rec: "?rec sb = (volume_of_sb sb)\<lparr>vol_rd := (if ?i \<in> set (repl_devs (hs hb2)) then Some ?i else None), m_state := sb_state sb, indx_tbl := Some tbl\<rparr>"
    using tbl by (simp add: recovered_def volume_of_sb_def)
  have meta: "?meta (ps @ [sb]) = (?meta ps)(?h \<mapsto> sb)" using nth_extend [of ps sb "\<lambda>s. s"] by simp
  have obj: "?objs (ps @ [sb]) = (?objs ps)(?h \<mapsto> ?rec sb)" by (rule nth_extend)
  have init: "volume_init_recovery (volume_of_sb sb, (hs x)\<lparr>vol_meta := (vol_meta (hs x))(?h \<mapsto> sb)\<rparr>) =
      Inr (True, (volume_of_sb sb)\<lparr>vol_rd := (if ?i \<in> set (repl_devs (hs hb2)) then Some ?i else None), m_state := sb_state sb\<rparr>,
        (hs x)\<lparr>vol_meta := (vol_meta (hs x))(?h \<mapsto> sb), volume_chunk_selector := vs'\<rparr>)"
    using vs'(1) unfolding volume_init_recovery_def Let_def prod.case by (simp add: volume_of_sb_def xe)
  let ?w = "(volume_of_sb sb)\<lparr>vol_rd := (if ?i \<in> set (repl_devs (hs hb2)) then Some ?i else None), m_state := sb_state sb, indx_tbl := Some tbl\<rparr>"
  have id: "vi_id (vol_info (volume_of_sb sb)) = ?i" "vi_ordinal (vol_info (volume_of_sb sb)) = sb_ordinal sb" by (simp_all add: volume_of_sb_def)
  let ?y = "x\<lparr>hs := (hs x)\<lparr>vol_meta := (vol_meta (hs x))(?h \<mapsto> sb), volume_chunk_selector := vs'\<rparr>, objs := (objs x)(?h \<mapsto> ?w), next_obj := ?h + 1,
    idx_tbl_map := map_erase ?i m, vol_map := map_emplace ?i ?h vm, ordinal_reserver := rs_reserve_id rs (sb_ordinal sb) r\<rparr>"
  have x1: "?y = ?x1" unfolding meta obj rec by (simp add: xe)
  have sel: "next_obj x = ?h" "idx_tbl_map x = m" "vol_map x = vm" "ordinal_reserver x = r" by (simp_all add: xe)
  have "map_of m ?i = Some tbl" using m [of ?i] new tbl by simp
  then have "on_vol_meta_blk_found rs sb x = (if sb_state sb = DESTROYING then bind_sum (remove_volume ?i ?y) (\<lambda>(_, hb2). Inr hb2) else Inr ?y)"
    unfolding on_vol_meta_blk_found_def Let_def sel init using id by (simp add: init_index_table_recovery_def is_destroying_def)
  then have run: "on_vol_meta_blk_found rs sb x = (if sb_state sb = DESTROYING then bind_sum (remove_volume ?i ?x1) (\<lambda>(_, hb2). Inr hb2) else Inr ?x1)"
    unfolding x1 .
  have found': "map_of (vol_map ?x1) ?i = Some ?h" "objs ?x1 ?h = Some (?rec sb)" "m_state (?rec sb) = sb_state sb" using found rec by simp_all
  have rem: "remove_volume ?i ?x1 = Inr (if is_restricted hb2 then Inl (Errc operation_not_supported) else Inr (), ?x1\<lparr>removals := ?rm (ps @ [sb])\<rparr>)" if d: "sb_state sb = DESTROYING"
    using found' d unfolding remove_volume_def get_volume_def is_offline_def by (cases "is_restricted hb2") simp_all
  have keep: "?x1 = ?x1\<lparr>removals := ?rm (ps @ [sb])\<rparr>" if "sb_state sb \<noteq> DESTROYING" using that by simp
  have res: "on_vol_meta_blk_found rs sb x = Inr (?x1\<lparr>removals := ?rm (ps @ [sb])\<rparr>)"
  proof (cases "sb_state sb = DESTROYING")
    case True
    show ?thesis unfolding run rem [OF True] using True by simp
  next
    case False
    show ?thesis unfolding run if_not_P [OF False] by (rule arg_cong [OF keep [OF False]])
  qed
  have "(i, k) \<in> set (map_emplace ?i ?h vm) \<longleftrightarrow> k < length (ps @ [sb]) \<and> i = sb_id ((ps @ [sb]) ! k)" for i k
    using map_emplace_set [OF none, of i k ?h] vm(2) [of i k] by (auto simp: nth_append less_Suc_eq)
  moreover have "map_of (map_erase ?i m) i = (if i \<in> sb_id ` set (ps @ [sb]) then None else map_of (idx_tbl_map hb2) i)" for i using m [of i] by (auto simp: map_of_erase)
  moreover have "rs_ids rs (rs_reserve_id rs (sb_ordinal sb) r) = rs_ids rs (ordinal_reserver hb2) \<union> sb_ordinal ` set (ps @ [sb])" using rok r by (simp add: reserver_ok_def)
  ultimately have "rebuilt rs Bv ivt hb2 (ps @ [sb]) (?x1\<lparr>removals := ?rm (ps @ [sb])\<rparr>)"
    unfolding rebuilt_def using vs'(2) distinct_map_emplace [OF vm(1), of ?i ?h]
    by (intro conjI exI [of _ vs'] exI [of _ "map_erase ?i m"] exI [of _ "map_emplace ?i ?h vm"] exI [of _ "rs_reserve_id rs (sb_ordinal sb) r"]) simp_all
  then show ?thesis using res by blast
qed

lemma rebuild_all:
  assumes rok: "reserver_ok rs" and rc: "recoverable Bv ivt (map vclaim sbs)" and B: "\<forall>cid p b. ivt cid = Some (p, b) \<longrightarrow> b = Bv" and ids: "distinct (map sb_id sbs)"
    and tbl: "\<And>sb. sb \<in> set sbs \<Longrightarrow> map_of (idx_tbl_map hb2) (sb_id sb) \<noteq> None"
    and fresh: "taken Bv ivt [] (volume_chunk_selector (hs hb2))" "vol_meta (hs hb2) = (\<lambda>_. None)" "objs hb2 = (\<lambda>_. None)" "next_obj hb2 = 0" "vol_map hb2 = []" "removals hb2 = []"
  shows "\<exists>x. on_init_complete rs sbs hb2 = Inr x \<and> rebuilt rs Bv ivt hb2 sbs x"
  unfolding on_init_complete_def using rc ids tbl
proof (induction sbs rule: rev_induct)
  case Nil
  have "hb2 = hb2\<lparr>hs := (hs hb2)\<lparr>volume_chunk_selector := volume_chunk_selector (hs hb2), vol_meta := \<lambda>_. None\<rparr>, objs := \<lambda>_. None, next_obj := 0,
      idx_tbl_map := idx_tbl_map hb2, vol_map := [], ordinal_reserver := ordinal_reserver hb2, removals := []\<rparr>" using fresh(2-6) by simp
  then have "\<exists>vs m vm r. hb2 = hb2\<lparr>hs := (hs hb2)\<lparr>volume_chunk_selector := vs, vol_meta := \<lambda>_. None\<rparr>, objs := \<lambda>_. None, next_obj := 0,
      idx_tbl_map := m, vol_map := vm, ordinal_reserver := r, removals := []\<rparr>" by blast
  then show ?case using fresh(1,5) unfolding rebuilt_def by simp
next
  case (snoc sb sbs)
  have "recoverable Bv ivt (map vclaim sbs)" using snoc.prems(1) recoverable_prefix [of Bv ivt "map vclaim sbs" "[vclaim sb]"] by simp
  then obtain x where x: "foldl (\<lambda>r sb. bind_sum r (on_vol_meta_blk_found rs sb)) (Inr hb2) sbs = Inr x" "rebuilt rs Bv ivt hb2 sbs x"
    using snoc.IH snoc.prems(2,3) by auto
  obtain tbl where "map_of (idx_tbl_map hb2) (sb_id sb) = Some tbl" using snoc.prems(3) [of sb] by auto
  then show ?case using rebuild_one [OF rok snoc.prems(1) B snoc.prems(2) _ x(2)] x(1) by auto
qed

end
