(* ===== verification/Manager_Return.thy ===== *)
theory Manager_Return
  imports Manager_Rebuild
begin

text \<open>
  A whole restart: the start of an instance on the devices of an earlier one succeeds and gives back every volume, and the invariants of the manager hold again.
\<close>

section \<open>What a superblock keeps of a description\<close>

text \<open>A page size of 32 bits, 99 characters of the name, and no replication mode.\<close>

definition persisted_info :: "volume_info \<Rightarrow> volume_info" where
  "persisted_info info = info\<lparr>vi_page_size := ucast (ucast (vi_page_size info) :: u32), vi_name := take (VOL_NAME_SIZE - 1) (c_str (vi_name info)), vi_repl_mode := REPL_DISABLED\<rparr>"

lemma no_nul_c_str: "CHR 0x00 \<notin> set s \<Longrightarrow> c_str s = s"
  unfolding c_str_def takeWhile_eq_all_conv by blast

lemma c_str_pad: "CHR 0x00 \<notin> set s \<Longrightarrow> c_str (s @ replicate n (CHR 0x00) @ [CHR 0x00]) = s"
proof -
  assume "CHR 0x00 \<notin> set s"
  moreover have "takeWhile (\<lambda>c. c \<noteq> CHR 0x00) (replicate n (CHR 0x00) @ [CHR 0x00]) = []" by (cases n) auto
  ultimately show ?thesis unfolding c_str_def by (subst takeWhile_append2) auto
qed

lemma name_field_eq:
  "name_field s = take (VOL_NAME_SIZE - 1) (c_str s) @ replicate (VOL_NAME_SIZE - 1 - length (c_str s)) (CHR 0x00) @ [CHR 0x00]"
  by (simp add: name_field_def min_def)

lemma nul_free_name: "CHR 0x00 \<notin> set (take k (c_str s))"
  unfolding c_str_def by (auto dest!: in_set_takeD dest: set_takeWhileD)

lemma c_str_name: "c_str (name_field s) = take (VOL_NAME_SIZE - 1) (c_str s)"
  unfolding name_field_eq [of s] by (rule c_str_pad [OF nul_free_name])

lemma name_field_cut: "name_field (take (VOL_NAME_SIZE - 1) (c_str s)) = name_field s"
  unfolding name_field_eq [of s] name_field_eq [of "take (VOL_NAME_SIZE - 1) (c_str s)"] no_nul_c_str [OF nul_free_name] by simp

lemma ucast_back: "ucast (ucast (ucast (x :: u64) :: u32) :: u64) = (ucast x :: u32)"
  by (rule bit_word_eqI) (auto simp: bit_simps)

lemma sb_of_persisted: "sb_of_info (persisted_info info) = sb_of_info info"
  by (intro ext) (simp add: sb_of_info_def vol_sb_init_def persisted_info_def name_field_cut [simplified] ucast_back)

lemma recovered_info:
  assumes "sb = sb_of_info info p cids sb"
  shows "vol_info (volume_of_sb sb) = persisted_info info"
proof -
  have "sb_id sb = vi_id info" "sb_size sb = vi_size_bytes info" "sb_page_size sb = ucast (vi_page_size info)" "sb_name sb = name_field (vi_name info)" "sb_ordinal sb = vi_ordinal info"
    by (subst assms, simp add: sb_of_info_def vol_sb_init_def)+
  then show ?thesis by (simp add: volume_of_sb_def persisted_info_def c_str_name)
qed

section \<open>The start\<close>

text \<open>The chunks the new process is given are those of the old one.\<close>

definition same_devices :: "start_env \<Rightarrow> 'r homeblks \<Rightarrow> bool" where
  "same_devices env hb \<longleftrightarrow> distinct (map get_chunk_id (bt_vol_chunks env)) \<and> distinct (map get_chunk_id (bt_index_chunks env)) \<and>
     inventory (fold add_chunk (bt_vol_chunks env) VolumeChunkSelector) = inventory (volume_chunk_selector (hs hb)) \<and>
     inventory (fold add_chunk (bt_index_chunks env) VolumeChunkSelector) = inventory (index_chunk_selector (hs hb))"

text \<open>The state a restart ends in, with \<open>sb\<close> the superblock of the instance on the devices.\<close>

definition restarted :: "'r reserver \<Rightarrow> u64 \<Rightarrow> u64 \<Rightarrow> 'r homeblks \<Rightarrow> disk \<Rightarrow> homeblks_sb_t \<Rightarrow> 'r homeblks \<Rightarrow> bool" where
  "restarted rs Bv Bi hb d sb x \<longleftrightarrow>
     (\<exists>hb2. rebuilt rs Bv (inventory (volume_chunk_selector (hs hb))) hb2 (dk_vol_sbs d) x \<and>
        taken Bi (inventory (index_chunk_selector (hs hb))) (map iclaim (dk_index_tables d)) (index_chunk_selector (hs hb2)) \<and>
        index_tables (hs hb2) = dk_index_tables d \<and> idx_tbl_map hb2 = map (\<lambda>t. (ix_parent_uuid t, t)) (dk_index_tables d) \<and> repl_devs (hs hb2) = dk_repl_devs d \<and>
        hb_meta hb2 = Some sb \<and> our_uuid hb2 = hsb_svc_id sb \<and> outstanding_reqs hb2 = 0 \<and> \<not> shutdown_started hb2 \<and> \<not> shutdown_promise hb2 \<and>
        gracefully_shutdown hb2 = test_flag SB_FLAGS_GRACEFUL_SHUTDOWN sb \<and>
        is_restricted hb2 = (\<not> test_flag SB_FLAGS_GRACEFUL_SHUTDOWN sb \<and> test_flag SB_FLAGS_RESTRICTED sb) \<and>
        (\<exists>sb'. hb_sb hb2 = Some sb' \<and> hsb_version sb' = hsb_version sb \<and> hsb_magic sb' = hsb_magic sb \<and> hsb_boot_cnt sb' = hsb_boot_cnt sb + 1))"

lemma sb_found:
  assumes "hsb_version sb = HB_SB_VER" "hsb_magic sb = HB_SB_MAGIC"
  shows "\<exists>sb'. on_hb_meta_blk_found sb hb = Inr (hb\<lparr>hb_sb := Some sb', our_uuid := hsb_svc_id sb,
      gracefully_shutdown := gracefully_shutdown hb \<or> test_flag SB_FLAGS_GRACEFUL_SHUTDOWN sb,
      is_restricted := is_restricted hb \<or> \<not> test_flag SB_FLAGS_GRACEFUL_SHUTDOWN sb \<and> test_flag SB_FLAGS_RESTRICTED sb\<rparr>) \<and>
    hsb_version sb' = hsb_version sb \<and> hsb_magic sb' = hsb_magic sb \<and> hsb_boot_cnt sb' = hsb_boot_cnt sb + 1"
  using assms
  by (intro exI [of _ "(if test_flag SB_FLAGS_GRACEFUL_SHUTDOWN sb then clear_flag SB_FLAGS_GRACEFUL_SHUTDOWN sb else sb)\<lparr>hsb_boot_cnt := hsb_boot_cnt sb + 1\<rparr>"])
    (simp add: on_hb_meta_blk_found_def Let_def clear_flag_def)

lemma restart_runs:
  assumes rok: "reserver_ok rs" and inv: "mgr_inv rs (hb, fl)" and disk: "mgr_disk Bv Bi hb" and d: "on_disk hb d"
    and env: "bt_disk env = Some d" "same_devices env hb" and fmt: "init_format (bt_type_of env) (bt_canonical env) (cfg_devices cfg) csz = Inr ps"
  shows "\<exists>x sb. init_homestore rs cfg csz env (HomeBlocksImpl r0) = Inr (None, x) \<and> hb_meta hb = Some sb \<and> restarted rs Bv Bi hb d sb x"
proof -
  let ?vs = "fold add_chunk (bt_vol_chunks env) VolumeChunkSelector" and ?is = "fold add_chunk (bt_index_chunks env) VolumeChunkSelector"
  let ?iv = "inventory (volume_chunk_selector (hs hb))" and ?ii = "inventory (index_chunk_selector (hs hb))" and ?H = "HomeBlocksImpl r0 :: 'a homeblks"
  obtain sb where sb: "hb_meta hb = Some sb" "hsb_version sb = HB_SB_VER" "hsb_magic sb = HB_SB_MAGIC"
    using mgr_diskD(8) [OF disk] by (auto simp: good_sb_def split: option.splits)
  define hb0 where "hb0 = ?H\<lparr>hs := (hs ?H)\<lparr>volume_chunk_selector := ?vs, index_chunk_selector := ?is, repl_devs := dk_repl_devs d\<rparr>, hb_meta := dk_hb d\<rparr>"
  obtain sb' where sb': "on_hb_meta_blk_found sb hb0 = Inr (hb0\<lparr>hb_sb := Some sb', our_uuid := hsb_svc_id sb,
      gracefully_shutdown := gracefully_shutdown hb0 \<or> test_flag SB_FLAGS_GRACEFUL_SHUTDOWN sb,
      is_restricted := is_restricted hb0 \<or> \<not> test_flag SB_FLAGS_GRACEFUL_SHUTDOWN sb \<and> test_flag SB_FLAGS_RESTRICTED sb\<rparr>)"
    "hsb_version sb' = hsb_version sb" "hsb_magic sb' = hsb_magic sb" "hsb_boot_cnt sb' = hsb_boot_cnt sb + 1" using sb_found [OF sb(2,3), of hb0] by blast
  define hb1 where "hb1 = hb0\<lparr>hb_sb := Some sb', our_uuid := hsb_svc_id sb, gracefully_shutdown := gracefully_shutdown hb0 \<or> test_flag SB_FLAGS_GRACEFUL_SHUTDOWN sb,
      is_restricted := is_restricted hb0 \<or> \<not> test_flag SB_FLAGS_GRACEFUL_SHUTDOWN sb \<and> test_flag SB_FLAGS_RESTRICTED sb\<rparr>"
  have dk: "dk_hb d = Some sb" using d sb(1) by (simp add: on_disk_def)
  have reg: "register_metablk_cb (dk_hb d) hb0 = Inr hb1" using sb'(1) by (simp add: register_metablk_cb_def dk hb1_def)
  note R = on_disk_recoverable [OF inv disk d]
  have Bi: "\<forall>cid p b. ?ii cid = Some (p, b) \<longrightarrow> b = Bi" and Bv: "\<forall>cid p b. ?iv cid = Some (p, b) \<longrightarrow> b = Bv" using mgr_diskD(1,2) [OF disk] by (simp_all add: sized_def)
  have E: "distinct (map get_chunk_id (bt_vol_chunks env))" "inventory ?vs = ?iv" "distinct (map get_chunk_id (bt_index_chunks env))" "inventory ?is = ?ii"
    using env(2) by (simp_all add: same_devices_def)
  obtain Lv Li where "sel_rel (volume_chunk_selector (hs hb)) Lv" "sel_rel (index_chunk_selector (hs hb)) Li"
    using mgr_invD(1,2) [OF inv] by (auto simp: sel_ok_def)
  then have "\<forall>c\<in>set (bt_vol_chunks env). chunk_bytes c \<noteq> 0" "\<forall>c\<in>set (bt_index_chunks env). chunk_bytes c \<noteq> 0"
    using inventory_sized [OF E(1,2)] inventory_sized [OF E(3,4)] by blast+
  then have "taken Bv ?iv [] ?vs" "taken Bi ?ii [] ?is"
    using taken_fresh [OF E(1), of Bv] taken_fresh [OF E(3), of Bi] E(2,4) by simp_all
  then have h1: "taken Bi ?ii [] (index_chunk_selector (hs hb1))" "index_tables (hs hb1) = []" "idx_tbl_map hb1 = []" "taken Bv ?iv [] (volume_chunk_selector (hs hb1))"
    "vol_meta (hs hb1) = (\<lambda>_. None)" "objs hb1 = (\<lambda>_. None)" "next_obj hb1 = 0" "vol_map hb1 = []" "removals hb1 = []" "repl_devs (hs hb1) = dk_repl_devs d"
    by (simp_all add: hb1_def hb0_def HomeBlocksImpl_def)
  obtain s where s: "foldl (\<lambda>r sb. bind_sum r (on_index_table_found sb)) (Inr hb1) (dk_index_tables d) =
      Inr (hb1\<lparr>hs := (hs hb1)\<lparr>index_chunk_selector := s, index_tables := dk_index_tables d\<rparr>, idx_tbl_map := map (\<lambda>t. (ix_parent_uuid t, t)) (dk_index_tables d)\<rparr>)"
    "taken Bi ?ii (map iclaim (dk_index_tables d)) s" using recover_tables [OF R(2) Bi R(4) h1(1-3)] by blast
  define hb2 where "hb2 = hb1\<lparr>hs := (hs hb1)\<lparr>index_chunk_selector := s, index_tables := dk_index_tables d\<rparr>, idx_tbl_map := map (\<lambda>t. (ix_parent_uuid t, t)) (dk_index_tables d)\<rparr>"
  have tbl: "map_of (idx_tbl_map hb2) (sb_id w) \<noteq> None" if w: "w \<in> set (dk_vol_sbs d)" for w
  proof -
    obtain i h v t where e: "entry hb i h v w t" using w d sb_entry [OF inv disk, of w] by (auto simp: on_disk_def)
    have "t \<in> set (dk_index_tables d)" "ix_parent_uuid t = sb_id w" using e entry_facts(2,3) [OF inv disk e] d by (auto simp: entry_def on_disk_def)
    then show ?thesis by (simp add: hb2_def map_of_eq_None_iff image_iff) metis
  qed
  have "taken Bv ?iv [] (volume_chunk_selector (hs hb2))" "vol_meta (hs hb2) = (\<lambda>_. None)" "objs hb2 = (\<lambda>_. None)" "next_obj hb2 = 0" "vol_map hb2 = []" "removals hb2 = []"
    using h1 by (simp_all add: hb2_def)
  then obtain x where x: "on_init_complete rs (dk_vol_sbs d) hb2 = Inr x" "rebuilt rs Bv ?iv hb2 (dk_vol_sbs d) x"
    using rebuild_all [OF rok R(1) Bv R(3) tbl] by blast
  have "hs_start rs env ?H = Inr (False, x)"
    using env(1) reg s(1) x(1) unfolding hs_start_def on_repl_devs_init_completed_def hb2_def hb0_def by (simp add: Let_def HomeBlocksImpl_def)
  then have run: "init_homestore rs cfg csz env ?H = Inr (None, x)" using fmt by (simp add: init_homestore_def)
  have "restarted rs Bv Bi hb d sb x"
    unfolding restarted_def using x(2) s(2) h1(10) dk sb'(2-4)
    by (intro exI [of _ hb2] conjI) (simp_all add: hb2_def hb1_def hb0_def HomeBlocksImpl_def)
  then show ?thesis using run sb(1) by blast
qed

section \<open>What comes back\<close>

lemma restarted_state:
  assumes "restarted rs Bv Bi hb d sb x"
  shows "objs x k = (if k < length (dk_vol_sbs d) then Some (recovered (set (dk_repl_devs d)) (map_of (map (\<lambda>t. (ix_parent_uuid t, t)) (dk_index_tables d))) (dk_vol_sbs d ! k)) else None)"
    "vol_meta (hs x) k = (if k < length (dk_vol_sbs d) then Some (dk_vol_sbs d ! k) else None)" "next_obj x = length (dk_vol_sbs d)"
    "distinct (map fst (vol_map x))" "(i, k) \<in> set (vol_map x) \<longleftrightarrow> k < length (dk_vol_sbs d) \<and> i = sb_id (dk_vol_sbs d ! k)"
    "sb_ordinal ` set (dk_vol_sbs d) \<subseteq> rs_ids rs (ordinal_reserver x)" "index_tables (hs x) = dk_index_tables d" "repl_devs (hs x) = dk_repl_devs d"
    "taken Bv (inventory (volume_chunk_selector (hs hb))) (map vclaim (dk_vol_sbs d)) (volume_chunk_selector (hs x))"
    "taken Bi (inventory (index_chunk_selector (hs hb))) (map iclaim (dk_index_tables d)) (index_chunk_selector (hs x))"
    "removals x = (if is_restricted x then [] else map (\<lambda>sb. DoRemove (sb_id sb)) (filter (\<lambda>sb. sb_state sb = DESTROYING) (dk_vol_sbs d)))"
    "hb_meta x = Some sb" "our_uuid x = hsb_svc_id sb" "outstanding_reqs x = 0" "\<not> shutdown_started x" "\<not> shutdown_promise x"
    "gracefully_shutdown x = test_flag SB_FLAGS_GRACEFUL_SHUTDOWN sb" "is_restricted x = (\<not> test_flag SB_FLAGS_GRACEFUL_SHUTDOWN sb \<and> test_flag SB_FLAGS_RESTRICTED sb)"
    "\<exists>sb'. hb_sb x = Some sb' \<and> hsb_version sb' = hsb_version sb \<and> hsb_magic sb' = hsb_magic sb \<and> hsb_boot_cnt sb' = hsb_boot_cnt sb + 1"
  using assms unfolding restarted_def rebuilt_def by (elim exE conjE; simp)+

lemma taken_claim:
  assumes "taken B ivt cl s" "(n, p, sz, cids) \<in> set cl"
  shows "has_chunks s n" "vol_ids s n = cids" "shape s n = Some (p, chunks_for sz B)"
  using assms unfolding taken_def has_chunks_def by (force dest!: bspec)+

text \<open>The volumes and their superblocks, index tables and chunks, in both directions.\<close>

lemma restarted_entry:
  assumes inv: "mgr_inv rs (hb, fl)" and disk: "mgr_disk Bv Bi hb" and d: "on_disk hb d" and x: "restarted rs Bv Bi hb d sb0 x" and e: "entry hb i h v sb tbl"
  shows "\<exists>k v'. entry x i k v' sb tbl \<and> vol_info v' = persisted_info (vol_info v) \<and> m_state v' = m_state v \<and> vol_outstanding v' = 0 \<and> \<not> destroy_started v' \<and>
    vol_rd v' = (if i \<in> set (repl_devs (hs hb)) then Some i else None) \<and>
    vol_ids (volume_chunk_selector (hs x)) (vi_ordinal (vol_info v)) = vol_ids (volume_chunk_selector (hs hb)) (vi_ordinal (vol_info v)) \<and>
    vol_ids (index_chunk_selector (hs x)) (vi_ordinal (vol_info v)) = vol_ids (index_chunk_selector (hs hb)) (vi_ordinal (vol_info v)) \<and>
    shape (volume_chunk_selector (hs x)) (vi_ordinal (vol_info v)) = Some (sb_pdev_id sb, chunks_for (vi_size_bytes (vol_info v)) Bv) \<and>
    shape (index_chunk_selector (hs x)) (vi_ordinal (vol_info v)) = Some (ix_pdev_id tbl, chunks_for (ix_max_size_bytes tbl) Bi)"
proof -
  note X = restarted_state [OF x] and F = entry_facts [OF inv disk e]
  have in_d: "sb \<in> set (dk_vol_sbs d)" "tbl \<in> set (dk_index_tables d)" using e d by (auto simp: entry_def on_disk_def intro: ranI)
  then obtain k where k: "k < length (dk_vol_sbs d)" "dk_vol_sbs d ! k = sb" by (auto simp: in_set_conv_nth)
  let ?v' = "recovered (set (dk_repl_devs d)) (map_of (map (\<lambda>t. (ix_parent_uuid t, t)) (dk_index_tables d))) sb"
  have "map_of (map (\<lambda>t. (ix_parent_uuid t, t)) (dk_index_tables d)) i = Some tbl"
    using on_disk_recoverable(4) [OF inv disk d] in_d(2) F(3) by (intro map_of_is_SomeI) (auto simp: comp_def)
  then have v': "indx_tbl ?v' = Some tbl" "vol_info ?v' = vol_info (volume_of_sb sb)" "m_state ?v' = sb_state sb" "vol_sb ?v' = Some sb" "vol_outstanding ?v' = 0" "\<not> destroy_started ?v'"
    "vol_rd ?v' = (if i \<in> set (dk_repl_devs d) then Some i else None)" using F(2) by (simp_all add: recovered_def volume_of_sb_def)
  have "entry x i k ?v' sb tbl" using X(1,2,5,7) k F(2) v'(1,4) in_d(2) by (simp add: entry_def)
  moreover have "vol_info ?v' = persisted_info (vol_info v)" using v'(2) recovered_info [OF F(6)] by simp
  moreover have "vclaim sb \<in> set (map vclaim (dk_vol_sbs d))" "iclaim tbl \<in> set (map iclaim (dk_index_tables d))" using in_d by simp_all
  note taken_claim [OF X(9) this(1) [unfolded F(8)]] taken_claim [OF X(10) this(2) [unfolded F(9)]]
  ultimately show ?thesis using v'(3,5,6,7) F(7) d by (intro exI [of _ k] exI [of _ ?v']) (simp add: on_disk_def)
qed

lemma restarted_only:
  assumes inv: "mgr_inv rs (hb, fl)" and disk: "mgr_disk Bv Bi hb" and d: "on_disk hb d" and x: "restarted rs Bv Bi hb d sb0 x" and e: "(i, k) \<in> set (vol_map x)"
  shows "\<exists>h v sb tbl. entry hb i h v sb tbl \<and> (\<exists>v'. entry x i k v' sb tbl)"
proof -
  note X = restarted_state [OF x]
  have k: "k < length (dk_vol_sbs d)" "i = sb_id (dk_vol_sbs d ! k)" using e X(5) by simp_all
  then have "dk_vol_sbs d ! k \<in> ran (vol_meta (hs hb))" using d nth_mem [OF k(1)] by (simp add: on_disk_def)
  then obtain j h v tbl where o: "entry hb j h v (dk_vol_sbs d ! k) tbl" using sb_entry [OF inv disk] by blast
  then have "j = i" using entry_facts(2) [OF inv disk o] k(2) by simp
  obtain l v' where n: "entry x i l v' (dk_vol_sbs d ! k) tbl" using restarted_entry [OF inv disk d x o] \<open>j = i\<close> by blast
  have "l = k" using n e X(4) by (auto simp: entry_def dest: eq_key_imp_eq_value)
  then show ?thesis using o n \<open>j = i\<close> by blast
qed

section \<open>The invariants again\<close>

text \<open>An entry of the new map with the old entry it comes from.\<close>

lemma restarted_pair:
  assumes inv: "mgr_inv rs (hb, fl)" and disk: "mgr_disk Bv Bi hb" and d: "on_disk hb d" and x: "restarted rs Bv Bi hb d sb0 x" and e: "(i, k) \<in> set (vol_map x)" "objs x k = Some w"
  obtains h v sb tbl where "entry hb i h v sb tbl" "entry x i k w sb tbl" "vol_info w = persisted_info (vol_info v)" "m_state w = m_state v" "vol_outstanding w = 0"
    "\<not> destroy_started w" "vol_rd w = (if i \<in> set (repl_devs (hs hb)) then Some i else None)"
    "vol_ids (volume_chunk_selector (hs x)) (vi_ordinal (vol_info v)) = vol_ids (volume_chunk_selector (hs hb)) (vi_ordinal (vol_info v))"
    "vol_ids (index_chunk_selector (hs x)) (vi_ordinal (vol_info v)) = vol_ids (index_chunk_selector (hs hb)) (vi_ordinal (vol_info v))"
    "shape (volume_chunk_selector (hs x)) (vi_ordinal (vol_info v)) = Some (sb_pdev_id sb, chunks_for (vi_size_bytes (vol_info v)) Bv)"
    "shape (index_chunk_selector (hs x)) (vi_ordinal (vol_info v)) = Some (ix_pdev_id tbl, chunks_for (ix_max_size_bytes tbl) Bi)"
proof -
  obtain h v sb tbl where o: "entry hb i h v sb tbl" using restarted_only [OF inv disk d x e(1)] by blast
  obtain l v' where n: "entry x i l v' sb tbl" "vol_info v' = persisted_info (vol_info v)" "m_state v' = m_state v" "vol_outstanding v' = 0"
    "\<not> destroy_started v'" "vol_rd v' = (if i \<in> set (repl_devs (hs hb)) then Some i else None)"
    "vol_ids (volume_chunk_selector (hs x)) (vi_ordinal (vol_info v)) = vol_ids (volume_chunk_selector (hs hb)) (vi_ordinal (vol_info v))"
    "vol_ids (index_chunk_selector (hs x)) (vi_ordinal (vol_info v)) = vol_ids (index_chunk_selector (hs hb)) (vi_ordinal (vol_info v))"
    "shape (volume_chunk_selector (hs x)) (vi_ordinal (vol_info v)) = Some (sb_pdev_id sb, chunks_for (vi_size_bytes (vol_info v)) Bv)"
    "shape (index_chunk_selector (hs x)) (vi_ordinal (vol_info v)) = Some (ix_pdev_id tbl, chunks_for (ix_max_size_bytes tbl) Bi)"
    using restarted_entry [OF inv disk d x o] by blast
  have "l = k" using n(1) e(1) restarted_state(4) [OF x] by (auto simp: entry_def dest: eq_key_imp_eq_value)
  moreover from this have "v' = w" using n(1) e(2) by (simp add: entry_def)
  ultimately show thesis using that o n by blast
qed

lemma persisted_fields [simp]:
  "vi_id (persisted_info info) = vi_id info" "vi_ordinal (persisted_info info) = vi_ordinal info" "vi_size_bytes (persisted_info info) = vi_size_bytes info"
  by (simp_all add: persisted_info_def)

lemma no_waits: "waits (map (\<lambda>sb. DoRemove (f sb)) l) h = 0"
  by (induction l) (simp_all add: waits_def)

lemma restarted_vol_ok:
  assumes inv: "mgr_inv rs (hb, fl)" and disk: "mgr_disk Bv Bi hb" and d: "on_disk hb d" and x: "restarted rs Bv Bi hb d sb0 x" and e: "(i, k) \<in> set (vol_map x)" "objs x k = Some w"
  shows "vol_ok (rs_ids rs (ordinal_reserver x)) (hs x) (removals x) [] i k w"
proof -
  note X = restarted_state [OF x]
  obtain h v sb tbl where E: "entry hb i h v sb tbl" "entry x i k w sb tbl" "vol_info w = persisted_info (vol_info v)" "m_state w = m_state v" "vol_outstanding w = 0"
    "\<not> destroy_started w" "vol_rd w = (if i \<in> set (repl_devs (hs hb)) then Some i else None)"
    and S: "vol_ids (volume_chunk_selector (hs x)) (vi_ordinal (vol_info v)) = vol_ids (volume_chunk_selector (hs hb)) (vi_ordinal (vol_info v))"
    "vol_ids (index_chunk_selector (hs x)) (vi_ordinal (vol_info v)) = vol_ids (index_chunk_selector (hs hb)) (vi_ordinal (vol_info v))"
    "shape (volume_chunk_selector (hs x)) (vi_ordinal (vol_info v)) = Some (sb_pdev_id sb, chunks_for (vi_size_bytes (vol_info v)) Bv)"
    "shape (index_chunk_selector (hs x)) (vi_ordinal (vol_info v)) = Some (ix_pdev_id tbl, chunks_for (ix_max_size_bytes tbl) Bi)"
    by (rule restarted_pair [OF inv disk d x e])
  note F = entry_facts [OF inv disk E(1)]
  have vok: "vol_ok (rs_ids rs (ordinal_reserver hb)) (hs hb) (removals hb) fl i h v" using mgr_invD(6) [OF inv, of i h] E(1) by (auto simp: entry_def)
  have "sb \<in> set (dk_vol_sbs d)" using E(1) d by (auto simp: entry_def on_disk_def intro: ranI)
  then have R: "vi_ordinal (vol_info v) \<in> rs_ids rs (ordinal_reserver x)" using X(6) F(4) by force
  have hc: "has_chunks (volume_chunk_selector (hs x)) (vi_ordinal (vol_info v))" "has_chunks (index_chunk_selector (hs x)) (vi_ordinal (vol_info v))"
    using S(3,4) by (auto simp: has_chunks_def shape_def)
  have sbm: "sb_matches (vol_info w) (m_state w) (vol_ids (volume_chunk_selector (hs x)) (vi_ordinal (vol_info v))) sb"
    using F(6,7) unfolding sb_matches_def E(3,4) S(1) sb_of_persisted by simp
  have w: "waits (removals x) k = 0" using X(11) by (simp add: no_waits)
  have t: "ix_chunk_ids tbl = vol_ids (index_chunk_selector (hs x)) (vi_ordinal (vol_info v))" using F(9) S(2) by (simp add: iclaim_def)
  have n: "vi_ordinal (vol_info v) < MAX_NUM_VOLUMES" using vok by (simp add: vol_ok_def Let_def)
  show ?thesis
    unfolding vol_ok_def Let_def E(3) persisted_fields
  proof (intro conjI)
    show "\<exists>sb. vol_sb w = Some sb \<and> vol_meta (hs x) k = Some sb \<and> sb_matches (persisted_info (vol_info v)) (m_state w) (vol_ids (volume_chunk_selector (hs x)) (vi_ordinal (vol_info v))) sb"
      using E(2) sbm E(3) by (auto simp: entry_def)
    show "\<exists>tbl. indx_tbl w = Some tbl \<and> tbl \<in> set (index_tables (hs x)) \<and> ix_parent_uuid tbl = i \<and> ix_ordinal tbl = vi_ordinal (vol_info v) \<and>
        ix_chunk_ids tbl = vol_ids (index_chunk_selector (hs x)) (vi_ordinal (vol_info v))"
      using E(2) F(3,5) t by (auto simp: entry_def)
    show "m_state w \<noteq> DESTROYING \<or> k \<in> set [] \<longrightarrow> vol_rd w \<noteq> None" using F(12) E(4,7) by simp
  qed (use F(1) n R E(5,6) w hc in simp_all)
qed

lemma restarted_inv:
  assumes inv: "mgr_inv rs (hb, fl)" and disk: "mgr_disk Bv Bi hb" and d: "on_disk hb d" and x: "restarted rs Bv Bi hb d sb0 x"
  shows "mgr_inv rs (x, [])"
proof -
  note X = restarted_state [OF x]
  have obj: "\<exists>w. objs x k = Some w" if "(i, k) \<in> set (vol_map x)" for i k using that X(1,5) by simp
  have ord: "sb_ordinal ` set (dk_vol_sbs d) = ix_ordinal ` set (dk_index_tables d)"
  proof -
    have "\<exists>t\<in>set (dk_index_tables d). ix_ordinal t = sb_ordinal sb" if s: "sb \<in> set (dk_vol_sbs d)" for sb
    proof -
      obtain i h v t where e: "entry hb i h v sb t" using s d sb_entry [OF inv disk, of sb] by (auto simp: on_disk_def)
      show ?thesis by (rule bexI [of _ t]) (use e entry_facts(4,5) [OF inv disk e] d in \<open>simp_all add: entry_def on_disk_def\<close>)
    qed
    moreover have "\<exists>sb\<in>set (dk_vol_sbs d). sb_ordinal sb = ix_ordinal t" if s: "t \<in> set (dk_index_tables d)" for t
    proof -
      obtain i h v sb where e: "entry hb i h v sb t" using s d table_entry [OF inv disk, of t] by (auto simp: on_disk_def)
      show ?thesis by (rule bexI [of _ sb]) (use e entry_facts(4,5) [OF inv disk e] d in \<open>auto simp: entry_def on_disk_def intro: ranI\<close>)
    qed
    ultimately show ?thesis by (auto simp: image_iff) metis+
  qed
  show ?thesis
  proof (rule mgr_invI)
    show "sel_ok (volume_chunk_selector (hs x))" "sel_ok (index_chunk_selector (hs x))" using X(9,10) by (auto simp: taken_def none_lost_def sel_ok_def)
    show "distinct (map fst (vol_map x))" by (rule X(4))
    show "n \<in> rs_ids rs (ordinal_reserver x)" if "has_chunks (volume_chunk_selector (hs x)) n \<or> has_chunks (index_chunk_selector (hs x)) n" for n
    proof -
      have "n \<in> sb_ordinal ` set (dk_vol_sbs d) \<or> n \<in> ix_ordinal ` set (dk_index_tables d)"
        using that X(9,10) unfolding taken_def has_chunks_def by (auto simp: vclaim_def iclaim_def image_iff)
      then show ?thesis using X(6) ord by blast
    qed
    show "objs x h = None" if "next_obj x \<le> h" for h using that X(1,3) by simp
    show "\<exists>w. objs x k = Some w \<and> vol_ok (rs_ids rs (ordinal_reserver x)) (hs x) (removals x) [] i k w" if "(i, k) \<in> set (vol_map x)" for i k
      using obj [OF that] restarted_vol_ok [OF inv disk d x that] by blast
    show "i = j" if a: "(i, k) \<in> set (vol_map x)" "(j, l) \<in> set (vol_map x)" "objs x k = Some v" "objs x l = Some w" "vi_ordinal (vol_info v) = vi_ordinal (vol_info w)" for i k j l v w
    proof -
      obtain h1 v1 sb1 t1 where E: "entry hb i h1 v1 sb1 t1" "vol_info v = persisted_info (vol_info v1)" by (rule restarted_pair [OF inv disk d x a(1,3)])
      obtain h2 v2 sb2 t2 where G: "entry hb j h2 v2 sb2 t2" "vol_info w = persisted_info (vol_info v2)" by (rule restarted_pair [OF inv disk d x a(2,4)])
      show ?thesis using entry_inj [OF inv disk E(1) G(1)] a(5) E(2) G(2) by simp
    qed
    show "m_state v = DESTROYING" if "objs x h = Some v" "h \<notin> snd ` set (vol_map x)" for h v
    proof -
      have "h < length (dk_vol_sbs d)" using that(1) X(1) by (simp split: if_splits)
      then show ?thesis using that(2) X(5) [of "sb_id (dk_vol_sbs d ! h)" h] by force
    qed
    show "h \<in> snd ` set (vol_map x)" if "waits (removals x) h \<noteq> 0" for h using that X(11) by (simp add: no_waits split: if_splits)
  qed simp
qed

lemma restarted_disk:
  assumes inv: "mgr_inv rs (hb, fl)" and disk: "mgr_disk Bv Bi hb" and d: "on_disk hb d" and x: "restarted rs Bv Bi hb d sb0 x" and m: "hb_meta hb = Some sb0"
  shows "mgr_disk Bv Bi x"
proof (rule mgr_diskI)
  note X = restarted_state [OF x]
  have "inventory (volume_chunk_selector (hs x)) = inventory (volume_chunk_selector (hs hb))" "inventory (index_chunk_selector (hs x)) = inventory (index_chunk_selector (hs hb))"
    using X(9,10) by (simp_all add: taken_def)
  then show "sized Bv (volume_chunk_selector (hs x))" "sized Bi (index_chunk_selector (hs x))" using mgr_diskD(1,2) [OF disk] by (simp_all add: sized_def)
  show "vol_disk Bv Bi (hs x) w" if e: "(i, k) \<in> set (vol_map x)" "objs x k = Some w" for i k w
  proof -
    obtain h v sb tbl where E: "entry hb i h v sb tbl" "entry x i k w sb tbl" "vol_info w = persisted_info (vol_info v)" "vol_rd w = (if i \<in> set (repl_devs (hs hb)) then Some i else None)"
      "shape (volume_chunk_selector (hs x)) (vi_ordinal (vol_info v)) = Some (sb_pdev_id sb, chunks_for (vi_size_bytes (vol_info v)) Bv)"
      "shape (index_chunk_selector (hs x)) (vi_ordinal (vol_info v)) = Some (ix_pdev_id tbl, chunks_for (ix_max_size_bytes tbl) Bi)"
      by (rule restarted_pair [OF inv disk d x e])
    note F = entry_facts [OF inv disk E(1)]
    show ?thesis unfolding vol_disk_def using E F(1,3,5) d X(8) by (auto simp: entry_def on_disk_def split: if_splits)
  qed
  show "distinct (index_tables (hs x))" using d X(7) by (simp add: on_disk_def)
  show "\<exists>i k w. (i, k) \<in> set (vol_map x) \<and> objs x k = Some w \<and> indx_tbl w = Some t" if t: "t \<in> set (index_tables (hs x))" for t
  proof -
    obtain i h v sb where o: "entry hb i h v sb t" using t d X(7) table_entry [OF inv disk, of t] by (auto simp: on_disk_def)
    show ?thesis using restarted_entry [OF inv disk d x o] by (auto simp: entry_def)
  qed
  show "k \<in> snd ` set (vol_map x)" if "vol_meta (hs x) k \<noteq> None" for k
    using that X(2,5) by (force split: if_splits)
  show "good_sb (hb_sb x)" "good_sb (hb_meta x)" using mgr_diskD(8) [OF disk] m X(12,19) by (auto simp: good_sb_def)
qed

end
