(* ===== verification/Manager_Reach.thy ===== *)
theory Manager_Reach
  imports Manager_Return
begin

text \<open>
  The step relation of the manager and its reachable states, over any number of runs of the process: an instance is started on new devices, works, stops between two steps, by a shutdown or
  by a crash, and is started again on the devices it leaves.
\<close>

section \<open>The state machine\<close>

text \<open>The instance after the first start: no volume, two selectors that know the chunks of the devices, nothing reserved by a volume.\<close>

definition boot :: "selector \<Rightarrow> selector \<Rightarrow> 'r \<Rightarrow> peer_id_t \<Rightarrow> 'r homeblks" where
  "boot vs is' r uuid =
     superblk_init \<lparr>hs = \<lparr>volume_chunk_selector = vs, index_chunk_selector = is', repl_devs = [], index_tables = [], vol_meta = (\<lambda>_. None)\<rparr>,
       objs = (\<lambda>_. None), next_obj = 0, vol_map = [], idx_tbl_map = [], hb_sb = None, hb_meta = None, gracefully_shutdown = False, our_uuid = uuid,
       ordinal_reserver = r, outstanding_reqs = 0, shutdown_started = False, is_restricted = False, shutdown_promise = False, removals = []\<rparr>"

lemma first_start:
  assumes "bt_disk env = None"
  shows "init_homestore rs cfg csz env (HomeBlocksImpl r) =
    bind_sum (init_format (bt_type_of env) (bt_canonical env) (cfg_devices cfg) csz) (\<lambda>fmt. bind_sum (cold_boot_id cfg env) (\<lambda>uuid.
      Inr (Some fmt, boot (fold add_chunk (bt_vol_chunks env) VolumeChunkSelector) (fold add_chunk (bt_index_chunks env) VolumeChunkSelector) r uuid)))"
  using assms by (simp add: init_homestore_def hs_start_def Let_def HomeBlocksImpl_def boot_def)

text \<open>
  The steps of the manager. An I/O is two steps, the checks together with the guard, and the end; in between anything may happen. Three orders that the code allows are left out, because what these
  properties promise is not true after them, and each has a statement of its own: a removal between the checks of an I/O and its guard (\<open>removal_before_guard\<close>), a fault-containment event for a
  volume that is being removed (\<^const>\<open>fc_admissible\<close>, \<open>fc_exit_revives_removed_volume\<close>), and a resize task that runs after the removal of its volume (\<^const>\<open>resize_admissible\<close>,
  \<open>stale_resize_corrupts_superblock\<close>). A creation is one step: another operation between its look at the map and its entry into the map is not covered (\<open>create_same_id_twice\<close>).
\<close>

inductive mgr_step :: "'r reserver \<Rightarrow> sb_api \<Rightarrow> 'd repl_dev \<Rightarrow> 'r homeblks \<times> handle list \<Rightarrow> 'r homeblks \<times> handle list \<Rightarrow> bool"
  for rs :: "'r reserver" and sa :: sb_api and rd :: "'d repl_dev" where
  create: "create_volume rs sa env info hb = Inr (r, hb') \<Longrightarrow> mgr_step rs sa rd (hb, fl) (hb', fl)"
| remove: "remove_volume i hb = Inr (r, hb') \<Longrightarrow> mgr_step rs sa rd (hb, fl) (hb', fl)"
| run: "c \<in> set (removals hb) \<Longrightarrow> run_removal rs gone c hb = Inr hb' \<Longrightarrow> mgr_step rs sa rd (hb, fl) (hb', fl)"
| gc: "vol_gc hb = Inr hb' \<Longrightarrow> mgr_step rs sa rd (hb, fl) (hb', fl)"
| io_start: "objs hb h = Some v \<Longrightarrow> io_precheck rd hb v addr len = Inr (Inr b) \<Longrightarrow>
    mgr_step rs sa rd (hb, fl) (hb\<lparr>objs := (objs hb)(h \<mapsto> vol_inc_ref v)\<rparr>, h # fl)"
| io_end: "h \<in> set fl \<Longrightarrow> objs hb h = Some v \<Longrightarrow> mgr_step rs sa rd (hb, fl) (hb\<lparr>objs := (objs hb)(h \<mapsto> vol_dec_ref v)\<rparr>, remove1 h fl)"
| select: "select_round others nblks t a n (volume_chunk_selector (hs hb)) = Inr (r, s') \<Longrightarrow>
    mgr_step rs sa rd (hb, fl) (hb\<lparr>hs := (hs hb)\<lparr>volume_chunk_selector := s'\<rparr>\<rparr>, fl)"
| select_index: "select_round others nblks t a n (index_chunk_selector (hs hb)) = Inr (r, s') \<Longrightarrow>
    mgr_step rs sa rd (hb, fl) (hb\<lparr>hs := (hs hb)\<lparr>index_chunk_selector := s'\<rparr>\<rparr>, fl)"
| blks: "s' = (volume_chunk_selector (hs hb))\<lparr>m_all_chunks := set_available cid k (m_all_chunks (volume_chunk_selector (hs hb)))\<rparr> \<Longrightarrow>
    mgr_step rs sa rd (hb, fl) (hb\<lparr>hs := (hs hb)\<lparr>volume_chunk_selector := s'\<rparr>\<rparr>, fl)"
| resize: "resize_admissible (volume_chunk_selector (hs hb)) \<Longrightarrow> run_volume_resize sa hb = Inr hb' \<Longrightarrow> mgr_step rs sa rd (hb, fl) (hb', fl)"
| fc: "fc_admissible cookie hb \<Longrightarrow> on_fault_containment ev cookie hb = Inr hb' \<Longrightarrow> mgr_step rs sa rd (hb, fl) (hb', fl)"
| shutdown: "mgr_step rs sa rd (hb, fl) (shutdown_start hb, fl)"
| timer: "do_shutdown hb = Inr hb' \<Longrightarrow> mgr_step rs sa rd (hb, fl) (hb', fl)"
| finish: "shutdown_promise hb \<Longrightarrow> shutdown_finish hb = Inr hb' \<Longrightarrow> mgr_step rs sa rd (hb, fl) (hb', fl)"

text \<open>
  The chunks of a service have distinct ids and one size, the one the service is formatted with, which is not 0. A restart drops the requests in flight and the suspended removals of the old process.
\<close>

definition new_devices :: "start_env \<Rightarrow> bool" where
  "new_devices env \<longleftrightarrow> bt_disk env = None \<and> distinct (map get_chunk_id (bt_vol_chunks env)) \<and> distinct (map get_chunk_id (bt_index_chunks env)) \<and>
     (\<exists>Bv. Bv \<noteq> 0 \<and> (\<forall>c\<in>set (bt_vol_chunks env). chunk_bytes c = Bv)) \<and> (\<exists>Bi. Bi \<noteq> 0 \<and> (\<forall>c\<in>set (bt_index_chunks env). chunk_bytes c = Bi))"

inductive mgr_reachable :: "'r reserver \<Rightarrow> sb_api \<Rightarrow> 'd repl_dev \<Rightarrow> 'r homeblks \<times> handle list \<Rightarrow> bool"
  for rs :: "'r reserver" and sa :: sb_api and rd :: "'d repl_dev" where
  start: "new_devices env \<Longrightarrow> init_homestore rs cfg csz env (HomeBlocksImpl r) = Inr (f, hb) \<Longrightarrow> mgr_reachable rs sa rd (hb, [])"
| step: "mgr_reachable rs sa rd s \<Longrightarrow> mgr_step rs sa rd s s' \<Longrightarrow> mgr_reachable rs sa rd s'"
| restart: "mgr_reachable rs sa rd (hb, fl) \<Longrightarrow> on_disk hb d \<Longrightarrow> bt_disk env = Some d \<Longrightarrow> same_devices env hb \<Longrightarrow>
    init_homestore rs cfg csz env (HomeBlocksImpl r) = Inr (f, hb') \<Longrightarrow> mgr_reachable rs sa rd (hb', [])"

inductive_cases mgr_stepE: "mgr_step rs sa rd s s'"

lemma owners_keep_one:
  assumes "mgr_inv rs (hb, fl)" "sel_ok s'"
  shows "same_owners (volume_chunk_selector (hs hb)) s' \<Longrightarrow> mgr_inv rs (hb\<lparr>hs := (hs hb)\<lparr>volume_chunk_selector := s'\<rparr>\<rparr>, fl)"
    "same_owners (index_chunk_selector (hs hb)) s' \<Longrightarrow> mgr_inv rs (hb\<lparr>hs := (hs hb)\<lparr>index_chunk_selector := s'\<rparr>\<rparr>, fl)"
  using owners_keep [OF assms(1), of s' "index_chunk_selector (hs hb)"] owners_keep [OF assms(1), of "volume_chunk_selector (hs hb)" s']
    mgr_invD(1,2) [OF assms(1)] assms(2) by (simp_all add: same_owners_def)

lemma mgr_step_keeps:
  assumes rok: "reserver_ok rs" and sa: "sb_api_ok sa" and st: "mgr_step rs sa rd s s'" and inv: "mgr_inv rs s"
  shows "mgr_inv rs s'"
  using st inv
proof (cases rule: mgr_step.cases)
  case (io_start hb h v addr len b fl)
  then show ?thesis using inv io_precheck_served(3,5) [OF io_start(4)] by (simp add: io_start_keeps)
next
  case (select others nblks t a n hb r vs fl)
  then show ?thesis using inv select_round_owners [OF mgr_invD(1)] owners_keep_one(1) by metis
next
  case (select_index others nblks t a n hb r vs fl)
  then show ?thesis using inv select_round_owners [OF mgr_invD(2)] owners_keep_one(2) by metis
next
  case (blks vs cid k hb fl)
  then show ?thesis using inv set_available_owners [OF mgr_invD(1)] owners_keep_one(1) by metis
next
  case (timer hb hb' fl)
  then show ?thesis using inv by (auto simp: do_shutdown_def mgr_inv_flags split: if_splits)
next
  case (finish hb hb' fl)
  then show ?thesis using inv by (auto simp: shutdown_finish_def mgr_inv_def Let_def split: option.splits)
qed (use inv rok sa in \<open>auto simp: shutdown_start_def mgr_inv_flags intro: create_volume_keeps remove_volume_keeps [THEN conjunct1] run_removal_keeps vol_gc_keeps io_end_keeps
    run_volume_resize_keeps on_fault_containment_keeps\<close>)

lemma boot_inv:
  assumes "sel_reachable vs" "sel_reachable is'" "\<And>n. m_volume_chunks vs n = None" "\<And>n. m_volume_chunks is' n = None"
  shows "mgr_inv rs (boot vs is' r uuid, [])"
  using assms sel_reachable_ledger [OF assms(1)] sel_reachable_ledger [OF assms(2)]
  by (simp add: mgr_inv_def boot_def superblk_init_def Let_def sel_ok_def has_chunks_def)

lemma shutdown_finish_disk: "mgr_disk Bv Bi hb \<Longrightarrow> shutdown_finish hb = Inr hb' \<Longrightarrow> mgr_disk Bv Bi hb'"
  by (auto simp: shutdown_finish_def mgr_disk_def good_sb_def set_flag_def Let_def split: option.splits)

lemma mgr_step_disk:
  assumes rok: "reserver_ok rs" and st: "mgr_step rs sa rd s s'" and inv: "mgr_inv rs s" and disk: "mgr_disk Bv Bi (fst s)"
  shows "mgr_disk Bv Bi (fst s')"
  using st inv disk
proof (cases rule: mgr_step.cases)
  case (io_start hb h v addr len b fl)
  have i: "mgr_inv rs (hb, fl)" and d: "mgr_disk Bv Bi hb" using inv disk io_start by simp_all
  obtain i where e: "(i, h) \<in> set (vol_map hb)" using live_in_map [OF i io_start(3)] io_precheck_served(3) [OF io_start(4)] by auto
  show ?thesis using objs_disk [OF mgr_inv_names [OF i] d e io_start(3)] io_start by (simp add: vol_inc_ref_def)
next
  case (io_end h fl hb v)
  have i: "mgr_inv rs (hb, fl)" and d: "mgr_disk Bv Bi hb" using inv disk io_end by simp_all
  obtain i where e: "(i, h) \<in> set (vol_map hb)" using mgr_invD(9) [OF i io_end(3)] by auto
  show ?thesis using objs_disk [OF mgr_inv_names [OF i] d e io_end(4)] io_end by (simp add: vol_dec_ref_def)
next
  case (select others nblks t a n hb r vs fl)
  obtain L where L: "sel_rel (volume_chunk_selector (hs hb)) L" using mgr_invD(1) [of rs hb fl] inv select(1) by (auto simp: sel_ok_def)
  show ?thesis using selector_disk [of Bv Bi hb vs "index_chunk_selector (hs hb)"] select_shape [OF L select(3)] disk select by simp
next
  case (select_index others nblks t a n hb r vs fl)
  obtain L where L: "sel_rel (index_chunk_selector (hs hb)) L" using mgr_invD(2) [of rs hb fl] inv select_index(1) by (auto simp: sel_ok_def)
  show ?thesis using selector_disk [of Bv Bi hb "volume_chunk_selector (hs hb)" vs] select_shape [OF L select_index(3)] disk select_index by simp
next
  case (blks vs cid k hb fl)
  show ?thesis using selector_disk [of Bv Bi hb vs "index_chunk_selector (hs hb)"] available_shape [of cid k "volume_chunk_selector (hs hb)"] disk blks by simp
next
  case (timer hb hb' fl)
  then show ?thesis using disk by (auto simp: do_shutdown_def disk_flags split: if_splits)
qed (use inv disk rok in \<open>auto simp: shutdown_start_def disk_flags dest: create_volume_disk remove_volume_disk run_removal_disk vol_gc_disk
    run_volume_resize_disk on_fault_containment_disk shutdown_finish_disk\<close>)

lemma new_devices_boot:
  assumes env: "new_devices env" and run: "init_homestore rs cfg csz env (HomeBlocksImpl r) = Inr (f, hb)"
  shows "mgr_inv rs (hb, []) \<and> (\<exists>Bv Bi. mgr_disk Bv Bi hb)"
proof -
  let ?vs = "fold add_chunk (bt_vol_chunks env) VolumeChunkSelector" and ?is = "fold add_chunk (bt_index_chunks env) VolumeChunkSelector"
  obtain uuid where hb: "hb = boot ?vs ?is r uuid" using env run first_start [of env rs cfg csz r] by (auto simp: new_devices_def bind_sum_eq_Inr)
  have d: "distinct (map get_chunk_id (bt_vol_chunks env))" "distinct (map get_chunk_id (bt_index_chunks env))" using env by (simp_all add: new_devices_def)
  have "\<exists>B. sized B (fold add_chunk cs VolumeChunkSelector)" if "distinct (map get_chunk_id cs)" "\<forall>c\<in>set cs. chunk_bytes c = B" for cs B
    using that(2) inventory_add_chunks [OF that(1)] by (auto simp: sized_def dest!: map_of_SomeD intro!: exI [of _ B])
  then obtain Bv Bi where B: "sized Bv ?vs" "sized Bi ?is" using d env unfolding new_devices_def by blast
  have nz: "\<forall>c\<in>set (bt_vol_chunks env). chunk_bytes c \<noteq> 0" "\<forall>c\<in>set (bt_index_chunks env). chunk_bytes c \<noteq> 0" using env unfolding new_devices_def by metis+
  have "mgr_inv rs (hb, [])" unfolding hb
    by (rule boot_inv) (use sel_run_reachable [OF add_chunks_run [OF d(1) nz(1)]] sel_run_reachable [OF add_chunks_run [OF d(2) nz(2)]] add_chunks_map [OF d(1)] add_chunks_map [OF d(2)] in simp_all)
  moreover have "mgr_disk Bv Bi hb" unfolding hb using B by (simp add: mgr_disk_def boot_def superblk_init_def Let_def good_sb_def)
  ultimately show ?thesis by blast
qed

lemma mgr_reachable_both:
  assumes "mgr_reachable rs sa rd s" "reserver_ok rs" "sb_api_ok sa"
  shows "mgr_inv rs s \<and> (\<exists>Bv Bi. mgr_disk Bv Bi (fst s))"
  using assms
proof (induction rule: mgr_reachable.induct)
  case (start env cfg csz r f hb)
  show ?case using new_devices_boot [OF start.hyps] by simp
next
  case (step s s')
  then show ?case using mgr_step_keeps mgr_step_disk by blast
next
  case (restart hb fl d env cfg csz r f hb')
  then obtain Bv Bi where i: "mgr_inv rs (hb, fl)" "mgr_disk Bv Bi hb" by auto
  obtain ps where ps: "init_format (bt_type_of env) (bt_canonical env) (cfg_devices cfg) csz = Inr ps"
    using restart.hyps(5) by (auto simp: init_homestore_def bind_sum_eq_Inr)
  obtain x sb where x: "init_homestore rs cfg csz env (HomeBlocksImpl r) = Inr (None, x)" "hb_meta hb = Some sb" "restarted rs Bv Bi hb d sb x"
    using restart_runs [OF restart.prems(1) i restart.hyps(2-4) ps] by blast
  have "hb' = x" using x(1) restart.hyps(5) by simp
  then show ?case using restarted_inv [OF i restart.hyps(2) x(3)] restarted_disk [OF i restart.hyps(2) x(3,2)] by auto
qed

lemma mgr_reachable_inv:
  assumes "mgr_reachable rs sa rd s" "reserver_ok rs" "sb_api_ok sa"
  shows "mgr_inv rs s"
  using mgr_reachable_both [OF assms] by blast

end
