(* ===== verification/Chunk_Correct.thy ===== *)
theory Chunk_Correct
  imports Chunk_Steps
begin

text \<open>
  The properties of the chunk selector: chunks are never shared or lost, allocation, release, growth
  and recovery do what the volume manager relies on, and selecting a chunk finds one.
\<close>

section \<open>Ownership\<close>

lemma ledger_exclusive:
  assumes "sel_rel s L"
  shows "distinct (vol_ids s o1)" "o1 \<noteq> o2 \<Longrightarrow> set (vol_ids s o1) \<inter> set (vol_ids s o2) = {}"
    "set (vol_ids s o1) \<inter> set (pool_of (m_per_dev_chunks s) p) = {}"
  using assms unfolding sel_rel_def vols_ok_def pools_ok_def
  by (auto simp: vol_ids_def volc_wf_def split: option.splits)

lemma ledger_pool_iff: "sel_rel s L \<Longrightarrow> cid \<in> set (pool_of (m_per_dev_chunks s) p) \<longleftrightarrow> L cid = Some (Free p)"
  by (simp add: sel_rel_def pools_ok_def)

lemma ledger_vol_iff: "sel_rel s L \<Longrightarrow> cid \<in> set (vol_ids s ord) \<longleftrightarrow> L cid = Some (Owned ord)"
  by (simp add: sel_rel_def vols_ok_def)

section \<open>A small pool\<close>

text \<open>
  The input of the witnesses: one device with three chunks of four blocks, each one byte long, and a
  lazily allocated volume of two chunks on it.
\<close>

definition demo_chunk :: "chunk_num_t \<Rightarrow> chunk" where
  "demo_chunk cid = \<lparr>get_chunk_id = cid, get_pdev_id = 0, chunk_bytes = 1, get_total_blks = 4, available_blks = 4\<rparr>"

definition demo_pool :: selector where
  "demo_pool = add_chunk (demo_chunk 2) (add_chunk (demo_chunk 1) (add_chunk (demo_chunk 0) VolumeChunkSelector))"

definition demo_vol :: selector where
  "demo_vol = snd (snd (projr (allocate_init_chunks 0 2 0 True demo_pool)))"

lemmas demo_defs = demo_chunk_def demo_pool_def demo_vol_def

lemma demo_pool_reachable: "sel_reachable demo_pool"
  unfolding demo_pool_def
  by (intro sel_reachable.step [OF _ sel_step.add] sel_reachable.start)
    (simp_all add: demo_chunk_def add_chunk_def VolumeChunkSelector_def emplace_def)

lemma demo_vol_alloc: "allocate_init_chunks 0 2 0 True demo_pool = Inr ([0], 0, demo_vol)"
  by (simp add: demo_defs sel_defs)

lemma demo_vol_reachable: "sel_reachable demo_vol"
  using sel_reachable.step [OF demo_pool_reachable sel_step.alloc [OF demo_vol_alloc]] .

section \<open>Ownership is exclusive, and chunks are conserved\<close>

text \<open>
  C8. In every state the selector can reach, by any interleaving of adding, allocating, releasing and
  recovering chunks, selecting, requesting and running resizes, and any change of the free block counts: the chunks of a
  volume are distinct, no chunk belongs to two volumes, and no chunk of a volume is in a free pool. A release may overtake the resize task of its volume.
\<close>

theorem chunks_exclusive:
  assumes "sel_reachable s"
  shows "distinct (vol_ids s o1) \<and> (o1 \<noteq> o2 \<longrightarrow> set (vol_ids s o1) \<inter> set (vol_ids s o2) = {}) \<and>
    set (vol_ids s o1) \<inter> set (pool_of (m_per_dev_chunks s) p) = {}"
  using sel_reachable_ledger [OF assms] ledger_exclusive by metis

theorem chunks_exclusive_witness:
  "vol_ids demo_vol 0 = [0] \<and> set (vol_ids demo_vol 0) \<inter> set (pool_of (m_per_dev_chunks demo_vol) 0) = {}"
  using chunks_exclusive [OF demo_vol_reachable, of 0 1 0] by (simp add: vol_ids_def demo_defs sel_defs)

text \<open>
  C18. The account of the chunks, along every run of adding, allocating, releasing, recovering (all chunks found), selecting, requesting and running resizes, in any
  order: the free chunks \<^verbatim>\<open>num_free_chunks\<close> reports, the chunks of the volumes and the chunks that resize tasks took
  after the release of their volume add up to the chunks that were added. Nothing else loses a chunk; a task overtaken
  by the release of its volume does.
\<close>

theorem chunks_conserved:
  assumes "sel_run s stale"
  shows "num_free_chunks s + (\<Sum>ord<MAX_NUM_VOLUMES. length (vol_ids s ord)) + stale = length (m_all_chunks s)"
  using sel_run_ledger [OF assms] ledger_total by metis

text \<open>A run that loses a chunk: a resize of volume 0 is requested, the volume is released, the task runs.\<close>

definition demo_requested :: selector where
  "demo_requested = projr (resize_volume_num_chunks 9 0 demo_vol)"

definition demo_released :: selector where
  "demo_released = projr (release_chunks 0 demo_requested)"

definition demo_stale :: selector where
  "demo_stale = projr (run_pending_resize demo_released)"

lemmas demo_stale_defs = demo_defs demo_requested_def demo_released_def demo_stale_def

lemma demo_stale_steps:
  "resize_volume_num_chunks 9 0 demo_vol = Inr demo_requested" "release_chunks 0 demo_requested = Inr demo_released"
  "run_pending_resize demo_released = Inr demo_stale"
  by (simp_all add: demo_stale_defs sel_defs)

lemma demo_stale_run: "sel_run demo_stale 1"
proof -
  have 0: "sel_run demo_pool 0"
  proof -
    have "stale_chunks s (add_chunk c s) = 0" for s c
      by (simp add: stale_chunks_def add_chunk_def split: list.split resize_target.split)
    then have add: "sel_run (add_chunk c s) 0"
      if "sel_run s 0" "map_of (m_all_chunks s) (get_chunk_id c) = None" "chunk_bytes c \<noteq> 0" for s c
      using sel_run.step [OF that(1) sel_step.add [OF that(2,3)]] by simp
    show ?thesis unfolding demo_pool_def
      by (intro add sel_run.start) (simp_all add: demo_chunk_def add_chunk_def VolumeChunkSelector_def emplace_def)
  qed
  have 1: "sel_run demo_vol 0"
    using sel_run.step [OF 0 sel_step.alloc [OF demo_vol_alloc]] by (simp add: stale_chunks_def demo_defs sel_defs)
  have 2: "sel_run demo_requested 0"
    using sel_run.step [OF 1 sel_step.request [OF demo_stale_steps(1)]] by (simp add: stale_chunks_def demo_stale_defs sel_defs)
  have 3: "sel_run demo_released 0"
    using sel_run.step [OF 2 sel_step.release [OF demo_stale_steps(2)]] by (simp add: stale_chunks_def demo_stale_defs sel_defs)
  have "stale_chunks demo_released demo_stale = 1" by (simp add: stale_chunks_def demo_stale_defs sel_defs)
  then show ?thesis using sel_run.step [OF 3 sel_step.task [OF demo_stale_steps(3)]] by simp
qed

theorem chunks_conserved_witness:
  "num_free_chunks demo_stale = 2 \<and> (\<Sum>ord<MAX_NUM_VOLUMES. length (vol_ids demo_stale ord)) = 0"
proof -
  have "num_free_chunks demo_stale = 2" "length (m_all_chunks demo_stale) = 3"
    by (simp_all add: demo_stale_defs sel_defs)
  then show ?thesis using chunks_conserved [OF demo_stale_run] by simp
qed

text \<open>
  A recovery that does not know one of its chunks returns false, with a null entry for that chunk among all chunks and a
  volume that counts it as active.
\<close>

lemma recover_unknown_leaves_null:
  assumes "sel_reachable s" "m_volume_chunks s ord = None" "ord < MAX_NUM_VOLUMES" "m_all_chunks s \<noteq> []" "map_of (m_all_chunks s) cid = None"
  shows "\<exists>s' v. recover_chunks ord pdev volume_size [cid] s = Inr (False, s') \<and> map_of (m_all_chunks s') cid = Some None \<and>
    m_volume_chunks s' ord = Some v \<and> num_active_chunks v = 1 \<and> vol_ids s' ord = []"
proof -
  obtain L where rel: "sel_rel s L" using sel_reachable_ledger [OF assms(1)] by blast
  obtain k x rest where "m_all_chunks s = (k, x) # rest" using assms(4) by (cases "m_all_chunks s") auto
  then obtain c where c: "m_all_chunks s = (k, Some c) # rest" using sel_rel_head [OF rel] by blast
  then have "chunk_bytes c \<noteq> 0" using rel objs_ok_head [of k c rest L] by (simp add: sel_rel_def)
  moreover have "chunk_obj (emplace cid None (m_all_chunks s)) cid = None" using assms(5) by (simp add: chunk_obj_def map_of_emplace)
  moreover have "map_of (emplace cid None (m_all_chunks s)) cid = Some None" using assms(5) by (simp add: map_of_emplace)
  moreover have "somes (replicate n None) = []" for n by (induction n) auto
  ultimately show ?thesis using assms(2,3) c by (simp add: recover_chunks_def Let_def vol_ids_def)
qed

section \<open>Allocation, release and recovery\<close>

text \<open>
  C24. In every reachable state of the selector, where the chunks have a size other than 0 and no recovery has failed, allocating for a new ordinal never stops at an assertion. It either fails and changes nothing, or
  returns chunks of one device that were free, which become exactly the chunks of the volume and are
  the only ones to leave the free pools.
\<close>

theorem allocate_init_chunks_correct:
  assumes "sel_reachable s" "m_volume_chunks s ord = None" "ord < MAX_NUM_VOLUMES"
  shows "\<exists>cids pdev s'. allocate_init_chunks ord volume_size pdev_id lazy_alloc s = Inr (cids, pdev, s') \<and>
    (if cids = [] then s' = s \<and> pdev = pdev_id
     else set cids \<subseteq> set (pool_of (m_per_dev_chunks s) pdev) \<and> get_chunks ord s' = Inr cids \<and>
       num_free_chunks s' + length cids = num_free_chunks s \<and>
       (\<forall>o'. o' \<noteq> ord \<longrightarrow> set (vol_ids s' o') = set (vol_ids s o')))"
proof -
  obtain L where rel: "sel_rel s L" using sel_reachable_ledger [OF assms(1)] by blast
  obtain cids pdev s' where eq: "allocate_init_chunks ord volume_size pdev_id lazy_alloc s = Inr (cids, pdev, s')"
    and res: "if cids = [] then s' = s \<and> pdev = pdev_id
       else distinct cids \<and> (\<forall>cid\<in>set cids. L cid = Some (Free pdev)) \<and>
         sel_rel s' (move (set cids) (Owned ord) L) \<and> vol_ids s' ord = cids \<and>
         (\<exists>v. m_volume_chunks s' ord = Some v \<and> vc_pdev v = pdev)"
    using allocate_init_chunks_refines [OF rel assms(2,3)] by metis
  have "set cids \<subseteq> set (pool_of (m_per_dev_chunks s) pdev) \<and> get_chunks ord s' = Inr cids \<and>
       num_free_chunks s' + length cids = num_free_chunks s \<and>
       (\<forall>o'. o' \<noteq> ord \<longrightarrow> set (vol_ids s' o') = set (vol_ids s o'))" if ne: "cids \<noteq> []"
  proof (intro conjI)
    from res ne have r: "distinct cids" "\<forall>cid\<in>set cids. L cid = Some (Free pdev)"
      "sel_rel s' (move (set cids) (Owned ord) L)" "vol_ids s' ord = cids" by auto
    show "set cids \<subseteq> set (pool_of (m_per_dev_chunks s) pdev)" using r ledger_pool_iff [OF rel] by auto
    show "get_chunks ord s' = Inr cids"
      using r(4) assms(3) ne by (auto simp: get_chunks_def vol_ids_def split: option.splits)
    show "num_free_chunks s' + length cids = num_free_chunks s" using free_after_move [OF rel r(3) _ r(1)] r(2) by blast
    show "\<forall>o'. o' \<noteq> ord \<longrightarrow> set (vol_ids s' o') = set (vol_ids s o')"
      using ledger_vol_iff [OF rel] ledger_vol_iff [OF r(3)] r(2) by (auto simp: move_def split: if_splits)
  qed
  then show ?thesis using eq res by (intro exI [of _ cids] exI [of _ pdev] exI [of _ s']) auto
qed

theorem allocate_init_chunks_correct_witness:
  "\<exists>s'. allocate_init_chunks 0 2 0 True demo_pool = Inr ([0], 0, s') \<and> num_free_chunks s' + 1 = num_free_chunks demo_pool"
  using allocate_init_chunks_correct [OF demo_pool_reachable, of 0 2 0 True] demo_vol_alloc
  by (simp add: demo_pool_def add_chunk_def VolumeChunkSelector_def MAX_NUM_VOLUMES_def)

text \<open>
  Releasing a volume right after allocating it gives back exactly what was taken: the release
  returns, the ordinal is vacant again, every device pool holds the same chunks as before and no other volume changes.
\<close>

theorem release_undoes_allocate:
  assumes "sel_reachable s" "m_volume_chunks s ord = None"
    and "allocate_init_chunks ord volume_size pdev_id lazy_alloc s = Inr (cids, pdev, s')" "cids \<noteq> []"
  shows "\<exists>s''. release_chunks ord s' = Inr s'' \<and> m_volume_chunks s'' ord = None \<and>
    set (pool_of (m_per_dev_chunks s'') p) = set (pool_of (m_per_dev_chunks s) p) \<and>
    set (vol_ids s'' o') = set (vol_ids s o') \<and> num_free_chunks s'' = num_free_chunks s"
proof -
  have ord: "ord < MAX_NUM_VOLUMES" using assms(3) by (auto simp: allocate_init_chunks_def split: if_splits)
  obtain L where rel: "sel_rel s L" using sel_reachable_ledger [OF assms(1)] by blast
  from allocate_init_chunks_refines [OF rel assms(2) ord, of volume_size pdev_id lazy_alloc] assms(3,4)
  obtain v where r: "\<forall>cid\<in>set cids. L cid = Some (Free pdev)" "sel_rel s' (move (set cids) (Owned ord) L)" "vol_ids s' ord = cids"
    and v: "m_volume_chunks s' ord = Some v" "vc_pdev v = pdev"
    by auto
  have "move (set cids) (Free (vc_pdev v)) (move (set cids) (Owned ord) L) = L"
    using r(1) v(2) by (auto simp: move_def fun_eq_iff)
  then obtain s'' where "release_chunks ord s' = Inr s''" "m_volume_chunks s'' ord = None" and rel'': "sel_rel s'' L"
    using release_chunks_refines [OF r(2) v(1)] r(3) by auto
  moreover have "num_free_chunks s'' = num_free_chunks s"
    using num_free_chunks_card [OF rel] num_free_chunks_card [OF rel''] by simp
  ultimately show ?thesis
    using ledger_pool_iff [OF rel] ledger_pool_iff [OF rel''] ledger_vol_iff [OF rel] ledger_vol_iff [OF rel''] by auto
qed

theorem release_undoes_allocate_witness:
  "\<exists>s''. release_chunks 0 demo_vol = Inr s'' \<and> num_free_chunks s'' = num_free_chunks demo_pool"
  using release_undoes_allocate [OF demo_pool_reachable _ demo_vol_alloc, of 0 0]
  by (auto simp: demo_pool_def add_chunk_def VolumeChunkSelector_def)

section \<open>Growth\<close>

text \<open>
  A resize that finds enough chunks on the device of its volume adds up to three of them behind the
  active ones and keeps the volume's earlier chunks in place. The superblock callback is given the
  complete new list, the one \<^verbatim>\<open>get_chunks\<close> reports afterwards, so a restart recovers what the volume uses.
\<close>

theorem resize_task_correct:
  assumes "sel_reachable s" "m_volume_chunks s ord = Some v" "num_active_chunks v < max_num_chunks v"
    and "min num_chunks_per_resize (max_num_chunks v - num_active_chunks v) \<le> length (pool_of (m_per_dev_chunks s) (vc_pdev v))"
  shows "\<exists>s' new. resize_task (Live ord) s = Inr s' \<and> new \<noteq> [] \<and> set new \<subseteq> set (pool_of (m_per_dev_chunks s) (vc_pdev v)) \<and>
    vol_ids s' ord = vol_ids s ord @ new \<and> get_chunks ord s' = Inr (vol_ids s ord @ new) \<and>
    sb_updates s' = sb_updates s @ [(ord, vol_ids s ord @ new)] \<and> resize_op s' = Idle"
proof -
  obtain L where rel: "sel_rel s L" using sel_reachable_ledger [OF assms(1)] by blast
  let ?n = "min num_chunks_per_resize (max_num_chunks v - num_active_chunks v)"
  let ?new = "take ?n (pool_of (m_per_dev_chunks s) (vc_pdev v))"
  obtain s' where s': "resize_task (Live ord) s = Inr s'" "vol_ids s' ord = vol_ids s ord @ ?new"
      "sb_updates s' = sb_updates s @ [(ord, vol_ids s ord @ ?new)]" "resize_op s' = Idle"
    using resize_task_refines [OF rel assms(2,3) refl assms(4) refl] by blast
  have ne: "?new \<noteq> []" using assms(3,4) by (auto simp: num_chunks_per_resize_def)
  have "ord < MAX_NUM_VOLUMES" using rel assms(2) by (auto simp: sel_rel_def vols_ok_def)
  then have "get_chunks ord s' = Inr (vol_ids s ord @ ?new)"
    using s'(2) ne by (auto simp: get_chunks_def vol_ids_def split: option.splits)
  then show ?thesis using s' ne by (intro exI [of _ s'] exI [of _ ?new] conjI) (auto dest: in_set_takeD)
qed

lemma demo_vol_volume:
  "m_volume_chunks demo_vol 0 = Some \<lparr>m_chunks = [Some 0, None], max_num_chunks = 2, num_active_chunks = 1,
     m_next_chunk_index = 0, vc_ordinal = 0, vc_pdev = 0\<rparr>"
  "pool_of (m_per_dev_chunks demo_vol) 0 = [1, 2]"
  by (simp_all add: demo_defs sel_defs)

theorem resize_task_correct_witness:
  "\<exists>s'. resize_task (Live 0) demo_vol = Inr s' \<and> sb_updates s' = [(0, vol_ids s' 0)] \<and> resize_op s' = Idle"
  using resize_task_correct [OF demo_vol_reachable demo_vol_volume(1)]
  by (auto simp: demo_vol_volume num_chunks_per_resize_def) (simp add: demo_defs sel_defs)

text \<open>
  Recovery: a volume whose superblock names distinct free chunks of its device, no more than its
  size allows, gets exactly these chunks back in the same order, and nobody else loses any.
\<close>

theorem recover_chunks_correct:
  assumes "sel_reachable s" "m_volume_chunks s ord = None" "ord < MAX_NUM_VOLUMES"
    and "m_all_chunks s = (k, Some c0) # rest" "distinct cids" "cids \<noteq> []"
    and "length cids \<le> chunks_for volume_size (chunk_bytes c0)"
    and "set cids \<subseteq> set (pool_of (m_per_dev_chunks s) pdev)"
  shows "\<exists>s'. recover_chunks ord pdev volume_size cids s = Inr (True, s') \<and> get_chunks ord s' = Inr cids \<and>
    num_free_chunks s' + length cids = num_free_chunks s \<and>
    (\<forall>o'. o' \<noteq> ord \<longrightarrow> set (vol_ids s' o') = set (vol_ids s o'))"
proof -
  obtain L where rel: "sel_rel s L" using sel_reachable_ledger [OF assms(1)] by blast
  have free: "L cid = Some (Free pdev)" if "cid \<in> set cids" for cid
    using that assms(8) ledger_pool_iff [OF rel] by blast
  obtain s' where s': "recover_chunks ord pdev volume_size cids s = Inr (True, s')"
      "sel_rel s' (move (set cids) (Owned ord) L)" "vol_ids s' ord = cids"
    using recover_chunks_refines [OF rel assms(2-7) free] by blast
  have "get_chunks ord s' = Inr cids"
    using s'(3) assms(3,6) by (auto simp: get_chunks_def vol_ids_def split: option.splits)
  moreover have "num_free_chunks s' + length cids = num_free_chunks s"
    using free_after_move [OF rel s'(2) _ assms(5)] free by blast
  moreover have "\<forall>o'. o' \<noteq> ord \<longrightarrow> set (vol_ids s' o') = set (vol_ids s o')"
    using ledger_vol_iff [OF rel] ledger_vol_iff [OF s'(2)] free by (auto simp: move_def split: if_splits)
  ultimately show ?thesis using s'(1) by blast
qed

theorem recover_chunks_correct_witness:
  "\<exists>s'. recover_chunks 7 0 2 [2, 0] demo_pool = Inr (True, s') \<and> get_chunks 7 s' = Inr [2, 0]"
  using recover_chunks_correct [OF demo_pool_reachable, of 7 0 "hb_chunk (demo_chunk 0)" _ "[2, 0]" 2 0]
  by (simp add: demo_defs sel_defs)

section \<open>Selection\<close>

definition has_free_blks :: "selector \<Rightarrow> chunk_num_t \<Rightarrow> bool" where
  "has_free_blks s cid \<longleftrightarrow> (case chunk_obj (m_all_chunks s) cid of None \<Rightarrow> False | Some c \<Rightarrow> 0 < available_blks c)"

lemma avail_at_has_free_blks:
  "avail_at (m_all_chunks s) v i > 0 \<longleftrightarrow> has_free_blks s (somes (m_chunks v) ! i)"
  by (auto simp: avail_at_def has_free_blks_def split: option.splits)

lemma select_round_finds:
  assumes rel: "sel_rel s L" and v: "m_volume_chunks s ord = Some v" and alone: "\<And>i. others i = 0"
    and cursor: "unat (m_next_chunk_index v) + num_active_chunks v \<le> 2 ^ 32"
    and free: "cid \<in> set (vol_ids s ord)" "has_free_blks s cid"
  shows "\<exists>cid' s'. select_round others nblks t a ord s = Inr (Some cid', s') \<and> cid' \<in> set (vol_ids s ord) \<and> has_free_blks s cid'"
proof -
  obtain j d r s' where eq: "select_round others nblks t a ord s = Inr (r, s')"
    and res: "scan_result (m_all_chunks s) others v (num_active_chunks v) j d r"
    using select_round_spec [OF rel v] by blast
  have ids: "vol_ids s ord = somes (m_chunks v)" "length (vol_ids s ord) = num_active_chunks v" "0 < num_active_chunks v"
    using rel v by (auto simp: vol_ids_def sel_rel_def vols_ok_def volc_wf_def)
  obtain i where i: "i < num_active_chunks v" "vol_ids s ord ! i = cid" using free(1) ids by (metis in_set_conv_nth)
  obtain m where "m < num_active_chunks v" "cursor_slot v (of_nat m) = i" using cursor_slot_covers [OF i(1) cursor] by blast
  then have "r \<noteq> None" using res free(2) i(2) ids avail_at_has_free_blks [of s v i] drawn_alone [of others, OF alone]
    by (cases r) (auto simp: scan_result_def)
  then obtain cid' where r: "r = Some cid'" by blast
  let ?i = "cursor_slot v (drawn others (num_active_chunks v) (j - 1))"
  have "?i < num_active_chunks v" using ids(3) by (simp add: cursor_slot_def)
  then show ?thesis using eq r res ids avail_at_has_free_blks [of s v ?i]
    by (auto simp: scan_result_def)
qed

text \<open>
  C25. Selecting a chunk for a volume of which an active chunk has free blocks returns, in its first round, a chunk of
  that volume with free blocks, provided no other thread draws the shared cursor within that round, the free block counts stay as they are in it and the
  32-bit cursor does not wrap around. Whatever the others would do between later rounds does not matter.
\<close>

theorem select_chunk_finds:
  assumes "sel_reachable s" "m_volume_chunks s ord = Some v" "\<And>i. others 0 i = 0"
    and "unat (m_next_chunk_index v) + num_active_chunks v \<le> 2 ^ 32"
    and "cid \<in> set (vol_ids s ord)" "has_free_blks s cid"
  shows "\<exists>cid' s'. select_chunk others env nblks (Some ord) s = Some (Inr (Some cid', s')) \<and>
    cid' \<in> set (vol_ids s ord) \<and> has_free_blks s cid'"
proof -
  obtain L where rel: "sel_rel s L" using sel_reachable_ledger [OF assms(1)] by blast
  have "ord < MAX_NUM_VOLUMES" using rel assms(2) by (auto simp: sel_rel_def vols_ok_def)
  then show ?thesis
    using select_round_finds [OF rel assms(2), of "others 0", OF assms(3-6), of nblks "vol_total_blks (m_all_chunks s) v" "vol_available_blks (m_all_chunks s) v"]
      assms(2) by (auto simp: select_chunk_def select_loop.simps)
qed

theorem select_chunk_finds_witness:
  "\<exists>s'. select_chunk (\<lambda>_ _. 0) (\<lambda>_. id) 1 (Some 0) demo_vol = Some (Inr (Some 0, s'))"
  using select_chunk_finds [OF demo_vol_reachable demo_vol_volume(1), of "\<lambda>_ _. 0" 0 "\<lambda>_. id" 1]
  by (auto simp: vol_ids_def has_free_blks_def demo_vol_volume) (simp add: demo_defs sel_defs)

text \<open>
  The proviso is needed: with two active chunks of which the first is full, one draw of another thread between the two draws of a
  round makes the round look at the full chunk twice and give up, although the other chunk has free blocks.
\<close>

definition demo_full_first :: selector where
  "demo_full_first = (let s = snd (snd (projr (allocate_init_chunks 0 2 0 False demo_pool)))
     in s\<lparr>m_all_chunks := set_available 0 0 (m_all_chunks s)\<rparr>)"

lemma foreign_draw_misses:
  "sel_reachable demo_full_first \<and> vol_ids demo_full_first 0 = [0, 1] \<and> has_free_blks demo_full_first 1 \<and>
   (\<exists>s'. select_round (\<lambda>i. if i = 0 then 1 else 0) 1 8 4 0 demo_full_first = Inr (None, s'))"
proof -
  have two: "scan_active all others 2 2 v = scan_active all others 2 (Suc (Suc 0)) v" for all others v
    by (simp only: numeral_2_eq_2)
  have "allocate_init_chunks 0 2 0 False demo_pool = Inr ([0, 1], 0, snd (snd (projr (allocate_init_chunks 0 2 0 False demo_pool))))"
    by (simp add: demo_defs sel_defs)
  then have "sel_reachable demo_full_first" unfolding demo_full_first_def Let_def
    by (rule sel_reachable.step [OF sel_reachable.step [OF demo_pool_reachable sel_step.alloc] sel_step.blks])
  moreover have "vol_ids demo_full_first 0 = [0, 1]" "has_free_blks demo_full_first 1"
    by (simp_all add: demo_full_first_def vol_ids_def has_free_blks_def set_available_def demo_defs sel_defs)
  moreover have "\<exists>s'. select_round (\<lambda>i. if i = 0 then 1 else 0) 1 8 4 0 demo_full_first = Inr (None, s')"
    by (simp add: demo_full_first_def set_available_def demo_defs sel_defs two)
  ultimately show ?thesis by blast
qed

text \<open>What the worker reactor does while the selecting thread sleeps: it runs the next resize task.\<close>

definition worker :: "selector \<Rightarrow> selector" where
  "worker s = (case run_pending_resize s of Inl _ \<Rightarrow> s | Inr s' \<Rightarrow> s')"

lemma full_volume_blks:
  assumes "\<And>cid. cid \<in> set (vol_ids s ord) \<Longrightarrow> \<not> has_free_blks s cid" "m_volume_chunks s ord = Some v"
  shows "vol_available_blks (m_all_chunks s) v = 0"
proof -
  have "(case chunk_obj (m_all_chunks s) cid of None \<Rightarrow> 0 | Some c \<Rightarrow> available_blks c) = 0"
    if "cid \<in> set (somes (m_chunks v))" for cid
    using assms(1) [of cid] that assms(2) by (auto simp: vol_ids_def has_free_blks_def split: option.splits)
  then show ?thesis unfolding vol_available_blks_def by (simp only: sum_list_eq_0_iff) (auto split: option.splits)
qed

lemma full_round_requests:
  assumes rel: "sel_rel s L" and v: "m_volume_chunks s ord = Some v" "num_active_chunks v < max_num_chunks v" and alone: "\<And>i. others i = 0"
    and full: "\<And>cid. cid \<in> set (vol_ids s ord) \<Longrightarrow> \<not> has_free_blks s cid"
    and idle: "resize_op s = Idle" "pending_resizes s = []" and nblks: "0 < nblks"
  shows "select_round others nblks t 0 ord s = Inr (None, s\<lparr>resize_op := InProgress, pending_resizes := [Live ord],
     m_volume_chunks := (m_volume_chunks s)(ord \<mapsto> advance (of_nat (num_active_chunks v)) v)\<rparr>)"
proof -
  have wf: "volc_wf v" and ids: "vol_ids s ord = somes (m_chunks v)"
    using rel v by (auto simp: sel_rel_def vols_ok_def vol_ids_def)
  obtain j d r where sc: "scan_active (m_all_chunks s) others (num_active_chunks v) (num_active_chunks v) v = Inr (r, advance d v)"
    and res: "scan_result (m_all_chunks s) others v (num_active_chunks v) j d r"
    using scan_active_spec [OF wf, of "m_all_chunks s" others "num_active_chunks v"] vol_pdev [OF rel v(1)] by blast
  have "cursor_slot v i < length (somes (m_chunks v))" for i
    using wf by (simp add: cursor_slot_def volc_wf_def)
  then have "\<not> has_free_blks s (somes (m_chunks v) ! cursor_slot v i)" for i
    using full ids by simp
  then have j: "r = None \<and> j = num_active_chunks v"
    using res avail_at_has_free_blks by (cases r) (auto simp: scan_result_def)
  moreover have "0 < num_active_chunks v" using wf by (simp add: volc_wf_def)
  ultimately have "d = of_nat (num_active_chunks v)" using res drawn_alone [of others, OF alone]
    by (cases "num_active_chunks v") (auto simp: scan_result_def)
  then show ?thesis using v idle nblks sc j
    by (simp add: select_round_def resize_volume_num_chunks_def Let_def full_volume_blks [OF full v(1)])
qed

text \<open>
  C26. A full volume that may still grow, on a device with enough free chunks and while no resize is in progress, gets a chunk: the first
  round requests a resize, the worker runs it, and the second round finds one of the new chunks. No other thread draws
  the cursor meanwhile.
\<close>

theorem select_chunk_grows:
  assumes "sel_reachable s" "m_volume_chunks s ord = Some v" "num_active_chunks v < max_num_chunks v"
    and "\<And>cid. cid \<in> set (vol_ids s ord) \<Longrightarrow> \<not> has_free_blks s cid"
    and "min num_chunks_per_resize (max_num_chunks v - num_active_chunks v) \<le> length (pool_of (m_per_dev_chunks s) (vc_pdev v))"
    and "\<And>cid. cid \<in> set (pool_of (m_per_dev_chunks s) (vc_pdev v)) \<Longrightarrow> has_free_blks s cid"
    and "resize_op s = Idle" "pending_resizes s = []" "0 < nblks"
    and "unat (m_next_chunk_index v) + 2 * num_active_chunks v + num_chunks_per_resize \<le> 2 ^ 32"
  shows "\<exists>cid s'. select_chunk (\<lambda>_ _. 0) (\<lambda>_. worker) nblks (Some ord) s = Some (Inr (Some cid, s')) \<and>
    cid \<in> set (pool_of (m_per_dev_chunks s) (vc_pdev v))"
proof -
  let ?k = "num_active_chunks v"
  let ?n = "min num_chunks_per_resize (max_num_chunks v - ?k)"
  let ?new = "take ?n (pool_of (m_per_dev_chunks s) (vc_pdev v))"
  let ?t = "vol_total_blks (m_all_chunks s) v"
  obtain L where rel: "sel_rel s L" using sel_reachable_ledger [OF assms(1)] by blast
  define s1 where "s1 = s\<lparr>resize_op := InProgress, pending_resizes := [],
     m_volume_chunks := (m_volume_chunks s)(ord \<mapsto> advance (of_nat ?k) v)\<rparr>"
  have r1: "select_round (\<lambda>_. 0) nblks ?t 0 ord s = Inr (None, s1\<lparr>pending_resizes := [Live ord]\<rparr>)"
    using full_round_requests [OF rel assms(2,3) _ assms(4,7,8,9)] by (simp add: s1_def)
  have rel1: "sel_rel s1 L"
    using sel_rel_advance [OF rel assms(2), of "of_nat ?k"] by (simp add: s1_def sel_rel_def vols_ok_def vol_ids_def)
  have ids1: "vol_ids s1 ord = vol_ids s ord" using assms(2) by (simp add: s1_def vol_ids_def)
  obtain s2 w where s2: "resize_task (Live ord) s1 = Inr s2" "sel_rel s2 (move (set ?new) (Owned ord) L)"
      "vol_ids s2 ord = vol_ids s ord @ ?new" "m_all_chunks s2 = m_all_chunks s"
    and w: "m_volume_chunks s2 ord = Some w" "num_active_chunks w = ?k + length ?new"
      "m_next_chunk_index w = m_next_chunk_index v + of_nat ?k"
    using resize_task_refines [OF rel1, of ord "advance (of_nat ?k) v" ?n ?new] assms(3,5) ids1
    by (auto simp: s1_def advance_def)
  have "s1\<lparr>pending_resizes := []\<rparr> = s1" by (cases s) (simp add: s1_def)
  then have wk: "worker (s1\<lparr>pending_resizes := [Live ord]\<rparr>) = s2"
    using s2(1) by (simp add: worker_def run_pending_resize_def)
  have "unat (of_nat ?k :: u32) = ?k" using assms(10) by (simp add: unat_of_nat num_chunks_per_resize_def)
  then have "unat (m_next_chunk_index w) = unat (m_next_chunk_index v) + ?k"
    using assms(10) unfolding w(3) by (subst unat_add_lem [THEN iffD1]) (auto simp: num_chunks_per_resize_def)
  moreover have "length ?new \<le> num_chunks_per_resize" by simp
  ultimately have cur: "unat (m_next_chunk_index w) + num_active_chunks w \<le> 2 ^ 32"
    using assms(10) w(2) by linarith
  have "?new \<noteq> []" using assms(3,5) by (auto simp: num_chunks_per_resize_def)
  then obtain x where x: "x \<in> set ?new" by (meson last_in_set)
  have hf: "has_free_blks s2 c = has_free_blks s c" for c using s2(4) by (simp add: has_free_blks_def)
  obtain cid s3 where "select_round (\<lambda>_. 0) nblks ?t 0 ord s2 = Inr (Some cid, s3)" "cid \<in> set (vol_ids s2 ord)" "has_free_blks s cid"
  proof -
    have "x \<in> set (vol_ids s2 ord)" "has_free_blks s2 x" using s2(3) x assms(6) [OF in_set_takeD [OF x]] hf by simp_all
    then show thesis using select_round_finds [OF s2(2) w(1) _ cur, of "\<lambda>_. 0" x nblks ?t 0] hf that by blast
  qed
  moreover from this have "cid \<in> set (pool_of (m_per_dev_chunks s) (vc_pdev v))" using assms(4) s2(3) by (auto dest: in_set_takeD)
  moreover have "ord < MAX_NUM_VOLUMES" using rel assms(2) by (auto simp: sel_rel_def vols_ok_def)
  ultimately show ?thesis
    using assms(2) r1 wk full_volume_blks [OF assms(4,2)] by (simp add: select_chunk_def select_loop.simps [of _ _ 0] select_loop.simps [of _ _ "Suc 0"])
qed

definition demo_full :: selector where
  "demo_full = demo_vol\<lparr>m_all_chunks := set_available 0 0 (m_all_chunks demo_vol)\<rparr>"

lemma demo_full_reachable: "sel_reachable demo_full"
  unfolding demo_full_def by (rule sel_reachable.step [OF demo_vol_reachable sel_step.blks])

theorem select_chunk_grows_witness:
  "\<exists>cid s'. select_chunk (\<lambda>_ _. 0) (\<lambda>_. worker) 1 (Some 0) demo_full = Some (Inr (Some cid, s')) \<and> cid \<in> {1, 2}"
proof -
  have v: "m_volume_chunks demo_full 0 = m_volume_chunks demo_vol 0" "m_per_dev_chunks demo_full = m_per_dev_chunks demo_vol"
    by (simp_all add: demo_full_def)
  have f: "\<not> has_free_blks demo_full 0" "has_free_blks demo_full 1" "has_free_blks demo_full 2"
    "resize_op demo_full = Idle" "pending_resizes demo_full = []"
    by (simp_all add: demo_full_def has_free_blks_def set_available_def demo_defs sel_defs)
  show ?thesis
    using select_chunk_grows [OF demo_full_reachable, of 0 _ 1] v f
    by (auto simp: vol_ids_def demo_vol_volume num_chunks_per_resize_def)
qed

section \<open>What goes wrong\<close>

lemma request_busy:
  "resize_volume_num_chunks nblks ord s = Inr s' \<Longrightarrow> resize_op s = InProgress \<Longrightarrow> s' = s"
  by (auto simp: resize_volume_num_chunks_def split: option.splits)

lemma select_busy:
  assumes "select_round others nblks t a ord s = Inr (r, s')" "resize_op s = InProgress"
  shows "resize_op s' = InProgress" "pending_resizes s' = pending_resizes s" "sb_updates s' = sb_updates s"
  using assms by (auto simp: select_round_def bind_sum_eq_Inr split: option.splits if_splits dest!: request_busy)

lemma step_busy:
  assumes "sel_step s s'" "resize_op s = InProgress" "pending_resizes s = []"
  shows "resize_op s' = InProgress \<and> pending_resizes s' = [] \<and> sb_updates s' = sb_updates s"
  using assms
  by (cases rule: sel_step.cases)
    (auto simp: alloc_frame release_frame(1,2) recover_frame select_busy add_chunk_def run_pending_resize_def dest: request_busy release_frame(3))

text \<open>
  C27. Once the flag of the selector says that a resize is in progress while no task is queued, no
  sequence of steps ever queues one again: no volume of the selector grows any more. The early return
  of \<^verbatim>\<open>resize_volume_num_chunks\<close> leaves the selector in this state.
\<close>

theorem resize_never_again:
  assumes "sel_step\<^sup>*\<^sup>* s s'" "resize_op s = InProgress" "pending_resizes s = []"
  shows "resize_op s' = InProgress \<and> pending_resizes s' = [] \<and> sb_updates s' = sb_updates s"
  using assms
proof (induction rule: rtranclp_induct)
  case (step s1 s2)
  then show ?case using step_busy by metis
qed simp

definition demo_stuck :: selector where
  "demo_stuck = projr (resize_volume_num_chunks 1 0 demo_vol)"

lemma demo_stuck_reachable: "sel_reachable demo_stuck"
  by (rule sel_reachable.step [OF demo_vol_reachable sel_step.request [of 1 0]])
    (simp add: demo_stuck_def resize_volume_num_chunks_def Let_def demo_vol_volume)

theorem resize_never_again_witness:
  "sel_reachable demo_stuck \<and>
   resize_op (worker demo_stuck) = InProgress \<and> pending_resizes (worker demo_stuck) = []"
proof -
  have stuck: "resize_op demo_stuck = InProgress" "pending_resizes demo_stuck = []"
    by (simp_all add: demo_stuck_def demo_defs sel_defs)
  then have "sel_step demo_stuck (worker demo_stuck)"
    by (intro sel_step.task) (simp add: worker_def run_pending_resize_def)
  then show ?thesis using resize_never_again [of demo_stuck "worker demo_stuck"] stuck demo_stuck_reachable by auto
qed

definition demo_two :: selector where
  "demo_two = snd (snd (projr (allocate_init_chunks 1 2 0 True demo_vol)))"

definition demo_grown :: selector where
  "demo_grown = worker (projr (resize_volume_num_chunks 9 0 demo_two))"

definition demo_overcommitted :: selector where
  "demo_overcommitted = projr (resize_volume_num_chunks 9 1 demo_grown)"

lemmas demo_over_defs = demo_defs demo_two_def demo_grown_def demo_overcommitted_def worker_def

lemma demo_overcommitted_reachable: "sel_reachable demo_overcommitted"
proof -
  have "allocate_init_chunks 1 2 0 True demo_vol = Inr ([1], 0, demo_two)" by (simp add: demo_over_defs sel_defs)
  then have "sel_reachable demo_two" by (rule sel_reachable.step [OF demo_vol_reachable sel_step.alloc])
  moreover have "resize_volume_num_chunks 9 0 demo_two = Inr (projr (resize_volume_num_chunks 9 0 demo_two))"
    by (simp add: demo_over_defs sel_defs)
  ultimately have "sel_reachable (projr (resize_volume_num_chunks 9 0 demo_two))"
    by (metis sel_reachable.step sel_step.request)
  moreover have "run_pending_resize (projr (resize_volume_num_chunks 9 0 demo_two)) = Inr demo_grown"
    by (simp add: demo_over_defs sel_defs)
  ultimately have "sel_reachable demo_grown" by (metis sel_reachable.step sel_step.task)
  moreover have "resize_volume_num_chunks 9 1 demo_grown = Inr demo_overcommitted"
    by (simp add: demo_over_defs sel_defs)
  ultimately show ?thesis by (metis sel_reachable.step sel_step.request)
qed

text \<open>
  Lazy allocation only checks that a device has room for the whole volume, it reserves nothing. Two
  volumes can be promised the same chunk, and the resize that does not get it stops the process: a
  reachable state with a queued task whose assertion fails.
\<close>

lemma overcommitted_resize_aborts:
  "\<exists>s. sel_reachable s \<and> pending_resizes s = [Live 1] \<and> run_pending_resize s = Inl ReleaseAssert"
proof (intro exI conjI)
  show "sel_reachable demo_overcommitted" by (rule demo_overcommitted_reachable)
  show "pending_resizes demo_overcommitted = [Live 1]" by (simp add: demo_over_defs sel_defs)
  show "run_pending_resize demo_overcommitted = Inl ReleaseAssert" by (simp add: demo_over_defs sel_defs)
qed

end
