(* ===== verification/Manager_Correct.thy ===== *)
theory Manager_Correct
  imports Manager_Reach Chunk_Correct Volume_Correct
begin

text \<open>
  The properties of the manager: what every reachable state guarantees for the volumes and their I/O, and that removals and shutdowns do what they promise.
\<close>

section \<open>An instance\<close>

text \<open>For the examples: ordinals in a list, a superblock handler, and an instance with two small pools and one volume.\<close>

definition ex_reserver :: "nat list reserver" where
  "ex_reserver = \<lparr>rs_reserve = (\<lambda>l. let n = (if l = [] then 0 else Suc (foldr max l 0)) in (n, n # l)), rs_reserve_id = (\<lambda>n l. n # l),
     rs_unreserve = (\<lambda>n l. removeAll n l), rs_ids = set\<rparr>"

lemma foldr_max_ge: "x \<in> set l \<Longrightarrow> x \<le> foldr max l (0 :: nat)"
  by (induction l) (auto simp: le_max_iff_disj)

lemma ex_reserver_ok: "reserver_ok ex_reserver"
proof -
  have "Suc (foldr max l 0) \<notin> set l" for l using foldr_max_ge [of "Suc (foldr max l 0)" l] by auto
  then show ?thesis by (auto simp: reserver_ok_def ex_reserver_def Let_def split: if_splits)
qed

definition ex_sb_api :: sb_api where
  "ex_sb_api = \<lparr>sb_created = \<lparr>sb_magic = 0, sb_version = 0, sb_num_streams = 0, sb_page_size = 0, sb_size = 0, sb_id = 0, sb_name = [], sb_state = VS_INIT,
     sb_ordinal = 0, sb_pdev_id = 0, sb_num_chunks = 0, sb_chunk_ids = []\<rparr>, sb_resized = id\<rparr>"

lemma ex_sb_api_ok: "sb_api_ok ex_sb_api"
  by (simp add: sb_api_ok_def ex_sb_api_def)

definition ex_info :: volume_info where
  "ex_info = \<lparr>vi_id = 7, vi_size_bytes = 2, vi_page_size = 4096, vi_name = ''vol'', vi_ordinal = 0, vi_repl_mode = REPL_CRAFT\<rparr>"

definition ex_boot :: "nat list homeblks" where
  "ex_boot = boot demo_pool demo_pool [] 1"

definition ex_hb :: "nat list homeblks" where
  "ex_hb = snd (projr (create_volume ex_reserver ex_sb_api \<lparr>ce_pdev = 0, ce_repl_ok = True\<rparr> ex_info ex_boot))"

lemma demo_pool_empty: "m_volume_chunks demo_pool n = None"
  by (simp add: demo_defs sel_defs)

definition ex_env :: "disk option \<Rightarrow> start_env" where
  "ex_env d = \<lparr>bt_type_of = (\<lambda>_. block_nvme), bt_canonical = id, bt_random_uuid = 1, bt_vol_chunks = map demo_chunk [0, 1, 2], bt_index_chunks = map demo_chunk [0, 1, 2], bt_disk = d\<rparr>"

definition ex_cfg :: home_blocks_config where
  "ex_cfg = \<lparr>cfg_devices = [(''/dev/nvme0'', AUTO_DETECT)], cfg_threads = 2, cfg_app_mem_size_mb = 20, cfg_on_svc_id = None\<rparr>"

lemma ex_pool: "fold add_chunk (map demo_chunk [0, 1, 2]) VolumeChunkSelector = demo_pool"
  by (simp add: demo_pool_def)

lemma ex_boot_start: "\<exists>f. init_homestore ex_reserver ex_cfg (1, 1) (ex_env None) (HomeBlocksImpl []) = Inr (Some f, ex_boot)"
proof -
  have d: "bt_disk (ex_env None) = None" by (simp add: ex_env_def)
  show ?thesis unfolding first_start [OF d] ex_boot_def by (simp add: ex_env_def ex_cfg_def init_format_def get_device_type_def cold_boot_id_def ex_pool [simplified])
qed

lemma ex_boot_reachable: "mgr_reachable ex_reserver ex_sb_api mem_repl_dev (ex_boot, [])"
proof -
  have d: "new_devices (ex_env None)" by (simp add: new_devices_def ex_env_def demo_chunk_def)
  obtain f where "init_homestore ex_reserver ex_cfg (1, 1) (ex_env None) (HomeBlocksImpl []) = Inr (Some f, ex_boot)" using ex_boot_start by blast
  then show ?thesis by (rule mgr_reachable.start [OF d])
qed

lemmas ex_mgr_defs = ex_boot_def boot_def superblk_init_def create_volume_def create_make_def volume_init_new_def init_index_table_new_def get_index_size_def
  volume_of_info_def state_change_def sb_of_info_def vol_sb_init_def sb_write_def inc_ref_def dec_ref_def map_emplace_def ex_reserver_def ex_sb_api_def ex_info_def

lemma ex_create: "\<exists>hb. create_volume ex_reserver ex_sb_api \<lparr>ce_pdev = 0, ce_repl_ok = True\<rparr> ex_info ex_boot = Inr (Inr 0, hb)"
  by (simp add: ex_mgr_defs demo_defs sel_defs)

lemma ex_hb_reachable: "mgr_reachable ex_reserver ex_sb_api mem_repl_dev (ex_hb, [])"
proof -
  obtain hb where c: "create_volume ex_reserver ex_sb_api \<lparr>ce_pdev = 0, ce_repl_ok = True\<rparr> ex_info ex_boot = Inr (Inr 0, hb)" using ex_create by blast
  then have "ex_hb = hb" by (simp add: ex_hb_def)
  then show ?thesis using mgr_reachable.step [OF ex_boot_reachable mgr_step.create [OF c]] by simp
qed

lemma ex_hb_facts:
  "vol_map ex_hb = [(7, 0)]" "is_restricted ex_hb = False" "shutdown_started ex_hb = False" "removals ex_hb = []" "outstanding_reqs ex_hb = 0" "next_obj ex_hb = 1"
  "\<exists>v. objs ex_hb 0 = Some v \<and> m_state v = ONLINE \<and> \<not> destroy_started v \<and> vol_rd v = Some 7 \<and> vol_outstanding v = 0"
  "vol_ids (volume_chunk_selector (hs ex_hb)) 0 = [0]" "ordinal_reserver ex_hb = [0]" "hb_sb ex_hb \<noteq> None" "shutdown_promise ex_hb = False"
  by (simp_all add: ex_hb_def ex_mgr_defs demo_defs sel_defs vol_ids_def)

section \<open>Volumes, superblocks and chunks\<close>

text \<open>What the storage layer holds for a volume.\<close>

lemma volume_record:
  assumes "mgr_inv rs (hb, fl)" "(j, k) \<in> set (vol_map hb)"
  obtains v sb tbl where "objs hb k = Some v" "vol_meta (hs hb) k = Some sb" "sb_id sb = j" "sb_size sb = vi_size_bytes (vol_info v)" "sb_state sb = m_state v"
    "sb_ordinal sb = vi_ordinal (vol_info v)" "sb_ordinal sb < MAX_NUM_VOLUMES" "sb_chunk_ids sb = vol_ids (volume_chunk_selector (hs hb)) (sb_ordinal sb)"
    "tbl \<in> set (index_tables (hs hb))" "ix_parent_uuid tbl = j" "ix_chunk_ids tbl = vol_ids (index_chunk_selector (hs hb)) (sb_ordinal sb)"
proof -
  obtain v sb tbl where v: "objs hb k = Some v" "vol_meta (hs hb) k = Some sb" "vi_id (vol_info v) = j" "vi_ordinal (vol_info v) < MAX_NUM_VOLUMES"
    and m: "sb = sb_of_info (vol_info v) (sb_pdev_id sb) (vol_ids (volume_chunk_selector (hs hb)) (vi_ordinal (vol_info v))) sb" "sb_state sb = m_state v"
    and t: "tbl \<in> set (index_tables (hs hb))" "ix_parent_uuid tbl = j" "ix_chunk_ids tbl = vol_ids (index_chunk_selector (hs hb)) (vi_ordinal (vol_info v))"
    using mgr_invD(6) [OF assms] by (auto simp: vol_ok_def Let_def sb_matches_def)
  have "sb_id sb = j" "sb_size sb = vi_size_bytes (vol_info v)" "sb_ordinal sb = vi_ordinal (vol_info v)"
    "sb_chunk_ids sb = vol_ids (volume_chunk_selector (hs hb)) (vi_ordinal (vol_info v))"
    by (subst m(1), simp add: sb_of_info_def vol_sb_init_def v(3))+
  then show thesis using that [of v sb tbl] v m(2) t by simp
qed

text \<open>
  C4. In every reachable state each volume of the map has an ordinal of its own and a persisted superblock that carries its id, its size, its state and exactly the chunks the
  selector has given it, also after it has grown, and its index table is registered with exactly the chunks of the index selector; the superblocks of two volumes never share a chunk.
  The runs are those of \<^const>\<open>mgr_step\<close>: no resize task runs after the removal of the volume it was queued for (it would overwrite the superblock of a volume that got the ordinal, \<open>stale_resize_corrupts_superblock\<close>),
  no fault-containment event arrives for a volume that is being removed, and a creation is one step.
\<close>

theorem volumes_consistent:
  assumes "reserver_ok rs" "sb_api_ok sa" "mgr_reachable rs sa rd (hb, fl)" "(i, h) \<in> set (vol_map hb)"
  shows "\<exists>v sb tbl. objs hb h = Some v \<and> vol_meta (hs hb) h = Some sb \<and> sb_id sb = i \<and> sb_size sb = vi_size_bytes (vol_info v) \<and> sb_state sb = m_state v \<and>
    sb_ordinal sb = vi_ordinal (vol_info v) \<and> sb_ordinal sb < MAX_NUM_VOLUMES \<and>
    sb_chunk_ids sb = vol_ids (volume_chunk_selector (hs hb)) (sb_ordinal sb) \<and> distinct (sb_chunk_ids sb) \<and>
    tbl \<in> set (index_tables (hs hb)) \<and> ix_parent_uuid tbl = i \<and> ix_chunk_ids tbl = vol_ids (index_chunk_selector (hs hb)) (sb_ordinal sb) \<and>
    (\<forall>j k sb'. (j, k) \<in> set (vol_map hb) \<and> vol_meta (hs hb) k = Some sb' \<and> j \<noteq> i \<longrightarrow>
       sb_ordinal sb' \<noteq> sb_ordinal sb \<and> set (sb_chunk_ids sb') \<inter> set (sb_chunk_ids sb) = {})"
proof -
  have inv: "mgr_inv rs (hb, fl)" by (rule mgr_reachable_inv [OF assms(3,1,2)])
  obtain L where L: "sel_rel (volume_chunk_selector (hs hb)) L" using mgr_invD(1) [OF inv] by (auto simp: sel_ok_def)
  obtain v sb tbl where V: "objs hb h = Some v" "vol_meta (hs hb) h = Some sb" "sb_id sb = i" "sb_size sb = vi_size_bytes (vol_info v)" "sb_state sb = m_state v"
    "sb_ordinal sb = vi_ordinal (vol_info v)" "sb_ordinal sb < MAX_NUM_VOLUMES" "sb_chunk_ids sb = vol_ids (volume_chunk_selector (hs hb)) (sb_ordinal sb)"
    "tbl \<in> set (index_tables (hs hb))" "ix_parent_uuid tbl = i" "ix_chunk_ids tbl = vol_ids (index_chunk_selector (hs hb)) (sb_ordinal sb)"
    by (rule volume_record [OF inv assms(4)])
  have "sb_ordinal sb' \<noteq> sb_ordinal sb \<and> set (sb_chunk_ids sb') \<inter> set (sb_chunk_ids sb) = {}"
    if a: "(j, k) \<in> set (vol_map hb)" "vol_meta (hs hb) k = Some sb'" "j \<noteq> i" for j k sb'
  proof -
    obtain w sb2 where W: "objs hb k = Some w" "vol_meta (hs hb) k = Some sb2" "sb_ordinal sb2 = vi_ordinal (vol_info w)"
      "sb_chunk_ids sb2 = vol_ids (volume_chunk_selector (hs hb)) (sb_ordinal sb2)"
      by (rule volume_record [OF inv a(1)])
    have "sb_ordinal sb' \<noteq> sb_ordinal sb" using mgr_invD(7) [OF inv a(1) assms(4) W(1) V(1)] W V(6) a by auto
    then show ?thesis using ledger_exclusive(2) [OF L] W V(8) a(2) by simp
  qed
  moreover have "distinct (sb_chunk_ids sb)" unfolding V(8) by (rule ledger_exclusive(1) [OF L])
  ultimately show ?thesis using V by (intro exI [of _ v] exI [of _ sb] exI [of _ tbl]) blast
qed

theorem volumes_consistent_witness:
  "\<exists>v sb. objs ex_hb 0 = Some v \<and> vol_meta (hs ex_hb) 0 = Some sb \<and> sb_id sb = 7 \<and> sb_state sb = ONLINE \<and> sb_chunk_ids sb = [0]"
proof -
  have m: "(7, 0) \<in> set (vol_map ex_hb)" by (simp add: ex_hb_facts)
  obtain v where v: "objs ex_hb 0 = Some v" "m_state v = ONLINE" using ex_hb_facts(7) by blast
  obtain u sb where u: "objs ex_hb 0 = Some u" "vol_meta (hs ex_hb) 0 = Some sb" "sb_id sb = 7" "sb_state sb = m_state u" "sb_ordinal sb = vi_ordinal (vol_info u)"
    "sb_chunk_ids sb = vol_ids (volume_chunk_selector (hs ex_hb)) (sb_ordinal sb)"
    using volumes_consistent [OF ex_reserver_ok ex_sb_api_ok ex_hb_reachable m] by blast
  have "vi_ordinal (vol_info u) = 0" using u(1) by (simp add: ex_hb_def ex_mgr_defs demo_defs sel_defs) auto
  then show ?thesis using u v ex_hb_facts(8) by auto
qed

section \<open>I/O\<close>

text \<open>
  C13. A counted I/O protects its volume: in every reachable state an I/O in flight is on a volume whose destruction has not started and whose replication device is there, the request counter of the
  volume counts exactly the I/Os in flight on it, and the check in front of an I/O never faults, whatever volume, address and length it is given. The runs are those of \<^const>\<open>mgr_step\<close>, which leaves out two orders
  the code allows and after which this is false: a removal that gets in between the checks of an I/O and the guard that counts it (\<open>removal_before_guard\<close> derives the missing device) and a fault-containment
  event for a volume that is being removed (\<open>fc_exit_revives_removed_volume\<close> derives the fault of the check).
\<close>

theorem io_on_live_volumes:
  assumes "reserver_ok rs" "sb_api_ok sa" "mgr_reachable rs sa rd (hb, fl)" "get_blk_size rd \<noteq> 0"
  shows "(\<forall>h\<in>set fl. \<exists>v. objs hb h = Some v \<and> \<not> destroy_started v \<and> vol_rd v \<noteq> None \<and> vol_outstanding v = count_list fl h) \<and>
    (\<forall>h v addr len. objs hb h = Some v \<longrightarrow> (\<exists>r. io_precheck rd hb v addr len = Inr r))"
proof -
  have inv: "mgr_inv rs (hb, fl)" by (rule mgr_reachable_inv [OF assms(3,1,2)])
  have "\<exists>v. objs hb h = Some v \<and> \<not> destroy_started v \<and> vol_rd v \<noteq> None \<and> vol_outstanding v = count_list fl h" if h: "h \<in> set fl" for h
  proof -
    obtain i where "(i, h) \<in> set (vol_map hb)" using mgr_invD(9) [OF inv h] by auto
    then show ?thesis using mgr_invD(6) [OF inv, of i h] h by (fastforce simp: vol_ok_def Let_def)
  qed
  moreover have "\<exists>r. io_precheck rd hb v addr len = Inr r" if "objs hb h = Some v" for h v addr len
  proof (cases "is_destroying v")
    case False
    then have "vol_rd v \<noteq> None" using live_in_map [OF inv that False] by (auto simp: vol_ok_def Let_def is_destroying_def)
    then show ?thesis using assms(4) by (auto simp: io_precheck_def Let_def)
  qed (simp add: io_precheck_def)
  ultimately show ?thesis by blast
qed

lemma ex_io: "\<exists>v. objs ex_hb 0 = Some v \<and> io_precheck mem_repl_dev ex_hb v 4 2 = Inr (Inr 2)"
  using ex_hb_facts(2,3,7) by (auto simp: io_precheck_def is_offline_def is_destroying_def)

theorem io_on_live_volumes_witness:
  "\<exists>hb v. mgr_reachable ex_reserver ex_sb_api mem_repl_dev (hb, [0]) \<and> objs hb 0 = Some v \<and> vol_outstanding v = 1 \<and> \<not> destroy_started v"
proof -
  obtain v where v: "objs ex_hb 0 = Some v" "io_precheck mem_repl_dev ex_hb v 4 2 = Inr (Inr 2)" using ex_io by blast
  let ?hb = "ex_hb\<lparr>objs := (objs ex_hb)(0 \<mapsto> vol_inc_ref v)\<rparr>"
  have r: "mgr_reachable ex_reserver ex_sb_api mem_repl_dev (?hb, [0])"
    by (rule mgr_reachable.step [OF ex_hb_reachable mgr_step.io_start [OF v]])
  show ?thesis using io_on_live_volumes [OF ex_reserver_ok ex_sb_api_ok r] r by (intro exI [of _ ?hb]) auto
qed

section \<open>Removal\<close>

text \<open>The removal of a volume in service without I/O in flight goes on until the replication device is gone.\<close>

lemma removal_starts:
  assumes "reserver_ok rs" "sb_api_ok sa" "mgr_reachable rs sa rd (hb, fl)" "\<not> is_restricted hb"
    and "map_of (vol_map hb) i = Some h" "objs hb h = Some v" "\<not> is_destroying v" "\<not> is_offline v" "h \<notin> set fl"
  obtains hb1 hb2 hb3 v2 where "remove_volume i hb = Inr (Inr (), hb1)" "run_removal rs gone (DoRemove i) hb1 = Inr hb2" "run_removal rs gone (ReplDevGone h) hb2 = Inr hb3"
    "vol_map hb3 = vol_map hb" "objs hb3 h = Some (v2\<lparr>vol_rd := None\<rparr>)" "vol_info v2 = vol_info v" "indx_tbl v2 = indx_tbl v" "ordinal_reserver hb3 = ordinal_reserver hb"
    "IndexGone h \<in> set (removals hb3)" "mgr_reachable rs sa rd (hb3, fl)"
    "volume_chunk_selector (hs hb3) = volume_chunk_selector (hs hb)" "index_chunk_selector (hs hb3) = index_chunk_selector (hs hb)"
    "repl_devs (hs hb3) = (if gone then removeAll i (repl_devs (hs hb)) else repl_devs (hs hb))"
proof -
  have inv: "mgr_inv rs (hb, fl)" by (rule mgr_reachable_inv [OF assms(3,1,2)])
  have e: "(i, h) \<in> set (vol_map hb)" using assms(5) by (rule map_of_SomeD)
  have vok: "vol_ok (rs_ids rs (ordinal_reserver hb)) (hs hb) (removals hb) fl i h v" using mgr_invD(6) [OF inv e] assms(6) by auto
  have can: "can_remove v" "vol_rd v \<noteq> None" using vok assms(7,9) by (auto simp: can_remove_def vol_ok_def Let_def is_destroying_def count_list_0_iff)
  let ?hb1 = "hb\<lparr>removals := removals hb @ [DoRemove i]\<rparr>"
  have r1: "remove_volume i hb = Inr (Inr (), ?hb1)" using assms(4,5,6,8) by (simp add: remove_volume_def get_volume_def)
  have reach1: "mgr_reachable rs sa rd (?hb1, fl)" by (rule mgr_reachable.step [OF assms(3) mgr_step.remove [OF r1]])
  let ?hb1' = "?hb1\<lparr>removals := remove1 (DoRemove i) (removals ?hb1)\<rparr>"
  have inv1: "mgr_inv rs (?hb1', fl)" by (rule mgr_inv_worker [OF mgr_reachable_inv [OF reach1 assms(1,2)]]) (simp only: waits_remove1)
  obtain hb2 v2 where h2: "do_remove_volume rs i ?hb1' = Inr hb2" "mgr_inv rs (hb2, fl)" "vol_map hb2 = vol_map hb" "objs hb2 h = Some v2" "vol_info v2 = vol_info v"
    "indx_tbl v2 = indx_tbl v" "ordinal_reserver hb2 = ordinal_reserver hb" "ReplDevGone h \<in> set (removals hb2)"
    "volume_chunk_selector (hs hb2) = volume_chunk_selector (hs hb)" "index_chunk_selector (hs hb2) = index_chunk_selector (hs hb)" "repl_devs (hs hb2) = repl_devs (hs hb)" "vol_rd v2 \<noteq> None"
    using do_remove_volume_keeps [OF inv1, of i h v] assms(5,6) can by auto
  have r2: "run_removal rs gone (DoRemove i) ?hb1 = Inr hb2" using h2(1) by (simp add: run_removal_def)
  have reach2: "mgr_reachable rs sa rd (hb2, fl)" by (rule mgr_reachable.step [OF reach1 mgr_step.run [OF _ r2]]) simp
  let ?hb2 = "hb2\<lparr>removals := remove1 (ReplDevGone h) (removals hb2)\<rparr>"
  obtain j u where w2: "mgr_inv rs (waiting h ?hb2, fl)" "(j, h) \<in> set (vol_map hb2)" "objs hb2 h = Some u" "destroy_started u"
    by (rule suspended_removal [OF h2(2,8) disjI1 [OF refl]])
  have u: "u = v2" using w2(3) h2(4) by simp
  have e2: "(j, h) \<in> set (vol_map ?hb2)" "objs ?hb2 h = Some v2" "destroy_started v2" using w2 u by simp_all
  have i: "vi_id (vol_info v2) = i" using vok h2(5) by (simp add: vol_ok_def Let_def)
  have "remove_resume rs gone h ?hb2 = Inr (?hb2\<lparr>objs := (objs ?hb2)(h \<mapsto> v2\<lparr>vol_rd := None\<rparr>),
      hs := (hs hb2)\<lparr>repl_devs := if gone then removeAll i (repl_devs (hs hb)) else repl_devs (hs hb)\<rparr>, removals := removals ?hb2 @ [IndexGone h]\<rparr>)"
    using remove_resume_keeps [OF w2(1) e2, of gone] h2(11,12) i by (auto simp: destroy_repl_dev_def split: option.splits)
  then obtain hb3 where r3: "run_removal rs gone (ReplDevGone h) hb2 = Inr hb3"
    and h3: "vol_map hb3 = vol_map hb" "objs hb3 h = Some (v2\<lparr>vol_rd := None\<rparr>)" "IndexGone h \<in> set (removals hb3)" "ordinal_reserver hb3 = ordinal_reserver hb"
      "volume_chunk_selector (hs hb3) = volume_chunk_selector (hs hb)" "index_chunk_selector (hs hb3) = index_chunk_selector (hs hb)"
      "repl_devs (hs hb3) = (if gone then removeAll i (repl_devs (hs hb)) else repl_devs (hs hb))"
    using h2(3,7,9,10) by (auto simp: run_removal_def)
  have "mgr_reachable rs sa rd (hb3, fl)" by (rule mgr_reachable.step [OF reach2 mgr_step.run [OF h2(8) r3]])
  then show thesis using that [OF r1 r2 r3 h3(1,2) h2(5,6) h3(4,3)] h3(5-7) by blast
qed

text \<open>The chunks of an ordinal are back: it has none, all it had are in the free pool of one device, and that many more chunks are free.\<close>

definition given_back :: "nat \<Rightarrow> selector \<Rightarrow> selector \<Rightarrow> bool" where
  "given_back n s s' \<longleftrightarrow> vol_ids s' n = [] \<and> (\<exists>p. set (vol_ids s n) \<subseteq> set (pool_of (m_per_dev_chunks s') p)) \<and>
     num_free_chunks s' = num_free_chunks s + length (vol_ids s n)"

lemma release_gives_back:
  assumes "sel_ok s" "has_chunks s n" "release_chunks n s = Inr s'"
  shows "given_back n s s'"
proof -
  obtain L v where L: "sel_rel s L" and v: "m_volume_chunks s n = Some v" using assms(1,2) by (auto simp: sel_ok_def has_chunks_def)
  have s': "m_volume_chunks s' = (m_volume_chunks s)(n := None)" "sel_rel s' (move (set (vol_ids s n)) (Free (vc_pdev v)) L)"
    using release_chunks_refines [OF L v] assms(3) by auto
  have own: "L cid = Some (Owned n)" if "cid \<in> set (vol_ids s n)" for cid using that ledger_vol_iff [OF L] by blast
  have "{cid. \<exists>p. move (set (vol_ids s n)) (Free (vc_pdev v)) L cid = Some (Free p)} = {cid. \<exists>p. L cid = Some (Free p)} \<union> set (vol_ids s n)"
    by (auto simp: move_def)
  moreover have "finite {cid. \<exists>p. L cid = Some (Free p)}" using sel_rel_dom [OF L] by (auto elim!: finite_subset [rotated, of "dom L"])
  moreover have "{cid. \<exists>p. L cid = Some (Free p)} \<inter> set (vol_ids s n) = {}" using own by fastforce
  ultimately have "num_free_chunks s' = num_free_chunks s + length (vol_ids s n)"
    using num_free_chunks_card [OF L] num_free_chunks_card [OF s'(2)] ledger_exclusive(1) [OF L, of n] by (simp add: card_Un_disjoint distinct_card)
  moreover have "set (vol_ids s n) \<subseteq> set (pool_of (m_per_dev_chunks s') (vc_pdev v))" using ledger_pool_iff [OF s'(2)] by (auto simp: move_def)
  moreover have "vol_ids s' n = []" using s'(1) by (simp add: vol_ids_def)
  ultimately show ?thesis by (auto simp: given_back_def)
qed

text \<open>
  C15. Removing a volume that is in service and has no I/O in flight completes and gives back what the volume had: the request is accepted, the three stretches of the removal run without a fault, and afterwards
  the volume is out of the map and the others are in it as before, its superblock and its index table are gone, its chunks in both selectors are back in the free pools, its ordinal can be handed out again, and its
  replication device is gone if the storage layer removed it when it was asked to (\<open>gone\<close>; the code ignores a refusal, and then the device stays).
\<close>

theorem removal_completes:
  assumes "reserver_ok rs" "sb_api_ok sa" "mgr_reachable rs sa rd (hb, fl)" "\<not> is_restricted hb"
    and "map_of (vol_map hb) i = Some h" "objs hb h = Some v" "\<not> is_destroying v" "\<not> is_offline v" "h \<notin> set fl"
  shows "\<exists>hb1 hb2 hb3 hb4. remove_volume i hb = Inr (Inr (), hb1) \<and> run_removal rs gone (DoRemove i) hb1 = Inr hb2 \<and>
    run_removal rs gone (ReplDevGone h) hb2 = Inr hb3 \<and> run_removal rs gone (IndexGone h) hb3 = Inr hb4 \<and>
    vol_map hb4 = map_erase i (vol_map hb) \<and> vol_meta (hs hb4) h = None \<and> (\<forall>tbl. indx_tbl v = Some tbl \<longrightarrow> tbl \<notin> set (index_tables (hs hb4))) \<and>
    given_back (vi_ordinal (vol_info v)) (volume_chunk_selector (hs hb)) (volume_chunk_selector (hs hb4)) \<and>
    given_back (vi_ordinal (vol_info v)) (index_chunk_selector (hs hb)) (index_chunk_selector (hs hb4)) \<and>
    repl_devs (hs hb4) = (if gone then removeAll i (repl_devs (hs hb)) else repl_devs (hs hb)) \<and>
    rs_ids rs (ordinal_reserver hb4) = rs_ids rs (ordinal_reserver hb) - {vi_ordinal (vol_info v)} \<and> mgr_reachable rs sa rd (hb4, fl)"
proof -
  obtain hb1 hb2 hb3 v2 where r: "remove_volume i hb = Inr (Inr (), hb1)" "run_removal rs gone (DoRemove i) hb1 = Inr hb2" "run_removal rs gone (ReplDevGone h) hb2 = Inr hb3"
    and h3: "vol_map hb3 = vol_map hb" "objs hb3 h = Some (v2\<lparr>vol_rd := None\<rparr>)" "vol_info v2 = vol_info v" "indx_tbl v2 = indx_tbl v" "ordinal_reserver hb3 = ordinal_reserver hb"
      "IndexGone h \<in> set (removals hb3)" "mgr_reachable rs sa rd (hb3, fl)"
      "volume_chunk_selector (hs hb3) = volume_chunk_selector (hs hb)" "index_chunk_selector (hs hb3) = index_chunk_selector (hs hb)"
      "repl_devs (hs hb3) = (if gone then removeAll i (repl_devs (hs hb)) else repl_devs (hs hb))"
    by (rule removal_starts [OF assms])
  let ?hb3 = "hb3\<lparr>removals := remove1 (IndexGone h) (removals hb3)\<rparr>"
  obtain j3 v3 where w3: "mgr_inv rs (waiting h ?hb3, fl)" "objs hb3 h = Some v3" "destroy_started v3"
    by (rule suspended_removal [OF mgr_reachable_inv [OF h3(7) assms(1,2)] h3(6) disjI2 [OF refl]])
  have v3: "v3 = v2\<lparr>vol_rd := None\<rparr>" using w3(2) h3(2) by simp
  have e3: "(i, h) \<in> set (vol_map ?hb3)" "objs ?hb3 h = Some v3" using map_of_SomeD [OF assms(5)] h3(1) w3(2) by simp_all
  obtain hb4 where r4: "run_removal rs gone (IndexGone h) hb3 = Inr hb4"
    and h4: "vol_map hb4 = map_erase i (vol_map hb)" "vol_meta (hs hb4) h = None" "release_chunks (vi_ordinal (vol_info v)) (volume_chunk_selector (hs hb)) = Inr (volume_chunk_selector (hs hb4))"
      "release_chunks (vi_ordinal (vol_info v)) (index_chunk_selector (hs hb)) = Inr (index_chunk_selector (hs hb4))"
      "repl_devs (hs hb4) = (if gone then removeAll i (repl_devs (hs hb)) else repl_devs (hs hb))" "\<forall>tbl. indx_tbl v = Some tbl \<longrightarrow> tbl \<notin> set (index_tables (hs hb4))"
      "rs_ids rs (ordinal_reserver hb4) = rs_ids rs (ordinal_reserver hb) - {vi_ordinal (vol_info v)}"
    using remove_finish_keeps [OF assms(1) w3(1) e3 w3(3)] h3(1,3-5,8-10) v3 by (auto simp: run_removal_def)
  have "mgr_reachable rs sa rd (hb4, fl)" by (rule mgr_reachable.step [OF h3(7) mgr_step.run [OF h3(6) r4]])
  moreover have inv: "mgr_inv rs (hb, fl)" by (rule mgr_reachable_inv [OF assms(3,1,2)])
  have "has_chunks (volume_chunk_selector (hs hb)) (vi_ordinal (vol_info v))" "has_chunks (index_chunk_selector (hs hb)) (vi_ordinal (vol_info v))"
    using mgr_invD(6) [OF inv map_of_SomeD [OF assms(5)]] assms(6) by (auto simp: vol_ok_def Let_def)
  then have "given_back (vi_ordinal (vol_info v)) (volume_chunk_selector (hs hb)) (volume_chunk_selector (hs hb4))"
    "given_back (vi_ordinal (vol_info v)) (index_chunk_selector (hs hb)) (index_chunk_selector (hs hb4))"
    using release_gives_back mgr_invD(1,2) [OF inv] h4(3,4) by blast+
  ultimately show ?thesis using r r4 h4 by blast
qed

theorem removal_completes_witness:
  "\<exists>hb1 hb2 hb3 hb4. remove_volume 7 ex_hb = Inr (Inr (), hb1) \<and> run_removal ex_reserver True (DoRemove 7) hb1 = Inr hb2 \<and>
    run_removal ex_reserver True (ReplDevGone 0) hb2 = Inr hb3 \<and> run_removal ex_reserver True (IndexGone 0) hb3 = Inr hb4 \<and> vol_map hb4 = [] \<and> 7 \<notin> set (repl_devs (hs hb4))"
proof -
  obtain v where v: "objs ex_hb 0 = Some v" "\<not> is_destroying v" "\<not> is_offline v" using ex_hb_facts(7) by (auto simp: is_destroying_def is_offline_def)
  have r: "\<not> is_restricted ex_hb" "map_of (vol_map ex_hb) 7 = Some 0" "0 \<notin> set ([] :: handle list)" by (simp_all add: ex_hb_facts)
  show ?thesis
    using removal_completes [OF ex_reserver_ok ex_sb_api_ok ex_hb_reachable r(1,2) v r(3), of True] by (auto simp: ex_hb_facts map_erase_def)
qed

section \<open>Shutdown\<close>

lemma with_vol_shutdown: "with_vol h f hb = Inr hb' \<Longrightarrow> shutdown_started hb' = shutdown_started hb"
  by (auto simp: with_vol_def set_vol_def bind_sum_eq_Inr split: option.splits)

lemma remove_finish_shutdown: "remove_finish rs h hb = Inr hb' \<Longrightarrow> shutdown_started hb' = shutdown_started hb"
  by (auto simp: remove_finish_def bind_sum_eq_Inr split: option.splits dest!: with_vol_shutdown)

lemma remove_resume_shutdown: "remove_resume rs gone h hb = Inr hb' \<Longrightarrow> shutdown_started hb' = shutdown_started hb"
  by (auto simp: remove_resume_def bind_sum_eq_Inr split: option.splits if_splits dest!: with_vol_shutdown remove_finish_shutdown)

lemma do_remove_volume_shutdown:
  assumes "do_remove_volume rs i hb = Inr hb'"
  shows "shutdown_started hb' = shutdown_started hb"
proof (cases "map_of (vol_map hb) i")
  case (Some h)
  obtain hb1 where hb1: "with_vol h (state_change h DESTROYING) hb = Inr hb1" using assms Some by (auto simp: do_remove_volume_def bind_sum_eq_Inr)
  obtain v where v: "objs hb1 h = Some v" using assms Some hb1 by (auto simp: do_remove_volume_def split: option.splits)
  show ?thesis
    using assms Some hb1 v with_vol_shutdown [OF hb1] remove_resume_shutdown [of rs True h "hb1\<lparr>objs := (objs hb1)(h \<mapsto> destroy_start v)\<rparr>" hb']
    by (auto simp: do_remove_volume_def Let_def split: if_splits)
qed (use assms in \<open>simp add: do_remove_volume_def\<close>)

lemma run_removal_shutdown: "run_removal rs gone c hb = Inr hb' \<Longrightarrow> shutdown_started hb' = shutdown_started hb"
  by (auto simp: run_removal_def Let_def split: removal.splits dest!: do_remove_volume_shutdown remove_resume_shutdown remove_finish_shutdown)

lemma remove_volume_shutdown: "remove_volume i hb = Inr (r, hb') \<Longrightarrow> shutdown_started hb' = shutdown_started hb"
  by (auto simp: remove_volume_def split: if_splits sum.splits option.splits)

lemma vol_gc_shutdown: "vol_gc hb = Inr hb' \<Longrightarrow> shutdown_started hb' = shutdown_started hb"
  unfolding vol_gc_def
  by (rule foldl_checked_keeps [where P = "\<lambda>x. shutdown_started x = shutdown_started hb"]) (auto simp: bind_sum_eq_Inr dest!: remove_volume_shutdown)

lemma run_volume_resize_shutdown:
  assumes "run_volume_resize sa hb = Inr hb'"
  shows "shutdown_started hb' = shutdown_started hb"
proof -
  obtain s' where "foldl (\<lambda>r e. bind_sum r ((\<lambda>(n, ids). update_vol_sb_cb sa n ids) e)) (Inr (hb\<lparr>hs := (hs hb)\<lparr>volume_chunk_selector := s'\<rparr>\<rparr>))
      (drop (length (sb_updates (volume_chunk_selector (hs hb)))) (sb_updates s')) = Inr hb'"
    using assms by (auto simp: run_volume_resize_def Let_def bind_sum_eq_Inr case_prod_beta')
  then show ?thesis
    by (rule foldl_checked_keeps [where P = "\<lambda>x. shutdown_started x = shutdown_started hb"]) (auto simp: update_vol_sb_cb_def split: option.splits dest!: with_vol_shutdown)
qed

lemma on_fault_containment_shutdown: "on_fault_containment ev c hb = Inr hb' \<Longrightarrow> shutdown_started hb' = shutdown_started hb"
  by (auto simp: on_fault_containment_def fault_containment_def exit_fc_def Let_def split: if_splits option.splits sum.splits dest!: with_vol_shutdown)

lemma create_volume_shutdown: "create_volume rs sa env info hb = Inr (r, hb') \<Longrightarrow> shutdown_started hb' = shutdown_started hb"
  by (auto simp: create_volume_def create_make_def inc_ref_def dec_ref_def Let_def bind_sum_eq_Inr split: if_splits prod.splits)

text \<open>Once a shutdown has begun it is never taken back, and no I/O gets past the checks any more.\<close>

lemma mgr_step_shutting_down:
  assumes "mgr_step rs sa rd s s'" "shutdown_started (fst s)"
  shows "shutdown_started (fst s') \<and> set (snd s') \<subseteq> set (snd s)"
  using assms
proof (cases rule: mgr_step.cases)
  case (io_start hb h v addr len b fl)
  then show ?thesis using io_precheck_served(4) [OF io_start(4)] assms(2) by simp
next
  case (io_end h fl hb v)
  then show ?thesis using assms(2) set_remove1_subset [of h fl] by simp
qed (auto simp: shutdown_start_def do_shutdown_def shutdown_finish_def Let_def split: if_splits option.splits
    dest: create_volume_shutdown remove_volume_shutdown run_removal_shutdown vol_gc_shutdown run_volume_resize_shutdown on_fault_containment_shutdown)

text \<open>
  C19. The shutdown timer lets the shutdown proceed only when no I/O is in flight on any volume, no destruction of a volume has been started and not finished, and no reference on the instance is held; and in that
  state and every later one every I/O is turned away and none is in flight. A removal that has been accepted and is only queued does not hold the shutdown up (\<open>queued_removal_passes\<close>).
\<close>

theorem shutdown_quiescent:
  assumes "reserver_ok rs" "sb_api_ok sa" "mgr_reachable rs sa rd (hb, fl)" "do_shutdown hb = Inr hb'" "\<not> shutdown_promise hb" "shutdown_promise hb'"
  shows "fl = [] \<and> (\<forall>h. waits (removals hb') h = 0) \<and> (\<forall>i h v. (i, h) \<in> set (vol_map hb') \<and> objs hb' h = Some v \<longrightarrow> \<not> destroy_started v \<and> vol_outstanding v = 0) \<and> outstanding_reqs hb' = 0 \<and>
    (\<forall>hb2 fl2 v addr len. (mgr_step rs sa rd)\<^sup>*\<^sup>* (hb', fl) (hb2, fl2) \<longrightarrow> fl2 = [] \<and> (\<exists>e. io_precheck rd hb2 v addr len = Inr (Inl e)))"
proof -
  have inv: "mgr_inv rs (hb, fl)" by (rule mgr_reachable_inv [OF assms(3,1,2)])
  have c: "can_shutdown hb" "hb' = hb\<lparr>shutdown_promise := True\<rparr>" using assms(4-6) by (auto simp: do_shutdown_def split: if_splits)
  have quiet: "\<not> is_destroying v \<and> vol_outstanding v = 0" if "(i, h) \<in> set (vol_map hb)" "objs hb h = Some v" for i h v
    using c(1) that by (auto simp: can_shutdown_def no_outstanding_vols_def list_all_iff split: option.splits)
  have ds: "\<not> destroy_started v" if "(i, h) \<in> set (vol_map hb)" "objs hb h = Some v" for i h v
    using quiet [OF that] mgr_invD(6) [OF inv that(1)] that(2) by (auto simp: vol_ok_def Let_def is_destroying_def)
  have "h \<notin> set fl" for h
  proof
    assume "h \<in> set fl"
    then obtain i where "(i, h) \<in> set (vol_map hb)" using mgr_invD(9) [OF inv] by fastforce
    then show False using mgr_invD(6) [OF inv, of i h] quiet \<open>h \<in> set fl\<close> by (fastforce simp: vol_ok_def Let_def count_list_0_iff)
  qed
  then have fl: "fl = []" by (cases fl) auto
  have "waits (removals hb) h = 0" for h
  proof (rule ccontr)
    assume a: "waits (removals hb) h \<noteq> 0"
    then obtain i where "(i, h) \<in> set (vol_map hb)" using mgr_invD(10) [OF inv] by fastforce
    then show False using mgr_invD(6) [OF inv, of i h] quiet a by (fastforce simp: vol_ok_def Let_def is_destroying_def split: if_splits)
  qed
  moreover have "shutdown_started (fst s) \<and> snd s = []" if "(mgr_step rs sa rd)\<^sup>*\<^sup>* (hb', fl) s" for s
    using that
  proof (induction rule: rtranclp_induct)
    case base
    then show ?case using c fl by (simp add: can_shutdown_def)
  next
    case (step s s')
    then show ?case using mgr_step_shutting_down [OF step(2)] by auto
  qed
  then have "fl2 = [] \<and> (\<exists>e. io_precheck rd hb2 v addr len = Inr (Inl e))" if "(mgr_step rs sa rd)\<^sup>*\<^sup>* (hb', fl) (hb2, fl2)" for hb2 fl2 v addr len
    using that by (fastforce simp: io_precheck_def)
  ultimately show ?thesis using c fl quiet ds by (auto simp: can_shutdown_def)
qed

theorem shutdown_quiescent_witness:
  "\<exists>hb'. do_shutdown (shutdown_start ex_hb) = Inr hb' \<and> outstanding_reqs hb' = 0 \<and> shutdown_promise hb'"
proof -
  let ?hb = "shutdown_start ex_hb"
  have r: "mgr_reachable ex_reserver ex_sb_api mem_repl_dev (?hb, [])" by (rule mgr_reachable.step [OF ex_hb_reachable mgr_step.shutdown])
  have "can_shutdown ?hb" using ex_hb_facts by (auto simp: can_shutdown_def no_outstanding_vols_def shutdown_start_def is_destroying_def)
  then have d: "do_shutdown ?hb = Inr (?hb\<lparr>shutdown_promise := True\<rparr>)" using ex_hb_facts(11) by (simp add: do_shutdown_def shutdown_start_def)
  then show ?thesis using shutdown_quiescent [OF ex_reserver_ok ex_sb_api_ok r d] ex_hb_facts(11) by (simp add: shutdown_start_def)
qed

text \<open>
  A removal that has been accepted but not begun: the volume is not in the state \<^term>\<open>DESTROYING\<close> yet, the shutdown proceeds, and the removal begins behind its back.
\<close>

lemma queued_removal_passes:
  "\<exists>hb1 hb2 hb3. remove_volume 7 ex_hb = Inr (Inr (), hb1) \<and> do_shutdown (shutdown_start hb1) = Inr hb2 \<and> shutdown_promise hb2 \<and>
     DoRemove 7 \<in> set (removals hb2) \<and> run_removal ex_reserver True (DoRemove 7) hb2 = Inr hb3 \<and> \<not> no_outstanding_vols hb3"
proof -
  obtain v where v: "objs ex_hb 0 = Some v" "m_state v = ONLINE" "\<not> destroy_started v" "vol_rd v = Some 7" "vol_outstanding v = 0" using ex_hb_facts(7) by blast
  obtain sb where sb: "vol_sb v = Some sb" "sb_state sb = ONLINE"
    using mgr_invD(6) [OF mgr_reachable_inv [OF ex_hb_reachable ex_reserver_ok ex_sb_api_ok], of 7 0] v(1,2)
    by (auto simp: ex_hb_facts(1) vol_ok_def Let_def sb_matches_def)
  let ?hb1 = "ex_hb\<lparr>removals := [DoRemove 7]\<rparr>"
  have 1: "remove_volume 7 ex_hb = Inr (Inr (), ?hb1)" using v by (simp add: remove_volume_def get_volume_def ex_hb_facts is_offline_def)
  let ?hb2 = "(shutdown_start ?hb1)\<lparr>shutdown_promise := True\<rparr>"
  have 2: "do_shutdown (shutdown_start ?hb1) = Inr ?hb2"
    using v by (simp add: do_shutdown_def can_shutdown_def no_outstanding_vols_def shutdown_start_def ex_hb_facts is_destroying_def)
  have 3: "\<exists>hb3. run_removal ex_reserver True (DoRemove 7) ?hb2 = Inr hb3 \<and> \<not> no_outstanding_vols hb3"
    using v sb by (simp add: run_removal_def do_remove_volume_def shutdown_start_def ex_hb_facts with_vol_def state_change_def set_vol_def can_remove_def
        destroy_start_def no_outstanding_vols_def is_destroying_def Let_def)
  have "shutdown_promise ?hb2 \<and> DoRemove 7 \<in> set (removals ?hb2)" by (simp add: shutdown_start_def)
  then show ?thesis using 1 2 3 by blast
qed

end
