(* ===== verification/Manager_Life.thy ===== *)
theory Manager_Life
  imports Manager_Correct
begin

text \<open>
  The life of an instance over several runs of the process: a restart gives back every volume, and a shutdown ends when the instance comes to rest and not before.
\<close>

section \<open>Restart\<close>

text \<open>
  C3. An instance that stops between two steps, by a shutdown or by a crash, and is started again on its devices comes back: the start succeeds without a format, it has the same volumes, each with the
  description its superblock keeps, the state, the superblock, the index table and the chunks it had, no request on it, and a removal queued again exactly for the volumes that were being
  removed, unless the instance is in restricted mode; the instance knows whether it was shut down gracefully.
\<close>

theorem restart_restores_instance:
  assumes "reserver_ok rs" "sb_api_ok sa" "mgr_reachable rs sa rd (hb, fl)" "on_disk hb d" "bt_disk env = Some d" "same_devices env hb"
    and "init_format (bt_type_of env) (bt_canonical env) (cfg_devices cfg) csz = Inr ps"
  shows "\<exists>hb' sb. init_homestore rs cfg csz env (HomeBlocksImpl r) = Inr (None, hb') \<and> mgr_reachable rs sa rd (hb', []) \<and> set (volume_ids hb') = set (volume_ids hb) \<and>
    hb_meta hb = Some sb \<and> gracefully_shutdown hb' = test_flag SB_FLAGS_GRACEFUL_SHUTDOWN sb \<and> our_uuid hb' = hsb_svc_id sb \<and>
    is_restricted hb' = (\<not> gracefully_shutdown hb' \<and> test_flag SB_FLAGS_RESTRICTED sb) \<and>
    (\<forall>i h v. map_of (vol_map hb) i = Some h \<and> objs hb h = Some v \<longrightarrow>
       (\<exists>h' v'. map_of (vol_map hb') i = Some h' \<and> objs hb' h' = Some v' \<and> vol_info v' = persisted_info (vol_info v) \<and> m_state v' = m_state v \<and> vol_outstanding v' = 0 \<and>
          vol_sb v' = vol_sb v \<and> vol_meta (hs hb') h' = vol_meta (hs hb) h \<and> indx_tbl v' = indx_tbl v \<and>
          vol_ids (volume_chunk_selector (hs hb')) (vi_ordinal (vol_info v)) = vol_ids (volume_chunk_selector (hs hb)) (vi_ordinal (vol_info v)) \<and>
          vol_ids (index_chunk_selector (hs hb')) (vi_ordinal (vol_info v)) = vol_ids (index_chunk_selector (hs hb)) (vi_ordinal (vol_info v)) \<and>
          (DoRemove i \<in> set (removals hb') \<longleftrightarrow> m_state v = DESTROYING \<and> \<not> is_restricted hb')))"
proof -
  obtain Bv Bi where inv: "mgr_inv rs (hb, fl)" and disk: "mgr_disk Bv Bi hb" using mgr_reachable_both [OF assms(3,1,2)] by auto
  obtain x sb where x: "init_homestore rs cfg csz env (HomeBlocksImpl r) = Inr (None, x)" "hb_meta hb = Some sb" "restarted rs Bv Bi hb d sb x"
    using restart_runs [OF assms(1) inv disk assms(4-7)] by blast
  note X = restarted_state [OF x(3)]
  have dist: "distinct (map fst (vol_map hb))" by (rule mgr_invD(3) [OF inv])
  have same: "\<exists>h' v'. map_of (vol_map x) i = Some h' \<and> objs x h' = Some v' \<and> vol_info v' = persisted_info (vol_info v) \<and> m_state v' = m_state v \<and> vol_outstanding v' = 0 \<and>
          vol_sb v' = vol_sb v \<and> vol_meta (hs x) h' = vol_meta (hs hb) h \<and> indx_tbl v' = indx_tbl v \<and>
          vol_ids (volume_chunk_selector (hs x)) (vi_ordinal (vol_info v)) = vol_ids (volume_chunk_selector (hs hb)) (vi_ordinal (vol_info v)) \<and>
          vol_ids (index_chunk_selector (hs x)) (vi_ordinal (vol_info v)) = vol_ids (index_chunk_selector (hs hb)) (vi_ordinal (vol_info v)) \<and>
          (DoRemove i \<in> set (removals x) \<longleftrightarrow> m_state v = DESTROYING \<and> \<not> is_restricted x)"
    if h: "map_of (vol_map hb) i = Some h" "objs hb h = Some v" for i h v
  proof -
    obtain w sbv tbl where w: "entry hb i h w sbv tbl" using entry_ex [OF inv map_of_SomeD [OF h(1)]] by blast
    then have e: "entry hb i h v sbv tbl" using h(2) by (simp add: entry_def)
    note F = entry_facts [OF inv disk e]
    obtain k v' where k: "entry x i k v' sbv tbl" "vol_info v' = persisted_info (vol_info v)" "m_state v' = m_state v" "vol_outstanding v' = 0"
      "vol_ids (volume_chunk_selector (hs x)) (vi_ordinal (vol_info v)) = vol_ids (volume_chunk_selector (hs hb)) (vi_ordinal (vol_info v))"
      "vol_ids (index_chunk_selector (hs x)) (vi_ordinal (vol_info v)) = vol_ids (index_chunk_selector (hs hb)) (vi_ordinal (vol_info v))"
      using restarted_entry [OF inv disk assms(4) x(3) e] by blast
    have sbv: "sbv \<in> set (dk_vol_sbs d)" using e assms(4) by (auto simp: entry_def on_disk_def intro: ranI)
    have "inj_on sb_id (set (dk_vol_sbs d))" using on_disk_recoverable(3) [OF inv disk assms(4)] by (simp add: distinct_map)
    then have "i \<in> sb_id ` {sb' \<in> set (dk_vol_sbs d). sb_state sb' = DESTROYING} \<longleftrightarrow> sb_state sbv = DESTROYING"
      using sbv F(2) by (auto dest: inj_onD)
    moreover have "DoRemove i \<in> set (removals x) \<longleftrightarrow> \<not> is_restricted x \<and> i \<in> sb_id ` {sb' \<in> set (dk_vol_sbs d). sb_state sb' = DESTROYING}"
      unfolding X(11) by (cases "is_restricted x") auto
    ultimately have rm: "DoRemove i \<in> set (removals x) \<longleftrightarrow> m_state v = DESTROYING \<and> \<not> is_restricted x" using F(7) by auto
    have "map_of (vol_map x) i = Some k" using k(1) X(4) by (simp add: entry_def)
    then show ?thesis using k e rm by (intro exI [of _ k] exI [of _ v']) (simp add: entry_def)
  qed
  have "i \<in> set (volume_ids x) \<longleftrightarrow> i \<in> set (volume_ids hb)" for i
  proof
    assume "i \<in> set (volume_ids x)"
    then obtain k where "(i, k) \<in> set (vol_map x)" by (auto simp: volume_ids_def)
    then show "i \<in> set (volume_ids hb)" using restarted_only [OF inv disk assms(4) x(3)] by (force simp: volume_ids_def entry_def)
  next
    assume "i \<in> set (volume_ids hb)"
    then obtain h where "(i, h) \<in> set (vol_map hb)" by (auto simp: volume_ids_def)
    then obtain v sbv tbl where "entry hb i h v sbv tbl" using entry_ex [OF inv] by blast
    then show "i \<in> set (volume_ids x)" using restarted_entry [OF inv disk assms(4) x(3)] by (force simp: volume_ids_def entry_def)
  qed
  moreover have "mgr_reachable rs sa rd (x, [])" by (rule mgr_reachable.restart [OF assms(3-6) x(1)])
  moreover note x(1,2) X(13,17,18) same
  ultimately show ?thesis by (intro exI [of _ x] exI [of _ sb]) (simp add: set_eq_iff)
qed

definition ex_disk :: disk where
  "ex_disk = \<lparr>dk_hb = hb_meta ex_hb, dk_repl_devs = repl_devs (hs ex_hb), dk_index_tables = index_tables (hs ex_hb), dk_vol_sbs = [the (vol_meta (hs ex_hb) 0)]\<rparr>"

lemma ex_on_disk: "on_disk ex_hb ex_disk"
  by (auto simp: on_disk_def ex_disk_def ran_def ex_hb_def ex_mgr_defs demo_defs sel_defs)

lemma ex_same_devices: "same_devices (ex_env (Some ex_disk)) ex_hb"
  by (auto simp: same_devices_def ex_env_def inventory_def fun_eq_iff ex_hb_def ex_mgr_defs demo_defs sel_defs chunk_obj_def hb_chunk_def)

theorem restart_restores_instance_witness:
  "\<exists>hb' h' v'. init_homestore ex_reserver ex_cfg (1, 1) (ex_env (Some ex_disk)) (HomeBlocksImpl []) = Inr (None, hb') \<and> set (volume_ids hb') = {7} \<and>
     map_of (vol_map hb') 7 = Some h' \<and> objs hb' h' = Some v' \<and> m_state v' = ONLINE \<and> vol_ids (volume_chunk_selector (hs hb')) 0 = [0]"
proof -
  obtain v where v: "objs ex_hb 0 = Some v" "m_state v = ONLINE" "vi_ordinal (vol_info v) = 0"
    by (simp add: ex_hb_def ex_mgr_defs demo_defs sel_defs)
  have d: "bt_disk (ex_env (Some ex_disk)) = Some ex_disk" by (simp add: ex_env_def)
  obtain ps where f: "init_format (bt_type_of (ex_env (Some ex_disk))) (bt_canonical (ex_env (Some ex_disk))) (cfg_devices ex_cfg) (1, 1) = Inr ps"
    by (simp add: ex_env_def ex_cfg_def init_format_def get_device_type_def)
  have m: "map_of (vol_map ex_hb) 7 = Some 0" "set (volume_ids ex_hb) = {7}" by (simp_all add: ex_hb_facts volume_ids_def)
  show ?thesis
    using restart_restores_instance [OF ex_reserver_ok ex_sb_api_ok ex_hb_reachable ex_on_disk d ex_same_devices f, of "[]"] v m ex_hb_facts(8)
    by (elim exE conjE) (drule spec [of _ 7], drule spec [of _ 0], drule spec [of _ v], auto)
qed

section \<open>The superblocks on the devices\<close>

text \<open>
  C21. In every reachable state, over any number of restarts, every superblock of a volume on the devices has the layout that a recovery expects and belongs to one volume of the map: magic number and version, a
  name of 100 bytes that ends with a NUL, an ordinal in range, a count that is the length of the list of chunks, and a list that is not empty, without repetition and on the one device it names.
\<close>

theorem superblocks_well_typed:
  assumes "reserver_ok rs" "sb_api_ok sa" "mgr_reachable rs sa rd (hb, fl)" "vol_meta (hs hb) h = Some sb"
  shows "sb_magic sb = VOL_SB_MAGIC \<and> sb_version sb = VOL_SB_VER \<and> length (sb_name sb) = VOL_NAME_SIZE \<and> last (sb_name sb) = CHR 0x00 \<and> sb_ordinal sb < MAX_NUM_VOLUMES \<and>
    unat (sb_num_chunks sb) = length (sb_chunk_ids sb) \<and> sb_chunk_ids sb \<noteq> [] \<and> distinct (sb_chunk_ids sb) \<and>
    (\<forall>cid\<in>set (sb_chunk_ids sb). \<exists>c. chunk_obj (m_all_chunks (volume_chunk_selector (hs hb))) cid = Some c \<and> get_pdev_id c = sb_pdev_id sb) \<and>
    map_of (vol_map hb) (sb_id sb) = Some h"
proof -
  obtain Bv Bi where inv: "mgr_inv rs (hb, fl)" and disk: "mgr_disk Bv Bi hb" using mgr_reachable_both [OF assms(3,1,2)] by auto
  obtain i where i: "(i, h) \<in> set (vol_map hb)" using mgr_diskD(6) [OF disk, of h] assms(4) by auto
  obtain v tbl where e: "entry hb i h v sb tbl" using entry_ex [OF inv i] assms(4) by (auto simp: entry_def)
  note F = entry_facts [OF inv disk e]
  obtain L where L: "sel_rel (volume_chunk_selector (hs hb)) L" using mgr_invD(1) [OF inv] by (auto simp: sel_ok_def)
  note O = owned_chunks [OF L mgr_diskD(1) [OF disk] F(10)]
  have f: "sb_magic sb = VOL_SB_MAGIC" "sb_version sb = VOL_SB_VER" "sb_name sb = name_field (vi_name (vol_info v))"
    "sb_num_chunks sb = of_nat (length (vol_ids (volume_chunk_selector (hs hb)) (vi_ordinal (vol_info v))))"
    "sb_chunk_ids sb = vol_ids (volume_chunk_selector (hs hb)) (vi_ordinal (vol_info v))"
    by (subst F(6), simp add: sb_of_info_def vol_sb_init_def)+
  have "length (sb_name sb) = VOL_NAME_SIZE \<and> last (sb_name sb) = CHR 0x00" unfolding f(3) by (simp add: name_field_def VOL_NAME_SIZE_def)
  moreover have "unat (sb_num_chunks sb) = length (sb_chunk_ids sb)" using f(4,5) few_chunks [of "sb_chunk_ids sb"] O by (simp add: unat_of_nat)
  moreover have "\<forall>cid\<in>set (sb_chunk_ids sb). \<exists>c. chunk_obj (m_all_chunks (volume_chunk_selector (hs hb))) cid = Some c \<and> get_pdev_id c = sb_pdev_id sb"
    using O unfolding f(5) inventory_def by (auto split: option.splits)
  moreover have "map_of (vol_map hb) (sb_id sb) = Some h" using i mgr_invD(3) [OF inv] F(2) by simp
  ultimately show ?thesis using f(1,2,5) O F(4) by simp
qed

theorem superblocks_well_typed_witness:
  "\<exists>sb. vol_meta (hs ex_hb) 0 = Some sb \<and> length (sb_name sb) = 100 \<and> sb_chunk_ids sb \<noteq> [] \<and> map_of (vol_map ex_hb) (sb_id sb) = Some 0"
proof -
  obtain sb where sb: "vol_meta (hs ex_hb) 0 = Some sb" by (simp add: ex_hb_def ex_mgr_defs demo_defs sel_defs)
  from superblocks_well_typed [OF ex_reserver_ok ex_sb_api_ok ex_hb_reachable sb] show ?thesis using sb by (simp add: VOL_NAME_SIZE_def)
qed

section \<open>Shutdown\<close>

text \<open>The state that the \<open>n\<close>-th next tick of the timer finds.\<close>

primrec tick_state :: "(nat \<Rightarrow> 'r homeblks \<Rightarrow> 'r homeblks) \<Rightarrow> nat \<Rightarrow> 'r homeblks \<Rightarrow> nat \<Rightarrow> 'r homeblks" where
  "tick_state others k x 0 = others k x"
| "tick_state others k x (Suc n) = others (k + Suc n) (tick_state others k x n)"

lemma tick_state_shift: "tick_state others (Suc k) (others k x) n = tick_state others k x (Suc n)"
  by (induction n) simp_all

lemma wait_quiet_now:
  assumes "shutdown_promise (others k x) = shutdown_promise x" "\<not> shutdown_promise x" "can_shutdown (others k x)"
  shows "shutdown_wait others k x = Some (Inr ((others k x)\<lparr>shutdown_promise := True\<rparr>))"
proof -
  have "shutdown_wait others k x = shutdown_wait others (Suc k) ((others k x)\<lparr>shutdown_promise := True\<rparr>)"
    by (subst shutdown_wait.simps) (use assms in \<open>simp add: do_shutdown_def\<close>)
  also have "\<dots> = Some (Inr ((others k x)\<lparr>shutdown_promise := True\<rparr>))" by (subst shutdown_wait.simps) simp
  finally show ?thesis .
qed

lemma wait_returns:
  assumes keep: "\<forall>k x. shutdown_promise (others k x) = shutdown_promise x" "\<forall>k x. hb_sb x \<noteq> None \<longrightarrow> hb_sb (others k x) \<noteq> None"
    and "\<not> shutdown_promise x" "hb_sb x \<noteq> None" "can_shutdown (tick_state others k x n)"
  shows "\<exists>y. shutdown_wait others k x = Some (Inr y) \<and> shutdown_promise y \<and> can_shutdown y \<and> hb_sb y \<noteq> None"
  using assms(3-5)
proof (induction n arbitrary: k x)
  case 0
  then show ?case using wait_quiet_now [of others k x] keep by (simp add: can_shutdown_def no_outstanding_vols_def)
next
  case (Suc n)
  show ?case
  proof (cases "can_shutdown (others k x)")
    case True
    then show ?thesis using wait_quiet_now [of others k x] keep Suc.prems(1,2) by (simp add: can_shutdown_def no_outstanding_vols_def)
  next
    case False
    have "shutdown_wait others k x = shutdown_wait others (Suc k) (others k x)" by (subst shutdown_wait.simps) (use Suc.prems(1) False in \<open>simp add: do_shutdown_def\<close>)
    then show ?thesis using Suc.IH [of "others k x" "Suc k"] Suc.prems keep tick_state_shift [of others k x n] by simp
  qed
qed

lemma wait_ends_quiet:
  assumes "shutdown_wait others k x = Some r" "\<forall>k x. shutdown_promise (others k x) = shutdown_promise x"
  shows "shutdown_promise x \<or> (\<exists>n. can_shutdown (tick_state others k x n))"
proof -
  let ?P = "\<lambda>others k x r. (\<forall>k x. shutdown_promise (others k x) = shutdown_promise x) \<longrightarrow> shutdown_promise x \<or> (\<exists>n. can_shutdown (tick_state others k x n))"
  have "?P others k x r"
  proof (rule shutdown_wait.raw_induct [where P = ?P, OF _ assms(1)])
    fix wait others k x r
    assume IH: "\<And>others k x r. wait others k x = Some r \<Longrightarrow> ?P others k x r"
      and run: "(if shutdown_promise x then Some (Inr x) else case do_shutdown (others k x) of Inl f \<Rightarrow> Some (Inl f) | Inr hb' \<Rightarrow> wait others (Suc k) hb') = Some r"
    show "?P others k x r"
    proof (intro impI)
      assume keep: "\<forall>k x. shutdown_promise (others k x) = shutdown_promise x"
      show "shutdown_promise x \<or> (\<exists>n. can_shutdown (tick_state others k x n))"
      proof (cases "shutdown_promise x \<or> can_shutdown (others k x)")
        case True
        then show ?thesis by (auto intro: exI [of _ 0])
      next
        case False
        then have "wait others (Suc k) (others k x) = Some r" using run by (simp add: do_shutdown_def)
        then have "\<exists>n. can_shutdown (tick_state others (Suc k) (others k x) n)" using IH [of others "Suc k" "others k x" r] keep False by simp
        then show ?thesis using tick_state_shift by metis
      qed
    qed
  qed
  then show ?thesis using assms(2) by blast
qed

text \<open>
  C16. A shutdown returns exactly when some tick of the timer finds the instance at rest, whatever the other threads do in between, as long as they leave the promise and the superblock of the
  instance alone. When it returns, the flag for a graceful shutdown is on the devices, and the instance is gone; unless the timer ticks once more before it is stopped, which ends the process
  with an exception.
\<close>

theorem shutdown_returns_iff_quiet:
  assumes "\<forall>k x. shutdown_promise (others k x) = shutdown_promise x" "\<forall>k x. hb_sb x \<noteq> None \<longrightarrow> hb_sb (others k x) \<noteq> None"
    and "hb_sb hb \<noteq> None" "\<not> shutdown_promise hb"
  shows "if \<exists>n. can_shutdown (tick_state others 0 (shutdown_start hb) n)
    then shutdown others True hb = Some (Inl UncaughtException) \<and>
      (\<exists>hb' sb. shutdown others False hb = Some (Inr (hb', None)) \<and> can_shutdown hb' \<and> hb_meta hb' = Some sb \<and> test_flag SB_FLAGS_GRACEFUL_SHUTDOWN sb)
    else shutdown others late_tick hb = None"
proof (cases "\<exists>n. can_shutdown (tick_state others 0 (shutdown_start hb) n)")
  case True
  have "\<not> shutdown_promise (shutdown_start hb)" "hb_sb (shutdown_start hb) \<noteq> None" using assms(3,4) by (simp_all add: shutdown_start_def)
  then obtain y sb where y: "shutdown_wait others 0 (shutdown_start hb) = Some (Inr y)" "can_shutdown y" "hb_sb y = Some sb" "shutdown_promise y"
    using True wait_returns [OF assms(1,2)] by blast
  let ?sb = "set_flag SB_FLAGS_GRACEFUL_SHUTDOWN sb"
  have "shutdown others True hb = Some (Inl UncaughtException)" using y by (simp add: shutdown_def do_shutdown_def)
  moreover have "shutdown others False hb = Some (Inr (y\<lparr>hb_sb := Some ?sb, hb_meta := Some ?sb\<rparr>, None))" using y by (simp add: shutdown_def shutdown_finish_def Let_def)
  moreover have "test_flag SB_FLAGS_GRACEFUL_SHUTDOWN ?sb"
  proof -
    have "bit ((hsb_flag sb OR 1) AND 1) 0" by (simp add: bit_simps)
    then have "(hsb_flag sb OR 1) AND 1 \<noteq> 0" by (metis bit_0_eq bot_apply bot_bool_def)
    then show ?thesis by (simp add: test_flag_def set_flag_def SB_FLAGS_GRACEFUL_SHUTDOWN_def)
  qed
  ultimately show ?thesis using True y(2) by (simp add: can_shutdown_def no_outstanding_vols_def)
next
  case False
  have "\<not> shutdown_promise (shutdown_start hb)" using assms(4) by (simp add: shutdown_start_def)
  then have "shutdown_wait others 0 (shutdown_start hb) = None" using wait_ends_quiet [OF _ assms(1), of 0 "shutdown_start hb"] False by (cases "shutdown_wait others 0 (shutdown_start hb)") blast+
  then show ?thesis using False by (simp add: shutdown_def)
qed

theorem shutdown_returns_iff_quiet_witness:
  "\<exists>hb' sb. shutdown (\<lambda>k x. if k = 2 then dec_ref x else x) False (inc_ref ex_hb) = Some (Inr (hb', None)) \<and> hb_meta hb' = Some sb \<and> test_flag SB_FLAGS_GRACEFUL_SHUTDOWN sb"
proof -
  let ?o = "\<lambda>k x. if k = (2 :: nat) then dec_ref x else x :: nat list homeblks"
  have k: "\<forall>k x. shutdown_promise (?o k x) = shutdown_promise x" "\<forall>k x. hb_sb x \<noteq> None \<longrightarrow> hb_sb (?o k x) \<noteq> None"
    "hb_sb (inc_ref ex_hb) \<noteq> None" "\<not> shutdown_promise (inc_ref ex_hb)" by (simp_all add: dec_ref_def inc_ref_def ex_hb_facts)
  have "tick_state ?o 0 (shutdown_start (inc_ref ex_hb)) 2 = shutdown_start ex_hb"
    by (simp add: numeral_2_eq_2 shutdown_start_def inc_ref_def dec_ref_def)
  moreover have "can_shutdown (shutdown_start ex_hb)" using ex_hb_facts by (auto simp: can_shutdown_def no_outstanding_vols_def shutdown_start_def is_destroying_def)
  ultimately have quiet: "\<exists>n. can_shutdown (tick_state ?o 0 (shutdown_start (inc_ref ex_hb)) n)" by (intro exI [of _ 2]) (simp only:)
  show ?thesis using shutdown_returns_iff_quiet [OF k] unfolding if_P [OF quiet] by blast
qed

end
