(* ===== verification/Manager_Recovery.thy ===== *)
theory Manager_Recovery
  imports Manager_Correct
begin

text \<open>
  The ways in which the manager gets stuck, faults or damages what it keeps: a crash in the middle of a removal, a fault-containment event for a volume that is being removed, a resize task that outlives its
  volume, a creation that leaks its reference, two creations of one id, and a removal between the checks and the guard of an I/O.
\<close>

section \<open>A crash in the middle of a removal\<close>








definition ex_removing :: "nat list homeblks" where
  "ex_removing = (let hb1 = snd (projr (remove_volume 7 ex_hb)); hb2 = projr (run_removal ex_reserver True (DoRemove 7) hb1)
     in projr (run_removal ex_reserver True (ReplDevGone 0) hb2))"

lemmas ex_removal_defs = remove_volume_def get_volume_def is_offline_def run_removal_def do_remove_volume_def with_vol_def set_vol_def can_remove_def destroy_start_def remove_resume_def destroy_repl_dev_def



section \<open>Fault containment of a volume that is being removed\<close>

text \<open>
  C40. The end of a fault-containment event puts a volume into service whatever its state: when the replication device of a volume that is being removed is already gone, the next I/O
  passes the checks for the state of the volume and dereferences the null device.
\<close>

theorem fc_exit_revives_removed_volume:
  assumes "map_of (vol_map hb) i = Some h" "objs hb h = Some v" "vol_sb v = Some sb" "sb_state sb = DESTROYING" "destroy_started v" "vol_rd v = None"
    and "\<not> is_restricted hb" "\<not> shutdown_started hb"
  shows "\<exists>hb' v'. on_fault_containment FC_EXIT (Some i) hb = Inr hb' \<and> objs hb' h = Some v' \<and> is_online v' \<and> destroy_started v' \<and>
    io_precheck rd hb' v' addr len = Inl NullDeref"
proof -
  let ?sb = "sb\<lparr>sb_state := ONLINE\<rparr>" and ?v = "v\<lparr>vol_sb := Some (sb\<lparr>sb_state := ONLINE\<rparr>), m_state := ONLINE\<rparr>"
  have "on_fault_containment FC_EXIT (Some i) hb = Inr (set_vol h (?v, sb_write h ?sb (hs hb)) hb)"
    using assms(1-4) by (simp add: on_fault_containment_def get_volume_def exit_fc_def with_vol_def state_change_def Let_def)
  moreover have "io_precheck rd (set_vol h (?v, sb_write h ?sb (hs hb)) hb) ?v addr len = Inl NullDeref"
    using assms(6-8) by (simp add: io_precheck_def set_vol_def is_offline_def is_destroying_def)
  ultimately show ?thesis using assms(5) by (auto simp: set_vol_def is_online_def)
qed

theorem fc_exit_revives_removed_volume_witness:
  "\<exists>hb' v'. on_fault_containment FC_EXIT (Some 7) ex_removing = Inr hb' \<and> objs hb' 0 = Some v' \<and> destroy_started v' \<and> io_precheck mem_repl_dev hb' v' 0 2 = Inl NullDeref"
proof -
  have m: "vol_map ex_removing = [(7, 0)]" "\<not> is_restricted ex_removing" "\<not> shutdown_started ex_removing"
    and "\<exists>v sb. objs ex_removing 0 = Some v \<and> vol_sb v = Some sb \<and> sb_state sb = DESTROYING \<and> destroy_started v \<and> vol_rd v = None"
    by (simp_all add: ex_removing_def ex_hb_def ex_mgr_defs demo_defs sel_defs remove_volume_def get_volume_def is_offline_def run_removal_def do_remove_volume_def
        with_vol_def set_vol_def can_remove_def destroy_start_def remove_resume_def destroy_repl_dev_def)
  then obtain v sb where v: "objs ex_removing 0 = Some v" "vol_sb v = Some sb" "sb_state sb = DESTROYING" "destroy_started v" "vol_rd v = None" by blast
  have "map_of (vol_map ex_removing) 7 = Some 0" by (simp add: m(1))
  from fc_exit_revives_removed_volume [OF this v m(2,3), of mem_repl_dev 0 2] show ?thesis by blast
qed

section \<open>A resize task that outlives its volume\<close>

text \<open>
  A run: a chunk of volume 7 is selected, which queues a resize of it; the volume is removed; volume 8 is created and gets the ordinal that has become free; the resize task runs.
\<close>

definition ex_queued :: "nat list homeblks" where
  "ex_queued = ex_hb\<lparr>hs := (hs ex_hb)\<lparr>volume_chunk_selector := snd (projr (select_round (\<lambda>_. 0) 9 4 4 0 (volume_chunk_selector (hs ex_hb))))\<rparr>\<rparr>"

definition ex_removed :: "nat list homeblks" where
  "ex_removed = (let hb1 = snd (projr (remove_volume 7 ex_queued)); hb2 = projr (run_removal ex_reserver True (DoRemove 7) hb1); hb3 = projr (run_removal ex_reserver True (ReplDevGone 0) hb2)
     in projr (run_removal ex_reserver True (IndexGone 0) hb3))"

definition ex_reused :: "nat list homeblks" where
  "ex_reused = snd (projr (create_volume ex_reserver ex_sb_api \<lparr>ce_pdev = 0, ce_repl_ok = True\<rparr> (ex_info\<lparr>vi_id := 8\<rparr>) ex_removed))"

lemma ex_queued_select: "select_round (\<lambda>_. 0) 9 4 4 0 (volume_chunk_selector (hs ex_hb)) = Inr (Some 0, volume_chunk_selector (hs ex_queued))"
  by (simp add: ex_queued_def ex_hb_def ex_mgr_defs demo_defs sel_defs)

lemma ex_queued_reachable: "mgr_reachable ex_reserver ex_sb_api mem_repl_dev (ex_queued, [])"
proof -
  have "ex_queued = ex_hb\<lparr>hs := (hs ex_hb)\<lparr>volume_chunk_selector := volume_chunk_selector (hs ex_queued)\<rparr>\<rparr>" by (simp add: ex_queued_def)
  then show ?thesis using mgr_reachable.step [OF ex_hb_reachable mgr_step.select [OF ex_queued_select]] by simp
qed

lemma ex_removed_reachable: "mgr_reachable ex_reserver ex_sb_api mem_repl_dev (ex_removed, [])"
proof -
  obtain v where v: "objs ex_queued 0 = Some v" "\<not> is_destroying v" "\<not> is_offline v" using ex_hb_facts(7) by (auto simp: ex_queued_def is_destroying_def is_offline_def)
  have r: "\<not> is_restricted ex_queued" "map_of (vol_map ex_queued) 7 = Some 0" "0 \<notin> set ([] :: handle list)" by (simp_all add: ex_queued_def ex_hb_facts)
  obtain hb1 hb2 hb3 where h: "remove_volume 7 ex_queued = Inr (Inr (), hb1)" "run_removal ex_reserver True (DoRemove 7) hb1 = Inr hb2" "run_removal ex_reserver True (ReplDevGone 0) hb2 = Inr hb3"
    "IndexGone 0 \<in> set (removals hb3)" "mgr_reachable ex_reserver ex_sb_api mem_repl_dev (hb3, [])"
    by (rule removal_starts [OF ex_reserver_ok ex_sb_api_ok ex_queued_reachable r(1,2) v r(3), of True])
  obtain i u where w: "mgr_inv ex_reserver (waiting 0 (hb3\<lparr>removals := remove1 (IndexGone 0) (removals hb3)\<rparr>), [])" "(i, 0) \<in> set (vol_map hb3)" "objs hb3 0 = Some u" "destroy_started u"
    by (rule suspended_removal [OF mgr_reachable_inv [OF h(5) ex_reserver_ok ex_sb_api_ok] h(4) disjI2 [OF refl]])
  obtain hb4 where r4: "run_removal ex_reserver True (IndexGone 0) hb3 = Inr hb4"
    using remove_finish_keeps [OF ex_reserver_ok w(1), of i u] w(2-4) by (auto simp: run_removal_def)
  have "ex_removed = hb4" using h(1-3) r4 by (simp add: ex_removed_def)
  then show ?thesis using mgr_reachable.step [OF h(5) mgr_step.run [OF h(4) r4]] by simp
qed

lemmas ex_finish_defs = ex_removal_defs remove_finish_def destroy_index_def destroy_finish_def map_erase_def

lemma ex_reused_create: "create_volume ex_reserver ex_sb_api \<lparr>ce_pdev = 0, ce_repl_ok = True\<rparr> (ex_info\<lparr>vi_id := 8\<rparr>) ex_removed = Inr (Inr 1, ex_reused)"
  by (simp add: ex_reused_def ex_removed_def ex_queued_def ex_hb_def ex_mgr_defs demo_defs sel_defs ex_finish_defs)

lemma ex_reused_facts:
  "vol_map ex_reused = [(8, 1)]" "vol_ids (volume_chunk_selector (hs ex_reused)) 0 = [1]"
  "map_option sb_chunk_ids (vol_meta (hs ex_reused) 1) = Some [1]"
  by (simp_all add: ex_reused_def ex_removed_def ex_queued_def ex_hb_def ex_mgr_defs demo_defs sel_defs ex_finish_defs vol_ids_def)

text \<open>
  C22. A resize task keeps the chunk list of the volume it was queued for, and it announces its chunks under that volume's ordinal. When the volume is removed first and another volume has got the ordinal, the
  task writes the chunks of the removed volume, with one it took from the pool, into the superblock of the other volume: in a state reached by selecting a chunk, removing volume 7 and
  creating volume 8, where volume 8 has chunk 1 in the selector and in its superblock, running the task leaves it a superblock that does not name the chunk its data is in.
\<close>

theorem stale_resize_corrupts_superblock:
  "\<exists>hb hb' sb sb'. mgr_reachable ex_reserver ex_sb_api mem_repl_dev (hb, []) \<and> vol_map hb = [(8, 1)] \<and>
     vol_meta (hs hb) 1 = Some sb \<and> sb_chunk_ids sb = [1] \<and> vol_ids (volume_chunk_selector (hs hb)) 0 = [1] \<and>
     run_volume_resize ex_sb_api hb = Inr hb' \<and>
     vol_meta (hs hb') 1 = Some sb' \<and> sb_id sb' = 8 \<and> sb_chunk_ids sb' = [0, 2] \<and> vol_ids (volume_chunk_selector (hs hb')) 0 = [1]"
proof -
  have r: "mgr_reachable ex_reserver ex_sb_api mem_repl_dev (ex_reused, [])"
    by (rule mgr_reachable.step [OF ex_removed_reachable mgr_step.create [OF ex_reused_create]])
  have "\<exists>hb' sb'. run_volume_resize ex_sb_api ex_reused = Inr hb' \<and> vol_meta (hs hb') 1 = Some sb' \<and> sb_id sb' = 8 \<and> sb_chunk_ids sb' = [0, 2] \<and>
      vol_ids (volume_chunk_selector (hs hb')) 0 = [1]"
    by (simp add: run_volume_resize_def update_vol_sb_cb_def vol_update_vol_sb_cb_def ex_reused_def ex_removed_def ex_queued_def ex_hb_def ex_mgr_defs demo_defs sel_defs ex_finish_defs vol_ids_def)
  then show ?thesis using r ex_reused_facts by (auto simp: map_option_eq_Some)
qed

section \<open>Two creations of one id\<close>

text \<open>
  A creation looks at the map before it makes the volume and enters it afterwards. Of two creations of one id that have both looked, the second one returns a volume as well,
  which is not in the map.
\<close>

lemma create_same_id_twice:
  assumes "map_of (vol_map hb) (vi_id info) = Some k" "create_make sa env info hb = Inr (Inr h, hb')"
  shows "vol_map hb' = vol_map hb \<and> (\<exists>v. objs hb' h = Some v)"
  using assms by (auto simp: create_make_def map_emplace_def dec_ref_def Let_def bind_sum_eq_Inr split: if_splits)

section \<open>Ordinals that run out\<close>

text \<open>The reference counter of the instance never goes down over a whole step.\<close>

lemma with_vol_refs: "with_vol h f hb = Inr hb' \<Longrightarrow> outstanding_reqs hb' = outstanding_reqs hb"
  by (auto simp: with_vol_def set_vol_def bind_sum_eq_Inr split: option.splits)

lemma remove_finish_refs: "remove_finish rs h hb = Inr hb' \<Longrightarrow> outstanding_reqs hb' = outstanding_reqs hb"
  by (auto simp: remove_finish_def bind_sum_eq_Inr split: option.splits dest!: with_vol_refs)

lemma remove_resume_refs: "remove_resume rs gone h hb = Inr hb' \<Longrightarrow> outstanding_reqs hb' = outstanding_reqs hb"
  by (auto simp: remove_resume_def bind_sum_eq_Inr split: option.splits if_splits dest!: with_vol_refs remove_finish_refs)

lemma do_remove_volume_refs:
  assumes "do_remove_volume rs i hb = Inr hb'"
  shows "outstanding_reqs hb' = outstanding_reqs hb"
proof (cases "map_of (vol_map hb) i")
  case (Some h)
  obtain hb1 where hb1: "with_vol h (state_change h DESTROYING) hb = Inr hb1" using assms Some by (auto simp: do_remove_volume_def bind_sum_eq_Inr)
  obtain v where v: "objs hb1 h = Some v" using assms Some hb1 by (auto simp: do_remove_volume_def split: option.splits)
  show ?thesis
    using assms Some hb1 v with_vol_refs [OF hb1] remove_resume_refs [of rs True h "hb1\<lparr>objs := (objs hb1)(h \<mapsto> destroy_start v)\<rparr>" hb']
    by (auto simp: do_remove_volume_def Let_def split: if_splits)
qed (use assms in \<open>simp add: do_remove_volume_def\<close>)

lemma run_removal_refs: "run_removal rs gone c hb = Inr hb' \<Longrightarrow> outstanding_reqs hb' = outstanding_reqs hb"
  by (auto simp: run_removal_def Let_def split: removal.splits dest!: do_remove_volume_refs remove_resume_refs remove_finish_refs)

lemma remove_volume_refs: "remove_volume i hb = Inr (r, hb') \<Longrightarrow> outstanding_reqs hb' = outstanding_reqs hb"
  by (auto simp: remove_volume_def split: if_splits sum.splits option.splits)

lemma vol_gc_refs: "vol_gc hb = Inr hb' \<Longrightarrow> outstanding_reqs hb' = outstanding_reqs hb"
  unfolding vol_gc_def
  by (rule foldl_checked_keeps [where P = "\<lambda>x. outstanding_reqs x = outstanding_reqs hb"]) (auto simp: bind_sum_eq_Inr dest!: remove_volume_refs)

lemma update_vol_sb_cb_refs: "update_vol_sb_cb sa n ids hb = Inr hb' \<Longrightarrow> outstanding_reqs hb' = outstanding_reqs hb"
  by (auto simp: update_vol_sb_cb_def split: option.splits dest!: with_vol_refs)

lemma run_volume_resize_refs:
  assumes "run_volume_resize sa hb = Inr hb'"
  shows "outstanding_reqs hb' = outstanding_reqs hb"
proof -
  obtain s' where "foldl (\<lambda>r e. bind_sum r ((\<lambda>(n, ids). update_vol_sb_cb sa n ids) e)) (Inr (hb\<lparr>hs := (hs hb)\<lparr>volume_chunk_selector := s'\<rparr>\<rparr>))
      (drop (length (sb_updates (volume_chunk_selector (hs hb)))) (sb_updates s')) = Inr hb'"
    using assms by (auto simp: run_volume_resize_def Let_def bind_sum_eq_Inr case_prod_beta')
  then show ?thesis
    by (rule foldl_checked_keeps [where P = "\<lambda>x. outstanding_reqs x = outstanding_reqs hb"]) (auto dest!: update_vol_sb_cb_refs)
qed

lemma on_fault_containment_refs: "on_fault_containment ev c hb = Inr hb' \<Longrightarrow> outstanding_reqs hb' = outstanding_reqs hb"
  by (auto simp: on_fault_containment_def fault_containment_def exit_fc_def Let_def split: if_splits option.splits sum.splits dest!: with_vol_refs)

lemma create_volume_refs: "create_volume rs sa env info hb = Inr (r, hb') \<Longrightarrow> outstanding_reqs hb \<le> outstanding_reqs hb'"
  by (auto simp: create_volume_def create_make_def inc_ref_def dec_ref_def Let_def bind_sum_eq_Inr split: if_splits prod.splits)

lemma mgr_step_refs: "mgr_step rs sa rd s s' \<Longrightarrow> outstanding_reqs (fst s) \<le> outstanding_reqs (fst s')"
  by (cases rule: mgr_step.cases)
    (auto simp: shutdown_start_def do_shutdown_def shutdown_finish_def Let_def split: if_splits option.splits dest: create_volume_refs remove_volume_refs run_removal_refs vol_gc_refs run_volume_resize_refs on_fault_containment_refs)

text \<open>
  When the ordinals have run out, a creation fails with an internal error and keeps its reference on the instance: whatever happens afterwards, the instance can never be shut down.
\<close>

lemma exhausted_ordinals_block_shutdown:
  assumes "\<not> is_restricted hb" "rs_reserve rs (ordinal_reserver hb) = (n, r')" "MAX_NUM_VOLUMES \<le> n"
    and "create_volume rs sa env info hb = Inr (res, hb1)" "(mgr_step rs sa rd)\<^sup>*\<^sup>* (hb1, fl) s"
  shows "res = Inl (VolErr INTERNAL_ERROR) \<and> \<not> can_shutdown (fst s)"
proof -
  have c: "res = Inl (VolErr INTERNAL_ERROR)" "0 < outstanding_reqs hb1" using assms(1-4) by (auto simp: create_volume_def inc_ref_def Let_def)
  have "0 < outstanding_reqs (fst s)"
    using assms(5)
  proof (induction rule: rtranclp_induct)
    case (step s s')
    then show ?case using mgr_step_refs [OF step(2)] by linarith
  qed (use c(2) in simp)
  then show ?thesis using c(1) by (simp add: can_shutdown_def)
qed

section \<open>A removal between the checks and the guard of an I/O\<close>

text \<open>
  The checks of an I/O and the guard that counts it are not one step in the code. A removal that runs in between does not see the I/O: it starts the destruction, and when its second stretch has run, the I/O
  that goes on behind its checks finds no replication device.
\<close>

lemma removal_before_guard:
  assumes "reserver_ok rs" "sb_api_ok sa" "mgr_reachable rs sa rd (hb, fl)" "map_of (vol_map hb) i = Some h" "objs hb h = Some v" "h \<notin> set fl"
    and "io_precheck rd hb v addr len = Inr (Inr b)"
  shows "\<exists>hb1 hb2 hb3 v'. remove_volume i hb = Inr (Inr (), hb1) \<and> run_removal rs gone (DoRemove i) hb1 = Inr hb2 \<and> run_removal rs gone (ReplDevGone h) hb2 = Inr hb3 \<and>
    objs hb3 h = Some v' \<and> vol_rd (vol_inc_ref v') = None"
proof -
  note C = io_precheck_served [OF assms(7)]
  show ?thesis
    by (rule removal_starts [OF assms(1-3) C(1) assms(4,5) C(3,2) assms(6), of gone]) (auto simp: vol_inc_ref_def)
qed

end
