(* ===== verification/Manager_IO.thy ===== *)
theory Manager_IO
  imports Manager_Recovery Volume_Replay
begin

text \<open>
  Reads and writes through the public interface: byte addresses, the checks, the request counter, and the paths of the volume behind them.
\<close>

lemma dec_inc_ref [simp]: "vol_dec_ref (vol_inc_ref v) = v"
  by (simp add: vol_dec_ref_def vol_inc_ref_def)

text \<open>An aligned byte range is the range of blocks of its request.\<close>

lemma io_req_of_ok:
  assumes "b \<noteq> 0" "sg_size sgs mod ucast b = 0" "iovs sgs = [data]" "length data = unat (sg_size sgs)" "0 < sg_size sgs"
    and "unat (sg_size sgs) < 2 ^ 16 * unat b" "unat (sg_size sgs) < 2 ^ 32" "unat addr + unat (sg_size sgs) < 2 ^ 32 * unat b"
  shows "read_req_ok b (io_req_of addr sgs b)"
proof -
  let ?B = "unat b" and ?S = "unat (sg_size sgs)"
  have B: "0 < ?B" using assms(1) by (simp add: unat_gt_0)
  have ub: "unat (ucast b :: u64) = ?B" using u32_bound [of b] by (simp add: unsigned_ucast_eq take_bit_nat_eq_self)
  have "unat (sg_size sgs mod ucast b) = ?S mod ?B" by (simp only: unat_mod ub)
  then have m: "?S mod ?B = 0" using assms(2) by simp
  then have SB: "?S div ?B * ?B = ?S" by (metis add.right_neutral div_mult_mod_eq)
  have n: "?S div ?B < 2 ^ 16" using assms(6) B by (simp add: div_less_iff_less_mult mult.commute)
  have "unat (sg_size sgs div ucast b) = ?S div ?B" by (simp only: unat_div ub)
  then have nl: "unat (ucast (sg_size sgs div ucast b) :: u32) = ?S div ?B"
    using n by (simp add: unsigned_ucast_eq unsigned_take_bit_eq take_bit_nat_eq_self)
  have pos: "0 < ?S div ?B" using assms(5) SB by (metis less_irrefl mult_is_0 not_gr_zero unat_0 word_gt_0 unat_gt_0)
  have la: "unat (addr div ucast b) = unat addr div ?B" by (simp only: unat_div ub)
  have "(unat addr + ?S div ?B * ?B) div ?B = ?S div ?B + unat addr div ?B" using B by (intro div_mult_self1) simp
  then have "unat addr div ?B + ?S div ?B = (unat addr + ?S) div ?B" by (simp only: SB add.commute)
  also have "\<dots> < 2 ^ 32" using assms(8) B by (simp add: div_less_iff_less_mult mult.commute)
  finally have "unat addr div ?B + ?S div ?B < 2 ^ 32" .
  then show ?thesis
    using n nl pos la SB assms(3,4,7) by (simp add: read_req_ok_def io_req_of_def word_gt_0 unat_gt_0 [symmetric])
qed

text \<open>What an acknowledged write was, below the interface.\<close>

lemma vol_async_write_acked:
  assumes "iovs sgs = [data]" "vol_async_write api codec ix rd crc hb vol addr sgs w = Inr (Inr n, vol1, w1)"
  shows "io_precheck rd hb vol addr (sg_size sgs) = Inr (Inr (get_blk_size rd))" "n = sg_size sgs" "vol1 = vol"
    "volume_write api codec ix rd crc (vi_id (vol_info vol)) (of_nat (vi_ordinal (vol_info vol))) (io_req_of addr sgs (get_blk_size rd)) w = Inr (Inr (), w1)"
proof -
  obtain r where r: "io_precheck rd hb vol addr (sg_size sgs) = Inr r" using assms(2) by (auto simp: vol_async_write_def bind_sum_eq_Inr)
  obtain b where b: "r = Inr b" using assms(2) r by (cases r) (auto simp: vol_async_write_def)
  show pc: "io_precheck rd hb vol addr (sg_size sgs) = Inr (Inr (get_blk_size rd))" using r b io_precheck_served(6) [of rd hb vol addr "sg_size sgs" b] by simp
  let ?run = "volume_write api codec ix rd crc (vi_id (vol_info vol)) (of_nat (vi_ordinal (vol_info vol))) (io_req_of addr sgs (get_blk_size rd)) w"
  have aw: "bind_sum ?run (\<lambda>(st, w'). Inr (case st of Inl e \<Rightarrow> Inl e | Inr _ \<Rightarrow> Inr (sg_size sgs), vol, w')) = Inr (Inr n, vol1, w1)"
    using assms pc by (simp add: vol_async_write_def Let_def)
  then obtain st w' where st: "?run = Inr (st, w')" by (cases ?run) auto
  show "n = sg_size sgs" "vol1 = vol" "?run = Inr (Inr (), w1)" using aw st by (cases st; simp)+
qed

text \<open>
  What a read through the interface may answer when it has to return \<open>data\<close>: by the outcome \<open>q\<close> of the lookup in the index either the data or the error of a device read or, when the lookup fails, which the code
  does not look at, a success with the buffer as it was.
\<close>

definition read_answer :: "'d repl_dev \<Rightarrow> ('e + 'k) \<Rightarrow> u64 \<Rightarrow> u8 list \<Rightarrow> u8 list \<Rightarrow> u64 res \<Rightarrow> u8 list list \<Rightarrow> bool" where
  "read_answer rd q len data buf r mem \<longleftrightarrow>
     (case q of
        Inl _ \<Rightarrow> r = Inr len \<and> mem = [buf]
      | Inr _ \<Rightarrow> r = Inr len \<and> mem = [data] \<or> (\<exists>e blk sz d0. r = Inl e \<and> fst (async_read rd blk sz d0) = Inl e))"

text \<open>
  A read through the interface after an acknowledged write and any number of writes elsewhere: the instance and the volume object that serve it may be others than those of the write, and the index any that maps
  the same blocks.
\<close>

lemma io_read_back:
  assumes "btree_ok (ft_btree t)" "dev_ok rd" "api_ok api" "blk_codec_ok codec" "mapped_ok rd d (fixed_view t)"
    and "iovs sgs = [data]" "length data = unat (sg_size sgs)" "0 < sg_size sgs" "unat (sg_size sgs) < 2 ^ 16 * unat (get_blk_size rd)"
    and "unat (sg_size sgs) < 2 ^ 32" "unat addr + unat (sg_size sgs) < 2 ^ 32 * unat (get_blk_size rd)"
    and w: "vol_async_write api codec (fixed_index_ops api) rd crc hb vol addr sgs (t, d) = Inr (Inr n, vol1, t1, d1)"
    and ws: "acked_writes api codec (fixed_index_ops api) rd crc vol_id ordinal reqs (t1, d1) = Some (t2, d2)" "\<forall>req\<in>set reqs. read_req_ok (get_blk_size rd) req"
      "\<forall>x. in_req (io_req_of addr sgs (get_blk_size rd)) x \<longrightarrow> \<not> in_reqs reqs x"
    and buf: "iovs rsgs = [buf]" "length buf = length data" "sg_size rsgs = sg_size sgs"
    and tr: "btree_ok (ft_btree tr)" "fixed_view tr = fixed_view t2" "blk_data rd dr = blk_data rd d2"
      "fixed_read_from_index (addr div ucast (get_blk_size rd)) (end_lba (io_req_of addr rsgs (get_blk_size rd))) tr = (q, t3)"
    and pc: "io_precheck rd hb' vol' addr (sg_size rsgs) = Inr (Inr b)"
  shows "\<exists>r mem d3. vol_async_read (fixed_index_ops api) rd crc fc hb' vol' addr rsgs (tr, dr) = Inr (r, mem, vol', t3, d3) \<and> read_answer rd q (sg_size sgs) data buf r mem"
proof (cases q)
  case (Inl e)
  have pr: "io_precheck rd hb' vol' addr (sg_size rsgs) = Inr (Inr (get_blk_size rd))" using pc io_precheck_served(6) [OF pc] by simp
  have "vol_async_read (fixed_index_ops api) rd crc fc hb' vol' addr rsgs (tr, dr) = Inr (Inr (sg_size sgs), [buf], vol', t3, dr)"
    using pr tr(4) Inl buf(1,3) by (simp add: vol_async_read_def volume_read_def fixed_index_ops_def io_req_of_def Let_def)
  then show ?thesis using Inl by (simp add: read_answer_def)
next
  case (Inr kvs)
  let ?b = "get_blk_size rd"
  note W = vol_async_write_acked [OF assms(6) w]
  have b: "?b \<noteq> 0" "sg_size sgs mod ucast ?b = 0" using io_precheck_served(7,9) [OF W(1)] by simp_all
  let ?w = "io_req_of addr sgs ?b" and ?r = "io_req_of addr rsgs ?b"
  have wok: "read_req_ok ?b ?w" by (rule io_req_of_ok [OF b assms(6-11)])
  have rok: "read_req_ok ?b ?r" by (rule io_req_of_ok [of _ _ buf]) (use b assms(7-11) buf in simp_all)
  have same: "req_lba ?r = req_lba ?w" "req_nlbas ?r = req_nlbas ?w" "req_lba ?r = addr div ucast ?b" "req_buffer ?w = Some data"
    using assms(6) buf(3) by (simp_all add: io_req_of_def)
  obtain res d3 where R: "volume_read (fixed_index_ops api) rd crc fc ?r (tr, dr) = Inr (res, t3, d3)" "rr_status res = Inr () \<longrightarrow> rr_mem res = req_buffer ?w"
    "\<forall>e. rr_status res = Inl e \<longrightarrow> (\<exists>blk sz d0. fst (async_read rd blk sz d0) = Inl e)"
    using read_after_writes [OF assms(1-4) wok assms(5) W(4) ws rok same(1,2) tr(1-3), of kvs t3 fc] tr(4) Inr same(3) by auto
  have pr: "io_precheck rd hb' vol' addr (sg_size rsgs) = Inr (Inr ?b)" using pc io_precheck_served(6) [OF pc] by simp
  have ar: "vol_async_read (fixed_index_ops api) rd crc fc hb' vol' addr rsgs (tr, dr) =
      Inr (case rr_status res of Inl e \<Rightarrow> Inl e | Inr _ \<Rightarrow> Inr (sg_size sgs), case rr_mem res of None \<Rightarrow> iovs rsgs | Some m \<Rightarrow> [m], vol', t3, d3)"
    using pr R(1) buf(1,3) by (simp add: vol_async_read_def Let_def cong: sum.case_cong)
  show ?thesis using ar R(2,3) same(4) Inr by (cases "rr_status res") (auto simp: read_answer_def)
qed

text \<open>
  C2. A write through the public interface that is acknowledged reports the size of the buffer and leaves the request counter of the volume as it was, and a following read of the same
  bytes whose lookup in the index works returns exactly the data written, or the error of a device read: block alignment, the translation of byte addresses, the index, the journal and the checksums together
  lose nothing. When the lookup of the read fails, the read reports success and leaves the buffer of the reader as it was. The range has fewer than \<open>2 ^ 16\<close> blocks and ends below block \<open>2 ^ 32\<close>; beyond it the read
  overruns its buffer (\<open>read_above_32_bits_overruns\<close>).
\<close>

theorem async_read_returns_write:
  assumes "btree_ok (ft_btree t)" "dev_ok rd" "api_ok api" "blk_codec_ok codec" "mapped_ok rd d (fixed_view t)"
    and "iovs sgs = [data]" "length data = unat (sg_size sgs)" "0 < sg_size sgs" "unat (sg_size sgs) < 2 ^ 16 * unat (get_blk_size rd)"
    and "unat (sg_size sgs) < 2 ^ 32" "unat addr + unat (sg_size sgs) < 2 ^ 32 * unat (get_blk_size rd)"
    and "vol_async_write api codec (fixed_index_ops api) rd crc hb vol addr sgs (t, d) = Inr (Inr n, vol1, t1, d1)"
    and "iovs rsgs = [buf]" "length buf = length data" "sg_size rsgs = sg_size sgs"
    and "fixed_read_from_index (addr div ucast (get_blk_size rd)) (end_lba (io_req_of addr rsgs (get_blk_size rd))) t1 = (q, t2)"
  shows "n = sg_size sgs \<and> vol1 = vol \<and>
    (\<exists>r mem d2. vol_async_read (fixed_index_ops api) rd crc fc hb vol1 addr rsgs (t1, d1) = Inr (r, mem, vol, t2, d2) \<and> read_answer rd q (sg_size sgs) data buf r mem)"
proof -
  note W = vol_async_write_acked [OF assms(6,12)]
  have "read_req_ok (get_blk_size rd) (io_req_of addr sgs (get_blk_size rd))"
    using io_req_of_ok [OF _ _ assms(6-11)] io_precheck_served(7,9) [OF W(1)] by simp
  then have bt: "btree_ok (ft_btree t1)" using write_keeps_index [OF assms(1-4) _ assms(5) W(4)] by blast
  have pc: "io_precheck rd hb vol addr (sg_size rsgs) = Inr (Inr (get_blk_size rd))" using W(1) assms(15) by simp
  from io_read_back [OF assms(1-12) acked_writes.simps(1) _ _ assms(13-15) bt refl refl assms(16) pc] show ?thesis using W(2,3) by simp
qed

definition ex_sgs :: sg_list where
  "ex_sgs = \<lparr>sg_size = 6, iovs = [[10, 11, 12, 13, 14, 15]]\<rparr>"

definition ex_rsgs :: sg_list where
  "ex_rsgs = \<lparr>sg_size = 6, iovs = [[9, 9, 9, 9, 9, 9]]\<rparr>"

definition ex_vol :: volume where
  "ex_vol = (volume_of_info (ex_info\<lparr>vi_id := 1\<rparr>))\<lparr>vol_rd := Some 1, m_state := ONLINE\<rparr>"

lemma ex_precheck: "io_precheck mem_repl_dev ex_boot ex_vol 10 6 = Inr (Inr 2)"
  by (simp add: io_precheck_def ex_boot_def boot_def superblk_init_def Let_def ex_vol_def is_offline_def is_destroying_def)

theorem async_read_returns_write_witness:
  "\<exists>t1 d1 t2 d2. vol_async_write ex_api ex_codec (fixed_index_ops ex_api) mem_repl_dev ex_crc ex_boot ex_vol 10 ex_sgs (ex_empty, ex_dev) = Inr (Inr 6, ex_vol, t1, d1) \<and>
     vol_async_read (fixed_index_ops ex_api) mem_repl_dev ex_crc False ex_boot ex_vol 10 ex_rsgs (t1, d1) = Inr (Inr 6, [[10, 11, 12, 13, 14, 15]], ex_vol, t2, d2)"
proof -
  obtain t1 d1 where w: "volume_write ex_api ex_codec (fixed_index_ops ex_api) mem_repl_dev ex_crc 1 0 ex_wreq (ex_empty, ex_dev) = Inr (Inr (), t1, d1)"
    and bt: "ft_btree t1 = map_btree (\<lambda>_. False)"
    using ex_write_returns by blast
  have req: "io_req_of 10 ex_sgs 2 = ex_wreq" by (simp add: io_req_of_def ex_sgs_def ex_wreq_def)
  have aw: "vol_async_write ex_api ex_codec (fixed_index_ops ex_api) mem_repl_dev ex_crc ex_boot ex_vol 10 ex_sgs (ex_empty, ex_dev) = Inr (Inr 6, ex_vol, t1, d1)"
    using ex_precheck w req by (simp add: vol_async_write_def ex_sgs_def) (simp add: ex_vol_def volume_of_info_def ex_info_def)
  let ?e = "end_lba (io_req_of 10 ex_rsgs (get_blk_size mem_repl_dev))"
  from bt obtain kvs t2 where q: "fixed_read_from_index (10 div ucast (get_blk_size mem_repl_dev)) ?e t1 = (Inr kvs, t2)"
    by (simp add: fixed_read_from_index_def map_btree_def)
  have no_err: "fst (async_read mem_repl_dev blk sz d0) \<noteq> Inl e" for blk sz d0 e by (simp add: md_async_read_def)
  have s: "iovs ex_sgs = [[10, 11, 12, 13, 14, 15]]" "sg_size ex_sgs = 6" "iovs ex_rsgs = [[9, 9, 9, 9, 9, 9]]" "sg_size ex_rsgs = sg_size ex_sgs"
    by (simp_all add: ex_sgs_def ex_rsgs_def)
  show ?thesis
    using async_read_returns_write [OF ex_empty_ok md_dev_ok ex_api_ok ex_codec_ok ex_mapped s(1) _ _ _ _ _ aw s(3) _ s(4) q, of False] no_err aw s(2) by (auto simp: read_answer_def)
qed

end
