(* ===== verification/Repl_Listener.thy ===== *)
theory Repl_Listener
  imports HB_Types
begin

text \<open>
  The callbacks a replication device of the storage layer makes to its listener, apart from \<^verbatim>\<open>on_commit\<close>. Both listeners of the program, \<^verbatim>\<open>HBListener\<close> and
  \<^verbatim>\<open>CraftRaftListener\<close>, leave every one of them without effect, which is the locale \<open>inert_listener\<close>.
\<close>

datatype repl_event =
    PreCommit int | OnError | BlkAllocHints u32 | OnDestroy "128 word" | StartReplaceMember | CompleteReplaceMember | CleanReplaceMemberTask | RemoveMember | Rollback int | Restart
  | CreateSnapshot | ApplySnapshot | LastSnapshot | ReadSnapshotObj | WriteSnapshotObj | FreeUserSnpCtx | NoSpaceLeft int | NotifyCommittedLsn int | ConfigRollback int

text \<open>What is returned: nothing, a flag, the default hints for an allocation, a status, a null snapshot, a count.\<close>

datatype repl_reply = Void | Flag bool | DefaultHints | Status "unit res" | NoSnapshot | Count int

fun run_callbacks :: "(repl_event \<Rightarrow> 's \<Rightarrow> repl_reply \<times> 's) \<Rightarrow> repl_event list \<Rightarrow> 's \<Rightarrow> repl_reply list \<times> 's" where
  "run_callbacks callback [] s = ([], s)"
| "run_callbacks callback (ev # evs) s =
     (let (r, s1) = callback ev s; (rs, s2) = run_callbacks callback evs s1 in (r # rs, s2))"

locale inert_listener =
  fixes callback :: "repl_event \<Rightarrow> 's \<Rightarrow> repl_reply \<times> 's"
  assumes callback_state: "snd (callback ev s) = s"
    and callback_reply: "fst (callback ev s) = fst (callback ev s')"
    and commit_allowed: "fst (callback (PreCommit lsn) s) = Flag True"
begin

lemma callbacks_inert: "snd (run_callbacks callback evs s) = s"
proof (induction evs)
  case (Cons ev evs)
  have "callback ev s = (fst (callback ev s), s)" using callback_state [of ev s] by (metis surjective_pairing)
  then show ?case using Cons by (simp add: case_prod_beta' Let_def callback_state)
qed simp

lemma callback_replies: "fst (run_callbacks callback evs s) = map (\<lambda>ev. fst (callback ev s)) evs"
proof (induction evs)
  case (Cons ev evs)
  then show ?case by (simp add: case_prod_beta' Let_def callback_state)
qed simp

end

end
