(* ===== verification/HB_Text.thy ===== *)
theory HB_Text
  imports HB_Types
begin

text \<open>
  Numbers as text: what \<^verbatim>\<open>fmt\<close> prints for an unsigned number and what \<^verbatim>\<open>operator>>\<close> of an input stream makes of text.
\<close>

section \<open>Printing\<close>

definition digit :: "nat \<Rightarrow> char" where
  "digit n = char_of (48 + n)"

fun show_nat :: "nat \<Rightarrow> string" where
  "show_nat n = (if n < 10 then [digit n] else show_nat (n div 10) @ [digit (n mod 10)])"

declare show_nat.simps [simp del]

section \<open>Reading\<close>

text \<open>An input stream with what is left of it and its fail bit. An extraction from a stream that has failed does nothing.\<close>

record istream =
  is_rest :: string
  is_fail :: bool

definition is_space :: "char \<Rightarrow> bool" where
  "is_space c \<longleftrightarrow> of_char c \<in> {9, 10, 11, 12, 13, 32 :: nat}"

definition is_digit :: "char \<Rightarrow> bool" where
  "is_digit c \<longleftrightarrow> 48 \<le> (of_char c :: nat) \<and> (of_char c :: nat) \<le> 57"

definition digits_value :: "string \<Rightarrow> nat" where
  "digits_value ds = foldl (\<lambda>v c. 10 * v + (of_char c - 48)) 0 ds"

text \<open>
  \<^verbatim>\<open>is >> x\<close> for an unsigned number of \<open>w\<close> bits: the value stored in \<open>x\<close>, if one is, and the stream. White space is skipped; text that is no number stores 0 and a number
  that is too large the largest one, and both fail; a number with a minus sign wraps.
\<close>

definition read_uint :: "nat \<Rightarrow> istream \<Rightarrow> nat option \<times> istream" where
  "read_uint w is =
     (let s = dropWhile is_space (is_rest is) in
      if is_fail is then (None, is)
      else if s = [] then (None, \<lparr>is_rest = [], is_fail = True\<rparr>)
      else
        (let neg = (List.hd s = CHR ''-''); s1 = (if neg \<or> List.hd s = CHR ''+'' then tl s else s);
             ds = takeWhile is_digit s1; rest = dropWhile is_digit s1; v = digits_value ds in
         if ds = [] then (Some 0, \<lparr>is_rest = rest, is_fail = True\<rparr>)
         else if 2 ^ w \<le> v then (Some (2 ^ w - 1), \<lparr>is_rest = rest, is_fail = True\<rparr>)
         else (Some (if neg then (2 ^ w - v) mod 2 ^ w else v), \<lparr>is_rest = rest, is_fail = False\<rparr>)))"

definition read_char :: "istream \<Rightarrow> char option \<times> istream" where
  "read_char is =
     (let s = dropWhile is_space (is_rest is) in
      if is_fail is then (None, is)
      else (case s of [] \<Rightarrow> (None, \<lparr>is_rest = [], is_fail = True\<rparr>) | c # cs \<Rightarrow> (Some c, \<lparr>is_rest = cs, is_fail = False\<rparr>)))"

section \<open>What is printed is read\<close>

lemma of_char_digit: "n < 10 \<Longrightarrow> of_char (digit n) = 48 + n"
  by (simp add: digit_def)

lemma show_nat_digits: "\<forall>c\<in>set (show_nat n). is_digit c"
proof (induction n rule: show_nat.induct)
  case (1 n)
  show ?case
  proof (cases "n < 10")
    case True
    then show ?thesis by (subst show_nat.simps) (simp add: is_digit_def of_char_digit)
  next
    case False
    then show ?thesis using 1 by (subst show_nat.simps) (simp add: is_digit_def of_char_digit)
  qed
qed

lemma show_nat_value: "digits_value (show_nat n) = n"
proof (induction n rule: show_nat.induct)
  case (1 n)
  show ?case
  proof (cases "n < 10")
    case True
    then show ?thesis by (subst show_nat.simps) (simp add: digits_value_def of_char_digit)
  next
    case False
    then show ?thesis using 1 by (subst show_nat.simps) (simp add: digits_value_def of_char_digit)
  qed
qed

lemma show_nat_nonempty [simp]: "show_nat n \<noteq> []"
  by (subst show_nat.simps) simp

lemma digit_not_space: "is_digit c \<Longrightarrow> \<not> is_space c \<and> c \<noteq> CHR ''-'' \<and> c \<noteq> CHR ''+''"
  by (auto simp: is_digit_def is_space_def)

text \<open>The text ends or goes on with something that is no digit.\<close>

lemma read_show:
  assumes "rest = [] \<or> \<not> is_digit (List.hd rest)"
  shows "read_uint w \<lparr>is_rest = show_nat n @ rest, is_fail = False\<rparr> =
    (if n < 2 ^ w then (Some n, \<lparr>is_rest = rest, is_fail = False\<rparr>) else (Some (2 ^ w - 1), \<lparr>is_rest = rest, is_fail = True\<rparr>))"
proof -
  obtain c cs where s: "show_nat n = c # cs" by (cases "show_nat n") simp_all
  have c: "\<not> is_space c" "c \<noteq> CHR ''-''" "c \<noteq> CHR ''+''" using show_nat_digits [of n] digit_not_space [of c] by (simp_all add: s)
  have "takeWhile is_digit (show_nat n @ rest) = show_nat n" "dropWhile is_digit (show_nat n @ rest) = rest"
    using show_nat_digits [of n] assms by (cases rest; simp add: takeWhile_append2 dropWhile_append2)+
  then have t: "takeWhile is_digit (c # cs @ rest) = c # cs" "dropWhile is_digit (c # cs @ rest) = rest" by (simp_all add: s)
  have v: "digits_value (c # cs) = n" using show_nat_value [of n] by (simp add: s)
  have w: "dropWhile is_space (c # cs @ rest) = c # cs @ rest" using c(1) by simp
  show ?thesis unfolding read_uint_def s append_Cons istream.select_convs w using c by (simp add: t v Let_def not_less del: takeWhile.simps dropWhile.simps)
qed

lemma read_after_failure [simp]: "is_fail is \<Longrightarrow> read_uint w is = (None, is)" "is_fail is \<Longrightarrow> read_char is = (None, is)"
  by (simp_all add: read_uint_def read_char_def)

lemma read_at_end [simp]: "read_char \<lparr>is_rest = [], is_fail = False\<rparr> = (None, \<lparr>is_rest = [], is_fail = True\<rparr>)"
  by (simp add: read_char_def)

end
