(* ===== verification/Manager_Callbacks.thy ===== *)
theory Manager_Callbacks
  imports Manager_Start Repl_Listener HB_Text
begin

text \<open>
  The smaller parts around the manager: the listener and the application object it gives to the replication service (src/lib/listener.hpp, listener.cpp, homeblks_impl.cpp), the factories of volumes, the guard
  and the delay of an I/O, the context of a journal write (src/lib/volume/volume.hpp, src/lib/volume_mgr.cpp), the ways of starting a coroutine (src/lib/coro_helpers.hpp), and the text forms of the public
  interface (src/include/homeblks/home_blocks.hpp).
\<close>

section \<open>The listener of a volume\<close>

definition hb_on_pre_commit :: "int \<Rightarrow> 'r homeblks \<Rightarrow> bool \<times> 'r homeblks" where
  "hb_on_pre_commit lsn hb = (True, hb)"

definition hb_on_error :: "'r homeblks \<Rightarrow> 'r homeblks" where
  "hb_on_error hb = hb"

definition hb_get_blk_alloc_hints :: "u32 \<Rightarrow> 'r homeblks \<Rightarrow> repl_reply \<times> 'r homeblks" where
  "hb_get_blk_alloc_hints data_size hb = (DefaultHints, hb)"

definition hb_on_destroy :: "volume_id_t \<Rightarrow> 'r homeblks \<Rightarrow> 'r homeblks" where
  "hb_on_destroy group_id hb = hb"

lemmas hb_listener_defs = hb_on_pre_commit_def hb_on_error_def hb_get_blk_alloc_hints_def hb_on_destroy_def

fun hb_callback :: "repl_event \<Rightarrow> 'r homeblks \<Rightarrow> repl_reply \<times> 'r homeblks" where
  "hb_callback (PreCommit lsn) hb = (let (b, hb1) = hb_on_pre_commit lsn hb in (Flag b, hb1))"
| "hb_callback OnError hb = (Void, hb_on_error hb)"
| "hb_callback (BlkAllocHints data_size) hb = hb_get_blk_alloc_hints data_size hb"
| "hb_callback (OnDestroy group_id) hb = (Void, hb_on_destroy group_id hb)"
| "hb_callback StartReplaceMember hb = (Void, hb)"
| "hb_callback CompleteReplaceMember hb = (Void, hb)"
| "hb_callback CleanReplaceMemberTask hb = (Void, hb)"
| "hb_callback RemoveMember hb = (Void, hb)"
| "hb_callback (Rollback lsn) hb = (Void, hb)"
| "hb_callback Restart hb = (Void, hb)"
| "hb_callback CreateSnapshot hb = (Status (Inr ()), hb)"
| "hb_callback ApplySnapshot hb = (Flag True, hb)"
| "hb_callback LastSnapshot hb = (NoSnapshot, hb)"
| "hb_callback ReadSnapshotObj hb = (Count 0, hb)"
| "hb_callback WriteSnapshotObj hb = (Void, hb)"
| "hb_callback FreeUserSnpCtx hb = (Void, hb)"
| "hb_callback (NoSpaceLeft lsn) hb = (Void, hb)"
| "hb_callback (NotifyCommittedLsn lsn) hb = (Void, hb)"
| "hb_callback (ConfigRollback lsn) hb = (Void, hb)"

interpretation hbl: inert_listener hb_callback
proof
  fix ev and s s' :: "'r homeblks"
  show "snd (hb_callback ev s) = s" "fst (hb_callback ev s) = fst (hb_callback ev s')" by (cases ev; simp add: hb_listener_defs)+
qed (simp add: hb_listener_defs)

section \<open>The replication application\<close>

datatype repl_impl_type = server_side | client_assisted | solo

record hb_repl_app =
  impl_type :: repl_impl_type
  tl_consistency :: bool

definition HBReplApp :: "repl_impl_type \<Rightarrow> bool \<Rightarrow> hb_repl_app" where
  "HBReplApp it consistent = \<lparr>impl_type = it, tl_consistency = consistent\<rparr>"

definition get_impl_type :: "hb_repl_app \<Rightarrow> repl_impl_type" where
  "get_impl_type app = impl_type app"

definition need_timeline_consistency :: "hb_repl_app \<Rightarrow> bool" where
  "need_timeline_consistency app = tl_consistency app"

text \<open>Every group gets a listener of its own, with the same callbacks.\<close>

definition create_repl_dev_listener :: "hb_repl_app \<Rightarrow> volume_id_t \<Rightarrow> repl_event \<Rightarrow> 'r homeblks \<Rightarrow> repl_reply \<times> 'r homeblks" where
  "create_repl_dev_listener app group_id = hb_callback"

definition lookup_peer :: "hb_repl_app \<Rightarrow> peer_id_t \<Rightarrow> (string \<times> u16) checked" where
  "lookup_peer app uuid = Inl ReleaseAssert"

definition get_my_repl_id :: "'r homeblks \<Rightarrow> peer_id_t" where
  "get_my_repl_id hb = our_uuid hb"

definition get_my_repl_svc_port :: "hb_repl_app \<Rightarrow> u32" where
  "get_my_repl_svc_port app = 0"

definition destroy_repl_dev_listener :: "volume_id_t \<Rightarrow> 'r homeblks \<Rightarrow> 'r homeblks" where
  "destroy_repl_dev_listener group_id hb = hb"

text \<open>The application of \<^verbatim>\<open>init_homestore\<close>.\<close>

definition hb_repl_application :: hb_repl_app where
  "hb_repl_application = HBReplApp solo False"

text \<open>Fault containment is off in the builds that simulate crashes, else a setting decides.\<close>

definition fc_on :: "bool \<Rightarrow> bool \<Rightarrow> bool" where
  "fc_on prerelease fault_containment_on = (if prerelease then False else fault_containment_on)"

text \<open>\<^verbatim>\<open>s_instance_\<close>, the published instance, is dropped.\<close>

definition reset_instance :: "'r homeblks option \<Rightarrow> 'r homeblks option" where
  "reset_instance s_instance = (if s_instance \<noteq> None then None else s_instance)"

definition init_flag :: "u32 \<Rightarrow> homeblks_sb_t \<Rightarrow> homeblks_sb_t" where
  "init_flag f sb = sb\<lparr>hsb_flag := f\<rparr>"

section \<open>Volumes\<close>

text \<open>The factories: a volume whose initialisation fails is not handed out.\<close>

definition make_volume_recovery :: "vol_sb_t \<Rightarrow> storage \<Rightarrow> (volume option \<times> storage) checked" where
  "make_volume_recovery sb st =
     bind_sum (volume_init_recovery (volume_of_sb sb, st)) (\<lambda>(ok, v, st'). Inr (if ok then Some v else None, st'))"

definition make_volume_new :: "sb_api \<Rightarrow> create_env \<Rightarrow> handle \<Rightarrow> volume_info \<Rightarrow> storage \<Rightarrow> (volume option \<times> storage) checked" where
  "make_volume_new sa env h info st =
     bind_sum (volume_init_new sa env h (volume_of_info info, st)) (\<lambda>(ok, v, st'). Inr (if ok then Some v else None, st'))"

lemma create_make_factory:
  "create_make sa env info hb =
     bind_sum (make_volume_new sa env (next_obj hb) info (hs hb)) (\<lambda>(vol_ptr, st).
       case vol_ptr of
         Some v \<Rightarrow> Inr (Inr (next_obj hb), dec_ref (hb\<lparr>hs := st, objs := (objs hb)(next_obj hb \<mapsto> v), next_obj := next_obj hb + 1, vol_map := map_emplace (vi_id info) (next_obj hb) (vol_map hb)\<rparr>))
       | None \<Rightarrow> Inr (Inl (VolErr INTERNAL_ERROR), dec_ref (hb\<lparr>hs := st\<rparr>)))"
  by (cases "volume_init_new sa env (next_obj hb) (volume_of_info info, hs hb)") (auto simp: create_make_def make_volume_new_def Let_def)

lemma recovery_uses_factory:
  "(\<exists>f. make_volume_recovery sb ((hs hb)\<lparr>vol_meta := (vol_meta (hs hb))(next_obj hb \<mapsto> sb)\<rparr>) = Inl f) \<or>
   (\<exists>st. make_volume_recovery sb ((hs hb)\<lparr>vol_meta := (vol_meta (hs hb))(next_obj hb \<mapsto> sb)\<rparr>) = Inr (None, st)) \<Longrightarrow> \<exists>f. on_vol_meta_blk_found rs sb hb = Inl f"
  by (cases "volume_init_recovery (volume_of_sb sb, (hs hb)\<lparr>vol_meta := (vol_meta (hs hb))(next_obj hb \<mapsto> sb)\<rparr>)")
    (auto simp: make_volume_recovery_def on_vol_meta_blk_found_def Let_def split: if_splits)

text \<open>
  \<^verbatim>\<open>VolumeIndexTable::destroy\<close>, of both builds: the table is taken out of the index service and then destroyed.
\<close>

definition index_table_destroy :: "index_sb \<Rightarrow> storage \<Rightarrow> storage" where
  "index_table_destroy tbl st = st\<lparr>index_tables := removeAll tbl (index_tables st)\<rparr>"

lemma destroy_index_table:
  "indx_tbl v = Some tbl \<Longrightarrow> destroy_index (v, st) =
     bind_sum (release_chunks (vi_ordinal (vol_info v)) (index_chunk_selector (index_table_destroy tbl st))) (\<lambda>sel.
       Inr (v\<lparr>indx_tbl := None\<rparr>, (index_table_destroy tbl st)\<lparr>index_chunk_selector := sel\<rparr>))"
  by (simp add: destroy_index_def index_table_destroy_def Let_def)

text \<open>The guard of an I/O: the request counts while the body runs.\<close>

definition vol_io_guard :: "(volume \<Rightarrow> volume \<times> 'a) \<Rightarrow> volume \<Rightarrow> volume \<times> 'a" where
  "vol_io_guard body v = (let (v1, r) = body (vol_inc_ref v) in (vol_dec_ref v1, r))"

text \<open>A body that leaves the counter as it finds it leaves no trace of the request.\<close>

lemma vol_io_guard_balanced:
  "vol_outstanding (fst (body (vol_inc_ref v))) = vol_outstanding (vol_inc_ref v) \<Longrightarrow> vol_outstanding (fst (vol_io_guard body v)) = vol_outstanding v"
  by (simp add: vol_io_guard_def case_prod_beta' Let_def vol_dec_ref_def vol_inc_ref_def)

text \<open>A simulated delay, in pre-release builds: the counter goes up now and down when the delay is over; the answer says whether there is a delay.\<close>

definition delay_fake_io :: "bool \<Rightarrow> volume \<Rightarrow> bool \<times> volume" where
  "delay_fake_io flip v = (if flip then (True, vol_inc_ref v) else (False, v))"

definition delay_fake_io_done :: "volume \<Rightarrow> volume" where
  "delay_fake_io_done v = vol_dec_ref v"

section \<open>The context of a journal write\<close>

text \<open>The header, of \<open>sizeof_hdr\<close> bytes, is at the start of its buffer; an extension follows it. Both buffers are zeroed.\<close>

record vol_repl_ctx =
  sizeof_hdr :: nat
  hdr_buf :: "u8 list"
  key_buf :: "u8 list"

definition make_vol_repl_ctx :: "nat \<Rightarrow> nat \<Rightarrow> nat \<Rightarrow> vol_repl_ctx" where
  "make_vol_repl_ctx sz hdr_extn_size key_size =
     \<lparr>sizeof_hdr = sz, hdr_buf = replicate (sz + hdr_extn_size) 0, key_buf = (if key_size \<noteq> 0 then replicate key_size 0 else [])\<rparr>"

definition ctx_header :: "vol_repl_ctx \<Rightarrow> u8 list" where
  "ctx_header ctx = take (sizeof_hdr ctx) (hdr_buf ctx)"

definition ctx_header_extn :: "vol_repl_ctx \<Rightarrow> u8 list" where
  "ctx_header_extn ctx = drop (sizeof_hdr ctx) (hdr_buf ctx)"

lemma ctx_sizes:
  "length (ctx_header (make_vol_repl_ctx sz n k)) = sz" "length (ctx_header_extn (make_vol_repl_ctx sz n k)) = n" "length (key_buf (make_vol_repl_ctx sz n k)) = k"
  by (simp_all add: make_vol_repl_ctx_def ctx_header_def ctx_header_extn_def)

section \<open>Starting coroutines\<close>

text \<open>A coroutine that has run: it returns, throws, or was stopped.\<close>

datatype 'a outcome = Done 'a | Threw | Stopped

text \<open>\<^verbatim>\<open>sync_wait\<close> rethrows; for a stopped coroutine it is an empty optional, whose \<^verbatim>\<open>value\<close> throws.\<close>

definition sync_get :: "'a outcome \<Rightarrow> 'a checked" where
  "sync_get t = (case t of Done x \<Rightarrow> Inr x | Threw \<Rightarrow> Inl UncaughtException | Stopped \<Rightarrow> Inl UncaughtException)"

text \<open>The wrapper catches every exception, so that nothing reaches the caller.\<close>

definition detach :: "'a outcome \<Rightarrow> unit checked" where
  "detach t = (case t of Done x \<Rightarrow> Inr () | Threw \<Rightarrow> Inr () | Stopped \<Rightarrow> Inr ())"

section \<open>Text forms of the public interface\<close>

text \<open>Two descriptions are the same volume when their ids are equal, but they are ordered by the hashes of the ids, a parameter.\<close>

definition volume_info_compare :: "(volume_id_t \<Rightarrow> u64) \<Rightarrow> volume_info \<Rightarrow> volume_info \<Rightarrow> int" where
  "volume_info_compare hash a b = (if hash (vi_id a) < hash (vi_id b) then - 1 else if hash (vi_id b) < hash (vi_id a) then 1 else 0)"

definition volume_info_eq :: "volume_info \<Rightarrow> volume_info \<Rightarrow> bool" where
  "volume_info_eq a b \<longleftrightarrow> vi_id a = vi_id b"

fun replication_mode_name :: "replication_mode \<Rightarrow> string" where
  "replication_mode_name REPL_DISABLED = ''DISABLED''"
| "replication_mode_name REPL_CRAFT = ''CRAFT''"

definition volume_info_to_string :: "(volume_id_t \<Rightarrow> string) \<Rightarrow> volume_info \<Rightarrow> string" where
  "volume_info_to_string uuid_to_string info =
     ''volume_info: id='' @ uuid_to_string (vi_id info) @ '' size_bytes='' @ show_nat (unat (vi_size_bytes info)) @ '', page_size='' @ show_nat (unat (vi_page_size info)) @
     '', name='' @ vi_name info @ '' ordinal='' @ show_nat (vi_ordinal info) @ '' repl_mode='' @ replication_mode_name (vi_repl_mode info)"

definition home_blocks_stats_to_string :: "home_blocks_stats \<Rightarrow> string" where
  "home_blocks_stats_to_string st =
     ''total_capacity_bytes='' @ show_nat (unat (total_capacity_bytes st)) @ '', used_capacity_bytes='' @ show_nat (unat (used_capacity_bytes st))"

text \<open>\<^verbatim>\<open>std::getline\<close>: up to the delimiter, which is taken out of the stream, or to the end; nothing at all fails.\<close>

definition getline :: "char \<Rightarrow> istream \<Rightarrow> string \<times> istream" where
  "getline delim is =
     (if is_fail is then ([], is)
      else if is_rest is = [] then ([], is\<lparr>is_fail := True\<rparr>)
      else (takeWhile (\<lambda>c. c \<noteq> delim) (is_rest is), \<lparr>is_rest = tl (dropWhile (\<lambda>c. c \<noteq> delim) (is_rest is)), is_fail = False\<rparr>))"

text \<open>A device on the command line, \<^verbatim>\<open>path:type\<close>; \<open>canonical\<close> makes a path absolute. An unknown type is detected.\<close>

definition device_info_read :: "(string \<Rightarrow> string) \<Rightarrow> istream \<Rightarrow> (string \<times> dev_type) \<times> istream" where
  "device_info_read canonical is =
     (let (i_path, is1) = getline (CHR '':'') is; (i_type, is2) = getline (CHR 0x0A) is1
      in ((canonical i_path, if i_type = ''HDD'' then HDD else if i_type = ''NVME'' then NVME else AUTO_DETECT), is2))"

definition device_info_eq :: "string \<times> dev_type \<Rightarrow> string \<times> dev_type \<Rightarrow> bool" where
  "device_info_eq a b \<longleftrightarrow> fst a = fst b \<and> snd a = snd b"

lemma takeWhile_delim: "x \<notin> set a \<Longrightarrow> takeWhile (\<lambda>c. c \<noteq> x) (a @ x # b) = a" "x \<notin> set a \<Longrightarrow> dropWhile (\<lambda>c. c \<noteq> x) (a @ x # b) = x # b"
  by (induction a) auto

text \<open>The types that can be given are read as given, and so is a path without a type.\<close>

lemma device_info_types:
  assumes "CHR '':'' \<notin> set path"
  shows "device_info_read canonical \<lparr>is_rest = path @ '':HDD'', is_fail = False\<rparr> = ((canonical path, HDD), \<lparr>is_rest = [], is_fail = False\<rparr>)"
    "device_info_read canonical \<lparr>is_rest = path @ '':NVME'', is_fail = False\<rparr> = ((canonical path, NVME), \<lparr>is_rest = [], is_fail = False\<rparr>)"
    "fst (device_info_read canonical \<lparr>is_rest = path, is_fail = False\<rparr>) = (canonical path, AUTO_DETECT)"
proof -
  have t: "takeWhile (\<lambda>c. c \<noteq> CHR '':'') path = path" "dropWhile (\<lambda>c. c \<noteq> CHR '':'') path = []" using assms by (auto simp: takeWhile_eq_all_conv dropWhile_eq_Nil_conv)
  show "fst (device_info_read canonical \<lparr>is_rest = path, is_fail = False\<rparr>) = (canonical path, AUTO_DETECT)"
    by (simp add: device_info_read_def getline_def t)
qed (simp_all add: device_info_read_def getline_def takeWhile_delim [OF assms])

end
