(* ===== verification/Craft_Journal.thy ===== *)
theory Craft_Journal
  imports HB_Types
begin

text \<open>
  The journal of a CRAFT replica (src/lib/craft/craft_repl_dev.hpp and .cpp): the interface
  \<^verbatim>\<open>CraftJournalBackend\<close> as a record of operations on the state of a backend, the contract every backend has to keep
  as a locale, the on-disk format of a slot, and the backend that writes it to a log store of the storage layer.
\<close>

section \<open>The backend interface\<close>

record journal_slot =
  js_lsn :: int
  js_is_empty :: bool
  js_all_zeros :: bool
  js_lba_off_bytes :: u64
  js_len_bytes :: u32
  js_data :: sg_list

text \<open>What a slot records of a write.\<close>

record 'b slot_entry =
  se_term :: u64
  se_lba :: u64
  se_len :: u32
  se_blkid :: 'b
  se_zeros :: bool

text \<open>
  The virtual functions of \<^verbatim>\<open>CraftJournalBackend\<close>. Each returns its result and the new state of the
  backend. \<^verbatim>\<open>write_slot\<close> suspends until the log store reports completion, which may never happen: then the
  result is \<^term>\<open>None\<close>. \<^verbatim>\<open>multi_blk_id{}\<close> is \<open>no_blkid\<close>.
\<close>

record ('b, 'j) journal_backend =
  alloc_write_data :: "sg_list \<Rightarrow> u32 \<Rightarrow> 'j \<Rightarrow> 'b res \<times> 'j"
  write_slot :: "int \<Rightarrow> 'b slot_entry \<Rightarrow> 'j \<Rightarrow> unit res option \<times> 'j"
  read_slot :: "int \<Rightarrow> 'j \<Rightarrow> journal_slot res \<times> 'j"
  truncate_to :: "int \<Rightarrow> 'j \<Rightarrow> unit res \<times> 'j"
  free_data :: "'b \<Rightarrow> 'j \<Rightarrow> unit res \<times> 'j"
  no_blkid :: 'b

text \<open>
  The contract: a view \<open>slots\<close> of the durable entries, written by a successful \<^verbatim>\<open>write_slot\<close> at one place,
  cut by \<^verbatim>\<open>truncate_to\<close> above the given sequence number, and left alone by everything else. A \<^verbatim>\<open>write_slot\<close> that
  never completes may or may not have written its entry.
\<close>

locale craft_journal_backend =
  fixes ops :: "('b, 'j) journal_backend"
    and invar :: "'j \<Rightarrow> bool"
    and present :: "'j \<Rightarrow> int \<Rightarrow> bool"
    and slot_is :: "'j \<Rightarrow> int \<Rightarrow> 'b slot_entry \<Rightarrow> bool"
  assumes alloc_keeps: "invar j \<Longrightarrow> alloc_write_data ops sg n j = (r, j') \<Longrightarrow>
      invar j' \<and> present j' = present j \<and> slot_is j' = slot_is j"
    and free_keeps: "invar j \<Longrightarrow> free_data ops b j = (rf, j') \<Longrightarrow>
      invar j' \<and> present j' = present j \<and> slot_is j' = slot_is j"
    and read_keeps: "invar j \<Longrightarrow> read_slot ops lsn j = (rr, j') \<Longrightarrow>
      invar j' \<and> present j' = present j \<and> slot_is j' = slot_is j"
    and write_ok: "invar j \<Longrightarrow> write_slot ops lsn e j = (Some (Inr u), j') \<Longrightarrow>
      invar j' \<and> present j' = (present j)(lsn := True) \<and> slot_is j' lsn e \<and>
      (\<forall>l. l \<noteq> lsn \<longrightarrow> slot_is j' l = slot_is j l)"
    and write_rejected: "invar j \<Longrightarrow> write_slot ops lsn e j = (Some (Inl err), j') \<Longrightarrow>
      invar j' \<and> present j' = present j \<and> slot_is j' = slot_is j"
    and write_lost: "invar j \<Longrightarrow> write_slot ops lsn e j = (None, j') \<Longrightarrow>
      invar j' \<and> (\<forall>l. present j l \<longrightarrow> present j' l) \<and> (\<forall>l. l \<noteq> lsn \<longrightarrow> present j' l = present j l \<and> slot_is j' l = slot_is j l)"
    and truncate_ok: "invar j \<Longrightarrow> truncate_to ops lsn j = (Inr u, j') \<Longrightarrow>
      invar j' \<and> present j' = (\<lambda>l. l \<le> lsn \<and> present j l) \<and> (\<forall>l \<le> lsn. slot_is j' l = slot_is j l)"
    and truncate_fails: "invar j \<Longrightarrow> truncate_to ops lsn j = (Inl err, j') \<Longrightarrow>
      invar j' \<and> present j' = present j \<and> slot_is j' = slot_is j"
    and slot_present: "slot_is j lsn e \<Longrightarrow> present j lsn"

section \<open>The on-disk entry\<close>

definition k_journal_magic :: u32 where
  "k_journal_magic = 0xC4AF5AFE"

definition k_journal_version :: u8 where
  "k_journal_version = 1"

record CraftJournalEntry =
  je_magic :: u32
  je_version :: u8
  je_term :: u64
  je_lsn :: int
  je_lba :: u64
  je_len :: u32
  je_all_zeros :: u8

text \<open>The packed image of the header: 34 bytes, in the order of the fields.\<close>

definition entry_bytes :: "CraftJournalEntry \<Rightarrow> u8 list" where
  "entry_bytes e =
     le_bytes 4 (unat (je_magic e)) @ [je_version e] @ le_bytes 8 (unat (je_term e)) @
     le_bytes 8 (nat (je_lsn e mod 2 ^ 64)) @ le_bytes 8 (unat (je_lba e)) @ le_bytes 4 (unat (je_len e)) @
     [je_all_zeros e]"

definition slot_header :: "int \<Rightarrow> 'b slot_entry \<Rightarrow> CraftJournalEntry" where
  "slot_header lsn e = \<lparr>je_magic = k_journal_magic, je_version = k_journal_version, je_term = se_term e, je_lsn = lsn,
     je_lba = se_lba e, je_len = se_len e, je_all_zeros = (if se_zeros e then 1 else 0)\<rparr>"

definition slot_blob :: "('b \<Rightarrow> u8 list) \<Rightarrow> int \<Rightarrow> 'b slot_entry \<Rightarrow> u8 list" where
  "slot_blob serialize lsn e = entry_bytes (slot_header lsn e) @ serialize (se_blkid e)"

section \<open>The HomeStore backend\<close>

text \<open>
  The storage layer below the backend is an object of its own: its operations, the bytes its log store
  holds, and its state. \<open>ls_write_async\<close> returns the value of the call and whether the completion callback
  fires. \<open>ls_records\<close> is the contents of the log store and \<open>ds_blocks\<close> that of the allocated blocks; the code never reads either.
\<close>

record ('b, 'h) storage =
  ds_alloc_write :: "sg_list \<Rightarrow> u64 \<Rightarrow> 'h \<Rightarrow> (errc + 'b) \<times> 'h"
  ds_free_blk :: "'b \<Rightarrow> 'h \<Rightarrow> (errc + unit) \<times> 'h"
  ls_write_async :: "int \<Rightarrow> u8 list \<Rightarrow> 'h \<Rightarrow> (int \<times> bool) \<times> 'h"
  ls_rollback :: "int \<Rightarrow> 'h \<Rightarrow> bool \<times> 'h"
  ls_records :: "'h \<Rightarrow> int \<Rightarrow> u8 list option"
  ds_blocks :: "'h \<Rightarrow> 'b \<Rightarrow> u8 list list option"
  blkid_serialize :: "'b \<Rightarrow> u8 list"

text \<open>
  What the backend relies on: the documented behaviour of the data service and of the log store. A successful allocation writes the given buffers to blocks that were free; a record
  whose write was rejected is not in the log, and one whose completion was reported is.
\<close>

definition data_service_ok :: "('b, 'h) storage \<Rightarrow> bool" where
  "data_service_ok st \<longleftrightarrow>
     (\<forall>sg hint h r h'. ds_alloc_write st sg hint h = (r, h') \<longrightarrow> ls_records st h' = ls_records st h) \<and>
     (\<forall>sg hint h b h'. ds_alloc_write st sg hint h = (Inr b, h') \<longrightarrow>
        ds_blocks st h b = None \<and> ds_blocks st h' = (ds_blocks st h)(b \<mapsto> iovs sg)) \<and>
     (\<forall>b h r h'. ds_free_blk st b h = (r, h') \<longrightarrow> ls_records st h' = ls_records st h) \<and>
     (\<forall>b h u h'. ds_free_blk st b h = (Inr u, h') \<longrightarrow> ds_blocks st h' = (ds_blocks st h)(b := None))"

definition log_store_ok :: "('b, 'h) storage \<Rightarrow> bool" where
  "log_store_ok st \<longleftrightarrow>
     (\<forall>lsn blob h ret fires h'. ls_write_async st lsn blob h = ((ret, fires), h') \<longrightarrow>
        (if ret < 0 then ls_records st h' = ls_records st h
         else if fires then ls_records st h' = (ls_records st h)(lsn \<mapsto> blob)
         else ls_records st h' = ls_records st h \<or> ls_records st h' = (ls_records st h)(lsn \<mapsto> blob))) \<and>
     (\<forall>lsn blob h r h'. ls_write_async st lsn blob h = (r, h') \<longrightarrow> ds_blocks st h' = ds_blocks st h) \<and>
     (\<forall>lsn h ok h'. ls_rollback st lsn h = (ok, h') \<longrightarrow>
        ls_records st h' = (if ok then (\<lambda>l. if l \<le> lsn then ls_records st h l else None) else ls_records st h))"

definition storage_ok :: "('b, 'h) storage \<Rightarrow> bool" where
  "storage_ok st \<longleftrightarrow> data_service_ok st \<and> log_store_ok st"

lemmas storage_defs = storage_ok_def data_service_ok_def log_store_ok_def

record ('b, 'h) hs_backend =
  hb_storage :: "('b, 'h) storage"
  hb_state :: 'h
  hb_ordinal :: u64

definition hs_alloc_write_data :: "sg_list \<Rightarrow> u32 \<Rightarrow> ('b, 'h) hs_backend \<Rightarrow> 'b res \<times> ('b, 'h) hs_backend" where
  "hs_alloc_write_data sg len j =
     (let (r, h) = ds_alloc_write (hb_storage j) sg (hb_ordinal j) (hb_state j) in
      (case r of Inl _ \<Rightarrow> Inl (VolErr INTERNAL_ERROR) | Inr blkid \<Rightarrow> Inr blkid, j\<lparr>hb_state := h\<rparr>))"

definition hs_write_slot :: "int \<Rightarrow> 'b slot_entry \<Rightarrow> ('b, 'h) hs_backend \<Rightarrow> unit res option \<times> ('b, 'h) hs_backend" where
  "hs_write_slot lsn e j =
     (let ((write_ret, fires), h) = ls_write_async (hb_storage j) lsn (slot_blob (blkid_serialize (hb_storage j)) lsn e) (hb_state j) in
      (if write_ret < 0 then Some (Inl (Errc operation_not_supported))
       else if fires then Some (Inr ()) else None, j\<lparr>hb_state := h\<rparr>))"

definition hs_read_slot :: "int \<Rightarrow> ('b, 'h) hs_backend \<Rightarrow> journal_slot res \<times> ('b, 'h) hs_backend" where
  "hs_read_slot lsn j = (Inl (Errc not_supported), j)"

definition hs_truncate_to :: "int \<Rightarrow> ('b, 'h) hs_backend \<Rightarrow> unit res \<times> ('b, 'h) hs_backend" where
  "hs_truncate_to lsn j =
     (let (ok, h) = ls_rollback (hb_storage j) lsn (hb_state j) in
      (if ok then Inr () else Inl (Errc io_error), j\<lparr>hb_state := h\<rparr>))"

definition hs_free_data :: "'b \<Rightarrow> ('b, 'h) hs_backend \<Rightarrow> unit res \<times> ('b, 'h) hs_backend" where
  "hs_free_data blkid j =
     (let (r, h) = ds_free_blk (hb_storage j) blkid (hb_state j) in
      (case r of Inl _ \<Rightarrow> Inl (VolErr INTERNAL_ERROR) | Inr _ \<Rightarrow> Inr (), j\<lparr>hb_state := h\<rparr>))"

text \<open>
  The virtual table of the backend. \<open>no_blkid\<close> is the value of the storage layer's default constructor.
\<close>

definition make_homestore_journal_backend :: "'b \<Rightarrow> ('b, ('b, 'h) hs_backend) journal_backend" where
  "make_homestore_journal_backend default_blkid =
     \<lparr>alloc_write_data = hs_alloc_write_data, write_slot = hs_write_slot, read_slot = hs_read_slot,
      truncate_to = hs_truncate_to, free_data = hs_free_data, no_blkid = default_blkid\<rparr>"

lemmas hs_backend_defs = hs_alloc_write_data_def hs_write_slot_def hs_read_slot_def hs_truncate_to_def
  hs_free_data_def make_homestore_journal_backend_def

section \<open>The HomeStore backend keeps the contract\<close>

definition hs_invar :: "('b, 'h) hs_backend \<Rightarrow> bool" where
  "hs_invar j \<longleftrightarrow> storage_ok (hb_storage j)"

definition hs_present :: "('b, 'h) hs_backend \<Rightarrow> int \<Rightarrow> bool" where
  "hs_present j lsn \<longleftrightarrow> ls_records (hb_storage j) (hb_state j) lsn \<noteq> None"

definition hs_slot_is :: "('b, 'h) hs_backend \<Rightarrow> int \<Rightarrow> 'b slot_entry \<Rightarrow> bool" where
  "hs_slot_is j lsn e \<longleftrightarrow>
     ls_records (hb_storage j) (hb_state j) lsn = Some (slot_blob (blkid_serialize (hb_storage j)) lsn e)"

definition hs_record :: "('b, 'h) hs_backend \<Rightarrow> int \<Rightarrow> u8 list option" where
  "hs_record j = ls_records (hb_storage j) (hb_state j)"

definition hs_block :: "('b, 'h) hs_backend \<Rightarrow> 'b \<Rightarrow> u8 list list option" where
  "hs_block j = ds_blocks (hb_storage j) (hb_state j)"

lemmas hs_view_defs = hs_invar_def hs_present_def hs_slot_is_def

lemma hs_log_keeps:
  "hs_invar j \<Longrightarrow> ls_records (hb_storage j) h = ls_records (hb_storage j) (hb_state j) \<Longrightarrow>
     hs_invar (j\<lparr>hb_state := h\<rparr>) \<and> hs_present (j\<lparr>hb_state := h\<rparr>) = hs_present j \<and> hs_slot_is (j\<lparr>hb_state := h\<rparr>) = hs_slot_is j"
  by (auto simp: hs_view_defs fun_eq_iff)

lemma storage_alloc: "storage_ok st \<Longrightarrow> ds_alloc_write st sg hint h = (r, h') \<Longrightarrow> ls_records st h' = ls_records st h"
  unfolding storage_ok_def data_service_ok_def by blast

lemma storage_alloc_blocks:
  "storage_ok st \<Longrightarrow> ds_alloc_write st sg hint h = (Inr b, h') \<Longrightarrow> ds_blocks st h' = (ds_blocks st h)(b \<mapsto> iovs sg)"
  unfolding storage_ok_def data_service_ok_def by blast

lemma storage_log_blocks: "storage_ok st \<Longrightarrow> ls_write_async st lsn blob h = (r, h') \<Longrightarrow> ds_blocks st h' = ds_blocks st h"
  unfolding storage_ok_def log_store_ok_def by blast

lemma storage_free: "storage_ok st \<Longrightarrow> ds_free_blk st b h = (rf, h') \<Longrightarrow> ls_records st h' = ls_records st h"
  unfolding storage_ok_def data_service_ok_def by blast

lemma storage_free_blocks:
  "storage_ok st \<Longrightarrow> ds_free_blk st b h = (Inr u, h') \<Longrightarrow> ds_blocks st h' = (ds_blocks st h)(b := None)"
  unfolding storage_ok_def data_service_ok_def by blast

lemma storage_write:
  "storage_ok st \<Longrightarrow> ls_write_async st lsn blob h = ((ret, fires), h') \<Longrightarrow>
     (if ret < 0 then ls_records st h' = ls_records st h
      else if fires then ls_records st h' = (ls_records st h)(lsn \<mapsto> blob)
      else ls_records st h' = ls_records st h \<or> ls_records st h' = (ls_records st h)(lsn \<mapsto> blob))"
  unfolding storage_ok_def log_store_ok_def by blast

lemma storage_rollback:
  "storage_ok st \<Longrightarrow> ls_rollback st lsn h = (ok, h') \<Longrightarrow>
     ls_records st h' = (if ok then (\<lambda>l. if l \<le> lsn then ls_records st h l else None) else ls_records st h)"
  unfolding storage_ok_def log_store_ok_def by blast

lemma hs_write_slot_cases:
  assumes "hs_invar j" "hs_write_slot lsn e j = (r, j')"
  shows "\<exists>h. j' = j\<lparr>hb_state := h\<rparr> \<and>
    (let old = ls_records (hb_storage j) (hb_state j); new = ls_records (hb_storage j) h;
         upd = old(lsn \<mapsto> slot_blob (blkid_serialize (hb_storage j)) lsn e)
     in case r of None \<Rightarrow> new = old \<or> new = upd | Some (Inl err) \<Rightarrow> new = old | Some (Inr u) \<Rightarrow> new = upd)"
proof -
  have ok: "storage_ok (hb_storage j)" using assms(1) by (simp add: hs_invar_def)
  obtain ret fires h where eq: "ls_write_async (hb_storage j) lsn (slot_blob (blkid_serialize (hb_storage j)) lsn e) (hb_state j)
      = ((ret, fires), h)" by (metis surj_pair)
  show ?thesis using assms(2) storage_write [OF ok eq] eq
    by (intro exI [of _ h]) (auto simp: hs_write_slot_def Let_def)
qed

interpretation hs: craft_journal_backend "make_homestore_journal_backend b0" "hs_invar :: ('b, 'h) hs_backend \<Rightarrow> bool"
  hs_present hs_slot_is for b0 :: 'b
proof
  fix j :: "('b, 'h) hs_backend" and j' sg n r lsn e err u b rf rr
  assume inv: "hs_invar j"
  then have ok: "storage_ok (hb_storage j)" by (simp add: hs_invar_def)
  note d = hs_backend_defs Let_def
  show "hs_invar j' \<and> hs_present j' = hs_present j \<and> hs_slot_is j' = hs_slot_is j"
    if "alloc_write_data (make_homestore_journal_backend b0) sg n j = (r, j')"
    using that hs_log_keeps [OF inv storage_alloc [OF ok]] by (auto simp: d split: prod.splits)
  show "hs_invar j' \<and> hs_present j' = hs_present j \<and> hs_slot_is j' = hs_slot_is j"
    if "free_data (make_homestore_journal_backend b0) b j = (rf, j')"
    using that hs_log_keeps [OF inv storage_free [OF ok]] by (auto simp: d split: prod.splits)
  show "hs_invar j' \<and> hs_present j' = hs_present j \<and> hs_slot_is j' = hs_slot_is j"
    if "read_slot (make_homestore_journal_backend b0) lsn j = (rr, j')"
    using that inv by (auto simp: d)
  show "hs_invar j' \<and> hs_present j' = hs_present j \<and> hs_slot_is j' = hs_slot_is j"
    if "truncate_to (make_homestore_journal_backend b0) lsn j = (Inl err, j')"
    using that hs_log_keeps [OF inv] storage_rollback [OF ok] by (auto simp: d split: prod.splits if_splits)
  show "hs_invar j' \<and> hs_present j' = (\<lambda>l. l \<le> lsn \<and> hs_present j l) \<and> (\<forall>l\<le>lsn. hs_slot_is j' l = hs_slot_is j l)"
    if "truncate_to (make_homestore_journal_backend b0) lsn j = (Inr u, j')"
    using that inv storage_rollback [OF ok] by (auto simp: d hs_view_defs fun_eq_iff split: prod.splits if_splits)
  show "hs_invar j' \<and> hs_present j' = hs_present j \<and> hs_slot_is j' = hs_slot_is j"
    if "write_slot (make_homestore_journal_backend b0) lsn e j = (Some (Inl err), j')"
    using hs_write_slot_cases [OF inv, of lsn e "Some (Inl err)" j'] that hs_log_keeps [OF inv]
    by (auto simp: make_homestore_journal_backend_def)
  show "hs_invar j' \<and> hs_present j' = (hs_present j)(lsn := True) \<and> hs_slot_is j' lsn e \<and>
      (\<forall>l. l \<noteq> lsn \<longrightarrow> hs_slot_is j' l = hs_slot_is j l)"
    if "write_slot (make_homestore_journal_backend b0) lsn e j = (Some (Inr u), j')"
    using hs_write_slot_cases [OF inv, of lsn e "Some (Inr u)" j'] that inv
    by (auto simp: make_homestore_journal_backend_def hs_view_defs fun_eq_iff Let_def)
  show "hs_invar j' \<and> (\<forall>l. hs_present j l \<longrightarrow> hs_present j' l) \<and>
      (\<forall>l. l \<noteq> lsn \<longrightarrow> hs_present j' l = hs_present j l \<and> hs_slot_is j' l = hs_slot_is j l)"
    if "write_slot (make_homestore_journal_backend b0) lsn e j = (None, j')"
    using hs_write_slot_cases [OF inv, of lsn e None j'] that inv
    by (auto simp: make_homestore_journal_backend_def hs_view_defs fun_eq_iff Let_def)
next
  show "hs_present j lsn" if "hs_slot_is j lsn e" for j :: "('b, 'h) hs_backend" and lsn e
    using that by (simp add: hs_view_defs)
qed

end
