(* ===== verification/Craft_Repl_Dev.thy ===== *)
theory Craft_Repl_Dev
  imports Craft_Journal
begin

text \<open>
  The replica device of a CRAFT volume (\<^verbatim>\<open>CraftReplDev\<close>, src/lib/craft/craft_repl_dev.hpp and .cpp). A write
  suspends twice, while its data is written and while its journal slot is; the code between two suspensions is one
  function each, so that the writes of several clients can be interleaved at exactly these points.
  Log sequence numbers are \<open>int\<close>; every signed operation the code does on them is checked for overflow.
\<close>

section \<open>State\<close>

record client_hdr =
  hdr_term :: u64
  hdr_commit_lsn :: int
  hdr_all_committed_lsn :: int

record lsn_pair =
  lp_commit_lsn :: int
  lp_last_append_lsn :: int

record craft_state =
  commit_lsn :: int
  last_append_lsn :: int
  client_token :: u64
  session_term :: u64
  missing_lsns :: "int set"
  empty_lsns :: "int set"

definition CraftReplDev :: craft_state where
  "CraftReplDev = \<lparr>commit_lsn = -1, last_append_lsn = -1, client_token = 0, session_term = 0, missing_lsns = {}, empty_lsns = {}\<rparr>"

definition k_max_ooo_gap :: int where
  "k_max_ooo_gap = 1000000"

definition k_max_missing_lsns :: nat where
  "k_max_missing_lsns = 2000000"

section \<open>Observers\<close>

definition get_lsns :: "craft_state \<Rightarrow> lsn_pair" where
  "get_lsns d = \<lparr>lp_commit_lsn = commit_lsn d, lp_last_append_lsn = last_append_lsn d\<rparr>"

definition get_rs_commit_lsn :: "craft_state \<Rightarrow> lsn_pair" where
  "get_rs_commit_lsn d = \<lparr>lp_commit_lsn = commit_lsn d, lp_last_append_lsn = last_append_lsn d\<rparr>"

definition missing_count :: "craft_state \<Rightarrow> nat" where
  "missing_count d = card (missing_lsns d)"

definition is_missing :: "int \<Rightarrow> craft_state \<Rightarrow> bool" where
  "is_missing lsn d \<longleftrightarrow> lsn \<in> missing_lsns d"

definition is_empty_slot :: "int \<Rightarrow> craft_state \<Rightarrow> bool" where
  "is_empty_slot lsn d \<longleftrightarrow> lsn \<in> empty_lsns d"

section \<open>Truncation\<close>

definition truncate_state :: "int \<Rightarrow> craft_state \<Rightarrow> craft_state" where
  "truncate_state lsn d =
     d\<lparr>last_append_lsn := (if lsn < last_append_lsn d then lsn else last_append_lsn d),
       missing_lsns := Set.filter (\<lambda>l. l \<le> lsn) (missing_lsns d)\<rparr>"

definition craft_truncate :: "('b, 'j) journal_backend \<Rightarrow> int \<Rightarrow> craft_state \<Rightarrow> 'j \<Rightarrow> unit res \<times> craft_state \<times> 'j" where
  "craft_truncate ops lsn d j =
     (case truncate_to ops lsn j of
        (Inl e, j') \<Rightarrow> (Inl e, d, j')
      | (Inr _, j') \<Rightarrow> (Inr (), truncate_state lsn d, j'))"

section \<open>Seeding, in pre-release builds\<close>

definition seed_lsns :: "int \<Rightarrow> int set \<Rightarrow> craft_state \<Rightarrow> craft_state" where
  "seed_lsns last_append missing d = d\<lparr>last_append_lsn := last_append, missing_lsns := missing\<rparr>"

definition seed_commit_lsn :: "int \<Rightarrow> craft_state \<Rightarrow> craft_state" where
  "seed_commit_lsn commit d = d\<lparr>commit_lsn := commit\<rparr>"

definition seed_term :: "u64 \<Rightarrow> craft_state \<Rightarrow> craft_state" where
  "seed_term t d = d\<lparr>session_term := t\<rparr>"

definition seed_empty :: "int set \<Rightarrow> craft_state \<Rightarrow> craft_state" where
  "seed_empty empties d = d\<lparr>empty_lsns := empties, missing_lsns := missing_lsns d - empties\<rparr>"

section \<open>Writing\<close>

text \<open>The loop over the gap between the last appended number and the new one.\<close>

function gap_loop :: "int \<Rightarrow> int \<Rightarrow> int set \<Rightarrow> int set \<Rightarrow> int set" where
  "gap_loop gap dlsn empties missing =
     (if gap < dlsn
      then gap_loop (gap + 1) dlsn empties (if gap \<in> empties then missing else insert gap missing)
      else missing)"
  by pat_completeness auto
termination by (relation "measure (\<lambda>(gap, dlsn, _). nat (dlsn - gap))") auto

declare gap_loop.simps [simp del]

definition note_append :: "int \<Rightarrow> int \<Rightarrow> craft_state \<Rightarrow> craft_state" where
  "note_append next dlsn d =
     (let missing = gap_loop next dlsn (empty_lsns d) (missing_lsns d) in
      d\<lparr>missing_lsns := (if last_append_lsn d < dlsn \<or> dlsn \<in> missing then insert dlsn missing else missing),
        last_append_lsn := max (last_append_lsn d) dlsn\<rparr>)"

text \<open>
  From the entry of \<^verbatim>\<open>write\<close> to its first suspension: a reply, or \<^term>\<open>None\<close> to go on.
\<close>

definition write_preflight ::
  "client_hdr \<Rightarrow> int \<Rightarrow> sg_list \<Rightarrow> bool \<Rightarrow> craft_state \<Rightarrow> (lsn_pair res option \<times> craft_state) checked" where
  "write_preflight hdr dlsn data all_zeros d =
     (if dlsn < 0 then Inr (Some (Inl (Errc invalid_argument)), d)
      else if all_zeros = (0 < sg_size data) then Inr (Some (Inl (Errc invalid_argument)), d)
      else if hdr_term hdr \<noteq> session_term d then Inr (Some (Inl (VolErr STALE_TERM)), d)
      else if dlsn \<in> empty_lsns d then Inr (Some (Inl (VolErr EMPTY_SLOT)), d)
      else if dlsn \<le> last_append_lsn d \<and> dlsn \<notin> missing_lsns d then Inr (Some (Inr (get_lsns d)), d)
      else if INT64_MAX - k_max_ooo_gap < dlsn then Inr (Some (Inl (Errc invalid_argument)), d)
      else bind_sum (i64 (dlsn - last_append_lsn d)) (\<lambda>gap.
        if k_max_ooo_gap < gap then Inr (Some (Inl (Errc value_too_large)), d)
        else bind_sum (i64 (last_append_lsn d + 1)) (\<lambda>next.
          if next < dlsn \<and> k_max_missing_lsns \<le> card (missing_lsns d)
          then Inr (Some (Inl (Errc value_too_large)), d)
          else Inr (None, note_append next dlsn d))))"

definition slot_of_write :: "client_hdr \<Rightarrow> u64 \<Rightarrow> u64 \<Rightarrow> bool \<Rightarrow> 'b \<Rightarrow> 'b slot_entry" where
  "slot_of_write hdr addr len all_zeros blkid =
     \<lparr>se_term = hdr_term hdr, se_lba = addr, se_len = ucast len, se_blkid = blkid, se_zeros = all_zeros\<rparr>"

text \<open>The data is written, unless the write is one of zeros.\<close>

definition write_alloc ::
  "('b, 'j) journal_backend \<Rightarrow> u64 \<Rightarrow> sg_list \<Rightarrow> bool \<Rightarrow> 'j \<Rightarrow> 'b res \<times> 'j" where
  "write_alloc ops len data all_zeros j =
     (if all_zeros then (Inr (no_blkid ops), j) else alloc_write_data ops data (ucast len) j)"

text \<open>The slot is written; if that fails the blocks are given back. \<^term>\<open>None\<close>: it never completes.\<close>

definition write_journal ::
  "('b, 'j) journal_backend \<Rightarrow> client_hdr \<Rightarrow> int \<Rightarrow> u64 \<Rightarrow> u64 \<Rightarrow> bool \<Rightarrow> 'b \<Rightarrow> 'j \<Rightarrow> unit res option \<times> 'j" where
  "write_journal ops hdr dlsn addr len all_zeros blkid j =
     (case write_slot ops dlsn (slot_of_write hdr addr len all_zeros blkid) j of
        (Some (Inl e), j') \<Rightarrow> (Some (Inl e), if all_zeros then j' else snd (free_data ops blkid j'))
      | (r, j') \<Rightarrow> (r, j'))"

text \<open>After the slot is durable: the term is looked at once more.\<close>

definition write_postflight :: "client_hdr \<Rightarrow> int \<Rightarrow> craft_state \<Rightarrow> lsn_pair res \<times> craft_state" where
  "write_postflight hdr dlsn d =
     (if hdr_term hdr \<noteq> session_term d then (Inl (VolErr STALE_TERM), d)
      else (Inr (get_lsns d), d\<lparr>missing_lsns := missing_lsns d - {dlsn}\<rparr>))"

text \<open>
  The whole write. While it waits for the data service and for the journal other operations of the device run, on other threads: \<open>others 0\<close> and \<open>others 1\<close> are what they do to the device and
  the backend during the two waits (the term may change, slots may be written or declared empty). The reply is \<^term>\<open>None\<close> if the journal never completes.
\<close>

definition craft_write ::
  "('b, 'j) journal_backend \<Rightarrow> (nat \<Rightarrow> craft_state \<times> 'j \<Rightarrow> craft_state \<times> 'j) \<Rightarrow> client_hdr \<Rightarrow> int \<Rightarrow> u64 \<Rightarrow> u64 \<Rightarrow> sg_list \<Rightarrow> bool \<Rightarrow>
     craft_state \<Rightarrow> 'j \<Rightarrow> (lsn_pair res option \<times> craft_state \<times> 'j) checked" where
  "craft_write ops others hdr dlsn addr len data all_zeros d j =
     bind_sum (write_preflight hdr dlsn data all_zeros d) (\<lambda>(reply, d1).
       case reply of
         Some r \<Rightarrow> Inr (Some r, d1, j)
       | None \<Rightarrow>
           (let (alloc_res, j1) = write_alloc ops len data all_zeros j; (d2, j2) = others 0 (d1, j1) in
            case alloc_res of
              Inl e \<Rightarrow> Inr (Some (Inl e), d2, j2)
            | Inr blkid \<Rightarrow>
                (let (res, j3) = write_journal ops hdr dlsn addr len all_zeros blkid j2; (d4, j4) = others 1 (d2, j3) in
                 case res of
                   None \<Rightarrow> Inr (None, d4, j4)
                 | Some (Inl e) \<Rightarrow> Inr (Some (Inl e), d4, j4)
                 | Some (Inr _) \<Rightarrow> (let (r, d5) = write_postflight hdr dlsn d4 in Inr (Some r, d5, j4)))))"

section \<open>Serving peers\<close>

definition empty_slot :: "int \<Rightarrow> journal_slot" where
  "empty_slot lsn = \<lparr>js_lsn = lsn, js_is_empty = True, js_all_zeros = False, js_lba_off_bytes = 0, js_len_bytes = 0,
     js_data = \<lparr>sg_size = 0, iovs = []\<rparr>\<rparr>"

datatype slot_kind = Empty | Present | Absent

definition slot_kind_of :: "craft_state \<Rightarrow> int \<Rightarrow> slot_kind" where
  "slot_kind_of d lsn =
     (if lsn \<in> empty_lsns d then Empty
      else if 0 \<le> lsn \<and> lsn \<le> last_append_lsn d \<and> lsn \<notin> missing_lsns d then Present
      else Absent)"

fun fetch_data :: "('b, 'j) journal_backend \<Rightarrow> craft_state \<Rightarrow> int list \<Rightarrow> 'j \<Rightarrow> journal_slot list res \<times> 'j" where
  "fetch_data ops d [] j = (Inr [], j)"
| "fetch_data ops d (lsn # lsns) j =
     (case slot_kind_of d lsn of
        Absent \<Rightarrow> fetch_data ops d lsns j
      | Empty \<Rightarrow>
          (case fetch_data ops d lsns j of
             (Inl e, j') \<Rightarrow> (Inl e, j') | (Inr ss, j') \<Rightarrow> (Inr (empty_slot lsn # ss), j'))
      | Present \<Rightarrow>
          (case read_slot ops lsn j of
             (Inl e, j1) \<Rightarrow> (Inl e, j1)
           | (Inr s, j1) \<Rightarrow>
               (case fetch_data ops d lsns j1 of
                  (Inl e, j') \<Rightarrow> (Inl e, j') | (Inr ss, j') \<Rightarrow> (Inr (s\<lparr>js_lsn := lsn\<rparr> # ss), j'))))"

section \<open>Verbs that are not implemented\<close>

text \<open>The result types of the first three belong to the client library and stay open.\<close>

definition login :: "u64 \<Rightarrow> craft_state \<Rightarrow> 'r res \<times> craft_state" where
  "login token d = (Inl (Errc not_supported), d)"

definition logout :: "client_hdr \<Rightarrow> craft_state \<Rightarrow> unit res \<times> craft_state" where
  "logout hdr d = (Inl (Errc not_supported), d)"

definition craft_read :: "client_hdr \<Rightarrow> int \<Rightarrow> u64 \<Rightarrow> u64 \<Rightarrow> sg_list \<Rightarrow> craft_state \<Rightarrow> 'r res \<times> craft_state" where
  "craft_read hdr read_lsn addr len dest d = (Inl (Errc not_supported), d)"

definition keep_alive :: "client_hdr \<Rightarrow> craft_state \<Rightarrow> lsn_pair res \<times> craft_state" where
  "keep_alive hdr d = (Inl (Errc not_supported), d)"

definition request_resolution :: "client_hdr \<Rightarrow> int \<Rightarrow> craft_state \<Rightarrow> 'r res \<times> craft_state" where
  "request_resolution hdr upto_lsn d = (Inl (Errc not_supported), d)"

definition craft_append :: "int \<Rightarrow> u64 \<Rightarrow> craft_state \<Rightarrow> unit res \<times> craft_state" where
  "craft_append sync_to token d = (Inl (Errc not_supported), d)"

definition raft_on_commit :: "int \<Rightarrow> craft_state \<Rightarrow> craft_state" where
  "raft_on_commit lsn d = d"

definition apply_sync_rs_commit_lsn :: "int \<Rightarrow> u64 \<Rightarrow> craft_state \<Rightarrow> craft_state" where
  "apply_sync_rs_commit_lsn rs_commit_lsn token d = d"

definition apply_internal_login :: "u64 \<Rightarrow> u64 \<Rightarrow> craft_state \<Rightarrow> craft_state" where
  "apply_internal_login token t d = d"

end
