(* ===== verification/Craft_Steps.thy ===== *)
theory Craft_Steps
  imports Craft_Repl_Dev
begin

text \<open>
  The replica device as a state machine: any number of writes in flight, each at one of its suspension
  points, interleaved with truncation, verdicts, changes of the session term and peers fetching data. Proved once for every
  journal backend that keeps the contract.
\<close>

section \<open>What one write does to the device\<close>

lemma gap_loop_eq: "gap_loop gap dlsn empties missing = missing \<union> ({gap..<dlsn} - empties)"
proof (induction gap dlsn empties missing rule: gap_loop.induct)
  case (1 gap dlsn empties missing)
  show ?case
  proof (cases "gap < dlsn")
    case True
    then have "{gap..<dlsn} = insert gap {gap + 1..<dlsn}" by auto
    then show ?thesis using 1 [OF True] True by (auto simp: gap_loop.simps [of gap])
  qed (simp add: gap_loop.simps [of gap])
qed

lemma note_append_eq:
  assumes "dlsn \<notin> empty_lsns d" "last_append_lsn d < dlsn \<or> dlsn \<in> missing_lsns d"
  shows "note_append (last_append_lsn d + 1) dlsn d =
    d\<lparr>missing_lsns := missing_lsns d \<union> ({last_append_lsn d + 1..dlsn} - empty_lsns d),
      last_append_lsn := max (last_append_lsn d) dlsn\<rparr>"
proof (cases "last_append_lsn d < dlsn")
  case True
  then have "insert dlsn {last_append_lsn d + 1..<dlsn} = {last_append_lsn d + 1..dlsn}" by auto
  then have "insert dlsn ({last_append_lsn d + 1..<dlsn} - empty_lsns d) = {last_append_lsn d + 1..dlsn} - empty_lsns d"
    using assms(1) by auto
  then have "insert dlsn (missing_lsns d \<union> ({last_append_lsn d + 1..<dlsn} - empty_lsns d)) =
      missing_lsns d \<union> ({last_append_lsn d + 1..dlsn} - empty_lsns d)" by auto
  then show ?thesis using True by (simp add: note_append_def gap_loop_eq Let_def)
next
  case False
  then show ?thesis using assms(2) by (auto simp: note_append_def gap_loop_eq Let_def insert_absorb)
qed

definition craft_wf :: "craft_state \<Rightarrow> bool" where
  "craft_wf d \<longleftrightarrow>
     - 1 \<le> commit_lsn d \<and> commit_lsn d \<le> last_append_lsn d \<and> last_append_lsn d \<le> INT64_MAX - k_max_ooo_gap \<and>
     missing_lsns d \<subseteq> {0..last_append_lsn d} \<and> missing_lsns d \<inter> empty_lsns d = {}"

lemma craft_wf_init: "craft_wf CraftReplDev"
  by (simp add: craft_wf_def CraftReplDev_def INT64_MAX_def k_max_ooo_gap_def)

lemma craft_wf_finite: "craft_wf d \<Longrightarrow> finite (missing_lsns d)"
  by (meson craft_wf_def finite_atLeastAtMost_int finite_subset)

lemma note_append_wf:
  assumes "craft_wf d" "dlsn \<notin> empty_lsns d" "0 \<le> dlsn" "dlsn \<le> INT64_MAX - k_max_ooo_gap"
    and "last_append_lsn d < dlsn \<or> dlsn \<in> missing_lsns d"
  shows "craft_wf (note_append (last_append_lsn d + 1) dlsn d)"
proof -
  have "{last_append_lsn d + 1..dlsn} \<subseteq> {0..max (last_append_lsn d) dlsn}" "missing_lsns d \<subseteq> {0..max (last_append_lsn d) dlsn}"
    using assms(1) by (fastforce simp: craft_wf_def)+
  then show ?thesis using assms by (subst note_append_eq) (auto simp: craft_wf_def)
qed

text \<open>A write is admitted when it passes every guard; otherwise it is answered at once and changes nothing.\<close>

definition admitted :: "client_hdr \<Rightarrow> int \<Rightarrow> sg_list \<Rightarrow> bool \<Rightarrow> craft_state \<Rightarrow> bool" where
  "admitted hdr dlsn data all_zeros d \<longleftrightarrow>
     0 \<le> dlsn \<and> dlsn \<le> INT64_MAX - k_max_ooo_gap \<and> all_zeros = (sg_size data = 0) \<and> hdr_term hdr = session_term d \<and>
     dlsn \<notin> empty_lsns d \<and> (last_append_lsn d < dlsn \<or> dlsn \<in> missing_lsns d) \<and>
     dlsn - last_append_lsn d \<le> k_max_ooo_gap \<and>
     (dlsn \<le> last_append_lsn d + 1 \<or> card (missing_lsns d) < k_max_missing_lsns)"

definition already_written :: "int \<Rightarrow> craft_state \<Rightarrow> bool" where
  "already_written dlsn d \<longleftrightarrow> 0 \<le> dlsn \<and> dlsn \<notin> empty_lsns d \<and> dlsn \<le> last_append_lsn d \<and> dlsn \<notin> missing_lsns d"

lemma craft_wf_i64:
  assumes "craft_wf d"
  shows "in_i64 (last_append_lsn d + 1)"
    "0 \<le> dlsn \<Longrightarrow> \<not> INT64_MAX - k_max_ooo_gap < dlsn \<Longrightarrow> in_i64 (dlsn - last_append_lsn d)"
  using assms by (auto simp: craft_wf_def in_i64_def INT64_MAX_def k_max_ooo_gap_def)

lemma preflight_admitted:
  assumes "craft_wf d" "admitted hdr dlsn data all_zeros d"
  shows "write_preflight hdr dlsn data all_zeros d = Inr (None, note_append (last_append_lsn d + 1) dlsn d)"
proof -
  have "all_zeros \<noteq> (0 < sg_size data)" using assms(2) by (auto simp: admitted_def word_gt_0)
  then show ?thesis using assms craft_wf_i64 [OF assms(1)]
    by (auto simp: admitted_def write_preflight_def)
qed

lemma preflight_refused:
  assumes wf: "craft_wf d" and "\<not> admitted hdr dlsn data all_zeros d"
  shows "\<exists>r. write_preflight hdr dlsn data all_zeros d = Inr (Some r, d) \<and>
    (\<forall>lp. r = Inr lp \<longrightarrow> lp = get_lsns d \<and> already_written dlsn d)"
proof (cases "dlsn < 0 \<or> all_zeros = (0 < sg_size data) \<or> hdr_term hdr \<noteq> session_term d \<or> dlsn \<in> empty_lsns d \<or>
      (dlsn \<le> last_append_lsn d \<and> dlsn \<notin> missing_lsns d) \<or> INT64_MAX - k_max_ooo_gap < dlsn")
  case True
  then show ?thesis unfolding write_preflight_def already_written_def
    by (simp only: if_True if_False split: if_split) auto
next
  case False
  then have c: "\<not> dlsn < 0" "all_zeros \<noteq> (0 < sg_size data)" "hdr_term hdr = session_term d" "dlsn \<notin> empty_lsns d"
    "\<not> (dlsn \<le> last_append_lsn d \<and> dlsn \<notin> missing_lsns d)" "\<not> INT64_MAX - k_max_ooo_gap < dlsn" by auto
  then have "k_max_ooo_gap < dlsn - last_append_lsn d \<or>
      (last_append_lsn d + 1 < dlsn \<and> k_max_missing_lsns \<le> card (missing_lsns d))"
    using assms(2) by (auto simp: admitted_def word_gt_0)
  then show ?thesis using c craft_wf_i64 [OF wf]
    by (simp add: write_preflight_def split: if_split) blast
qed

lemma note_append_frame [simp]:
  "session_term (note_append n dlsn d) = session_term d" "empty_lsns (note_append n dlsn d) = empty_lsns d"
  by (simp_all add: note_append_def Let_def)

lemma note_append_readmits:
  assumes "admitted hdr dlsn data z d"
  shows "dlsn \<in> missing_lsns (note_append (last_append_lsn d + 1) dlsn d)"
    "admitted hdr dlsn data z (note_append (last_append_lsn d + 1) dlsn d)"
proof -
  have a: "dlsn \<notin> empty_lsns d" "last_append_lsn d < dlsn \<or> dlsn \<in> missing_lsns d" using assms by (auto simp: admitted_def)
  show m: "dlsn \<in> missing_lsns (note_append (last_append_lsn d + 1) dlsn d)"
    using a by (simp add: note_append_eq) auto
  have "dlsn \<le> last_append_lsn (note_append (last_append_lsn d + 1) dlsn d)" using a by (simp add: note_append_eq)
  then show "admitted hdr dlsn data z (note_append (last_append_lsn d + 1) dlsn d)"
    using m assms by (auto simp: admitted_def k_max_ooo_gap_def)
qed

text \<open>A write whose number is missing is admitted again, and nothing changes by it.\<close>

lemma missing_readmits:
  assumes "craft_wf d" "dlsn \<in> missing_lsns d" "hdr_term hdr = session_term d" "z = (sg_size data = 0)"
  shows "write_preflight hdr dlsn data z d = Inr (None, d)"
proof -
  have "0 \<le> dlsn" "dlsn \<le> last_append_lsn d" "dlsn \<le> INT64_MAX - k_max_ooo_gap" "dlsn \<notin> empty_lsns d"
    using assms(1,2) by (auto simp: craft_wf_def)
  then have "admitted hdr dlsn data z d" "note_append (last_append_lsn d + 1) dlsn d = d"
    using assms by (auto simp: admitted_def note_append_eq k_max_ooo_gap_def max_def)
  then show ?thesis using preflight_admitted [OF assms(1)] by simp
qed

section \<open>The machine\<close>

datatype 'b write_phase = Allocating | Journaling 'b | Landed

record 'b inflight =
  fl_hdr :: client_hdr
  fl_dlsn :: int
  fl_addr :: u64
  fl_len :: u64
  fl_data :: sg_list
  fl_zeros :: bool
  fl_phase :: "'b write_phase"

record ('b, 'j) craft_sys =
  sys_dev :: craft_state
  sys_journal :: 'j
  sys_writes :: "'b inflight list"

text \<open>
  Truncation happens while no write is in flight and not below the committed prefix: the login sequence
  serialises it, and the code relies on both. A verdict adds to the slots known to be empty; a change of term is a login.
\<close>

inductive craft_step :: "('b, 'j) journal_backend \<Rightarrow> ('b, 'j) craft_sys \<Rightarrow> ('b, 'j) craft_sys \<Rightarrow> bool"
  for ops :: "('b, 'j) journal_backend" where
  refuse: "write_preflight hdr dlsn data z (sys_dev s) = Inr (Some r, d) \<Longrightarrow> craft_step ops s (s\<lparr>sys_dev := d\<rparr>)"
| begin_write: "write_preflight hdr dlsn data z (sys_dev s) = Inr (None, d) \<Longrightarrow>
    craft_step ops s (s\<lparr>sys_dev := d, sys_writes := \<lparr>fl_hdr = hdr, fl_dlsn = dlsn, fl_addr = addr, fl_len = len,
       fl_data = data, fl_zeros = z, fl_phase = Allocating\<rparr> # sys_writes s\<rparr>)"
| alloc_ok: "sys_writes s = xs @ w # ys \<Longrightarrow> fl_phase w = Allocating \<Longrightarrow>
    write_alloc ops (fl_len w) (fl_data w) (fl_zeros w) (sys_journal s) = (Inr blkid, j) \<Longrightarrow>
    craft_step ops s (s\<lparr>sys_journal := j, sys_writes := xs @ w\<lparr>fl_phase := Journaling blkid\<rparr> # ys\<rparr>)"
| alloc_fails: "sys_writes s = xs @ w # ys \<Longrightarrow> fl_phase w = Allocating \<Longrightarrow>
    write_alloc ops (fl_len w) (fl_data w) (fl_zeros w) (sys_journal s) = (Inl e, j) \<Longrightarrow>
    craft_step ops s (s\<lparr>sys_journal := j, sys_writes := xs @ ys\<rparr>)"
| journal_ok: "sys_writes s = xs @ w # ys \<Longrightarrow> fl_phase w = Journaling blkid \<Longrightarrow>
    write_journal ops (fl_hdr w) (fl_dlsn w) (fl_addr w) (fl_len w) (fl_zeros w) blkid (sys_journal s) = (Some (Inr u), j) \<Longrightarrow>
    craft_step ops s (s\<lparr>sys_journal := j, sys_writes := xs @ w\<lparr>fl_phase := Landed\<rparr> # ys\<rparr>)"
| journal_ends: "sys_writes s = xs @ w # ys \<Longrightarrow> fl_phase w = Journaling blkid \<Longrightarrow>
    write_journal ops (fl_hdr w) (fl_dlsn w) (fl_addr w) (fl_len w) (fl_zeros w) blkid (sys_journal s) = (r, j) \<Longrightarrow>
    r = None \<or> r = Some (Inl e) \<Longrightarrow>
    craft_step ops s (s\<lparr>sys_journal := j, sys_writes := xs @ ys\<rparr>)"
| reply: "sys_writes s = xs @ w # ys \<Longrightarrow> fl_phase w = Landed \<Longrightarrow>
    write_postflight (fl_hdr w) (fl_dlsn w) (sys_dev s) = (r', d) \<Longrightarrow>
    craft_step ops s (s\<lparr>sys_dev := d, sys_writes := xs @ ys\<rparr>)"
| cut: "sys_writes s = [] \<Longrightarrow> commit_lsn (sys_dev s) \<le> lsn \<Longrightarrow> craft_truncate ops lsn (sys_dev s) (sys_journal s) = (rt, d, j) \<Longrightarrow>
    craft_step ops s (s\<lparr>sys_dev := d, sys_journal := j\<rparr>)"
| verdict: "empty_lsns (sys_dev s) \<subseteq> E \<Longrightarrow> craft_step ops s (s\<lparr>sys_dev := seed_empty E (sys_dev s)\<rparr>)"
| new_term: "craft_step ops s (s\<lparr>sys_dev := seed_term t (sys_dev s)\<rparr>)"
| fetch: "fetch_data ops (sys_dev s) lsns (sys_journal s) = (rf, j) \<Longrightarrow> craft_step ops s (s\<lparr>sys_journal := j\<rparr>)"

text \<open>
  The error a write in flight is answered with when it is resumed, with the device and the backend it leaves: one of the allocation, one of the journal, or the term that has changed since.
  These are the steps \<open>alloc_fails\<close>, \<open>journal_ends\<close> and \<open>reply\<close> with their answers.
\<close>

definition resume_error :: "('b, 'j) journal_backend \<Rightarrow> ('b, 'j) craft_sys \<Rightarrow> 'b inflight \<Rightarrow> (error_condition \<times> craft_state \<times> 'j) option" where
  "resume_error ops s w =
     (case fl_phase w of
        Allocating \<Rightarrow>
          (case write_alloc ops (fl_len w) (fl_data w) (fl_zeros w) (sys_journal s) of
             (Inl e, j) \<Rightarrow> Some (e, sys_dev s, j) | (Inr _, _) \<Rightarrow> None)
      | Journaling blkid \<Rightarrow>
          (case write_journal ops (fl_hdr w) (fl_dlsn w) (fl_addr w) (fl_len w) (fl_zeros w) blkid (sys_journal s) of
             (Some (Inl e), j) \<Rightarrow> Some (e, sys_dev s, j) | _ \<Rightarrow> None)
      | Landed \<Rightarrow>
          (case write_postflight (fl_hdr w) (fl_dlsn w) (sys_dev s) of
             (Inl e, d) \<Rightarrow> Some (e, d, sys_journal s) | (Inr _, _) \<Rightarrow> None))"

inductive craft_reachable :: "('b, 'j) journal_backend \<Rightarrow> 'j \<Rightarrow> ('b, 'j) craft_sys \<Rightarrow> bool"
  for ops :: "('b, 'j) journal_backend" and j0 :: 'j where
  start: "craft_reachable ops j0 \<lparr>sys_dev = CraftReplDev, sys_journal = j0, sys_writes = []\<rparr>"
| step: "craft_reachable ops j0 s \<Longrightarrow> craft_step ops s s' \<Longrightarrow> craft_reachable ops j0 s'"

definition covered :: "craft_state \<Rightarrow> (int \<Rightarrow> bool) \<Rightarrow> bool" where
  "covered d P \<longleftrightarrow> (\<forall>lsn. 0 \<le> lsn \<longrightarrow> lsn \<le> last_append_lsn d \<longrightarrow> lsn \<in> missing_lsns d \<or> lsn \<in> empty_lsns d \<or> P lsn)"

definition flight_ok :: "craft_state \<Rightarrow> 'b inflight \<Rightarrow> bool" where
  "flight_ok d w \<longleftrightarrow> 0 \<le> fl_dlsn w \<and> fl_dlsn w \<le> last_append_lsn d \<and> fl_zeros w = (sg_size (fl_data w) = 0)"

lemma flight_ok_mono: "flight_ok d w \<Longrightarrow> last_append_lsn d \<le> last_append_lsn d' \<Longrightarrow> flight_ok d' w"
  by (simp add: flight_ok_def)

lemma flight_ok_phase [simp]: "flight_ok d (w\<lparr>fl_phase := p\<rparr>) = flight_ok d w"
  by (simp add: flight_ok_def)

lemma postflight_last_append: "write_postflight hdr dlsn d = (r, d') \<Longrightarrow> last_append_lsn d' = last_append_lsn d"
  by (auto simp: write_postflight_def split: if_splits)

lemma note_append_last: "last_append_lsn (note_append n dlsn d) = max (last_append_lsn d) dlsn"
  by (simp add: note_append_def Let_def)

lemma covered_mono: "covered d P \<Longrightarrow> (\<And>l. P l \<Longrightarrow> Q l) \<Longrightarrow> covered d Q"
  by (auto simp: covered_def)

lemma covered_note_append:
  assumes "covered d P" "dlsn \<notin> empty_lsns d" "last_append_lsn d < dlsn \<or> dlsn \<in> missing_lsns d"
  shows "covered (note_append (last_append_lsn d + 1) dlsn d) P"
  using assms by (subst note_append_eq) (auto simp: covered_def)

lemma covered_postflight:
  "covered d P \<Longrightarrow> P dlsn \<Longrightarrow> write_postflight hdr dlsn d = (r, d') \<Longrightarrow> covered d' P"
  by (auto simp: covered_def write_postflight_def split: if_splits)

lemma covered_verdict: "covered d P \<Longrightarrow> empty_lsns d \<subseteq> E \<Longrightarrow> covered (seed_empty E d) P"
  by (auto simp: covered_def seed_empty_def)

lemma craft_wf_postflight: "craft_wf d \<Longrightarrow> write_postflight hdr dlsn d = (r, d') \<Longrightarrow> craft_wf d'"
  by (auto simp: craft_wf_def write_postflight_def split: if_splits)

lemma craft_wf_verdict: "craft_wf d \<Longrightarrow> craft_wf (seed_empty E d)"
  by (auto simp: craft_wf_def seed_empty_def)

lemma craft_wf_truncate: "craft_wf d \<Longrightarrow> commit_lsn d \<le> lsn \<Longrightarrow> craft_wf (truncate_state lsn d)"
  by (auto simp: craft_wf_def truncate_state_def)

lemma covered_truncate:
  "covered d P \<Longrightarrow> covered (truncate_state lsn d) (\<lambda>l. l \<le> lsn \<and> P l)"
  by (auto simp: covered_def truncate_state_def split: if_splits)

section \<open>For every backend that keeps the contract\<close>

context craft_journal_backend
begin

lemma write_alloc_keeps:
  "invar j \<Longrightarrow> write_alloc ops len data z j = (r, j') \<Longrightarrow> invar j' \<and> present j' = present j \<and> slot_is j' = slot_is j"
  using alloc_keeps by (auto simp: write_alloc_def split: if_splits)

lemma write_journal_ok:
  assumes "invar j" "write_journal ops hdr dlsn addr len z blkid j = (Some (Inr u), j')"
  shows "invar j' \<and> present j' = (present j)(dlsn := True) \<and> slot_is j' dlsn (slot_of_write hdr addr len z blkid) \<and>
    (\<forall>l. l \<noteq> dlsn \<longrightarrow> slot_is j' l = slot_is j l)"
proof -
  have "write_slot ops dlsn (slot_of_write hdr addr len z blkid) j = (Some (Inr u), j')"
    using assms(2) by (auto simp: write_journal_def split: prod.splits option.splits sum.splits)
  then show ?thesis using write_ok [OF assms(1)] by blast
qed

lemma write_journal_fails:
  assumes "invar j" "write_journal ops hdr dlsn addr len z blkid j = (Some (Inl e), j')"
  shows "invar j' \<and> present j' = present j \<and> slot_is j' = slot_is j"
proof -
  obtain j1 where w: "write_slot ops dlsn (slot_of_write hdr addr len z blkid) j = (Some (Inl e), j1)"
    and j': "j' = (if z then j1 else snd (free_data ops blkid j1))"
    using assms(2) by (auto simp: write_journal_def split: prod.splits option.splits sum.splits)
  have "invar j1 \<and> present j1 = present j \<and> slot_is j1 = slot_is j" using write_rejected [OF assms(1) w] .
  then show ?thesis using free_keeps [of j1 blkid] j' by (cases "free_data ops blkid j1") auto
qed

lemma write_journal_ends:
  assumes "invar j" "write_journal ops hdr dlsn addr len z blkid j = (r, j')" "r = None \<or> r = Some (Inl e)"
  shows "invar j' \<and> (\<forall>l. present j l \<longrightarrow> present j' l)"
proof (cases "r = None")
  case True
  then have "write_slot ops dlsn (slot_of_write hdr addr len z blkid) j = (None, j')"
    using assms(2) by (auto simp: write_journal_def split: prod.splits option.splits sum.splits)
  then show ?thesis using write_lost [OF assms(1)] by blast
qed (use assms write_journal_fails in auto)

lemma fetch_keeps:
  "invar j \<Longrightarrow> fetch_data ops d lsns j = (r, j') \<Longrightarrow> invar j' \<and> present j' = present j \<and> slot_is j' = slot_is j"
proof (induction lsns arbitrary: j r j')
  case (Cons lsn lsns)
  have step: "invar j2 \<and> present j2 = present j1 \<and> slot_is j2 = slot_is j1"
    if "invar j1" "fetch_data ops d lsns j1 = (r2, j2)" for j1 r2 j2 using Cons.IH that by blast
  show ?case
  proof (cases "slot_kind_of d lsn")
    case Present
    obtain q j1 where q: "read_slot ops lsn j = (q, j1)" by (metis surj_pair)
    have k1: "invar j1 \<and> present j1 = present j \<and> slot_is j1 = slot_is j" using read_keeps [OF Cons.prems(1) q] .
    obtain r2 j2 where f: "fetch_data ops d lsns j1 = (r2, j2)" by (metis surj_pair)
    have "j' = j1 \<or> j' = j2" using Cons.prems(2) Present q f by (auto split: sum.splits)
    then show ?thesis using k1 step [OF _ f] by auto
  qed (use Cons.prems step in \<open>auto split: prod.splits sum.splits\<close>)
qed simp

definition sys_inv :: "('b, 'j) craft_sys \<Rightarrow> bool" where
  "sys_inv s \<longleftrightarrow> invar (sys_journal s) \<and> craft_wf (sys_dev s) \<and> covered (sys_dev s) (present (sys_journal s)) \<and>
     (\<forall>w\<in>set (sys_writes s). flight_ok (sys_dev s) w \<and> (fl_phase w = Landed \<longrightarrow> present (sys_journal s) (fl_dlsn w)))"

lemma sys_inv_step:
  assumes "craft_step ops s s'" "sys_inv s"
  shows "sys_inv s'"
proof -
  have inv: "invar (sys_journal s)" "craft_wf (sys_dev s)" "covered (sys_dev s) (present (sys_journal s))"
    "\<And>w. w \<in> set (sys_writes s) \<Longrightarrow> fl_phase w = Landed \<Longrightarrow> present (sys_journal s) (fl_dlsn w)"
    "\<And>w. w \<in> set (sys_writes s) \<Longrightarrow> flight_ok (sys_dev s) w"
    using assms(2) by (auto simp: sys_inv_def)
  show ?thesis using assms(1)
  proof (cases rule: craft_step.cases)
    case (refuse hdr dlsn data z r d)
    have "d = sys_dev s"
      using refuse preflight_refused [OF inv(2), of hdr dlsn data z] preflight_admitted [OF inv(2), of hdr dlsn data z] by fastforce
    then show ?thesis using refuse assms(2) by simp
  next
    case (begin_write hdr dlsn data z d addr len)
    then have adm: "admitted hdr dlsn data z (sys_dev s)"
      using preflight_refused [OF inv(2), of hdr dlsn data z] by fastforce
    then have "d = note_append (last_append_lsn (sys_dev s) + 1) dlsn (sys_dev s)"
      using begin_write preflight_admitted [OF inv(2) adm] by simp
    then have d: "craft_wf d" "covered d (present (sys_journal s))" "last_append_lsn d = max (last_append_lsn (sys_dev s)) dlsn"
      using note_append_wf [OF inv(2)] covered_note_append [OF inv(3)] adm by (auto simp: admitted_def note_append_last)
    have "flight_ok d w" if "w \<in> set (sys_writes s)" for w using flight_ok_mono [OF inv(5) [OF that]] d(3) by simp
    moreover have "flight_ok d \<lparr>fl_hdr = hdr, fl_dlsn = dlsn, fl_addr = addr, fl_len = len, fl_data = data, fl_zeros = z, fl_phase = p\<rparr>" for p
      using adm d(3) by (auto simp: flight_ok_def admitted_def)
    ultimately show ?thesis using begin_write inv d by (auto simp: sys_inv_def)
  next
    case (alloc_ok xs w ys blkid j)
    then show ?thesis using write_alloc_keeps [OF inv(1)] inv by (fastforce simp: sys_inv_def)
  next
    case (alloc_fails xs w ys e j)
    then show ?thesis using write_alloc_keeps [OF inv(1)] inv by (fastforce simp: sys_inv_def)
  next
    case (journal_ok xs w ys blkid u j)
    have k: "invar j" "present j = (present (sys_journal s))(fl_dlsn w := True)"
      using write_journal_ok [OF inv(1) journal_ok(4)] by auto
    have "covered (sys_dev s) (present j)" using covered_mono [OF inv(3)] k(2) by simp
    then show ?thesis using journal_ok(1,2) k inv by (auto simp: sys_inv_def)
  next
    case (journal_ends xs w ys blkid r j e)
    have k: "invar j" "\<And>l. present (sys_journal s) l \<Longrightarrow> present j l"
      using write_journal_ends [OF inv(1) journal_ends(4,5)] by auto
    then show ?thesis using journal_ends(1,2) inv covered_mono [OF inv(3)] by (auto simp: sys_inv_def)
  next
    case (reply xs w ys r' d)
    have "present (sys_journal s) (fl_dlsn w)" using inv(4) reply by simp
    then have "covered d (present (sys_journal s))" using covered_postflight [OF inv(3)] reply by blast
    moreover have "flight_ok d v" if "v \<in> set (sys_writes s)" for v using flight_ok_mono [OF inv(5) [OF that]] postflight_last_append [OF reply(4)] by simp
    ultimately show ?thesis using reply inv craft_wf_postflight by (auto simp: sys_inv_def)
  next
    case (cut lsn rt d j)
    show ?thesis
    proof (cases "truncate_to ops lsn (sys_journal s)")
      case (Pair q j1)
      then show ?thesis
        using cut inv truncate_ok [OF inv(1)] truncate_fails [OF inv(1)] covered_truncate [OF inv(3), of lsn] craft_wf_truncate [OF inv(2)]
        by (cases q) (fastforce simp: sys_inv_def craft_truncate_def)+
    qed
  next
    case (verdict E)
    then show ?thesis using inv covered_verdict craft_wf_verdict by (auto simp: sys_inv_def flight_ok_def seed_empty_def)
  next
    case (new_term t)
    then show ?thesis using inv by (auto simp: sys_inv_def covered_def craft_wf_def seed_term_def flight_ok_def)
  next
    case (fetch lsns rf j)
    then show ?thesis using fetch_keeps [OF inv(1)] inv by (auto simp: sys_inv_def)
  qed
qed

lemma sys_inv_reachable: "craft_reachable ops j0 s \<Longrightarrow> invar j0 \<Longrightarrow> sys_inv s"
proof (induction rule: craft_reachable.induct)
  case start
  then show ?case by (auto simp: sys_inv_def craft_wf_init covered_def) (simp add: CraftReplDev_def)
qed (rule sys_inv_step)

lemma reachable_wf: "craft_reachable ops j0 s \<Longrightarrow> invar j0 \<Longrightarrow> craft_wf (sys_dev s)"
  using sys_inv_reachable by (auto simp: sys_inv_def)

lemma reachable_covered:
  "craft_reachable ops j0 s \<Longrightarrow> invar j0 \<Longrightarrow> covered (sys_dev s) (present (sys_journal s))"
  using sys_inv_reachable by (auto simp: sys_inv_def)

lemma reachable_landed:
  "craft_reachable ops j0 s \<Longrightarrow> invar j0 \<Longrightarrow> w \<in> set (sys_writes s) \<Longrightarrow> fl_phase w = Landed \<Longrightarrow>
     present (sys_journal s) (fl_dlsn w)"
  using sys_inv_reachable by (auto simp: sys_inv_def)

lemma reachable_flight:
  "craft_reachable ops j0 s \<Longrightarrow> invar j0 \<Longrightarrow> w \<in> set (sys_writes s) \<Longrightarrow> flight_ok (sys_dev s) w"
  using sys_inv_reachable by (auto simp: sys_inv_def)

lemma resume_error_keeps:
  assumes "invar (sys_journal s)" "resume_error ops s w = Some (e, d', j')"
  shows "d' = sys_dev s \<and> present j' = present (sys_journal s) \<and> slot_is j' = slot_is (sys_journal s) \<and>
    (fl_phase w = Landed \<longrightarrow> j' = sys_journal s \<and> e = VolErr STALE_TERM \<and> hdr_term (fl_hdr w) \<noteq> session_term (sys_dev s))"
proof (cases "fl_phase w")
  case Allocating
  then show ?thesis using assms(2) write_alloc_keeps [OF assms(1)] by (fastforce simp: resume_error_def split: prod.splits sum.splits)
next
  case (Journaling blkid)
  then show ?thesis using assms(2) write_journal_fails [OF assms(1)]
    by (fastforce simp: resume_error_def split: prod.splits option.splits sum.splits)
next
  case Landed
  then show ?thesis using assms(2) by (auto simp: resume_error_def write_postflight_def split: if_splits)
qed

end

text \<open>A write that is acknowledged: it was there before, or it went through every stage.\<close>

lemma craft_write_acked:
  assumes wf: "craft_wf d" and eq: "craft_write ops others hdr dlsn addr len data z d j = Inr (Some (Inr lp), d', j')"
  shows "(already_written dlsn d \<and> d' = d \<and> j' = j \<and> lp = get_lsns d) \<or>
    (admitted hdr dlsn data z d \<and> \<not> already_written dlsn d \<and> (\<exists>b j1 d2 j2 j3 d4.
       write_alloc ops len data z j = (Inr b, j1) \<and> others 0 (note_append (last_append_lsn d + 1) dlsn d, j1) = (d2, j2) \<and>
       write_journal ops hdr dlsn addr len z b j2 = (Some (Inr ()), j3) \<and> others 1 (d2, j3) = (d4, j') \<and>
       write_postflight hdr dlsn d4 = (Inr lp, d')))"
proof (cases "admitted hdr dlsn data z d")
  case False
  then show ?thesis using eq preflight_refused [OF wf False] by (auto simp: craft_write_def)
next
  case True
  have "\<not> already_written dlsn d" using True by (auto simp: admitted_def already_written_def)
  then show ?thesis using True eq preflight_admitted [OF wf True]
    by (auto simp: craft_write_def Let_def split: prod.splits sum.splits option.splits)
qed

end
