(* ===== verification/Craft_Correct.thy ===== *)
theory Craft_Correct
  imports Craft_Steps
begin

text \<open>
  The properties of a CRAFT replica on the HomeStore journal backend: what is acknowledged is durable,
  what is not durable is known to be missing, and no input of a client overflows or exhausts the device.
\<close>

section \<open>A storage layer in memory\<close>

text \<open>The input of the witnesses: blocks are numbers, the log is a map.\<close>

type_synonym mem_state = "(int \<Rightarrow> u8 list option) \<times> u8 list list option list"

definition mem_storage :: "(nat, mem_state) storage" where
  "mem_storage = \<lparr>ds_alloc_write = (\<lambda>sg hint (l, bs). (Inr (length bs), (l, bs @ [Some (iovs sg)]))),
     ds_free_blk = (\<lambda>b (l, bs). (Inr (), (l, bs[b := None]))),
     ls_write_async = (\<lambda>lsn blob (l, bs). ((0, True), (l(lsn \<mapsto> blob), bs))),
     ls_rollback = (\<lambda>lsn (l, bs). (True, (\<lambda>k. if k \<le> lsn then l k else None, bs))),
     ls_records = fst, ds_blocks = (\<lambda>(l, bs) b. if b < length bs then bs ! b else None), blkid_serialize = (\<lambda>b. [of_nat b])\<rparr>"

definition mem_backend :: "(nat, mem_state) hs_backend" where
  "mem_backend = \<lparr>hb_storage = mem_storage, hb_state = (\<lambda>_. None, []), hb_ordinal = 3\<rparr>"

definition mem_ops :: "(nat, (nat, mem_state) hs_backend) journal_backend" where
  "mem_ops = make_homestore_journal_backend 0"

definition demo_hdr :: client_hdr where
  "demo_hdr = \<lparr>hdr_term = 0, hdr_commit_lsn = -1, hdr_all_committed_lsn = -1\<rparr>"

definition demo_data :: sg_list where
  "demo_data = \<lparr>sg_size = 2, iovs = [[1, 2]]\<rparr>"

lemmas mem_defs = mem_storage_def mem_backend_def mem_ops_def demo_hdr_def demo_data_def

lemmas craft_eval [craft_defs] = CraftReplDev_def craft_write_def write_preflight_def write_alloc_def write_journal_def
  write_postflight_def note_append_def gap_loop_eq get_lsns_def k_max_ooo_gap_def k_max_missing_lsns_def
  INT64_MAX_def i64_def in_i64_def slot_of_write_def hs_backend_defs Let_def

lemma mem_backend_ok: "hs_invar mem_backend"
  by (auto simp: hs_invar_def storage_defs mem_defs fun_eq_iff nth_append)

lemma covered_init: "covered CraftReplDev P"
  by (simp add: covered_def CraftReplDev_def)

section \<open>Interleaved writes\<close>

text \<open>
  C9. In every state that any interleaving of writes, truncations, verdicts, logins and fetches can
  reach, each sequence number up to the last appended one is known to be missing, has been declared empty, or has
  a durable entry in the log: the replica never silently lacks a slot.
\<close>

theorem craft_slots_accounted:
  assumes "craft_reachable (make_homestore_journal_backend b0) j0 s" "hs_invar j0"
    and "0 \<le> lsn" "lsn \<le> last_append_lsn (sys_dev s)"
  shows "lsn \<in> missing_lsns (sys_dev s) \<or> lsn \<in> empty_lsns (sys_dev s) \<or> hs_present (sys_journal s) lsn"
  using hs.reachable_covered [OF assms(1,2)] assms(3,4) by (simp add: covered_def)

definition demo_sys :: "(nat, (nat, mem_state) hs_backend) craft_sys" where
  "demo_sys = \<lparr>sys_dev = CraftReplDev\<lparr>last_append_lsn := 2, missing_lsns := {0, 1, 2}\<rparr>, sys_journal = mem_backend,
     sys_writes = [\<lparr>fl_hdr = demo_hdr, fl_dlsn = 2, fl_addr = 0, fl_len = 2, fl_data = demo_data, fl_zeros = False,
       fl_phase = Allocating\<rparr>]\<rparr>"

lemma demo_sys_reachable: "craft_reachable mem_ops mem_backend demo_sys"
proof -
  have "write_preflight demo_hdr 2 demo_data False CraftReplDev = Inr (None, CraftReplDev\<lparr>last_append_lsn := 2, missing_lsns := {0, 1, 2}\<rparr>)"
    by (auto simp: mem_defs craft_defs atLeastLessThan_def)
  then show ?thesis
    using craft_reachable.step [OF craft_reachable.start [of mem_ops mem_backend] craft_step.begin_write, of demo_hdr 2 demo_data False _ 0 2]
    by (simp add: demo_sys_def)
qed

theorem craft_slots_accounted_witness:
  "last_append_lsn (sys_dev demo_sys) = 2 \<and>
   (1 \<in> missing_lsns (sys_dev demo_sys) \<or> 1 \<in> empty_lsns (sys_dev demo_sys) \<or> hs_present (sys_journal demo_sys) 1)"
  using craft_slots_accounted [of 0 mem_backend demo_sys 1] demo_sys_reachable mem_backend_ok
  by (simp add: mem_ops_def demo_sys_def)

text \<open>
  In the same states the counters are consistent: the committed prefix does not exceed the last
  appended number, that number stays a safe distance below the 64-bit limit, every missing number lies between zero
  and it, and no number is both missing and declared empty.
\<close>

theorem craft_state_consistent:
  assumes "craft_reachable (make_homestore_journal_backend b0) j0 s" "hs_invar j0"
  shows "commit_lsn (sys_dev s) \<le> last_append_lsn (sys_dev s) \<and>
    last_append_lsn (sys_dev s) \<le> INT64_MAX - k_max_ooo_gap \<and>
    missing_lsns (sys_dev s) \<subseteq> {0..last_append_lsn (sys_dev s)} \<and>
    missing_lsns (sys_dev s) \<inter> empty_lsns (sys_dev s) = {}"
  using hs.reachable_wf [OF assms] by (simp add: craft_wf_def)

theorem craft_state_consistent_witness:
  "missing_lsns (sys_dev demo_sys) = {0, 1, 2} \<and> missing_lsns (sys_dev demo_sys) \<subseteq> {0..last_append_lsn (sys_dev demo_sys)}"
  using craft_state_consistent [of 0 mem_backend demo_sys] demo_sys_reachable mem_backend_ok
  by (simp add: mem_ops_def demo_sys_def)

text \<open>
  C20. When a write in flight is acknowledged, whatever happened in between, its slot is durable and no
  longer counted as missing.
\<close>

theorem craft_ack_is_durable:
  assumes "craft_reachable (make_homestore_journal_backend b0) j0 s" "hs_invar j0"
    and "w \<in> set (sys_writes s)" "fl_phase w = Landed"
    and "write_postflight (fl_hdr w) (fl_dlsn w) (sys_dev s) = (Inr lp, d)"
  shows "hs_present (sys_journal s) (fl_dlsn w) \<and> fl_dlsn w \<notin> missing_lsns d \<and> lp = get_lsns d"
  using hs.reachable_landed [OF assms(1-4)] assms(5)
  by (auto simp: write_postflight_def get_lsns_def split: if_splits)

definition demo_journaling :: "(nat, (nat, mem_state) hs_backend) craft_sys" where
  "demo_journaling = demo_sys\<lparr>sys_journal := mem_backend\<lparr>hb_state := (\<lambda>_. None, [Some [[1, 2]]])\<rparr>,
     sys_writes := [(hd (sys_writes demo_sys))\<lparr>fl_phase := Journaling 0\<rparr>]\<rparr>"

definition demo_landed :: "(nat, (nat, mem_state) hs_backend) craft_sys" where
  "demo_landed = demo_sys\<lparr>sys_journal := mem_backend\<lparr>hb_state := ([2 \<mapsto> slot_blob (\<lambda>b. [of_nat b]) 2
     (slot_of_write demo_hdr 0 2 False 0)], [Some [[1, 2]]])\<rparr>, sys_writes := [(hd (sys_writes demo_sys))\<lparr>fl_phase := Landed\<rparr>]\<rparr>"

lemma demo_landed_reachable: "craft_reachable mem_ops mem_backend demo_landed"
proof -
  have "craft_step mem_ops demo_sys demo_journaling"
    using craft_step.alloc_ok [of demo_sys "[]" "hd (sys_writes demo_sys)" "[]" mem_ops 0 "sys_journal demo_journaling"]
    by (simp add: demo_sys_def demo_journaling_def write_alloc_def hs_backend_defs mem_defs)
  then have j: "craft_reachable mem_ops mem_backend demo_journaling" by (rule craft_reachable.step [OF demo_sys_reachable])
  have "craft_step mem_ops demo_journaling demo_landed"
    using craft_step.journal_ok [of demo_journaling "[]" "hd (sys_writes demo_journaling)" "[]" 0 mem_ops "()" "sys_journal demo_landed"]
    by (simp add: demo_sys_def demo_journaling_def demo_landed_def write_journal_def hs_backend_defs mem_defs)
  then show ?thesis by (rule craft_reachable.step [OF j])
qed

theorem craft_ack_is_durable_witness:
  "fst (write_postflight demo_hdr 2 (sys_dev demo_landed)) = Inr (get_lsns (sys_dev demo_landed)) \<and>
   hs_present (sys_journal demo_landed) 2"
  using craft_ack_is_durable [of 0 mem_backend demo_landed "hd (sys_writes demo_landed)"] demo_landed_reachable mem_backend_ok
  by (simp add: mem_ops_def demo_landed_def demo_sys_def write_postflight_def demo_hdr_def CraftReplDev_def get_lsns_def)

section \<open>One write\<close>

lemma demo_write:
  "craft_write mem_ops (\<lambda>_. id) demo_hdr 0 4096 2 demo_data False CraftReplDev mem_backend =
     Inr (Some (Inr \<lparr>lp_commit_lsn = -1, lp_last_append_lsn = 0\<rparr>), CraftReplDev\<lparr>last_append_lsn := 0\<rparr>,
       mem_backend\<lparr>hb_state := ([0 \<mapsto> slot_blob (\<lambda>b. [of_nat b]) 0 (slot_of_write demo_hdr 4096 2 False 0)], [Some [[1, 2]]])\<rparr>)"
  by (simp add: mem_defs craft_defs)

lemma hs_write_alloc:
  assumes "hs_invar j" "write_alloc (make_homestore_journal_backend b0) len data z j = (Inr b, j1)"
  shows "hb_storage j1 = hb_storage j" "hs_record j1 = hs_record j" "if z then b = b0 else hs_block j1 b = Some (iovs data)"
  using assms
  by (auto simp: write_alloc_def hs_backend_defs hs_invar_def hs_record_def hs_block_def Let_def storage_alloc_blocks storage_alloc split: if_splits prod.splits sum.splits)

lemma hs_write_journal:
  assumes "hs_invar j" "write_journal (make_homestore_journal_backend b0) hdr dlsn addr len z b j = (Some (Inr u), j1)"
  shows "hb_storage j1 = hb_storage j" "hs_slot_is j1 dlsn (slot_of_write hdr addr len z b)" "hs_block j1 = hs_block j"
proof -
  show "hs_slot_is j1 dlsn (slot_of_write hdr addr len z b)" using hs.write_journal_ok [OF assms] by simp
  show "hb_storage j1 = hb_storage j" "hs_block j1 = hs_block j"
    using assms storage_log_blocks
    by (auto simp: write_journal_def hs_backend_defs hs_invar_def hs_block_def Let_def split: if_splits prod.splits sum.splits option.splits)
qed





text \<open>
  Sending an acknowledged write again is answered with the same watermarks and has no effect, unless the slot was declared empty or the log was cut below it meanwhile.
\<close>

lemma acked_again:
  assumes "craft_wf d" "craft_write ops others hdr dlsn addr len data z d j = Inr (Some (Inr lp), d', j')"
    and "dlsn \<notin> empty_lsns d'" "dlsn \<le> last_append_lsn d'"
  shows "craft_write ops others' hdr dlsn addr len data z d' j' = Inr (Some (Inr lp), d', j')"
proof -
  have guards: "\<not> dlsn < 0" "z \<noteq> (0 < sg_size data)" "hdr_term hdr = session_term d"
    using assms(2) by (auto simp: craft_write_def write_preflight_def split: if_splits)
  have "dlsn \<notin> missing_lsns d'" "lp = get_lsns d'" "hdr_term hdr = session_term d'"
    using craft_write_acked [OF assms(1,2)] guards
    by (auto simp: already_written_def write_postflight_def get_lsns_def split: if_splits)
  then show ?thesis using guards assms(3,4) by (simp add: craft_write_def write_preflight_def)
qed

text \<open>
  C29. No sequence number a client may put on the wire makes the code overflow: in every reachable state
  the write returns or waits for the journal, whatever the number, the term, the range and the data, and whatever other operations do meanwhile.
\<close>

theorem craft_write_never_overflows:
  assumes "craft_reachable (make_homestore_journal_backend b0) j0 s" "hs_invar j0"
  shows "\<exists>r. craft_write (make_homestore_journal_backend b0) others hdr dlsn addr len data z (sys_dev s) (sys_journal s) = Inr r"
proof -
  have "\<exists>q. write_preflight hdr dlsn data z (sys_dev s) = Inr q"
    using preflight_admitted preflight_refused hs.reachable_wf [OF assms] by metis
  then show ?thesis by (auto simp: craft_write_def Let_def split: option.splits prod.splits sum.splits)
qed

theorem craft_write_never_overflows_witness:
  "\<exists>r. craft_write mem_ops (\<lambda>_. id) demo_hdr INT64_MAX 0 0 demo_data False (sys_dev demo_sys) (sys_journal demo_sys) = Inr r"
  using craft_write_never_overflows [of 0 mem_backend demo_sys] demo_sys_reachable mem_backend_ok by (simp add: mem_ops_def)

text \<open>
  One write adds at most one million numbers to the missing set, and only while it holds fewer than
  two million; a write that leaves no gap adds at most its own number. So the set stays below three million plus
  the writes without a gap that are still unanswered or failed.
\<close>

theorem craft_missing_bounded:
  assumes "craft_wf d" "write_preflight hdr dlsn data z d = Inr (None, d')"
  shows "missing_count d' \<le> (if dlsn \<le> last_append_lsn d + 1 then missing_count d + 1
    else k_max_missing_lsns - 1 + nat k_max_ooo_gap)"
proof -
  have adm: "admitted hdr dlsn data z d" using assms preflight_refused [OF assms(1)] by fastforce
  then have d': "d' = note_append (last_append_lsn d + 1) dlsn d" using preflight_admitted assms by fastforce
  let ?new = "{last_append_lsn d + 1..dlsn} - empty_lsns d"
  have "missing_lsns d' = missing_lsns d \<union> ?new" using adm by (simp add: d' note_append_eq admitted_def)
  then have "missing_count d' \<le> missing_count d + card ?new"
    using card_Un_le [of "missing_lsns d" ?new] by (simp add: missing_count_def)
  also have "card ?new \<le> card {last_append_lsn d + 1..dlsn}" by (intro card_mono) auto
  finally have le: "missing_count d' \<le> missing_count d + nat (dlsn - last_append_lsn d)" by simp
  show ?thesis
  proof (cases "dlsn \<le> last_append_lsn d + 1")
    case True
    then have "nat (dlsn - last_append_lsn d) \<le> 1" by simp
    then show ?thesis using le True by simp
  next
    case False
    then have "missing_count d < k_max_missing_lsns" "dlsn - last_append_lsn d \<le> k_max_ooo_gap"
      using adm by (auto simp: admitted_def missing_count_def)
    then show ?thesis using le False by simp
  qed
qed

theorem craft_missing_bounded_witness:
  "missing_count (snd (projr (write_preflight demo_hdr 2 demo_data False CraftReplDev))) \<le> k_max_missing_lsns - 1 + nat k_max_ooo_gap"
proof -
  have "write_preflight demo_hdr 2 demo_data False CraftReplDev =
      Inr (None, snd (projr (write_preflight demo_hdr 2 demo_data False CraftReplDev)))"
    by (simp add: mem_defs craft_defs)
  from craft_missing_bounded [OF craft_wf_init this] show ?thesis by (simp add: CraftReplDev_def)
qed

section \<open>Truncation and peers\<close>

lemma fetch_pure: "(\<And>l. read_slot ops l j = (content l, j)) \<Longrightarrow> \<exists>r. fetch_data ops d lsns j = (r, j)"
proof (induction lsns)
  case (Cons lsn lsns)
  then obtain r where "fetch_data ops d lsns j = (r, j)" by blast
  then show ?case using Cons.prems by (cases r; cases "slot_kind_of d lsn"; cases "content lsn") auto
qed simp

text \<open>The answer of a fetch on a backend whose reads leave it alone.\<close>

lemma fetch_data_split:
  fixes d :: craft_state
  defines "holds \<equiv> \<lambda>l. l \<notin> empty_lsns d \<and> 0 \<le> l \<and> l \<le> last_append_lsn d \<and> l \<notin> missing_lsns d"
  assumes rd: "\<And>l. read_slot ops l j = (content l, j)"
  shows "case fst (fetch_data ops d lsns j) of
      Inr ss \<Rightarrow> map js_lsn ss = filter (\<lambda>l. l \<in> empty_lsns d \<or> holds l) lsns \<and>
        (\<forall>x\<in>set ss. if js_lsn x \<in> empty_lsns d then x = empty_slot (js_lsn x)
           else holds (js_lsn x) \<and> (\<exists>c. content (js_lsn x) = Inr c \<and> x = c\<lparr>js_lsn := js_lsn x\<rparr>))
    | Inl e \<Rightarrow> \<exists>xs l ys. lsns = xs @ l # ys \<and> holds l \<and> content l = Inl e \<and> (\<forall>x\<in>set xs. holds x \<longrightarrow> \<not> isl (content x))"
proof (induction lsns)
  case (Cons lsn lsns)
  obtain r where f: "fetch_data ops d lsns j = (r, j)" using fetch_pure [of ops j content d lsns] rd by blast
  have kind: "slot_kind_of d lsn = (if lsn \<in> empty_lsns d then Empty else if holds lsn then Present else Absent)"
    by (simp add: slot_kind_of_def holds_def)
  have later: "\<exists>xs' l ys. lsn # lsns = xs' @ l # ys \<and> holds l \<and> content l = Inl e \<and> (\<forall>x\<in>set xs'. holds x \<longrightarrow> \<not> isl (content x))"
    if e: "r = Inl e" and ok: "holds lsn \<longrightarrow> \<not> isl (content lsn)" for e
  proof -
    obtain xs l ys where "lsns = xs @ l # ys \<and> holds l \<and> content l = Inl e \<and> (\<forall>x\<in>set xs. holds x \<longrightarrow> \<not> isl (content x))"
      using Cons f e by auto
    then show ?thesis using ok by (intro exI [of _ "lsn # xs"]) auto
  qed
  show ?case
  proof (cases "lsn \<in> empty_lsns d")
    case True
    then show ?thesis using Cons f kind later by (cases r) (auto simp: empty_slot_def holds_def)
  next
    case False
    show ?thesis
    proof (cases "holds lsn")
      case True
      show ?thesis
      proof (cases "content lsn")
        case (Inl e)
        then show ?thesis using True False kind rd by (auto intro!: exI [of _ "[]"])
      next
        case (Inr c)
        then show ?thesis using Cons f kind later True False rd by (cases r) auto
      qed
    next
      case nh: False
      then show ?thesis using Cons f kind later False by (cases r) auto
    qed
  qed
qed simp

text \<open>
  C30. Truncation at or above the committed prefix, once the log has been rolled back, keeps the entries up to
  the given number and drops all above, from the log, from the missing set and from the append watermark; the
  committed prefix and the slots declared empty stay. If the rollback fails nothing changes.
\<close>

theorem craft_truncate_correct:
  assumes "craft_wf d" "hs_invar j" "commit_lsn d \<le> lsn"
    and "craft_truncate (make_homestore_journal_backend b0) lsn d j = (r, d', j')"
  shows "craft_wf d' \<and> commit_lsn d' = commit_lsn d \<and> empty_lsns d' = empty_lsns d \<and>
    (case r of
       Inl _ \<Rightarrow> d' = d \<and> hs_present j' = hs_present j
     | Inr _ \<Rightarrow> last_append_lsn d' = min lsn (last_append_lsn d) \<and> missing_lsns d' = {l \<in> missing_lsns d. l \<le> lsn} \<and>
         hs_present j' = (\<lambda>l. l \<le> lsn \<and> hs_present j l) \<and> (\<forall>l\<le>lsn. hs_slot_is j' l = hs_slot_is j l))"
proof (cases "truncate_to (make_homestore_journal_backend b0) lsn j")
  case (Pair q j1)
  show ?thesis
  proof (cases q)
    case (Inl e)
    then show ?thesis using assms hs.truncate_fails [OF assms(2)] Pair by (auto simp: craft_truncate_def)
  next
    case (Inr u)
    have "d' = truncate_state lsn d" "j' = j1" "r = Inr ()" using assms(4) Pair Inr by (auto simp: craft_truncate_def)
    then show ?thesis using hs.truncate_ok [OF assms(2), of b0 lsn u j1] Pair Inr craft_wf_truncate [OF assms(1,3)]
      by (auto simp: truncate_state_def)
  qed
qed

theorem craft_truncate_correct_witness:
  "\<exists>d' j'. craft_truncate mem_ops 0 (sys_dev demo_sys) (sys_journal demo_sys) = (Inr (), d', j') \<and>
     last_append_lsn d' = 0 \<and> missing_lsns d' = {0}"
proof -
  have wf: "craft_wf (sys_dev demo_sys)" using hs.reachable_wf demo_sys_reachable mem_backend_ok by (fastforce simp: mem_ops_def)
  have j: "sys_journal demo_sys = mem_backend" by (simp add: demo_sys_def)
  have eq: "craft_truncate mem_ops 0 (sys_dev demo_sys) mem_backend = (Inr (), truncate_state 0 (sys_dev demo_sys), mem_backend\<lparr>hb_state := (\<lambda>_. None, [])\<rparr>)"
    by (simp add: craft_truncate_def hs_backend_defs mem_defs)
  from craft_truncate_correct [OF wf mem_backend_ok _ eq [unfolded mem_ops_def]] eq
  show ?thesis by (auto simp: j demo_sys_def CraftReplDev_def)
qed

text \<open>
  C31. A peer that fetches slots from a replica in any reachable state, on any journal backend that keeps the contract and whose reads have no side effect. If the fetch succeeds, the answer has one slot, in the
  order of the request, for exactly the requested numbers that were declared empty or lie between zero and the last appended number and are not missing. A number declared empty is
  answered as empty, without data, even when the journal has an entry; every other number in the answer has a durable entry, and the slot is what the journal reads there, under the
  requested number. If the fetch fails, it is with the error of reading the first such entry that cannot be read.
\<close>

theorem fetch_data_correct:
  assumes "craft_journal_backend ops invar present slot_is" "craft_reachable ops j0 s" "invar j0"
    and "\<forall>l. read_slot ops l (sys_journal s) = (content l, sys_journal s)"
  shows "let d = sys_dev s; holds = (\<lambda>l. l \<notin> empty_lsns d \<and> 0 \<le> l \<and> l \<le> last_append_lsn d \<and> l \<notin> missing_lsns d) in
    case fst (fetch_data ops d lsns (sys_journal s)) of
      Inr ss \<Rightarrow> map js_lsn ss = filter (\<lambda>l. l \<in> empty_lsns d \<or> holds l) lsns \<and>
        (\<forall>x\<in>set ss. if js_lsn x \<in> empty_lsns d then js_is_empty x \<and> \<not> js_all_zeros x \<and> js_len_bytes x = 0 \<and> iovs (js_data x) = []
           else present (sys_journal s) (js_lsn x) \<and> (\<exists>c. content (js_lsn x) = Inr c \<and> x = c\<lparr>js_lsn := js_lsn x\<rparr>))
    | Inl e \<Rightarrow> \<exists>xs l ys. lsns = xs @ l # ys \<and> holds l \<and> content l = Inl e \<and> (\<forall>x\<in>set xs. holds x \<longrightarrow> \<not> isl (content x))"
proof -
  define d j where "d = sys_dev s" and "j = sys_journal s"
  have cov: "covered d (present j)" using craft_journal_backend.reachable_covered [OF assms(1-3)] by (simp add: d_def j_def)
  have rd: "read_slot ops l j = (content l, j)" for l using assms(4) by (simp add: j_def)
  note f = fetch_data_split [OF rd, where d = d and lsns = lsns]
  show ?thesis
  proof (cases "fst (fetch_data ops d lsns j)")
    case (Inl e)
    then show ?thesis using f unfolding d_def j_def by (simp add: Let_def)
  next
    case (Inr ss)
    have "if js_lsn x \<in> empty_lsns d then js_is_empty x \<and> \<not> js_all_zeros x \<and> js_len_bytes x = 0 \<and> iovs (js_data x) = []
        else present j (js_lsn x) \<and> (\<exists>c. content (js_lsn x) = Inr c \<and> x = c\<lparr>js_lsn := js_lsn x\<rparr>)" if x: "x \<in> set ss" for x
    proof (cases "js_lsn x \<in> empty_lsns d")
      case True
      then obtain l where "x = empty_slot l" using f Inr x by fastforce
      then show ?thesis using True by (simp add: empty_slot_def)
    next
      case False
      then have "0 \<le> js_lsn x \<and> js_lsn x \<le> last_append_lsn d \<and> js_lsn x \<notin> missing_lsns d \<and> (\<exists>c. content (js_lsn x) = Inr c \<and> x = c\<lparr>js_lsn := js_lsn x\<rparr>)"
        using f Inr x by fastforce
      moreover have "present j (js_lsn x)" using calculation False cov unfolding covered_def by blast
      ultimately show ?thesis using False by simp
    qed
    then show ?thesis using f Inr unfolding d_def j_def by (simp add: Let_def)
  qed
qed

text \<open>The backend of the witness keeps the entries themselves and can read them.\<close>

definition entry_slot :: "int \<Rightarrow> nat slot_entry \<Rightarrow> journal_slot" where
  "entry_slot lsn e = \<lparr>js_lsn = lsn, js_is_empty = False, js_all_zeros = se_zeros e, js_lba_off_bytes = se_lba e, js_len_bytes = se_len e,
     js_data = \<lparr>sg_size = ucast (se_len e), iovs = [[of_nat (se_blkid e)]]\<rparr>\<rparr>"

definition map_ops :: "(nat, int \<Rightarrow> nat slot_entry option) journal_backend" where
  "map_ops = \<lparr>alloc_write_data = (\<lambda>sg n j. (Inr 7, j)), write_slot = (\<lambda>lsn e j. (Some (Inr ()), j(lsn \<mapsto> e))),
     read_slot = (\<lambda>lsn j. (case j lsn of None \<Rightarrow> Inl (Errc io_error) | Some e \<Rightarrow> Inr (entry_slot lsn e), j)),
     truncate_to = (\<lambda>lsn j. (Inr (), \<lambda>l. if l \<le> lsn then j l else None)), free_data = (\<lambda>b j. (Inr (), j)), no_blkid = 0\<rparr>"

lemma map_ops_contract: "craft_journal_backend map_ops (\<lambda>_. True) (\<lambda>j l. j l \<noteq> None) (\<lambda>j l e. j l = Some e)"
  by unfold_locales (auto simp: map_ops_def split: if_splits)

definition map_landed :: "(nat, int \<Rightarrow> nat slot_entry option) craft_sys" where
  "map_landed = \<lparr>sys_dev = CraftReplDev\<lparr>last_append_lsn := 2, missing_lsns := {0, 1}\<rparr>, sys_journal = [2 \<mapsto> slot_of_write demo_hdr 0 2 False 7], sys_writes = []\<rparr>"

lemma map_landed_reachable: "craft_reachable map_ops (\<lambda>_. None) map_landed"
proof -
  let ?w = "\<lparr>fl_hdr = demo_hdr, fl_dlsn = 2, fl_addr = 0, fl_len = 2, fl_data = demo_data, fl_zeros = False, fl_phase = Allocating\<rparr>"
  let ?d = "CraftReplDev\<lparr>last_append_lsn := 2, missing_lsns := {0, 1, 2}\<rparr>" and ?j = "[2 \<mapsto> slot_of_write demo_hdr 0 2 False 7]"
  have "write_preflight demo_hdr 2 demo_data False CraftReplDev = Inr (None, ?d)" by (auto simp: mem_defs craft_defs atLeastLessThan_def)
  then have "craft_reachable map_ops (\<lambda>_. None) \<lparr>sys_dev = ?d, sys_journal = \<lambda>_. None, sys_writes = [?w]\<rparr>"
    using craft_reachable.step [OF craft_reachable.start [of map_ops "\<lambda>_. None"] craft_step.begin_write, of demo_hdr 2 demo_data False _ 0 2] by simp
  then have "craft_reachable map_ops (\<lambda>_. None) \<lparr>sys_dev = ?d, sys_journal = \<lambda>_. None, sys_writes = [?w\<lparr>fl_phase := Journaling 7\<rparr>]\<rparr>"
    using craft_reachable.step [OF _ craft_step.alloc_ok [of _ "[]" ?w "[]" map_ops 7 "\<lambda>_. None"]] by (fastforce simp: write_alloc_def map_ops_def)
  then have "craft_reachable map_ops (\<lambda>_. None) \<lparr>sys_dev = ?d, sys_journal = ?j, sys_writes = [?w\<lparr>fl_phase := Landed\<rparr>]\<rparr>"
    using craft_reachable.step [OF _ craft_step.journal_ok [of _ "[]" "?w\<lparr>fl_phase := Journaling 7\<rparr>" "[]" 7 map_ops "()" ?j]]
    by (fastforce simp: write_journal_def map_ops_def)
  then show ?thesis
    using craft_reachable.step [OF _ craft_step.reply [of _ "[]" "?w\<lparr>fl_phase := Landed\<rparr>" "[]" "Inr (get_lsns ?d)" "sys_dev map_landed"]]
    by (fastforce simp: write_postflight_def map_landed_def demo_hdr_def CraftReplDev_def)
qed

definition map_verdict :: "(nat, int \<Rightarrow> nat slot_entry option) craft_sys" where
  "map_verdict = map_landed\<lparr>sys_dev := seed_empty {1} (sys_dev map_landed)\<rparr>"

theorem fetch_data_correct_witness:
  "fetch_data map_ops (sys_dev map_verdict) [0, 2, 1, 5] (sys_journal map_verdict) =
     (Inr [entry_slot 2 (slot_of_write demo_hdr 0 2 False 7), empty_slot 1], sys_journal map_verdict) \<and>
   map js_lsn [entry_slot 2 (slot_of_write demo_hdr 0 2 False 7), empty_slot 1] = [2, 1] \<and> js_is_empty (empty_slot 1)"
proof -
  have "craft_step map_ops map_landed map_verdict"
    unfolding map_verdict_def by (rule craft_step.verdict) (simp add: map_landed_def CraftReplDev_def)
  then have r: "craft_reachable map_ops (\<lambda>_. None) map_verdict" by (rule craft_reachable.step [OF map_landed_reachable])
  have eq: "fetch_data map_ops (sys_dev map_verdict) [0, 2, 1, 5] (sys_journal map_verdict) =
      (Inr [entry_slot 2 (slot_of_write demo_hdr 0 2 False 7), empty_slot 1], sys_journal map_verdict)"
    by (simp add: slot_kind_of_def map_verdict_def map_landed_def seed_empty_def CraftReplDev_def map_ops_def entry_slot_def)
  have rd: "\<forall>l. read_slot map_ops l (sys_journal map_verdict) =
      (case sys_journal map_verdict l of None \<Rightarrow> Inl (Errc io_error) | Some e \<Rightarrow> Inr (entry_slot l e), sys_journal map_verdict)"
    by (simp add: map_ops_def)
  from fetch_data_correct [OF map_ops_contract r _ rd, of "[0, 2, 1, 5]"] eq show ?thesis
    by (simp add: map_verdict_def map_landed_def seed_empty_def CraftReplDev_def)
qed

text \<open>
  On the HomeStore backend, which cannot read a slot back yet, a fetch fails as soon as the request names a
  slot with data, and only then.
\<close>

theorem fetch_data_homestore:
  "fst (fetch_data (make_homestore_journal_backend b0) d lsns j) =
     (if list_ex (\<lambda>l. slot_kind_of d l = Present) lsns then Inl (Errc not_supported)
      else Inr (map empty_slot (filter (\<lambda>l. slot_kind_of d l = Empty) lsns)))"
proof (induction lsns)
  case (Cons lsn lsns)
  then show ?case
    by (cases "slot_kind_of d lsn"; cases "fetch_data (make_homestore_journal_backend b0) d lsns j")
      (auto simp: hs_backend_defs split: sum.splits if_splits)
qed simp

section \<open>The bytes of a slot\<close>

lemma entry_bytes_length: "length (entry_bytes e) = 34"
  by (simp add: entry_bytes_def)

text \<open>
  The on-disk slot is unambiguous: the header is 34 bytes, and two blobs are equal only if their
  headers agree in magic, version, term, sequence number, range and kind, and their block references in every byte. The sequence
  number is one of 64 bits.
\<close>

theorem journal_entry_injective:
  assumes "in_i64 (je_lsn e)" "in_i64 (je_lsn e')"
  shows "entry_bytes e @ bs = entry_bytes e' @ bs' \<longleftrightarrow> e = e' \<and> bs = bs'"
proof
  assume eq: "entry_bytes e @ bs = entry_bytes e' @ bs'"
  then have "entry_bytes e = entry_bytes e'" and bs: "bs = bs'" by (simp_all add: entry_bytes_length)
  then have f: "le_bytes 4 (unat (je_magic e)) = le_bytes 4 (unat (je_magic e'))" "je_version e = je_version e'"
    "le_bytes 8 (unat (je_term e)) = le_bytes 8 (unat (je_term e'))"
    "le_bytes 8 (nat (je_lsn e mod 2 ^ 64)) = le_bytes 8 (nat (je_lsn e' mod 2 ^ 64))"
    "le_bytes 8 (unat (je_lba e)) = le_bytes 8 (unat (je_lba e'))"
    "le_bytes 4 (unat (je_len e)) = le_bytes 4 (unat (je_len e'))" "je_all_zeros e = je_all_zeros e'"
    by (auto simp: entry_bytes_def)
  have b: "nat (x mod 2 ^ 64) < 256 ^ 8" for x :: int by (simp add: nat_less_iff)
  have "nat (je_lsn e mod 2 ^ 64) = nat (je_lsn e' mod 2 ^ 64)" using f(4) le_bytes_inj [OF b b] by blast
  then have "je_lsn e mod 2 ^ 64 = je_lsn e' mod 2 ^ 64" by (simp add: nat_eq_iff2)
  then have "(2 :: int) ^ 64 dvd je_lsn e - je_lsn e'" by (simp add: mod_eq_dvd_iff)
  moreover have "\<bar>je_lsn e - je_lsn e'\<bar> < 2 ^ 64" using assms by (auto simp: in_i64_def INT64_MAX_def abs_less_iff)
  ultimately have "je_lsn e = je_lsn e'" using dvd_imp_le_int [of "je_lsn e - je_lsn e'" "2 ^ 64"] by auto
  then show "e = e' \<and> bs = bs'" using f bs
    by (intro conjI CraftJournalEntry.equality) (auto simp: u32_bytes_inj u64_bytes_inj)
qed simp

theorem journal_entry_injective_witness:
  "entry_bytes (slot_header 5 (slot_of_write demo_hdr 0 2 False (7::nat))) @ [1] \<noteq>
   entry_bytes (slot_header 6 (slot_of_write demo_hdr 0 2 False (7::nat))) @ [1]"
  using journal_entry_injective [of "slot_header 5 (slot_of_write demo_hdr 0 2 False (7::nat))"
      "slot_header 6 (slot_of_write demo_hdr 0 2 False (7::nat))" "[1]" "[1]"]
  by (simp add: slot_header_def in_i64_def INT64_MAX_def)

end
