(* ===== verification/Craft_Api.thy ===== *)
theory Craft_Api
  imports Craft_Correct Manager_Volume Repl_Listener
begin

text \<open>
  The CRAFT verbs of the public interface (src/lib/craft/craft_api.cpp), which forward to the \<^verbatim>\<open>CraftReplDev\<close> of a volume, and the callbacks of the listener of that device
  (\<^verbatim>\<open>CraftRaftListener\<close>, src/lib/craft/craft_repl_dev.hpp). A null handle is \<^term>\<open>None\<close>.
\<close>

section \<open>Volumes with a CRAFT backend\<close>

record 'j craft_volume = volume +
  craft_dev :: "(craft_state \<times> 'j) option"

text \<open>Both constructors leave the member \<^verbatim>\<open>craft_dev_\<close> null.\<close>

definition craft_volume_of :: "volume \<Rightarrow> 'j craft_volume" where
  "craft_volume_of v = volume.extend v \<lparr>craft_dev = None\<rparr>"

definition craft_dev_of :: "'j craft_volume option \<Rightarrow> (craft_state \<times> 'j) option" where
  "craft_dev_of vol = (case vol of None \<Rightarrow> None | Some v \<Rightarrow> craft_dev v)"

definition no_craft_backend :: error_condition where
  "no_craft_backend = Errc not_supported"

definition put_dev :: "craft_state \<times> 'j \<Rightarrow> 'j craft_volume option \<Rightarrow> 'j craft_volume option" where
  "put_dev w vol = map_option (\<lambda>v. v\<lparr>craft_dev := Some w\<rparr>) vol"

section \<open>The verbs\<close>

definition api_login :: "'j craft_volume option \<Rightarrow> u64 \<Rightarrow> 'r res \<times> 'j craft_volume option" where
  "api_login vol token =
     (case craft_dev_of vol of
        None \<Rightarrow> (Inl no_craft_backend, vol)
      | Some (d, j) \<Rightarrow> (let (r, d') = login token d in (r, put_dev (d', j) vol)))"

definition api_logout :: "'j craft_volume option \<Rightarrow> client_hdr \<Rightarrow> unit res \<times> 'j craft_volume option" where
  "api_logout vol hdr =
     (case craft_dev_of vol of
        None \<Rightarrow> (Inl no_craft_backend, vol)
      | Some (d, j) \<Rightarrow> (let (r, d') = logout hdr d in (r, put_dev (d', j) vol)))"

definition api_write ::
  "('b, 'j) journal_backend \<Rightarrow> (nat \<Rightarrow> craft_state \<times> 'j \<Rightarrow> craft_state \<times> 'j) \<Rightarrow> 'j craft_volume option \<Rightarrow> client_hdr \<Rightarrow> int \<Rightarrow> u64 \<Rightarrow> u64 \<Rightarrow> sg_list \<Rightarrow> bool \<Rightarrow>
     (lsn_pair res option \<times> 'j craft_volume option) checked" where
  "api_write ops others vol hdr dlsn addr len data all_zeros =
     (case craft_dev_of vol of
        None \<Rightarrow> Inr (Some (Inl no_craft_backend), vol)
      | Some (d, j) \<Rightarrow> bind_sum (craft_write ops others hdr dlsn addr len data all_zeros d j) (\<lambda>(r, d', j'). Inr (r, put_dev (d', j') vol)))"

definition api_read :: "'j craft_volume option \<Rightarrow> client_hdr \<Rightarrow> int \<Rightarrow> u64 \<Rightarrow> u64 \<Rightarrow> sg_list \<Rightarrow> 'r res \<times> 'j craft_volume option" where
  "api_read vol hdr read_lsn addr len dest =
     (case craft_dev_of vol of
        None \<Rightarrow> (Inl no_craft_backend, vol)
      | Some (d, j) \<Rightarrow> (let (r, d') = craft_read hdr read_lsn addr len dest d in (r, put_dev (d', j) vol)))"

definition api_keep_alive :: "'j craft_volume option \<Rightarrow> client_hdr \<Rightarrow> lsn_pair res \<times> 'j craft_volume option" where
  "api_keep_alive vol hdr =
     (case craft_dev_of vol of
        None \<Rightarrow> (Inl no_craft_backend, vol)
      | Some (d, j) \<Rightarrow> (let (r, d') = keep_alive hdr d in (r, put_dev (d', j) vol)))"

definition api_request_resolution :: "'j craft_volume option \<Rightarrow> client_hdr \<Rightarrow> int \<Rightarrow> 'r res \<times> 'j craft_volume option" where
  "api_request_resolution vol hdr upto_lsn =
     (case craft_dev_of vol of
        None \<Rightarrow> (Inl no_craft_backend, vol)
      | Some (d, j) \<Rightarrow> (let (r, d') = request_resolution hdr upto_lsn d in (r, put_dev (d', j) vol)))"

lemmas api_defs = api_login_def api_logout_def api_read_def api_keep_alive_def api_request_resolution_def
lemmas verb_defs = login_def logout_def craft_read_def keep_alive_def request_resolution_def

section \<open>The listener of the Raft group\<close>

text \<open>
  The callbacks other than \<^verbatim>\<open>on_commit\<close> (\<open>raft_on_commit\<close>): what each returns, and that none touches the device. The hints of an allocation and the snapshot are values of the storage
  layer; the default hints and the absence of a snapshot are all that is returned.
\<close>

fun raft_callback :: "repl_event \<Rightarrow> craft_state \<Rightarrow> repl_reply \<times> craft_state" where
  "raft_callback (PreCommit lsn) d = (Flag True, d)"
| "raft_callback OnError d = (Void, d)"
| "raft_callback (BlkAllocHints data_size) d = (DefaultHints, d)"
| "raft_callback (OnDestroy group_id) d = (Void, d)"
| "raft_callback StartReplaceMember d = (Void, d)"
| "raft_callback CompleteReplaceMember d = (Void, d)"
| "raft_callback CleanReplaceMemberTask d = (Void, d)"
| "raft_callback RemoveMember d = (Void, d)"
| "raft_callback (Rollback lsn) d = (Void, d)"
| "raft_callback Restart d = (Void, d)"
| "raft_callback CreateSnapshot d = (Status (Inr ()), d)"
| "raft_callback ApplySnapshot d = (Flag True, d)"
| "raft_callback LastSnapshot d = (NoSnapshot, d)"
| "raft_callback ReadSnapshotObj d = (Count 0, d)"
| "raft_callback WriteSnapshotObj d = (Void, d)"
| "raft_callback FreeUserSnpCtx d = (Void, d)"
| "raft_callback (NoSpaceLeft lsn) d = (Void, d)"
| "raft_callback (NotifyCommittedLsn lsn) d = (Void, d)"
| "raft_callback (ConfigRollback lsn) d = (Void, d)"

interpretation raft: inert_listener raft_callback
proof
  fix ev and s s' :: craft_state
  show "snd (raft_callback ev s) = s" "fst (raft_callback ev s) = fst (raft_callback ev s')" by (cases ev; simp)+
qed simp

section \<open>Writes through the public interface\<close>

lemma put_dev_same: "craft_dev_of vol = Some w \<Longrightarrow> put_dev w vol = vol"
  by (auto simp: craft_dev_of_def put_dev_def split: option.splits)

lemma put_dev_base: "map_option volume.truncate (put_dev w vol) = map_option volume.truncate vol"
  by (cases vol) (simp_all add: put_dev_def volume.truncate_def)

text \<open>
  Other operations leave the slot \<open>dlsn\<close> of the journal and the contents of the block \<open>b\<close> alone: none of them writes this number, cuts the log below it or frees this block. They may do anything else.
\<close>

definition spares :: "int \<Rightarrow> 'b \<Rightarrow> (craft_state \<times> ('b, 'h) hs_backend \<Rightarrow> craft_state \<times> ('b, 'h) hs_backend) \<Rightarrow> bool" where
  "spares dlsn b f \<longleftrightarrow> (\<forall>d j. case f (d, j) of (d', j') \<Rightarrow>
     hb_storage j' = hb_storage j \<and> hs_record j' dlsn = hs_record j dlsn \<and> hs_block j' b = hs_block j b)"

lemma sparesD: "spares dlsn b f \<Longrightarrow> f (d, j) = (d', j') \<Longrightarrow>
    hb_storage j' = hb_storage j \<and> hs_record j' dlsn = hs_record j dlsn \<and> hs_block j' b = hs_block j b"
  unfolding spares_def by (auto split: prod.splits)

text \<open>What an acknowledged write of a new slot leaves in the journal and in the blocks.\<close>

lemma acked_slot_stored:
  assumes inv: "craft_wf d" "hs_invar j" and new: "\<not> already_written dlsn d"
    and run: "craft_write (make_homestore_journal_backend b0) others hdr dlsn addr len data z d j = Inr (Some (Inr lp), d', j')"
    and quiet: "\<And>b k. fst (write_alloc (make_homestore_journal_backend b0) len data z j) = Inr b \<Longrightarrow> spares dlsn b (others k)"
  shows "\<exists>b. fst (write_alloc (make_homestore_journal_backend b0) len data z j) = Inr b \<and>
    hs_slot_is j' dlsn (slot_of_write hdr addr len z b) \<and> (if z then b = b0 else hs_block j' b = Some (iovs data))"
proof -
  obtain b j1 d2 j2 j3 d4 where c: "write_alloc (make_homestore_journal_backend b0) len data z j = (Inr b, j1)"
    "others 0 (note_append (last_append_lsn d + 1) dlsn d, j1) = (d2, j2)"
    "write_journal (make_homestore_journal_backend b0) hdr dlsn addr len z b j2 = (Some (Inr ()), j3)" "others 1 (d2, j3) = (d4, j')"
    using craft_write_acked [OF inv(1) run] new by blast
  have q: "spares dlsn b (others k)" for k using quiet c(1) by simp
  note a = hs_write_alloc [OF inv(2) c(1)] and s0 = sparesD [OF q c(2)] and s1 = sparesD [OF q c(4)]
  have "hs_invar j2" using inv(2) a(1) s0 by (simp add: hs_invar_def)
  note w = hs_write_journal [OF this c(3)]
  have "hs_slot_is j' dlsn (slot_of_write hdr addr len z b)" using w(2) s1 by (auto simp: hs_slot_is_def hs_record_def)
  moreover have "hs_block j' b = hs_block j1 b" using s0 s1 w(3) by simp
  ultimately show ?thesis using a(3) c(1) by (auto split: if_splits)
qed

text \<open>
  C14. A CRAFT write through the public interface is refused, with the volume as it was, when the handle is null or the volume has no CRAFT backend. Otherwise it is the write of the backend. If it
  is acknowledged there are two cases. If the device had the number before, whatever data it had then, nothing is written and the volume is as it was. If not, and the operations that run meanwhile spare this slot and this block, the
  record of the slot in the log is the image of the term, the address, the low 32 bits of the length, the kind and the block that the data service allocated for this write, and that block holds the buffers of the
  write; a write of zeros has no block. In both cases the slot is durable, it is not missing any more, the answer is the current pair of watermarks, and sending the write again gets the same
  answer without any effect, unless the slot was declared empty or cut off meanwhile. Nothing else of the volume changes.
\<close>

theorem craft_api_write:
  fixes vol :: "('b, 'h) hs_backend craft_volume option"
  assumes "\<forall>d j. craft_dev_of vol = Some (d, j) \<longrightarrow> craft_wf d \<and> hs_invar j \<and> covered d (hs_present j)"
    and "\<forall>d j b k. craft_dev_of vol = Some (d, j) \<and> fst (write_alloc (make_homestore_journal_backend b0) len data z j) = Inr b \<longrightarrow> spares dlsn b (others k)"
    and "api_write (make_homestore_journal_backend b0) others vol hdr dlsn addr len data z = Inr (r, vol')"
  shows "map_option volume.truncate vol' = map_option volume.truncate vol \<and>
    (case craft_dev_of vol of
       None \<Rightarrow> r = Some (Inl (Errc not_supported)) \<and> vol' = vol
     | Some (d, j) \<Rightarrow> \<forall>lp. r = Some (Inr lp) \<longrightarrow>
         (\<exists>d' j'. craft_dev_of vol' = Some (d', j') \<and> hs_present j' dlsn \<and> dlsn \<notin> missing_lsns d' \<and> lp = get_lsns d' \<and>
            (if already_written dlsn d then vol' = vol
             else \<exists>b. fst (write_alloc (make_homestore_journal_backend b0) len data z j) = Inr b \<and>
               hs_record j' dlsn = Some (slot_blob (blkid_serialize (hb_storage j')) dlsn
                 \<lparr>se_term = hdr_term hdr, se_lba = addr, se_len = ucast len, se_blkid = b, se_zeros = z\<rparr>) \<and>
               (if z then b = b0 else hs_block j' b = Some (iovs data))) \<and>
            (dlsn \<notin> empty_lsns d' \<and> dlsn \<le> last_append_lsn d' \<longrightarrow>
               api_write (make_homestore_journal_backend b0) others' vol' hdr dlsn addr len data z = Inr (r, vol'))))"
proof (cases "craft_dev_of vol")
  case None
  then show ?thesis using assms(3) by (simp add: api_write_def no_craft_backend_def)
next
  case (Some w)
  obtain d j where w: "w = (d, j)" by (cases w)
  note dev = Some [unfolded w]
  have inv: "craft_wf d" "hs_invar j" "covered d (hs_present j)" using assms(1) dev by blast+
  have quiet: "\<And>b k. fst (write_alloc (make_homestore_journal_backend b0) len data z j) = Inr b \<Longrightarrow> spares dlsn b (others k)"
    using assms(2) dev by blast
  obtain d' j' where run: "craft_write (make_homestore_journal_backend b0) others hdr dlsn addr len data z d j = Inr (r, d', j')" and vol': "vol' = put_dev (d', j') vol"
    using assms(3) dev by (auto simp: api_write_def bind_sum_eq_Inr)
  have dev': "craft_dev_of vol' = Some (d', j')" using dev by (auto simp: vol' craft_dev_of_def put_dev_def split: option.splits)
  have base: "map_option volume.truncate vol' = map_option volume.truncate vol" using put_dev_base vol' by blast
  show ?thesis
  proof (cases "\<exists>lp. r = Some (Inr lp)")
    case True
    then obtain lp where r: "r = Some (Inr lp)" by blast
    note run' = run [unfolded r]
    have ack: "dlsn \<notin> missing_lsns d'" "lp = get_lsns d'" "already_written dlsn d \<Longrightarrow> d' = d \<and> j' = j"
      using craft_write_acked [OF inv(1) run'] by (auto simp: already_written_def write_postflight_def get_lsns_def split: if_splits)
    have stored: "\<not> already_written dlsn d \<Longrightarrow> \<exists>b. fst (write_alloc (make_homestore_journal_backend b0) len data z j) = Inr b \<and>
        hs_slot_is j' dlsn (slot_of_write hdr addr len z b) \<and> (if z then b = b0 else hs_block j' b = Some (iovs data))"
      by (rule acked_slot_stored [OF inv(1,2) _ run' quiet])
    have present: "hs_present j' dlsn"
    proof (cases "already_written dlsn d")
      case True
      then show ?thesis using ack(3) inv(3) by (auto simp: already_written_def covered_def)
    next
      case False
      then show ?thesis using stored hs.slot_present by blast
    qed
    have again: "api_write (make_homestore_journal_backend b0) others' vol' hdr dlsn addr len data z = Inr (r, vol')"
      if "dlsn \<notin> empty_lsns d'" "dlsn \<le> last_append_lsn d'"
      using acked_again [OF inv(1) run' that] dev' put_dev_same [OF dev'] r by (simp add: api_write_def)
    have same: "vol' = vol" if "already_written dlsn d" using ack(3) [OF that] put_dev_same [OF dev] vol' by simp
    have "if already_written dlsn d then vol' = vol
        else \<exists>b. fst (write_alloc (make_homestore_journal_backend b0) len data z j) = Inr b \<and>
          hs_record j' dlsn = Some (slot_blob (blkid_serialize (hb_storage j')) dlsn
            \<lparr>se_term = hdr_term hdr, se_lba = addr, se_len = ucast len, se_blkid = b, se_zeros = z\<rparr>) \<and>
          (if z then b = b0 else hs_block j' b = Some (iovs data))"
      using same stored by (simp add: hs_slot_is_def hs_record_def slot_of_write_def)
    then show ?thesis using base dev dev' r present ack(1,2) again by auto
  qed (use base dev in simp)
qed

definition demo_volume :: "volume" where
  "demo_volume = volume_of_info \<lparr>vi_id = 7, vi_size_bytes = 4096, vi_page_size = 4096, vi_name = ''vol'', vi_ordinal = 0, vi_repl_mode = REPL_CRAFT\<rparr>"

theorem craft_api_write_witness:
  "api_write mem_ops (\<lambda>_. id) (Some (craft_volume_of demo_volume)) demo_hdr 0 4096 2 demo_data False = Inr (Some (Inl (Errc not_supported)), Some (craft_volume_of demo_volume)) \<and>
   (\<exists>lp vol' d' j'. api_write mem_ops (\<lambda>_. id) (Some ((craft_volume_of demo_volume)\<lparr>craft_dev := Some (CraftReplDev, mem_backend)\<rparr>)) demo_hdr 0 4096 2 demo_data False = Inr (Some (Inr lp), vol') \<and>
      craft_dev_of vol' = Some (d', j') \<and> hs_present j' 0 \<and> hs_block j' 0 = Some [[1, 2]] \<and> lp = get_lsns d')"
proof
  let ?n = "Some (craft_volume_of demo_volume) :: (nat, mem_state) hs_backend craft_volume option"
  have n: "craft_dev_of ?n = None" by (simp add: craft_dev_of_def craft_volume_of_def volume.extend_def)
  then obtain r vol' where run: "api_write mem_ops (\<lambda>_. id) ?n demo_hdr 0 4096 2 demo_data False = Inr (r, vol')" by (simp add: api_write_def)
  have "\<forall>d j. craft_dev_of ?n = Some (d, j) \<longrightarrow> craft_wf d \<and> hs_invar j \<and> covered d (hs_present j)" using n by simp
  from craft_api_write [OF this _ run [unfolded mem_ops_def]]
  show "api_write mem_ops (\<lambda>_. id) ?n demo_hdr 0 4096 2 demo_data False = Inr (Some (Inl (Errc not_supported)), ?n)" using run n by simp
next
  let ?v = "Some ((craft_volume_of demo_volume)\<lparr>craft_dev := Some (CraftReplDev, mem_backend)\<rparr>)"
  have v: "craft_dev_of ?v = Some (CraftReplDev, mem_backend)" by (simp add: craft_dev_of_def)
  then have inv: "\<forall>d j. craft_dev_of ?v = Some (d, j) \<longrightarrow> craft_wf d \<and> hs_invar j \<and> covered d (hs_present j)"
    using craft_wf_init mem_backend_ok covered_init by simp
  have quiet: "\<forall>d j b k. craft_dev_of ?v = Some (d, j) \<and> fst (write_alloc mem_ops 2 demo_data False j) = Inr b \<longrightarrow> spares 0 b ((\<lambda>_. id) k)"
    by (simp add: spares_def)
  obtain lp vol' where run: "api_write mem_ops (\<lambda>_. id) ?v demo_hdr 0 4096 2 demo_data False = Inr (Some (Inr lp), vol')"
    using demo_write v by (simp add: api_write_def)
  have blk: "fst (write_alloc mem_ops 2 demo_data False mem_backend) = Inr 0" and new: "\<not> already_written 0 CraftReplDev"
    by (simp_all add: write_alloc_def mem_defs hs_backend_defs already_written_def CraftReplDev_def)
  from craft_api_write [OF inv quiet [unfolded mem_ops_def] run [unfolded mem_ops_def], of "\<lambda>_. id"] v blk new
  show "\<exists>lp vol' d' j'. api_write mem_ops (\<lambda>_. id) ?v demo_hdr 0 4096 2 demo_data False = Inr (Some (Inr lp), vol') \<and>
      craft_dev_of vol' = Some (d', j') \<and> hs_present j' 0 \<and> hs_block j' 0 = Some [[1, 2]] \<and> lp = get_lsns d'"
    using run by (auto simp: mem_ops_def demo_data_def)
qed

end
