(* ===== verification/Index_Text.thy ===== *)
theory Index_Text
  imports Volume_Example HB_Text
begin

text \<open>
  Keys and values of the volume index as bytes and as text (src/lib/volume/index_fixed_kv.hpp and index_prefix_kv.hpp): the image of a whole object, the comparison operators and the stream
  operators. The classes have virtual functions, so that an object starts with a pointer to its function table; the image takes it along. The bytes of the pointer, \<open>vp\<close>, and what the compiler puts
  behind the last field, \<open>pad\<close>, are parameters. A local variable that is never assigned holds an arbitrary value, a parameter \<open>junk\<close>.
\<close>

definition vptr_size :: nat where "vptr_size = 8"

section \<open>The key of the fixed index\<close>

definition fixed_key_size :: nat where "fixed_key_size = vptr_size + 8"

definition fixed_key_serialize :: "u8 list \<Rightarrow> lba_t \<Rightarrow> u8 list" where
  "fixed_key_serialize vp k = vp @ le_bytes 8 (unat k)"

definition fixed_key_deserialize :: "u8 list \<Rightarrow> lba_t checked" where
  "fixed_key_deserialize b = (if length b < fixed_key_size then Inl OutOfBounds else Inr (of_nat (le_value (take 8 (drop vptr_size b)))))"

definition fixed_key_less :: "lba_t \<Rightarrow> lba_t \<Rightarrow> bool" where
  "fixed_key_less a b \<longleftrightarrow> fixed_compare a b < 0"

definition fixed_key_eq :: "lba_t \<Rightarrow> lba_t \<Rightarrow> bool" where
  "fixed_key_eq a b \<longleftrightarrow> fixed_compare a b = 0"

definition fixed_key_to_string :: "lba_t \<Rightarrow> string" where
  "fixed_key_to_string k = show_nat (unat k)"

definition fixed_key_print :: "string \<Rightarrow> lba_t \<Rightarrow> string" where
  "fixed_key_print os k = os @ fixed_key_to_string k"

definition fixed_key_read :: "lba_t \<Rightarrow> istream \<Rightarrow> lba_t \<times> istream" where
  "fixed_key_read junk is = (let (v, is1) = read_uint 64 is in (case v of None \<Rightarrow> junk | Some n \<Rightarrow> of_nat n, is1))"

section \<open>The value of the fixed index\<close>

definition fixed_value_serialize :: "blk_codec \<Rightarrow> u8 list \<Rightarrow> u8 list \<Rightarrow> index_value \<Rightarrow> u8 list" where
  "fixed_value_serialize codec vp pad v = vp @ blk_bytes codec (iv_blkid v) @ le_bytes 2 (unat (iv_checksum v)) @ pad"

definition fixed_value_deserialize :: "blk_codec \<Rightarrow> u8 list \<Rightarrow> index_value checked" where
  "fixed_value_deserialize codec b =
     (if length b < vptr_size + blk_sizeof codec + 2 then Inl OutOfBounds
      else Inr \<lparr>iv_blkid = blk_parse codec (take (blk_sizeof codec) (drop vptr_size b)),
                iv_checksum = of_nat (le_value (take 2 (drop (vptr_size + blk_sizeof codec) b)))\<rparr>)"

definition fixed_value_to_string :: "(blk_id \<Rightarrow> string) \<Rightarrow> index_value \<Rightarrow> string" where
  "fixed_value_to_string blk_to_string v = blk_to_string (iv_blkid v) @ '' csum='' @ show_nat (unat (iv_checksum v))"

definition fixed_value_print :: "(blk_id \<Rightarrow> string) \<Rightarrow> string \<Rightarrow> index_value \<Rightarrow> string" where
  "fixed_value_print blk_to_string os v = os @ fixed_value_to_string blk_to_string v"

text \<open>What is read is dropped: the value becomes the one of a default block address.\<close>

definition fixed_value_read :: "blk_api \<Rightarrow> istream \<Rightarrow> index_value \<times> istream" where
  "fixed_value_read api is =
     (let (_, is1) = read_uint 32 is; (_, is2) = read_char is1; (_, is3) = read_uint 32 is2 in (\<lparr>iv_blkid = no_blk api, iv_checksum = 0\<rparr>, is3))"

definition fixed_value_eq :: "index_value \<Rightarrow> index_value \<Rightarrow> bool" where
  "fixed_value_eq a b \<longleftrightarrow> iv_blkid a = iv_blkid b \<and> iv_checksum a = iv_checksum b"

section \<open>The key of the prefix index\<close>

definition prefix_key_size :: nat where "prefix_key_size = vptr_size + 8"

definition prefix_key_image :: "u8 list \<Rightarrow> prefix_key \<Rightarrow> u8 list" where
  "prefix_key_image vp k = vp @ le_bytes 4 (unat (m_lba_base k)) @ le_bytes 4 (unat (m_lba_offset k))"

definition prefix_key_of_image :: "u8 list \<Rightarrow> prefix_key checked" where
  "prefix_key_of_image b =
     (if length b < prefix_key_size then Inl OutOfBounds
      else Inr \<lparr>m_lba_base = of_nat (le_value (take 4 (drop vptr_size b))), m_lba_offset = of_nat (le_value (take 4 (drop (vptr_size + 4) b)))\<rparr>)"

definition prefix_key_less :: "prefix_key \<Rightarrow> prefix_key \<Rightarrow> bool" where
  "prefix_key_less a b \<longleftrightarrow> prefix_compare a b < 0"

definition prefix_key_eq :: "prefix_key \<Rightarrow> prefix_key \<Rightarrow> bool" where
  "prefix_key_eq a b \<longleftrightarrow> prefix_compare a b = 0"

text \<open>A range of keys is given by its two ends.\<close>

definition range_start_key :: "prefix_key \<times> prefix_key \<Rightarrow> lba_t" where
  "range_start_key r = prefix_key_lba (fst r)"

definition range_end_key :: "prefix_key \<times> prefix_key \<Rightarrow> lba_t" where
  "range_end_key r = prefix_key_lba (snd r)"

definition prefix_key_to_string :: "prefix_key \<Rightarrow> string" where
  "prefix_key_to_string k = show_nat (unat (prefix_key_lba k))"

definition prefix_key_print :: "string \<Rightarrow> prefix_key \<Rightarrow> string" where
  "prefix_key_print os k = os @ prefix_key_to_string k"

definition prefix_key_read :: "u32 \<Rightarrow> u32 \<Rightarrow> istream \<Rightarrow> prefix_key \<times> istream" where
  "prefix_key_read junk_base junk_offset is =
     (let (b, is1) = read_uint 32 is; (_, is2) = read_char is1; (off, is3) = read_uint 32 is2
      in (\<lparr>m_lba_base = (case b of None \<Rightarrow> junk_base | Some n \<Rightarrow> of_nat n), m_lba_offset = (case off of None \<Rightarrow> junk_offset | Some n \<Rightarrow> of_nat n)\<rparr>, is3))"

section \<open>The value of the prefix index\<close>

definition prefix_value_image :: "u8 list \<Rightarrow> u8 list \<Rightarrow> prefix_value \<Rightarrow> u8 list" where
  "prefix_value_image vp pad v = vp @ le_bytes 4 (unat (m_blkid_prefix v)) @ le_bytes 4 (unat (m_blkid_suffix v)) @ le_bytes 2 (unat (pv_checksum v)) @ pad"

definition prefix_value_of_image :: "u8 list \<Rightarrow> prefix_value checked" where
  "prefix_value_of_image b =
     (if length b < vptr_size + 10 then Inl OutOfBounds
      else Inr \<lparr>m_blkid_prefix = of_nat (le_value (take 4 (drop vptr_size b))), m_blkid_suffix = of_nat (le_value (take 4 (drop (vptr_size + 4) b))),
                pv_checksum = of_nat (le_value (take 2 (drop (vptr_size + 8) b)))\<rparr>)"

definition prefix_value_to_string :: "(blk_id \<Rightarrow> string) \<Rightarrow> prefix_value \<Rightarrow> string" where
  "prefix_value_to_string blk_to_string v = blk_to_string (prefix_value_blkid v) @ '' csum='' @ show_nat (unat (pv_checksum v))"

definition prefix_value_print :: "(blk_id \<Rightarrow> string) \<Rightarrow> string \<Rightarrow> prefix_value \<Rightarrow> string" where
  "prefix_value_print blk_to_string os v = os @ prefix_value_to_string blk_to_string v"

definition prefix_value_read :: "(blk_id \<Rightarrow> u64) \<Rightarrow> blk_api \<Rightarrow> istream \<Rightarrow> prefix_value \<times> istream" where
  "prefix_value_read to_integer api is =
     (let (_, is1) = read_uint 32 is; (_, is2) = read_char is1; (_, is3) = read_uint 32 is2 in (prefix_value_of to_integer (no_blk api) 0, is3))"

definition prefix_value_eq :: "prefix_value \<Rightarrow> prefix_value \<Rightarrow> bool" where
  "prefix_value_eq a b \<longleftrightarrow> m_blkid_prefix a = m_blkid_prefix b \<and> m_blkid_suffix a = m_blkid_suffix b \<and> pv_checksum a = pv_checksum b"

section \<open>Images\<close>

lemma take_le_bytes [simp]: "n = m \<Longrightarrow> take n (le_bytes m x @ rest) = le_bytes m x" "n = m \<Longrightarrow> drop n (le_bytes m x @ rest) = rest"
  by simp_all

lemma le_word [simp]:
  "of_nat (le_value (le_bytes 8 (unat (x :: u64)))) = x" "of_nat (le_value (le_bytes 4 (unat (y :: u32)))) = y" "of_nat (le_value (le_bytes 2 (unat (z :: u16)))) = z"
  using u64_bound [of x] u32_bound [of y] u16_bound [of z] by (simp_all add: le_value_inverse)

lemma drop_vptr: "length vp = vptr_size \<Longrightarrow> drop (vptr_size + n) (vp @ xs) = drop n xs"
  by simp

lemma fixed_key_image: "length vp = vptr_size \<Longrightarrow> fixed_key_deserialize (fixed_key_serialize vp k) = Inr k"
  by (simp add: fixed_key_deserialize_def fixed_key_serialize_def fixed_key_size_def)

lemma fixed_value_image:
  assumes "length vp = vptr_size" "length (blk_bytes codec (iv_blkid v)) = blk_sizeof codec" "blk_parse codec (blk_bytes codec (iv_blkid v)) = iv_blkid v"
  shows "fixed_value_deserialize codec (fixed_value_serialize codec vp pad v) = Inr v"
  using assms by (simp add: fixed_value_deserialize_def fixed_value_serialize_def drop_vptr)

lemma prefix_key_image_inverse: "length vp = vptr_size \<Longrightarrow> prefix_key_of_image (prefix_key_image vp k) = Inr k"
  by (simp add: prefix_key_of_image_def prefix_key_image_def prefix_key_size_def drop_vptr)

lemma prefix_value_image_inverse: "length vp = vptr_size \<Longrightarrow> prefix_value_of_image (prefix_value_image vp pad v) = Inr v"
  by (simp add: prefix_value_of_image_def prefix_value_image_def drop_vptr)

text \<open>Values are equal when their members are.\<close>

lemma fixed_value_eq_iff: "fixed_value_eq a b \<longleftrightarrow> a = b"
  by (auto simp: fixed_value_eq_def intro: index_value.equality)

lemma prefix_value_eq_iff: "prefix_value_eq a b \<longleftrightarrow> a = b"
  by (auto simp: prefix_value_eq_def intro: prefix_value.equality)

text \<open>
  The image of a key or a value, written by any process and read by any other, gives the key or value back: the bytes of the function table pointer, which differ from process to process,
  and the padding do not matter. For a pointer that differs, the images differ, although the keys compare equal.
\<close>

lemma index_images_faithful:
  assumes "length vp = vptr_size" "blk_codec_ok codec"
  shows "fixed_key_deserialize (fixed_key_serialize vp k) = Inr k \<and> prefix_key_of_image (prefix_key_image vp (prefix_key_of k)) = Inr (prefix_key_of k) \<and>
    fixed_value_deserialize codec (fixed_value_serialize codec vp pad v) = Inr v \<and> prefix_value_of_image (prefix_value_image vp pad w) = Inr w \<and>
    (vp' \<noteq> vp \<longrightarrow> length vp' = vptr_size \<longrightarrow> fixed_key_serialize vp' k \<noteq> fixed_key_serialize vp k)"
proof -
  have "fixed_value_deserialize codec (fixed_value_serialize codec vp pad v) = Inr v"
    using fixed_value_image [OF assms(1)] assms(2) by (simp add: blk_codec_ok_def)
  moreover have "fixed_key_serialize vp' k \<noteq> fixed_key_serialize vp k" if "vp' \<noteq> vp" using that by (simp add: fixed_key_serialize_def)
  ultimately show ?thesis using fixed_key_image [OF assms(1)] prefix_key_image_inverse [OF assms(1)] prefix_value_image_inverse [OF assms(1)] by simp
qed

lemma index_images_faithful_witness:
  "fixed_key_deserialize (fixed_key_serialize (replicate 8 1) 5) = Inr 5 \<and> fixed_key_serialize (replicate 8 2) 5 \<noteq> fixed_key_serialize (replicate 8 1) 5"
  using index_images_faithful [OF _ ex_codec_ok, of "replicate 8 1" 5 "[]" undefined undefined "replicate 8 2"] by (simp add: vptr_size_def)

section \<open>Text\<close>

text \<open>
  A key of the fixed index is read back from the text it prints, wherever the number ends, and the stream goes on behind it. A key of the prefix index prints one number but reads two with a character
  between them: whatever it prints, reading it back fails and leaves the offset of the key unassigned.
\<close>

lemma index_key_text:
  assumes "rest = [] \<or> \<not> is_digit (List.hd rest)"
  shows "fixed_key_read junk \<lparr>is_rest = fixed_key_print [] k @ rest, is_fail = False\<rparr> = (k, \<lparr>is_rest = rest, is_fail = False\<rparr>) \<and>
    (let (q, is) = prefix_key_read jb jo \<lparr>is_rest = prefix_key_print [] p, is_fail = False\<rparr> in is_fail is \<and> m_lba_offset q = jo)"
proof -
  have "read_uint 64 \<lparr>is_rest = show_nat (unat k) @ rest, is_fail = False\<rparr> = (Some (unat k), \<lparr>is_rest = rest, is_fail = False\<rparr>)"
    using read_show [OF assms, of 64 "unat k"] u64_bound [of k] by simp
  moreover have "let (q, is) = prefix_key_read jb jo \<lparr>is_rest = prefix_key_print [] p, is_fail = False\<rparr> in is_fail is \<and> m_lba_offset q = jo"
    using read_show [of "[]" 32 "unat (prefix_key_lba p)"] by (simp add: prefix_key_read_def prefix_key_print_def prefix_key_to_string_def)
  ultimately show ?thesis by (simp add: fixed_key_read_def fixed_key_print_def fixed_key_to_string_def)
qed

lemma index_key_text_witness:
  "fixed_key_read 0 \<lparr>is_rest = ''1207,'', is_fail = False\<rparr> = (1207, \<lparr>is_rest = '','', is_fail = False\<rparr>) \<and>
   m_lba_offset (fst (prefix_key_read 1 9 \<lparr>is_rest = ''1207'', is_fail = False\<rparr>)) = 9"
proof -
  have s: "fixed_key_print [] 1207 = ''1207''" "prefix_key_print [] (prefix_key_of 1207) = ''1207''"
    by (simp_all add: fixed_key_print_def fixed_key_to_string_def prefix_key_print_def prefix_key_to_string_def show_nat.simps digit_def char_of_def bit_0)
  have "'','' = [] \<or> \<not> is_digit (List.hd '','')" by (simp add: is_digit_def)
  from index_key_text [OF this, of 0 1207 1 9 "prefix_key_of 1207"] show ?thesis unfolding s by (simp add: case_prod_beta' Let_def)
qed

end
