(* ===== verification/Chunk_Dump.thy ===== *)
theory Chunk_Dump
  imports Chunk_Steps HB_Text
begin

text \<open>
  What the chunk selector prints about itself (src/lib/volume/volume_chunk_selector.cpp: \<^verbatim>\<open>dump_per_pdev_chunks\<close>, \<^verbatim>\<open>dump_chunks\<close>). The vector \<^verbatim>\<open>m_volume_chunks\<close> has
  \<^term>\<open>MAX_NUM_VOLUMES\<close> entries; a pointer to a chunk in the vector of a volume points to an object of \<^verbatim>\<open>m_all_chunks\<close>.
\<close>

text \<open>One line of the log for each device: the device, the number of its free chunks and their ids.\<close>

definition dump_per_pdev_chunks :: "selector \<Rightarrow> (pdev_id_t \<times> nat \<times> string) list" where
  "dump_per_pdev_chunks s = map (\<lambda>(pdev, cids). (pdev, length cids, concat (map (\<lambda>cid. show_nat (unat cid) @ '' '') cids))) (m_per_dev_chunks s)"

definition dump_chunk :: "selector \<Rightarrow> chunk_num_t option \<Rightarrow> string checked" where
  "dump_chunk s p =
     (case p of
        None \<Rightarrow> Inr []
      | Some cid \<Rightarrow>
          (case chunk_obj (m_all_chunks s) cid of
             None \<Rightarrow> Inl NullDeref
           | Some c \<Rightarrow> Inr (show_nat (unat (get_chunk_id c)) @ ''('' @ show_nat (available_blks c) @ ''/'' @ show_nat (get_total_blks c) @ '') '')))"

fun concat_checked :: "string checked list \<Rightarrow> string checked" where
  "concat_checked [] = Inr []"
| "concat_checked (x # xs) = bind_sum x (\<lambda>s. bind_sum (concat_checked xs) (\<lambda>t. Inr (s @ t)))"

definition dump_volume :: "selector \<Rightarrow> nat \<Rightarrow> string checked" where
  "dump_volume s i =
     (case m_volume_chunks s i of
        None \<Rightarrow> Inr []
      | Some volc \<Rightarrow>
          bind_sum (concat_checked (map (dump_chunk s) (m_chunks volc))) (\<lambda>str.
          Inr (''volume='' @ show_nat i @ '' num_chunks='' @ show_nat (length (m_chunks volc)) @ '' chunks='' @ str @ [CHR 0x0A])))"

definition dump_chunks :: "selector \<Rightarrow> string checked" where
  "dump_chunks s = concat_checked (map (dump_volume s) [0..<MAX_NUM_VOLUMES])"

lemma concat_checked_Inr: "\<forall>x\<in>set xs. \<exists>s. x = Inr s \<Longrightarrow> \<exists>s. concat_checked xs = Inr s"
  by (induction xs) auto

text \<open>In a state the selector can be in, no pointer it prints dangles.\<close>

lemma dump_chunks_total:
  assumes rel: "sel_rel s L"
  shows "\<exists>str. dump_chunks s = Inr str"
proof -
  have "\<exists>str. dump_chunk s p = Inr str" if v: "m_volume_chunks s i = Some volc" and p: "p \<in> set (m_chunks volc)" for i volc p
  proof (cases p)
    case (Some cid)
    then have "cid \<in> set (vol_ids s i)" using v p by (simp add: vol_ids_def set_somes)
    then obtain c where "chunk_obj (m_all_chunks s) cid = Some c" using vol_pdev [OF rel v, of cid] v by (auto simp: vol_ids_def)
    then show ?thesis using Some by (simp add: dump_chunk_def)
  qed (simp add: dump_chunk_def)
  then have "\<exists>str. dump_volume s i = Inr str" for i
    using concat_checked_Inr [of "map (dump_chunk s) (m_chunks volc)" for volc] by (cases "m_volume_chunks s i") (fastforce simp: dump_volume_def)+
  then show ?thesis unfolding dump_chunks_def by (intro concat_checked_Inr) auto
qed

end
