(* ===== verification/Spec2Isabelle.thy ===== *)
theory Spec2Isabelle
  imports Volume_Runs Volume_Metrics Manager_Life Manager_IO Manager_Callbacks Craft_Api Index_Text Chunk_Dump
begin

text \<open>
  A verification of HomeBlocks, the block volume service on top of the storage engine HomeStore. This theory imports the whole development and holds the properties that join its parts.

  \<^bold>\<open>The program.\<close> An instance (\<^verbatim>\<open>HomeBlocksImpl\<close>) keeps a map of volumes. A volume has an ordinal, a persisted superblock, an index table from logical block addresses to block addresses and checksums,
  a replication device that stores its data and its journal, and chunks of one physical device from which its blocks and the nodes of its index are allocated, handed out by two chunk selectors. A write
  allocates blocks, writes the data, updates the index and writes a journal entry with the mappings it made; the commit of the entry frees the blocks that were replaced. A read looks the range up, reads the
  runs of blocks and verifies the checksums. A removal is a coroutine in three stretches that gives everything back. At a start the storage layer calls the manager back with every superblock it finds on
  the devices. Beside this stands a replica device for volumes whose clients give the order of the writes (CRAFT), with a journal of slots in a log store.

  \<^bold>\<open>The theories and the code they model\<close> (files under src/src).
  \<^item> \<open>HB_Prelude\<close>, \<open>HB_Types\<close>, \<open>HB_Text\<close>: machine integers, the faults a process can run into, containers, the vocabulary of include/homeblks/home_blocks.hpp, signed arithmetic with overflow,
    little-endian bytes, numbers as text.
  \<^item> \<open>Chunk_Selector\<close>: lib/volume/volume_chunk_selector.hpp and .cpp. The record \<^typ>\<open>selector\<close> is the class \<^verbatim>\<open>VolumeChunkSelector\<close>, one definition per method; a resize task handed to a worker is an entry of a
    queue and is run by \<^const>\<open>run_pending_resize\<close>; it keeps the chunk list it captured, also when the volume is released before it runs (\<^typ>\<open>resize_target\<close>). Draws of the shared cursor by other threads are an
    argument of a round of the selection. \<open>Chunk_Ledger\<close> says what the selector promises, a ledger of the places of the chunks, and proves that every method is a move in it; \<open>Chunk_Steps\<close> is the
    selector as a state machine, \<open>Chunk_Shape\<close> what a restart relies on, \<open>Chunk_Dump\<close> the text it prints, \<open>Chunk_Correct\<close> the properties.
  \<^item> \<open>Craft_Journal\<close>, \<open>Craft_Repl_Dev\<close>: lib/craft/craft_repl_dev.hpp and .cpp, the interface of a journal backend, its contract, the backend on a log store, and the replica device. A write
    is cut into functions at its two suspension points, so that \<open>Craft_Steps\<close> can interleave any number of them; in \<^const>\<open>craft_write\<close>, the whole write, what other operations do during the two waits is an argument. \<open>Repl_Listener\<close>, \<open>Craft_Api\<close>: the callbacks of the listener and lib/craft/craft_api.cpp.
    \<open>Craft_Correct\<close>: the properties.
  \<^item> \<open>Index_KV\<close>, \<open>Index_Text\<close>: lib/volume/index_fixed_kv.hpp and index_prefix_kv.hpp, keys and values with their packing, bytes and text. \<open>Index_Table\<close>: index_fixed_table.hpp and index_prefix_table.hpp,
    the two builds of the index table over a B-tree. \<open>Index_Contract\<close>, \<open>Index_Correct\<close>: the contract of an index and the properties.
  \<^item> \<open>Volume_Read\<close>, \<open>Volume_Write\<close>, \<open>Volume_Journal\<close>: the read and write paths of lib/volume/volume.cpp and the commit and replay of lib/volume_mgr.cpp and lib/listener.cpp. \<open>Volume_Image\<close>, \<open>Volume_Blocks\<close>,
    \<open>Volume_Read_Contract\<close>, \<open>Volume_Write_Contract\<close>, \<open>Volume_Write_Index\<close>: the image of a volume as an array of bytes and the lemmas about one path each. \<open>Volume_Correct\<close>, \<open>Volume_Replay\<close>: the properties, of one
    request and of the journal as a whole; \<open>Volume_Example\<close>: a device and an index in memory for the examples.
  \<^item> \<open>Volume_Stages\<close>: the same write as a coroutine, cut at the points where another write can run in between. \<open>Volume_Steps\<close>: any number of writes in flight and the ledger of their blocks; \<open>Volume_Interleave\<close>: what
    a stage does to ledger and volume; \<open>Volume_Concurrent\<close>: runs and their journal; \<open>Volume_Runs\<close>: the properties, with the run of \<open>Volume_Run_Example\<close>. \<open>Volume_Metrics\<close>: the counters of lib/volume/volume.hpp.
  \<^item> \<open>Manager_Volume\<close>: the volume object and its superblock (lib/volume/volume.hpp and .cpp). \<open>Manager_Ops\<close>, \<open>Manager_System\<close>, \<open>Manager_Start\<close>: the record \<^typ>\<open>'r homeblks\<close> is the class \<^verbatim>\<open>HomeBlocksImpl\<close>
    (lib/homeblks_impl.hpp, homeblks_impl.cpp, volume_mgr.cpp): creation, removal and recovery of volumes, garbage collection, fault containment, restricted mode, the entry points of an I/O, start-up
    and shutdown. Volume objects live in a store and are shared by handle. \<open>Manager_Callbacks\<close>: the listener and application objects given to the storage layer, factories, the guard of an I/O,
    the helpers of lib/coro_helpers.hpp and the text forms of the public interface.
  \<^item> \<open>Manager_Inv\<close>, \<open>Manager_Keep\<close>, \<open>Manager_Steps\<close>, \<open>Manager_Grow\<close>: the invariant of the manager in memory, kept by every operation. \<open>Manager_Disk\<close>, \<open>Manager_Persist\<close>: the invariant of what is on the
    devices, kept likewise. \<open>Manager_Restart\<close>, \<open>Manager_Rebuild\<close>, \<open>Manager_Return\<close>: the callbacks of a start, the loops over them, and the state they end in. \<open>Manager_Reach\<close>: the state machine over any
    number of runs of the process. \<open>Manager_Correct\<close>, \<open>Manager_Recovery\<close>, \<open>Manager_IO\<close>, \<open>Manager_Life\<close>: the properties.

  \<^bold>\<open>Interfaces.\<close> What a component relies on in another is a locale, and each is interpreted on the definitions of the model.
  \<^item> \<open>chunk_owner\<close>: the chunk selector as the manager sees it; \<open>sel\<close>, on the methods of the selector.
  \<^item> \<open>craft_journal_backend\<close>: the journal of a replica device, on which the state machine of \<open>Craft_Steps\<close> rests; \<open>hs\<close>, on the backend over a log store.
  \<^item> \<open>volume_index\<close>, and \<open>volume_index_low\<close> with what the 32-bit addresses of the paths allow: an index as the volume sees it; \<open>fixed_index\<close>, \<open>prefix_index\<close>, \<open>fixed_low\<close>, \<open>prefix_low\<close>, on both builds.
    The read and write paths are proved once against it.
  \<^item> \<open>inert_listener\<close>: a listener whose callbacks change nothing; \<open>raft\<close> and \<open>hbl\<close>, on the two listeners of the program.

  \<^bold>\<open>State machines.\<close> \<^const>\<open>sel_step\<close>: methods of a selector, tasks of the worker, changes of the counts of free blocks. \<^const>\<open>craft_step\<close>: writes in flight, truncations, verdicts, changes of the term,
  fetches. \<^const>\<open>vol_step\<close>: the stages of the writes in flight on a volume, refused and failed ones included; the label of a step is the request whose index update it is, and \<^const>\<open>vol_run\<close> collects the labels in order.
  \<^const>\<open>mgr_step\<close>: operations of clients, stretches of removals, garbage collection, starts and ends of I/O, growth, fault containment, the stages of a shutdown; \<^const>\<open>mgr_reachable\<close> adds the first
  start and restarts through \<^const>\<open>init_homestore\<close>, after a shutdown or a crash between two steps. Invariants are proved by induction over these relations. What \<^const>\<open>sel_step\<close> leaves out: a recovery that does not find its
  chunks (\<open>recover_unknown_leaves_null\<close>) and chunks of size 0, by which the code divides. What \<^const>\<open>mgr_step\<close> leaves out, because the properties fail behind it: a resize task that runs after the removal of its volume
  (\<^const>\<open>resize_admissible\<close>), a fault-containment event for a volume that is being removed (\<^const>\<open>fc_admissible\<close>) and a removal between the checks of an I/O and its guard; each has a statement of its own that shows the
  damage. A creation is one step, although the code looks the id up and enters the volume under two holds of the lock (\<open>create_same_id_twice\<close>).

  \<^bold>\<open>What is shown.\<close>
  \<^item> Chunks: none is shared, in any order of operations, and none is lost but to a resize task overtaken by the release of its volume; allocation, growth and selection do what a volume needs; the selection
    returns, at once or after the worker has run, while no other thread draws the cursor in the round; the state in which the selector never grows a volume again.
  \<^item> CRAFT: every sequence number up to the last one is durable, empty or known to be missing; an acknowledged write is durable, with its data, and stays what it was when it is sent again; what each error leaves behind, in every interleaving; truncation; which slots a fetch answers and
    with what; no overflow; the format of a slot.
  \<^item> Index: a range write is a pointwise update, reports what it replaced and is what a read returns; a failed write is undone, but for addresses whose undo the tree refuses; the packings lose nothing; the one address at which the undo never ends.
  \<^item> Volume: a write stores its buffer and changes nothing else, a read returns the image of the volume or an error, in both builds; the replay of the journal of any run of writes restores mapping and contents; the coalescing of
    a read is lossless; what a read above the 32-bit range does.
  \<^item> Concurrent requests, proved for every index that keeps the contract and so for both builds: however the stages are interleaved the volume holds what the requests store one after the other in the order of their index updates, and no block is overwritten, freed or reused while
    somebody needs it; a read that is overtaken by writes elsewhere returns what the volume held at its lookup; the journal restores writes that do not overlap, at every moment of a run, and does not restore overlapping ones that
    entered it in another order. The metrics change nothing and agree with the requests.
  \<^item> Manager: volumes, ordinals, superblocks and chunks agree in every reachable state and so does what is on the devices; no I/O on a volume that is being torn down; removals and shutdowns complete, and
    a shutdown exactly when the instance comes to rest; a restart gives every volume back; data that was acknowledged is read back, in the same run and after a restart with lost updates of the index; and the cases in which a start faults,
    a removed volume is put back into service or a superblock gets the chunks of a removed volume. In a read, a failed lookup of the index reports success, and the theorems on data say so.

  \<^bold>\<open>Loops.\<close> There is no fuel. Loops with a bound in the code are structural or have a measure. The three that may not end are partial functions into an option: \<^const>\<open>for_u64\<close>, a loop with an
  inclusive 64-bit bound (it ends when the bound is not the largest number, \<open>for_u64_eq\<close>), \<^const>\<open>select_loop\<close>, which waits for a resize (\<open>select_chunk_finds\<close>, \<open>select_chunk_grows\<close>), and \<^const>\<open>shutdown_wait\<close>, the
  timer of a shutdown (\<open>shutdown_returns_iff_quiet\<close>). That they return is part of these theorems.

  \<^bold>\<open>Parameters.\<close> HomeStore and the libraries are not part of the repository: their operations are arguments, and what the code relies on is a named law.
  \<^item> \<^const>\<open>btree_ok\<close>, \<^const>\<open>prefix_btree_ok\<close>: the B-tree; \<^const>\<open>to_integer_ok\<close>, \<^const>\<open>api_ok\<close>, \<^const>\<open>blk_codec_ok\<close>: block addresses and their bytes; \<^const>\<open>dev_ok\<close>: the replication device.
  \<^item> \<^const>\<open>reserver_ok\<close>: the reserver of ordinals; \<^const>\<open>sb_api_ok\<close>: a fresh or resized superblock buffer; \<^const>\<open>storage_ok\<close>: the log store and data service of the journal.
  \<^item> \<^const>\<open>on_disk\<close>, \<^const>\<open>new_devices\<close>, \<^const>\<open>same_devices\<close>: what the storage layer finds at a start is what was left there. The order in which it calls back is free.
  Checksums are an arbitrary function. Every law is satisfied by a concrete instance in the examples.

  \<^bold>\<open>Faults.\<close> An operation returns a value of type \<^typ>\<open>'a checked\<close>: the left side is a failed assertion, a null pointer or an overflow that would stop or corrupt the process; errors that the code returns are values on the
  right side.

  \<^bold>\<open>Not modelled.\<close> Log statements and latencies, which only observe, and the faults that pre-release builds inject. Locks and threads: an operation of the manager is one step and a removal three;
  the checks of an I/O and the guard that counts it are taken as one step, and what a removal between the two does is a lemma of its own, \<open>removal_before_guard\<close>. How coroutines are scheduled, and the
  storage layer itself. Between concurrent requests of a volume, an update of the index by a write is one step, a run is not followed after a failed one, and the device reads of a read are one step. A crash inside a step: the one between the deletion of the index table and the deletion of the superblock is treated on its own in \<open>Manager_Recovery\<close>, the one in the middle of a creation is not.
\<close>

section \<open>Data over a restart\<close>

text \<open>A volume in service is served again after a restart, unless the instance comes up in restricted mode.\<close>

lemma restarted_precheck:
  assumes "reserver_ok rs" "sb_api_ok sa" "mgr_reachable rs sa rd' (hb, fl)" "on_disk hb dk" "bt_disk env = Some dk" "same_devices env hb"
    and "init_format (bt_type_of env) (bt_canonical env) (cfg_devices cfg) csz = Inr ps"
    and "map_of (vol_map hb) i = Some h" "objs hb h = Some v" "is_online v"
    and "\<forall>sb. hb_meta hb = Some sb \<longrightarrow> test_flag SB_FLAGS_GRACEFUL_SHUTDOWN sb \<or> \<not> test_flag SB_FLAGS_RESTRICTED sb"
    and "io_precheck rd hb0 v0 addr len = Inr (Inr b)"
  shows "\<exists>hb' h' v'. init_homestore rs cfg csz env (HomeBlocksImpl r) = Inr (None, hb') \<and> map_of (vol_map hb') i = Some h' \<and> objs hb' h' = Some v' \<and>
    io_precheck rd hb' v' addr len = Inr (Inr b)"
proof -
  obtain Bv Bi where inv: "mgr_inv rs (hb, fl)" and disk: "mgr_disk Bv Bi hb" using mgr_reachable_both [OF assms(3,1,2)] by auto
  obtain x sb where x: "init_homestore rs cfg csz env (HomeBlocksImpl r) = Inr (None, x)" "hb_meta hb = Some sb" "restarted rs Bv Bi hb dk sb x"
    using restart_runs [OF assms(1) inv disk assms(4-7)] by blast
  note X = restarted_state [OF x(3)]
  obtain w sbv tbl where w: "entry hb i h w sbv tbl" using entry_ex [OF inv map_of_SomeD [OF assms(8)]] by blast
  then have e: "entry hb i h v sbv tbl" using assms(9) by (simp add: entry_def)
  have st: "m_state v = ONLINE" using assms(10) by (simp add: is_online_def)
  have rd: "i \<in> set (repl_devs (hs hb))" using entry_facts(12) [OF inv disk e] st by simp
  obtain k v' where k: "entry x i k v' sbv tbl" "m_state v' = m_state v" "vol_rd v' = (if i \<in> set (repl_devs (hs hb)) then Some i else None)"
    using restarted_entry [OF inv disk assms(4) x(3) e] by blast
  have "\<not> is_restricted x" "\<not> shutdown_started x" using X(15,18) assms(11) x(2) by auto
  then have "io_precheck rd x v' addr len = Inr (Inr b)"
    using assms(12) io_precheck_served(6-9) [OF assms(12)] k(2,3) st rd by (simp add: io_precheck_def is_offline_def is_destroying_def)
  moreover have "map_of (vol_map x) i = Some k" using k(1) X(4) by (simp add: entry_def)
  ultimately show ?thesis using x(1) k(1) by (auto simp: entry_def)
qed

text \<open>
  C1. What a write has acknowledged survives a restart: after a write, any number of acknowledged writes of the volume elsewhere, and a stop of the instance with the volume in service, by a shutdown or by a crash, an
  instance started on the devices has the volume, and a read of the same bytes through it whose lookup in the index works returns exactly the data written, or the error of a device read; when the lookup fails, the
  read reports success and leaves the buffer of the reader as it was. The index of the volume after the restart is one that maps the same blocks or, when updates of these writes were lost, all or some, the one the
  replay of the journal leads to. The conditions: the range has fewer than \<open>2 ^ 16\<close> blocks and ends below block \<open>2 ^ 32\<close>, the instance does not come up in restricted mode, and the run of the instance is
  one of \<^const>\<open>mgr_step\<close>, without a resize task of a removed volume and without a fault-containment event for a volume being removed.
\<close>

theorem acknowledged_data_survives_restart:
  assumes "btree_ok (ft_btree t)" "dev_ok rd" "api_ok api" "blk_codec_ok codec" "mapped_ok rd d (fixed_view t)"
    and "iovs sgs = [data]" "length data = unat (sg_size sgs)" "0 < sg_size sgs" "unat (sg_size sgs) < 2 ^ 16 * unat (get_blk_size rd)"
    and "unat (sg_size sgs) < 2 ^ 32" "unat addr + unat (sg_size sgs) < 2 ^ 32 * unat (get_blk_size rd)"
    and w: "vol_async_write api codec (fixed_index_ops api) rd crc hb0 vol addr sgs (t, d) = Inr (Inr n, vol1, t1, d1)"
    and ws: "acked_writes api codec (fixed_index_ops api) rd crc (vi_id (vol_info vol)) (of_nat (vi_ordinal (vol_info vol))) reqs (t1, d1) = Some (t2, d2)"
      "\<forall>req\<in>set reqs. read_req_ok (get_blk_size rd) req" "\<forall>x. in_req (io_req_of addr sgs (get_blk_size rd)) x \<longrightarrow> \<not> in_reqs reqs x"
    and m: "reserver_ok rs" "sb_api_ok sa" "mgr_reachable rs sa rd (hb, fl)" "map_of (vol_map hb) (vi_id (vol_info vol)) = Some h" "objs hb h = Some v" "is_online v"
    and dk: "on_disk hb dk" "bt_disk env = Some dk" "same_devices env hb" "init_format (bt_type_of env) (bt_canonical env) (cfg_devices cfg) csz = Inr ps"
    and sb: "\<forall>sb. hb_meta hb = Some sb \<longrightarrow> test_flag SB_FLAGS_GRACEFUL_SHUTDOWN sb \<or> \<not> test_flag SB_FLAGS_RESTRICTED sb"
    and buf: "iovs rsgs = [buf]" "length buf = length data" "sg_size rsgs = sg_size sgs"
    and ix: "index_restored api codec rd (io_req_of addr sgs (get_blk_size rd) # reqs) (t, d) (t2, d2) (tr, dr)"
      "fixed_read_from_index (addr div ucast (get_blk_size rd)) (end_lba (io_req_of addr rsgs (get_blk_size rd))) tr = (q, t3)"
  shows "\<exists>hb' h' v' res mem d3. init_homestore rs cfg csz env (HomeBlocksImpl r) = Inr (None, hb') \<and>
    map_of (vol_map hb') (vi_id (vol_info vol)) = Some h' \<and> objs hb' h' = Some v' \<and>
    vol_async_read (fixed_index_ops api) rd crc fc hb' v' addr rsgs (tr, dr) = Inr (res, mem, v', t3, d3) \<and> read_answer rd q (sg_size sgs) data buf res mem"
proof -
  note W = vol_async_write_acked [OF assms(6) w]
  have "io_precheck rd hb0 vol addr (sg_size rsgs) = Inr (Inr (get_blk_size rd))" using W(1) buf(3) by simp
  then obtain hb' h' v' where R: "init_homestore rs cfg csz env (HomeBlocksImpl r) = Inr (None, hb')" "map_of (vol_map hb') (vi_id (vol_info vol)) = Some h'" "objs hb' h' = Some v'"
    "io_precheck rd hb' v' addr (sg_size rsgs) = Inr (Inr (get_blk_size rd))"
    using restarted_precheck [OF m(1-3) dk m(4-6) sb, of rd hb0 vol addr "sg_size rsgs" "get_blk_size rd" r] by blast
  have run: "acked_writes api codec (fixed_index_ops api) rd crc (vi_id (vol_info vol)) (of_nat (vi_ordinal (vol_info vol))) (io_req_of addr sgs (get_blk_size rd) # reqs) (t, d) = Some (t2, d2)"
    using W(4) ws(1) by simp
  have oks: "\<forall>req\<in>set (io_req_of addr sgs (get_blk_size rd) # reqs). read_req_ok (get_blk_size rd) req"
    using io_req_of_ok [OF _ _ assms(6-11)] io_precheck_served(7,9) [OF W(1)] ws(2) by simp
  note I = index_restored_facts [OF assms(1-5) oks run ix(1)]
  obtain res mem d3 where "vol_async_read (fixed_index_ops api) rd crc fc hb' v' addr rsgs (tr, dr) = Inr (res, mem, v', t3, d3)"
    "read_answer rd q (sg_size sgs) data buf res mem"
    using io_read_back [OF assms(1-12) ws buf _ _ _ ix(2) R(4), where fc = fc] I by blast
  then show ?thesis using R by blast
qed

text \<open>The example: two writes, a crash that loses both updates of the index, and the replay of their entries.\<close>

lemma ex_lost_and_replayed:
  "\<exists>t1 d1 t2 d2 tr dr. volume_write ex_api ex_codec (fixed_index_ops ex_api) mem_repl_dev ex_crc 7 0 ex_wreq (ex_empty, ex_dev) = Inr (Inr (), t1, d1) \<and>
     acked_writes ex_api ex_codec (fixed_index_ops ex_api) mem_repl_dev ex_crc 7 0 [ex_wreq2 20] (t1, d1) = Some (t2, d2) \<and>
     index_restored ex_api ex_codec mem_repl_dev [ex_wreq, ex_wreq2 20] (ex_empty, ex_dev) (t2, d2) (tr, dr) \<and> ft_btree tr = map_btree (\<lambda>_. False)"
proof -
  obtain t2 d2 where run: "acked_writes ex_api ex_codec (fixed_index_ops ex_api) mem_repl_dev ex_crc 7 0 [ex_wreq, ex_wreq2 20] (ex_empty, ex_dev) = Some (t2, d2)"
    using ex_writes [of 20 7] by auto
  obtain t1 d1 where w: "volume_write ex_api ex_codec (fixed_index_ops ex_api) mem_repl_dev ex_crc 7 0 ex_wreq (ex_empty, ex_dev) = Inr (Inr (), t1, d1)"
    "acked_writes ex_api ex_codec (fixed_index_ops ex_api) mem_repl_dev ex_crc 7 0 [ex_wreq2 20] (t1, d1) = Some (t2, d2)"
    by (rule acked_writes_Cons [OF run]) (metis surj_pair)
  have ok: "\<forall>req\<in>set [ex_wreq, ex_wreq2 20]. read_req_ok (get_blk_size mem_repl_dev) req" using ex_wreq_ok ex_wreq2_ok by simp
  have put: "\<forall>k v s. fst (fst (bt_put (map_btree (\<lambda>_. False)) k v s))" by (simp add: map_btree_def)
  have inv: "fixed_invar ex_empty" using ex_empty_ok by (simp add: fixed_invar_def)
  from fixed_replay [OF ex_empty_ok md_dev_ok ex_api_ok ex_codec_ok ex_mapped ok run] obtain es where es: "journal_log mem_repl_dev d2 = journal_log mem_repl_dev ex_dev @ es"
    and rep: "\<exists>tr dr. replay_log ex_api ex_codec (fixed_index_ops ex_api) mem_repl_dev es 0 (Some ex_empty, d2) = Inr (Some tr, dr) \<and> ft_btree tr = map_btree (\<lambda>_. False)"
    using fixed_ops_accept [OF put, of ex_api] inv by (elim exE conjE) (rule that, assumption, simp add: ex_empty_def)
  from rep obtain tr dr where tr: "replay_log ex_api ex_codec (fixed_index_ops ex_api) mem_repl_dev es 0 (Some ex_empty, d2) = Inr (Some tr, dr)" "ft_btree tr = map_btree (\<lambda>_. False)" by blast
  have "index_restored ex_api ex_codec mem_repl_dev [ex_wreq, ex_wreq2 20] (ex_empty, ex_dev) (t2, d2) (tr, dr)"
    unfolding index_restored_def fst_conv snd_conv using es tr(1) ex_empty_ok by blast
  then show ?thesis using w tr(2) by blast
qed

theorem acknowledged_data_survives_restart_witness:
  "\<exists>v t1 d1 t2 d2 tr dr hb' h' v' t3 d3. objs ex_hb 0 = Some v \<and>
     vol_async_write ex_api ex_codec (fixed_index_ops ex_api) mem_repl_dev ex_crc ex_hb v 10 ex_sgs (ex_empty, ex_dev) = Inr (Inr 6, v, t1, d1) \<and>
     acked_writes ex_api ex_codec (fixed_index_ops ex_api) mem_repl_dev ex_crc 7 0 [ex_wreq2 20] (t1, d1) = Some (t2, d2) \<and>
     index_restored ex_api ex_codec mem_repl_dev [ex_wreq, ex_wreq2 20] (ex_empty, ex_dev) (t2, d2) (tr, dr) \<and>
     init_homestore ex_reserver ex_cfg (1, 1) (ex_env (Some ex_disk)) (HomeBlocksImpl []) = Inr (None, hb') \<and> map_of (vol_map hb') 7 = Some h' \<and> objs hb' h' = Some v' \<and>
     vol_async_read (fixed_index_ops ex_api) mem_repl_dev ex_crc False hb' v' 10 ex_rsgs (tr, dr) = Inr (Inr 6, [[10, 11, 12, 13, 14, 15]], v', t3, d3)"
proof -
  obtain v where v: "objs ex_hb 0 = Some v" "vi_id (vol_info v) = 7" "vi_ordinal (vol_info v) = 0" "is_online v" "vol_rd v = Some 7"
    by (simp add: ex_hb_def ex_mgr_defs demo_defs sel_defs is_online_def)
  obtain t1 d1 t2 d2 tr dr where w: "volume_write ex_api ex_codec (fixed_index_ops ex_api) mem_repl_dev ex_crc 7 0 ex_wreq (ex_empty, ex_dev) = Inr (Inr (), t1, d1)"
    and ws: "acked_writes ex_api ex_codec (fixed_index_ops ex_api) mem_repl_dev ex_crc 7 0 [ex_wreq2 20] (t1, d1) = Some (t2, d2)"
    and ix: "index_restored ex_api ex_codec mem_repl_dev [ex_wreq, ex_wreq2 20] (ex_empty, ex_dev) (t2, d2) (tr, dr)" and bt: "ft_btree tr = map_btree (\<lambda>_. False)"
    using ex_lost_and_replayed by blast
  have wsv: "acked_writes ex_api ex_codec (fixed_index_ops ex_api) mem_repl_dev ex_crc (vi_id (vol_info v)) (of_nat (vi_ordinal (vol_info v))) [ex_wreq2 20] (t1, d1) = Some (t2, d2)"
    using ws by (simp add: v(2,3) del: acked_writes.simps)
  have req: "io_req_of 10 ex_sgs (get_blk_size mem_repl_dev) = ex_wreq" by (simp add: io_req_of_def ex_sgs_def ex_wreq_def)
  have pc: "io_precheck mem_repl_dev ex_hb v 10 6 = Inr (Inr 2)" using v(4,5) ex_hb_facts(2,3) by (simp add: io_precheck_def is_online_def is_offline_def is_destroying_def)
  have aw: "vol_async_write ex_api ex_codec (fixed_index_ops ex_api) mem_repl_dev ex_crc ex_hb v 10 ex_sgs (ex_empty, ex_dev) = Inr (Inr 6, v, t1, d1)"
    using pc w req v(2,3) by (simp add: vol_async_write_def ex_sgs_def)
  let ?e = "end_lba (io_req_of 10 ex_rsgs (get_blk_size mem_repl_dev))"
  from bt obtain kvs t3 where q: "fixed_read_from_index (10 div ucast (get_blk_size mem_repl_dev)) ?e tr = (Inr kvs, t3)"
    by (simp add: fixed_read_from_index_def map_btree_def)
  have no_err: "fst (async_read mem_repl_dev blk sz d0) \<noteq> Inl e" for blk sz d0 e by (simp add: md_async_read_def)
  have s: "iovs ex_sgs = [[10, 11, 12, 13, 14, 15]]" "sg_size ex_sgs = 6" "iovs ex_rsgs = [[9, 9, 9, 9, 9, 9]]" "sg_size ex_rsgs = sg_size ex_sgs"
    by (simp_all add: ex_sgs_def ex_rsgs_def)
  have d: "bt_disk (ex_env (Some ex_disk)) = Some ex_disk" by (simp add: ex_env_def)
  obtain ps where f: "init_format (bt_type_of (ex_env (Some ex_disk))) (bt_canonical (ex_env (Some ex_disk))) (cfg_devices ex_cfg) (1, 1) = Inr ps"
    by (simp add: ex_env_def ex_cfg_def init_format_def get_device_type_def)
  have m: "map_of (vol_map ex_hb) (vi_id (vol_info v)) = Some 0" by (simp add: ex_hb_facts v(2))
  have fl: "\<forall>sb. hb_meta ex_hb = Some sb \<longrightarrow> test_flag SB_FLAGS_GRACEFUL_SHUTDOWN sb \<or> \<not> test_flag SB_FLAGS_RESTRICTED sb"
    by (simp add: ex_hb_def ex_mgr_defs demo_defs sel_defs test_flag_def)
  have n: "length [10, 11, 12, 13, 14, 15 :: u8] = unat (sg_size ex_sgs)" "0 < sg_size ex_sgs" "unat (sg_size ex_sgs) < 2 ^ 16 * unat (get_blk_size mem_repl_dev)"
    "unat (sg_size ex_sgs) < 2 ^ 32" "unat (10 :: u64) + unat (sg_size ex_sgs) < 2 ^ 32 * unat (get_blk_size mem_repl_dev)" "length [9, 9, 9, 9, 9, 9 :: u8] = length [10, 11, 12, 13, 14, 15 :: u8]"
    by (simp_all add: s(2))
  have ok: "\<forall>req\<in>set [ex_wreq2 20]. read_req_ok (get_blk_size mem_repl_dev) req" using ex_wreq2_ok by simp
  have dj: "\<forall>x. in_req (io_req_of 10 ex_sgs (get_blk_size mem_repl_dev)) x \<longrightarrow> \<not> in_reqs [ex_wreq2 20] x" unfolding req by (simp add: in_req_def ex_wreq_def ex_wreq2_def)
  from acknowledged_data_survives_restart [OF ex_empty_ok md_dev_ok ex_api_ok ex_codec_ok ex_mapped s(1) n(1-5) aw wsv ok dj ex_reserver_ok ex_sb_api_ok ex_hb_reachable m v(1,4)
      ex_on_disk d ex_same_devices f fl s(3) n(6) s(4) ix [folded req] q, of "[]" False]
  obtain hb' h' v' d3 where X: "init_homestore ex_reserver ex_cfg (1, 1) (ex_env (Some ex_disk)) (HomeBlocksImpl []) = Inr (None, hb')" "map_of (vol_map hb') 7 = Some h'" "objs hb' h' = Some v'"
    "vol_async_read (fixed_index_ops ex_api) mem_repl_dev ex_crc False hb' v' 10 ex_rsgs (tr, dr) = Inr (Inr 6, [[10, 11, 12, 13, 14, 15]], v', t3, d3)"
    using no_err by (auto simp: v(2) s(2) read_answer_def)
  show ?thesis using v(1) aw ws ix X by blast
qed

end
